(* ===== verification/Fadia_Prelude.thy ===== *)
theory Fadia_Prelude
  imports Complex_Main "HOL-Library.Word" "HOL-Library.Multiset" "HOL-Library.Sublist"
begin

text \<open>
  Shared vocabulary of the development.

  \<^item> Faults and the result type: a C++ expression with undefined behaviour (a null
    pointer that is followed, \<open>back()\<close> of an empty vector, an integer division by
    zero), a failing \<open>check_and_cast\<close> and a thrown \<open>cRuntimeError\<close> are values
    \<open>Inl f\<close> of \<open>fault + 'a\<close>; \<open>rbind\<close> sequences computations and \<open>ok P r\<close>
    says that \<open>r\<close> returns, without a fault, a value that satisfies \<open>P\<close>.
  \<^item> Ordered maps: \<open>std::map\<close> as an association list in strictly ascending key order,
    with the interface \<open>std_map\<close> and its interpretation.
  \<^item> Runs: the maximal suffix of a list without a separator, and the cut of a list into
    the runs between separators, which the attestation reports are made of.
  \<^item> The collections of simplification rules shared by the component theories.
\<close>

named_theorems fadia_defs \<open>definitions of operations, unfolded together in a component's proofs\<close>
named_theorems fadia_frame \<open>what an operation leaves unchanged\<close>

section \<open>Results\<close>

datatype fault =
    NullPointer
  | EmptyVector
  | DivisionByZero
  | BadCast
  | OutOfFuel
  | OutOfRange
  | RuntimeError string

type_synonym 'a result = "fault + 'a"

definition rbind :: "'a result \<Rightarrow> ('a \<Rightarrow> 'b result) \<Rightarrow> 'b result" where
  "rbind r f = (case r of Inl e \<Rightarrow> Inl e | Inr a \<Rightarrow> f a)"

definition ok :: "('a \<Rightarrow> bool) \<Rightarrow> 'a result \<Rightarrow> bool" where
  "ok P r = (case r of Inl e \<Rightarrow> False | Inr a \<Rightarrow> P a)"

lemma rbind_Inl [simp]: "rbind (Inl e) f = Inl e"
  and rbind_Inr [simp]: "rbind (Inr a) f = f a"
  by (simp_all add: rbind_def)

lemma ok_Inl [simp]: "ok P (Inl e) = False"
  and ok_Inr [simp]: "ok P (Inr a) = P a"
  by (simp_all add: ok_def)

lemma rbind_assoc: "rbind (rbind r f) g = rbind r (\<lambda>a. rbind (f a) g)"
  by (cases r) simp_all

lemma rbind_eq_Inr: "rbind r f = Inr b \<longleftrightarrow> (\<exists>a. r = Inr a \<and> f a = Inr b)"
  by (cases r) simp_all

lemma ok_rbind [simp]: "ok P (rbind r f) = ok (\<lambda>a. ok P (f a)) r"
  by (cases r) simp_all

lemma ok_if [simp]: "ok P (if b then r else q) = (if b then ok P r else ok P q)"
  by simp

lemma ok_mono: "ok P r \<Longrightarrow> (\<And>a. P a \<Longrightarrow> Q a) \<Longrightarrow> ok Q r"
  by (cases r) simp_all

lemma ok_eq: "ok P r \<longleftrightarrow> (\<exists>a. r = Inr a \<and> P a)"
  by (cases r) auto

lemma okE: "ok P r \<Longrightarrow> (\<And>a. r = Inr a \<Longrightarrow> P a \<Longrightarrow> Q) \<Longrightarrow> Q"
  by (auto simp: ok_eq)

text \<open>
  \<open>yields P r\<close>: if \<open>r\<close> returns, its value satisfies \<open>P\<close>. It serves for what a
  computation leaves unchanged; that computations do return is stated with \<open>ok\<close>.
\<close>

definition yields :: "('a \<Rightarrow> bool) \<Rightarrow> 'a result \<Rightarrow> bool" where
  "yields P r = (case r of Inl e \<Rightarrow> True | Inr a \<Rightarrow> P a)"

lemma yields_Inl [simp]: "yields P (Inl e)"
  and yields_Inr [simp]: "yields P (Inr a) = P a"
  by (simp_all add: yields_def)

lemma yields_rbind [simp]: "yields P (rbind r f) = yields (\<lambda>a. yields P (f a)) r"
  by (cases r) simp_all

lemma yields_if: "yields P (if b then r else q) = (if b then yields P r else yields P q)"
  by simp

lemma yields_mono: "yields P r \<Longrightarrow> (\<And>a. P a \<Longrightarrow> Q a) \<Longrightarrow> yields Q r"
  by (cases r) simp_all

lemma yieldsD: "yields P r \<Longrightarrow> r = Inr a \<Longrightarrow> P a"
  by simp

section \<open>Ordered maps\<close>

text \<open>
  The interface of \<open>std::map\<close> that the devices use: \<open>m[k] = v\<close>, \<open>erase\<close>,
  \<open>find\<close> and \<open>size\<close>, with the laws the callers rely on.
\<close>

locale std_map =
  fixes put :: "'k \<Rightarrow> 'v \<Rightarrow> 'm \<Rightarrow> 'm"
    and erase :: "'k \<Rightarrow> 'm \<Rightarrow> 'm"
    and find :: "'m \<Rightarrow> 'k \<Rightarrow> 'v option"
    and size :: "'m \<Rightarrow> nat"
    and wf :: "'m \<Rightarrow> bool"
  assumes find_put: "wf m \<Longrightarrow> find (put k v m) = (find m)(k \<mapsto> v)"
    and find_erase: "wf m \<Longrightarrow> find (erase k m) = (find m)(k := None)"
    and wf_put: "wf m \<Longrightarrow> wf (put k v m)"
    and wf_erase: "wf m \<Longrightarrow> wf (erase k m)"
    and finite_find: "wf m \<Longrightarrow> finite (dom (find m))"
    and size_card: "wf m \<Longrightarrow> size m = card (dom (find m))"
begin

lemma size_put_new: "wf m \<Longrightarrow> find m k = None \<Longrightarrow> size (put k v m) = Suc (size m)"
  by (simp add: size_card wf_put find_put finite_find domIff)

lemma size_put_old: "wf m \<Longrightarrow> find m k \<noteq> None \<Longrightarrow> size (put k v m) = size m"
  by (simp add: size_card wf_put find_put insert_absorb domIff)

lemma size_erase_old:
  assumes "wf m" and "find m k \<noteq> None"
  shows "Suc (size (erase k m)) = size m"
proof -
  from assms(2) have "k \<in> dom (find m)" by (simp add: domIff)
  with assms(1) have "Suc (card (dom (find m) - {k})) = card (dom (find m))"
    by (simp only: card_Suc_Diff1 finite_find)
  with assms(1) show ?thesis by (simp add: size_card wf_erase find_erase)
qed

lemma size_erase_new: "wf m \<Longrightarrow> find m k = None \<Longrightarrow> size (erase k m) = size m"
  by (simp add: size_card wf_erase find_erase domIff)

lemma size_pos: "wf m \<Longrightarrow> find m k \<noteq> None \<Longrightarrow> 0 < size m"
  using size_erase_old by force

lemma size_one_only:
  assumes "wf m" and "size m = 1" and "find m k \<noteq> None" and "find m j \<noteq> None"
  shows "j = k"
proof -
  from assms(1,2) have "card (dom (find m)) = 1" by (simp add: size_card)
  then obtain a where "dom (find m) = {a}" by (auto simp: card_Suc_eq card_1_singleton_iff)
  moreover from assms(3,4) have "k \<in> dom (find m)" "j \<in> dom (find m)" by (simp_all add: domIff)
  ultimately show ?thesis by simp
qed

end

type_synonym ('k, 'v) omap = "('k \<times> 'v) list"

fun omap_put :: "'k::linorder \<Rightarrow> 'v \<Rightarrow> ('k, 'v) omap \<Rightarrow> ('k, 'v) omap" where
  "omap_put k v [] = [(k, v)]"
| "omap_put k v ((j, w) # m) =
     (if k < j then (k, v) # (j, w) # m
      else if k = j then (k, v) # m
      else (j, w) # omap_put k v m)"

fun omap_erase :: "'k \<Rightarrow> ('k, 'v) omap \<Rightarrow> ('k, 'v) omap" where
  "omap_erase k [] = []"
| "omap_erase k ((j, w) # m) = (if k = j then m else (j, w) # omap_erase k m)"

text \<open>\<open>std::map::insert\<close> keeps the value of a key that is already there.\<close>

definition omap_insert :: "'k::linorder \<Rightarrow> 'v \<Rightarrow> ('k, 'v) omap \<Rightarrow> ('k, 'v) omap" where
  "omap_insert k v m = (case map_of m k of None \<Rightarrow> omap_put k v m | Some w \<Rightarrow> m)"

abbreviation omap_wf :: "('k::linorder, 'v) omap \<Rightarrow> bool" where
  "omap_wf m \<equiv> sorted_wrt (<) (map fst m)"

lemma map_of_omap_put [simp]: "map_of (omap_put k v m) = (map_of m)(k \<mapsto> v)"
  by (induction k v m rule: omap_put.induct) (auto simp: fun_eq_iff)

lemma set_fst_omap_put [simp]: "fst ` set (omap_put k v m) = insert k (fst ` set m)"
  by (induction k v m rule: omap_put.induct) auto

lemma omap_wf_put: "omap_wf m \<Longrightarrow> omap_wf (omap_put k v m)"
proof (induction k v m rule: omap_put.induct)
  case (2 k v j w m)
  then show ?case by (auto simp flip: image_set)
qed simp

lemma set_fst_omap_erase: "fst ` set (omap_erase k m) \<subseteq> fst ` set m"
  by (induction k m rule: omap_erase.induct) auto

lemma omap_wf_erase: "omap_wf m \<Longrightarrow> omap_wf (omap_erase k m)"
proof (induction k m rule: omap_erase.induct)
  case (2 k j w m)
  then show ?case using set_fst_omap_erase [of k m] by (fastforce simp flip: image_set)
qed simp

lemma omap_wf_distinct: "omap_wf m \<Longrightarrow> distinct (map fst m)"
  by (simp add: strict_sorted_iff)

lemma map_of_omap_erase: "omap_wf m \<Longrightarrow> map_of (omap_erase k m) = (map_of m)(k := None)"
proof (induction k m rule: omap_erase.induct)
  case (2 k j w m)
  have "k = j \<Longrightarrow> map_of m k = None"
    using "2.prems" by (auto simp: map_of_eq_None_iff simp flip: image_set)
  with 2 show ?case by (auto simp: fun_eq_iff)
qed simp

lemma length_omap_card: "omap_wf m \<Longrightarrow> length m = card (dom (map_of m))"
  using omap_wf_distinct [of m] by (metis distinct_card dom_map_of_conv_image_fst length_map list.set_map)

interpretation omap: std_map omap_put omap_erase map_of length omap_wf
  by unfold_locales
     (simp_all add: omap_wf_put omap_wf_erase map_of_omap_erase finite_dom_map_of length_omap_card)

lemma omap_wf_insert: "omap_wf m \<Longrightarrow> omap_wf (omap_insert k v m)"
  by (simp add: omap_insert_def omap_wf_put split: option.split)

lemma map_of_omap_insert: "map_of (omap_insert k v m) = (\<lambda>j. case map_of m j of
    None \<Rightarrow> if j = k then Some v else None | Some w \<Rightarrow> Some w)"
  by (auto simp: omap_insert_def fun_eq_iff split: option.split)

section \<open>Runs between separators\<close>

text \<open>The suffix of \<open>xs\<close> after its last \<open>z\<close>, and its length as a loop finds it.\<close>

definition lastrun :: "'a \<Rightarrow> 'a list \<Rightarrow> 'a list" where
  "lastrun z xs = rev (takeWhile (\<lambda>x. x \<noteq> z) (rev xs))"

fun runs :: "'a \<Rightarrow> 'a list \<Rightarrow> 'a list list" where
  "runs z [] = [[]]"
| "runs z (x # xs) =
     (if x = z then [] # runs z xs else (x # hd (runs z xs)) # tl (runs z xs))"

lemma runs_nonempty [simp]: "runs z xs \<noteq> []"
  by (cases xs) auto

lemma lastrun_Nil [simp]: "lastrun z [] = []"
  by (simp add: lastrun_def)

lemma lastrun_snoc: "lastrun z (xs @ [x]) = (if x = z then [] else lastrun z xs @ [x])"
  by (simp add: lastrun_def)

lemma lastrun_snoc_sep [simp]: "lastrun z (xs @ [z]) = []"
  by (simp add: lastrun_snoc)

lemma lastrun_append: "lastrun z (xs @ ys) = (if z \<in> set ys then lastrun z ys else lastrun z xs @ ys)"
  by (auto simp: lastrun_def takeWhile_append takeWhile_eq_all_conv)

lemma lastrun_no_sep: "z \<notin> set (lastrun z xs)"
  using set_takeWhileD by (fastforce simp: lastrun_def)

lemma lastrun_id: "z \<notin> set xs \<Longrightarrow> lastrun z xs = xs"
  by (metis lastrun_append lastrun_Nil append_Nil)

lemma lastrun_after_sep: "z \<notin> set xs \<Longrightarrow> lastrun z (z # xs) = xs"
  using lastrun_append [of z "[z]" xs] lastrun_snoc_sep [of z "[]"] by simp

lemma lastrun_split: "take (length xs - length (lastrun z xs)) xs @ lastrun z xs = xs"
proof -
  have "rev xs = takeWhile (\<lambda>x. x \<noteq> z) (rev xs) @ dropWhile (\<lambda>x. x \<noteq> z) (rev xs)" by simp
  then have "xs = rev (dropWhile (\<lambda>x. x \<noteq> z) (rev xs)) @ lastrun z xs"
    by (metis lastrun_def rev_append rev_rev_ident)
  then show ?thesis by (metis append_eq_conv_conj length_append add_diff_cancel_right')
qed

lemma length_lastrun_le: "length (lastrun z xs) \<le> length xs"
  by (metis lastrun_def length_rev length_takeWhile_le)

lemma lastrun_take: "lastrun z (take (length xs - length (lastrun z xs)) xs) = []"
proof (induction xs rule: rev_induct)
  case (snoc x xs)
  then show ?case
    using length_lastrun_le [of z xs] by (simp add: lastrun_snoc)
qed simp

lemma runs_append:
  "runs z (xs @ ys) = butlast (runs z xs) @ (last (runs z xs) @ hd (runs z ys)) # tl (runs z ys)"
proof (induction xs)
  case Nil
  then show ?case by (simp)
next
  case (Cons x xs)
  obtain a as where "runs z xs = a # as" by (cases "runs z xs") auto
  with Cons show ?case by (cases as) (auto)
qed

lemma runs_no_sep: "z \<notin> set xs \<Longrightarrow> runs z xs = [xs]"
  by (induction xs) auto

lemma last_runs: "last (runs z xs) = lastrun z xs"
proof (induction xs rule: rev_induct)
  case (snoc x xs)
  then show ?case by (auto simp: runs_append lastrun_snoc)
qed simp

lemma concat_runs: "concat (runs z xs) = filter (\<lambda>x. x \<noteq> z) xs"
proof (induction xs)
  case (Cons x xs)
  obtain a as where "runs z xs = a # as" by (cases "runs z xs") auto
  with Cons show ?case by auto
qed simp

lemma length_runs: "length (runs z xs) = Suc (count_list xs z)"
proof (induction xs)
  case (Cons x xs)
  obtain a as where "runs z xs = a # as" by (cases "runs z xs") auto
  with Cons show ?case by auto
qed simp

end
