(* ===== verification/Fadia_Constants.thy ===== *)
theory Fadia_Constants
  imports Fadia_Prelude
begin

text \<open>
  The build configuration: the types and limits of \<open>NetworkOwner.h\<close> and the macros of
  \<open>constants.h\<close>. The preprocessor symbols a build defines are the fields of
  \<open>config\<close>; the macros that depend on \<open>SCENARIO\<close> are functions of the scenario.
  Doubles are real numbers (rounding is not modelled).
\<close>

section \<open>Types and limits (NetworkOwner.h)\<close>

type_synonym mac_t = "32 word"
type_synonym cid_t = "32 word"
type_synonym uid_t = "32 word"
type_synonym keyid_t = "32 word"
type_synonym keyv_t = "32 word"
type_synonym treeid_t = "32 word"
type_synonym keyrng_t = "(keyid_t, keyv_t) omap"

definition NOID :: "32 word" where
  "NOID = 0"

definition MAXUID :: "32 word" where
  "MAXUID = 0x7FFFFFFF"

section \<open>Build configuration (constants.h)\<close>

datatype scenario = PASTA | SALADS | FADIA | PADS

record config =
  RUNTIME_TEST :: bool
  ENERGY_TEST :: bool
  WIRELESS :: bool
  REVOKE_TEST :: bool
  TREE :: bool
  SCENARIO :: scenario

text \<open>The \<open>#error\<close> directives: a configuration that compiles.\<close>

definition compiles :: "config \<Rightarrow> bool" where
  "compiles C \<longleftrightarrow>
     \<not> (RUNTIME_TEST C \<and> WIRELESS C) \<and>
     \<not> (ENERGY_TEST C \<and> \<not> WIRELESS C) \<and>
     \<not> (\<not> ENERGY_TEST C \<and> \<not> RUNTIME_TEST C)"

definition JRQ_SIZE :: "nat \<Rightarrow> nat" where
  "JRQ_SIZE rsize = 40 + rsize * 4"

definition JRP_SIZE :: nat where
  "JRP_SIZE = 48"

definition CRQ_SIZE :: "nat \<Rightarrow> nat" where
  "CRQ_SIZE rsize = 12 + rsize * 4"

definition CRP_SIZE :: nat where
  "CRP_SIZE = 48"

definition CAK_SIZE :: nat where
  "CAK_SIZE = 44"

definition URQ_SIZE :: "nat \<Rightarrow> nat \<Rightarrow> nat" where
  "URQ_SIZE rsize msize = 44 + (rsize * 4 * 2 * 0) + (32 * msize)"

definition RVK_SIZE :: "nat \<Rightarrow> nat" where
  "RVK_SIZE ksize = 32 + (ksize * 4)"

definition SLOPE :: "real \<Rightarrow> real \<Rightarrow> real \<Rightarrow> real \<Rightarrow> real" where
  "SLOPE x1 y1 x2 y2 = (y2 - y1) / (x2 - x1)"

definition INTERCEPT :: "real \<Rightarrow> real \<Rightarrow> real \<Rightarrow> real \<Rightarrow> real" where
  "INTERCEPT x1 y1 x2 y2 = (y1 * x2 - y2 * x1) / (x2 - x1)"

definition MAXCHILDREN :: nat where
  "MAXCHILDREN = 20"

definition NEIGHBOR_DISTANCE :: int where
  "NEIGHBOR_DISTANCE = 2"

definition MAX_CRASH :: nat where
  "MAX_CRASH = 5"

definition MINGSIZE :: nat where
  "MINGSIZE = 1"

text \<open>Power draw of a device in its modes, in mW.\<close>

definition TRANSMITION_CONSUMPTION :: real where
  "TRANSMITION_CONSUMPTION = 58.5"

definition RECEPTION_CONSUMPTION :: real where
  "RECEPTION_CONSUMPTION = 65.4"

definition LISTENING_CONSUMPTION :: real where
  "LISTENING_CONSUMPTION = 65.4"

definition IDLE_CONSUMPTION :: real where
  "IDLE_CONSUMPTION = 0.16"

definition CRITICAL_ENERGY :: real where
  "CRITICAL_ENERGY = 0.1"

definition FULL_ENERGY :: real where
  "FULL_ENERGY = 0.9"

definition CHILDREN :: "real \<Rightarrow> real" where
  "CHILDREN per =
     SLOPE CRITICAL_ENERGY 0 FULL_ENERGY (real MAXCHILDREN) * per +
     INTERCEPT CRITICAL_ENERGY 0 FULL_ENERGY (real MAXCHILDREN)"

definition DELTAG :: "real \<Rightarrow> real \<Rightarrow> real" where
  "DELTAG per deltagmax = SLOPE 0 0 1 deltagmax * per + INTERCEPT 0 0 1 deltagmax"

section \<open>Scenario dependent constants (constants.h)\<close>

fun PROCDELAY :: "scenario \<Rightarrow> real" where
  "PROCDELAY FADIA = 0.5"
| "PROCDELAY _ = 0"

definition PPDELAY :: "scenario \<Rightarrow> real" where
  "PPDELAY sc = PROCDELAY sc / 2"

fun NDELAY :: "scenario \<Rightarrow> real" where
  "NDELAY PASTA = 0.0023"
| "NDELAY PADS = 0.001"
| "NDELAY SALADS = 0.015"
| "NDELAY FADIA = 0.030725"

definition PDELAY :: "scenario \<Rightarrow> real" where
  "PDELAY sc = NDELAY sc / 4"

fun BITRATE :: "scenario \<Rightarrow> real" where
  "BITRATE PASTA = 12.51 * 1024 * 1024"
| "BITRATE PADS = 250 * 1024"
| "BITRATE SALADS = 35 * 1024"
| "BITRATE FADIA = 25.2 * 1024"

definition BYTERATE :: "scenario \<Rightarrow> real" where
  "BYTERATE sc = BITRATE sc / 8"

fun TIMEOUT_ACK :: "scenario \<Rightarrow> real" where
  "TIMEOUT_ACK PASTA = 999"
| "TIMEOUT_ACK PADS = 999"
| "TIMEOUT_ACK SALADS = 2"
| "TIMEOUT_ACK FADIA = 4"

fun TIMEOUT_RSP :: "scenario \<Rightarrow> real" where
  "TIMEOUT_RSP PASTA = 11"
| "TIMEOUT_RSP PADS = 111"
| "TIMEOUT_RSP SALADS = 6"
| "TIMEOUT_RSP FADIA = 12"

fun TIMEOUT_UP :: "scenario \<Rightarrow> real" where
  "TIMEOUT_UP PASTA = 999"
| "TIMEOUT_UP PADS = 999"
| "TIMEOUT_UP SALADS = 6"
| "TIMEOUT_UP FADIA = 12"

text \<open>
  The macros marked "should never be used" expand to \<open>1 / 0\<close>. Where the expansion stays
  an integer division it is undefined behaviour; where a cast makes it a division of
  doubles (the firmware delays) it is an infinite delay, which no simulation time can hold.
\<close>

fun HMAC_DELAY_S :: "scenario \<Rightarrow> nat \<Rightarrow> real result" where
  "HMAC_DELAY_S PASTA n = Inr (1 * 0)"
| "HMAC_DELAY_S FADIA n = Inr ((0.237098 * real n + 55.6929) * 0.001)"
| "HMAC_DELAY_S _ n = Inl DivisionByZero"

fun HMAC_DELAY_P :: "scenario \<Rightarrow> nat \<Rightarrow> real result" where
  "HMAC_DELAY_P PASTA n = Inr (1 * 0)"
| "HMAC_DELAY_P FADIA n = Inr ((0.000246304 * real n + 0.0601183) * 0.001)"
| "HMAC_DELAY_P _ n = Inl DivisionByZero"

fun HMAC_DELAY :: "scenario \<Rightarrow> nat \<Rightarrow> real result" where
  "HMAC_DELAY PASTA n = Inr ((0.000256944 * real n + 0.037888889) * 0.001)"
| "HMAC_DELAY PADS n = Inr (48 * 0.001)"
| "HMAC_DELAY SALADS n = Inr ((0.001210594 * real n + 0.191260997) * 0.001)"
| "HMAC_DELAY FADIA n = Inl DivisionByZero"

definition infinite_delay :: "real result" where
  "infinite_delay = Inl (RuntimeError ''infinite delay'')"

fun FIRMWARE_CHECK_DELAY_S :: "scenario \<Rightarrow> real result" where
  "FIRMWARE_CHECK_DELAY_S FADIA = Inr (1960 * 0.001)"
| "FIRMWARE_CHECK_DELAY_S _ = infinite_delay"

fun FIRMWARE_CHECK_DELAY_P :: "scenario \<Rightarrow> real result" where
  "FIRMWARE_CHECK_DELAY_P FADIA = Inr (8.079 * 0.001)"
| "FIRMWARE_CHECK_DELAY_P _ = infinite_delay"

fun FIRMWARE_CHECK_DELAY :: "scenario \<Rightarrow> real result" where
  "FIRMWARE_CHECK_DELAY PASTA = Inr (13.171 * 0.001)"
| "FIRMWARE_CHECK_DELAY PADS = Inr (187 * 0.001)"
| "FIRMWARE_CHECK_DELAY SALADS = Inr (40.02 * 0.001)"
| "FIRMWARE_CHECK_DELAY FADIA = infinite_delay"

section \<open>The two builds\<close>

text \<open>
  Only two families of configurations compile: the wired runtime test and the wireless
  energy test, so the three symbols carry one bit.
\<close>

lemma compiles_iff:
  "compiles C \<longleftrightarrow> WIRELESS C = ENERGY_TEST C \<and> RUNTIME_TEST C = (\<not> ENERGY_TEST C)"
  by (auto simp: compiles_def)

lemma CHILDREN_eq: "CHILDREN per = 25 * per - 2.5"
  by (simp add: CHILDREN_def SLOPE_def INTERCEPT_def CRITICAL_ENERGY_def FULL_ENERGY_def
      MAXCHILDREN_def field_simps)

lemma DELTAG_eq: "DELTAG per d = d * per"
  by (simp add: DELTAG_def SLOPE_def INTERCEPT_def)

lemma NDELAY_pos: "0 < NDELAY sc"
  by (cases sc) simp_all

lemma BYTERATE_pos: "0 < BYTERATE sc"
  by (cases sc) (simp_all add: BYTERATE_def)

end
