(* ===== verification/Fadia_Messages.thy ===== *)
theory Fadia_Messages
  imports Fadia_Constants
begin

text \<open>
  The enumerations of \<open>ADevice.h\<close>, the packets of \<open>src/messages/*.msg\<close> and the calls
  a device makes to the simulation kernel.

  A packet is a value of \<open>packet\<close>, one constructor per message class, with the fields
  its \<open>.msg\<close> file declares (the \<open>int\<close> fields carry the 32 bits of the unsigned value
  that is stored in them). A \<open>cMessage\<close> adds what the kernel's base class holds: the
  kind, the byte length, whether it arrived as a self message, and an identity for the
  message objects a device allocates once and reuses as timers.

  The kernel is not part of the repository. The code's calls to it are recorded, newest
  first, in a call log; \<open>armed\<close> reads off the log which timers were scheduled and
  neither cancelled nor delivered since.
\<close>

section \<open>Enumerations (ADevice.h)\<close>

datatype MSG =
    UNKOWN | JOIN | CHECK | ATTEST | MKTREE | REVOKE | SYNC | UPDATE
  | JNRQ | JNRP | JNAK | CMRQ | CMRP | CMAK | UPRQ | UPRQC | UPRQF | UPTO | RVKRQ
  | CMRPTO | CMAKTO | JNRPTO | JNAKTO | TXDONE | CBUSYMSG | COLLBSYMSG
  | ENTXDONE | ENRXDONE | ENMAC | PROCDONE

datatype txrx_e = TRANSMITING | DIDLE

datatype cstat_e = BUSY | CIDLE

datatype pstat_e = PBUSY | PIDLE

datatype device_t = NA | SERV | SKY | PI2

datatype status_e =
    OFFLINE | JOINING | CHECKING | READY | ATTESTING | ATTESTING_CREATING
  | CREATING | COLLECTING | FINISHED

section \<open>Packets (Join.msg, Commit.msg, Update.msg, Revoke.msg)\<close>

datatype packet =
    NoPacket
  | JoinReq (psource: uid_t) (pdest: uid_t) (pkids: "keyid_t list") (pmac: mac_t)
  | JoinResp (psource: uid_t) (pdest: uid_t) (pdepth: "32 word") (pdeltah: real) (pmac: mac_t)
  | JoinAck (psource: uid_t) (pdest: uid_t) (pmac: mac_t)
  | CommitReq (psource: uid_t) (pdepth: "32 word") (pkids: "keyid_t list") (ptree: treeid_t)
  | CommitResp (psource: uid_t) (pdest: uid_t) (pkid: keyid_t) (ptree: treeid_t) (pmac: mac_t)
  | CommitAck (psource: uid_t) (pdest: uid_t) (ptree: treeid_t) (pmac: mac_t)
  | CommitTimeOut (pdevice: uid_t) (ptree: treeid_t)
  | UpdateReq (psource: uid_t) (pdest: uid_t) (preport1: "uid_t list") (preport2: "nat list")
      (ptree: treeid_t) (pmac: mac_t) (pproof: "mac_t list")
  | RevokeReq (pdest: uid_t) (pkids: "keyid_t list") (pmac: mac_t)

section \<open>Messages and the kernel's calls\<close>

datatype msgid =
    Startmsg | Jointomsg | Mktreetimer | Attesttimer | Checkdelaymsg | Creqmsg
  | Cresptomsg | Cacktomsg | Txmsg | Cbusymsg | Collbusymsg | Entxmsg | Procendmsg
  | Uptomsg uid_t treeid_t
  | Newmsg

record cMessage =
  mkind :: MSG
  mid :: msgid
  mself :: bool
  mbytes :: nat
  mpacket :: packet

datatype signal = Txsig | Rxsig | Crashsig | Revokesig | Elapsedtimesig | Reportsizesig

text \<open>
  A call of the kernel interface: \<open>scheduleAt\<close>, \<open>cancelEvent\<close>, \<open>cancelAndDelete\<close>,
  \<open>sendDirect\<close> to a prover or a collector, \<open>send\<close> on a gate, \<open>emit\<close>, \<open>delete\<close>,
  \<open>endSimulation\<close>, an alert of \<open>logError\<close>, a line of \<open>logWarn\<close>. \<open>SetProcessing\<close> is the
  call of the collector's \<open>setProcessing\<close>. \<open>Delivered\<close> is not a call: it marks the
  delivery of a self message.
\<close>

datatype call =
    ScheduleAt real cMessage
  | CancelEvent msgid
  | CancelAndDelete msgid
  | SendProver nat real cMessage
  | SendCollector nat real cMessage
  | SendGate int cMessage
  | Emit signal real
  | DeleteMsg cMessage
  | SetProcessing
  | EndSimulation
  | LogError string
  | LogWarn string
  | Delivered msgid

fun armed :: "call list \<Rightarrow> msgid \<Rightarrow> bool" where
  "armed [] i = False"
| "armed (ScheduleAt t m # cs) i = (mid m = i \<or> armed cs i)"
| "armed (CancelEvent j # cs) i = (j \<noteq> i \<and> armed cs i)"
| "armed (CancelAndDelete j # cs) i = (j \<noteq> i \<and> armed cs i)"
| "armed (Delivered j # cs) i = (j \<noteq> i \<and> armed cs i)"
| "armed (c # cs) i = armed cs i"

text \<open>
  A log without a kernel error on timer \<open>i\<close>: the timer is never scheduled while it is
  already scheduled (\<open>scheduleAt\<close> throws then).
\<close>

fun clean_of :: "msgid \<Rightarrow> call list \<Rightarrow> bool" where
  "clean_of i [] = True"
| "clean_of i (ScheduleAt t m # cs) = ((mid m = i \<longrightarrow> \<not> armed cs i) \<and> clean_of i cs)"
| "clean_of i (c # cs) = clean_of i cs"

lemma armed_append:
  "armed (cs @ ds) i \<longleftrightarrow> armed cs i \<or>
     (armed ds i \<and> (\<forall>c \<in> set cs. c \<noteq> CancelEvent i \<and> c \<noteq> CancelAndDelete i \<and> c \<noteq> Delivered i))"
  by (induction cs i rule: armed.induct) auto

text \<open>A call that names no timer leaves every timer as it is.\<close>

definition timerless :: "call \<Rightarrow> bool" where
  "timerless c = (case c of ScheduleAt t m \<Rightarrow> mid m = Newmsg | CancelEvent j \<Rightarrow> False
     | CancelAndDelete j \<Rightarrow> False | Delivered j \<Rightarrow> False | _ \<Rightarrow> True)"

lemma armed_timerless: "timerless c \<Longrightarrow> i \<noteq> Newmsg \<Longrightarrow> armed (c # cs) i = armed cs i"
  by (cases c) (auto simp: timerless_def)

lemma clean_timerless: "timerless c \<Longrightarrow> i \<noteq> Newmsg \<Longrightarrow> clean_of i (c # cs) = clean_of i cs"
  by (cases c) (auto simp: timerless_def)

end
