(* ===== verification/Network_Owner.thy ===== *)
theory Network_Owner
  imports Fadia_Constants "HOL-Library.While_Combinator"
begin

text \<open>
  \<open>NetworkOwner.h\<close> and \<open>NetworkOwner.cpp\<close>: the key pool and the key rings drawn from it.

  The random number generator belongs to the simulation kernel. It is a parameter
  \<open>intrand\<close> with a state of any type \<open>'r\<close>; what the code relies on is the hypothesis
  \<open>intrand_range\<close> (a draw below the bound, for a bound that is not zero). Both
  do-while loops run until a map has an exact size and need not end: a run that does not
  end is \<open>None\<close>.
\<close>

type_synonym 'r intrand = "'r \<Rightarrow> nat \<Rightarrow> nat \<times> 'r"

definition intrand_range :: "'r intrand \<Rightarrow> bool" where
  "intrand_range intrand \<longleftrightarrow> (\<forall>r n. 0 < n \<longrightarrow> fst (intrand r n) < n)"

record 'r network_owner =
  no_rng :: 'r
  no_KPsize :: nat
  no_KRsize :: nat
  keyPool :: keyrng_t
  initialized :: bool

section \<open>Key pool\<close>

text \<open>One round of the loop of \<open>generateKeyPool\<close>: one draw, or two when the first is a key id.\<close>

definition poolstep :: "'r intrand \<Rightarrow> keyrng_t \<times> 'r \<Rightarrow> keyrng_t \<times> 'r" where
  "poolstep intrand = (\<lambda>(pool, r).
     let (i, r1) = intrand r (unat MAXUID); keyid = (word_of_nat i :: keyid_t) in
     if keyid \<noteq> NOID then
       let (v, r2) = intrand r1 (unat MAXUID) in (omap_put keyid (word_of_nat v) pool, r2)
     else (pool, r1))"

definition generateKeyPool :: "'r intrand \<Rightarrow> 'r network_owner \<Rightarrow> 'r network_owner option" where
  "generateKeyPool intrand s =
     (if length (keyPool s) = no_KPsize s then Some s
      else map_option (\<lambda>(pool, r). s\<lparr>keyPool := pool, no_rng := r\<rparr>)
        (while_option (\<lambda>(pool, r). length pool \<noteq> no_KPsize s) (poolstep intrand)
          (poolstep intrand (keyPool s, no_rng s))))"

text \<open>The constructors: the default one, and the one that draws the pool.\<close>

definition NetworkOwner0 :: "'r \<Rightarrow> 'r network_owner" where
  "NetworkOwner0 r = \<lparr>no_rng = r, no_KPsize = 0, no_KRsize = 0, keyPool = [], initialized = False\<rparr>"

definition NetworkOwner :: "'r intrand \<Rightarrow> 'r \<Rightarrow> nat \<Rightarrow> nat \<Rightarrow> bool \<Rightarrow> 'r network_owner option" where
  "NetworkOwner intrand r ps rs garbage =
     generateKeyPool intrand
       \<lparr>no_rng = r, no_KPsize = ps, no_KRsize = rs, keyPool = [], initialized = garbage\<rparr>"

section \<open>Key rings\<close>

definition ringstep :: "'r intrand \<Rightarrow> keyrng_t \<Rightarrow> keyrng_t \<times> 'r \<Rightarrow> keyrng_t \<times> 'r" where
  "ringstep intrand pool = (\<lambda>(ring, r).
     let (i, r1) = intrand r (length pool); (k, v) = pool ! i in (omap_insert k v ring, r1))"

text \<open>
  Drawing below 0 raises an error in the kernel, so an empty pool is a fault; otherwise
  the loop body runs at least once.
\<close>

definition getKeyRing :: "'r intrand \<Rightarrow> 'r network_owner \<Rightarrow> (keyrng_t \<times> 'r network_owner) result option" where
  "getKeyRing intrand s =
     (if keyPool s = [] then Some (Inl (RuntimeError ''intrand: zero range''))
      else map_option (\<lambda>(ring, r). Inr (ring, s\<lparr>no_rng := r\<rparr>))
        (while_option (\<lambda>(ring, r). length ring \<noteq> no_KRsize s) (ringstep intrand (keyPool s))
          (ringstep intrand (keyPool s) ([], no_rng s))))"

section \<open>Loops that grow a map until it has a size\<close>

text \<open>
  Both loops add at most one entry per round, so a map that ever has at least the wanted
  number of entries had exactly that number at some earlier round: the loop ends.
\<close>

locale growing_loop =
  fixes step :: "'s \<Rightarrow> 's" and count :: "'s \<Rightarrow> nat"
  assumes count_mono: "count s \<le> count (step s)"
    and count_step: "count (step s) \<le> Suc (count s)"
begin

lemma count_hits:
  "count s \<le> n \<Longrightarrow> n \<le> count ((step ^^ k) s) \<Longrightarrow> \<exists>j \<le> k. count ((step ^^ j) s) = n"
proof (induction k)
  case (Suc k)
  show ?case
  proof (cases "n \<le> count ((step ^^ k) s)")
    case True
    with Suc show ?thesis using le_SucI by blast
  next
    case False
    with Suc.prems count_step [of "(step ^^ k) s"] have "count ((step ^^ Suc k) s) = n" by simp
    then show ?thesis by blast
  qed
qed auto

lemma count_pow: "count s \<le> count ((step ^^ k) s)"
  by (induction k) (use count_mono order_trans in auto)

lemma loop_returns:
  assumes "count s \<le> n" and "n \<le> count ((step ^^ k) s)"
  shows "\<exists>t. while_option (\<lambda>s. count s \<noteq> n) step s = Some t \<and> count t = n"
proof -
  from count_hits [OF assms] obtain j where "count ((step ^^ j) s) = n" by blast
  then have "\<exists>j. \<not> count ((step ^^ j) s) \<noteq> n" by blast
  then obtain t where t: "while_option (\<lambda>s. count s \<noteq> n) step s = Some t"
    by (auto simp: while_option_def)
  with while_option_stop [OF t] show ?thesis by blast
qed

lemma loop_diverges:
  assumes "\<And>k. count ((step ^^ k) s) \<noteq> n"
  shows "while_option (\<lambda>s. count s \<noteq> n) step s = None"
  using assms by (simp add: while_option_def)

end

lemma length_omap_put_ge [simp]: "length m \<le> length (omap_put k v m)"
  and length_omap_put_le [simp]: "length (omap_put k v m) \<le> Suc (length m)"
  by (induction k v m rule: omap_put.induct) auto

interpretation pool: growing_loop "poolstep intrand" "\<lambda>s. length (fst s)" for intrand
  by unfold_locales (auto simp: poolstep_def Let_def split: prod.split)

interpretation ring: growing_loop "ringstep intrand pool" "\<lambda>s. length (fst s)" for intrand pool
  by unfold_locales (auto simp: ringstep_def omap_insert_def Let_def split: prod.split option.split)

lemma do_while_eq_while:
  "b s \<Longrightarrow> while_option b c (c s) = while_option b c s"
  by (subst (2) while_option_unfold) simp

lemma length_neq_eq: "(\<lambda>(m, r). length m \<noteq> n) = (\<lambda>s. length (fst s) \<noteq> n)"
  by (simp add: fun_eq_iff split: prod.split)

section \<open>The key pool\<close>

text \<open>The key ids the first \<open>n\<close> rounds draw from generator state \<open>r\<close>, \<open>NOID\<close> included.\<close>

fun keyid_draws :: "'r intrand \<Rightarrow> nat \<Rightarrow> 'r \<Rightarrow> keyid_t list" where
  "keyid_draws intrand 0 r = []"
| "keyid_draws intrand (Suc n) r =
     (let (i, r1) = intrand r (unat MAXUID); keyid = word_of_nat i in
      keyid # keyid_draws intrand n (if keyid \<noteq> NOID then snd (intrand r1 (unat MAXUID)) else r1))"

lemma unat_MAXUID: "unat MAXUID = 2147483647"
  by (simp add: MAXUID_def)

definition pool_ok :: "keyrng_t \<Rightarrow> bool" where
  "pool_ok pool \<longleftrightarrow> omap_wf pool \<and> (\<forall>k \<in> fst ` set pool. k \<noteq> NOID \<and> k < MAXUID)"

lemma poolstep_cases:
  obtains i r1 where "intrand r (unat MAXUID) = (i, r1)" and "word_of_nat i = NOID"
      and "poolstep intrand (pool, r) = (pool, r1)"
    | i r1 v r2 where "intrand r (unat MAXUID) = (i, r1)" and "word_of_nat i \<noteq> NOID"
      and "intrand r1 (unat MAXUID) = (v, r2)"
      and "poolstep intrand (pool, r) = (omap_put (word_of_nat i) (word_of_nat v) pool, r2)"
proof -
  obtain i r1 where i: "intrand r (unat MAXUID) = (i, r1)" by fastforce
  obtain v r2 where v: "intrand r1 (unat MAXUID) = (v, r2)" by fastforce
  show thesis
    by (cases "word_of_nat i = NOID") (use i v that in \<open>auto simp: poolstep_def Let_def\<close>)
qed

lemma drawn_id_below:
  assumes "intrand_range intrand" and "intrand r (unat MAXUID) = (i, r1)"
  shows "word_of_nat i < MAXUID"
proof -
  have "0 < unat MAXUID" by (simp add: unat_MAXUID)
  with assms have "i < unat MAXUID" by (metis fst_conv intrand_range_def)
  then show ?thesis by (simp add: word_less_nat_alt unat_of_nat unat_MAXUID)
qed

lemma poolstep_ok:
  assumes "intrand_range intrand" and "pool_ok (fst s)"
  shows "pool_ok (fst (poolstep intrand s))"
proof (cases s)
  case (Pair pool r)
  show ?thesis
    by (rule poolstep_cases [of intrand r pool])
       (use assms(2) Pair drawn_id_below [OF assms(1)] in \<open>simp_all add: pool_ok_def omap_wf_put ball_Un\<close>)
qed

lemma poolstep_pow_ok:
  "intrand_range intrand \<Longrightarrow> pool_ok (fst s) \<Longrightarrow> pool_ok (fst ((poolstep intrand ^^ k) s))"
  by (induction k) (simp_all add: poolstep_ok)

lemma keys_poolstep_pow:
  "fst ` set (fst ((poolstep intrand ^^ n) (pool, r))) =
     fst ` set pool \<union> (set (keyid_draws intrand n r) - {NOID})"
proof (induction n arbitrary: pool r)
  case (Suc n)
  obtain pool' r' where step: "poolstep intrand (pool, r) = (pool', r')" by fastforce
  have "(poolstep intrand ^^ Suc n) (pool, r) = (poolstep intrand ^^ n) (pool', r')"
    by (simp only: funpow_Suc_right o_apply step)
  moreover have "fst ` set pool' \<union> (set (keyid_draws intrand n r') - {NOID}) =
      fst ` set pool \<union> (set (keyid_draws intrand (Suc n) r) - {NOID})"
    by (rule poolstep_cases [of intrand r pool]) (use step in \<open>simp_all add: insert_Diff_if\<close>)
  ultimately show ?case by (simp only: Suc.IH)
qed simp

lemma length_pool_card: "omap_wf pool \<Longrightarrow> length pool = card (fst ` set pool)"
  by (simp add: length_omap_card dom_map_of_conv_image_fst)

lemma pool_ok_small: "pool_ok pool \<Longrightarrow> length pool < unat MAXUID"
proof -
  assume "pool_ok pool"
  then have "fst ` set pool \<subseteq> {0 <..< MAXUID}" and wf: "omap_wf pool"
    by (auto simp: pool_ok_def NOID_def word_gt_0)
  then have "unat ` (fst ` set pool) \<subseteq> {0 <..< unat MAXUID}"
    by (fastforce simp: word_less_nat_alt)
  then have "card (unat ` (fst ` set pool)) \<le> card {0 <..< unat MAXUID}"
    by (rule card_mono [rotated]) simp
  moreover have "card (unat ` (fst ` set pool)) = length pool"
    using wf by (simp add: card_image inj_on_def length_pool_card word_unat_eq_iff)
  ultimately show ?thesis by (simp add: unat_MAXUID)
qed

lemma generateKeyPool_from_empty:
  assumes "no_KPsize s \<noteq> 0" and "keyPool s = []"
  shows "generateKeyPool intrand s = map_option (\<lambda>(pool, r). s\<lparr>keyPool := pool, no_rng := r\<rparr>)
     (while_option (\<lambda>s'. length (fst s') \<noteq> no_KPsize s) (poolstep intrand) ([], no_rng s))"
  using assms by (simp add: generateKeyPool_def length_neq_eq do_while_eq_while)

text \<open>
  C27. A network owner constructed with pool size \<open>ps\<close> returns, as soon as the generator
  yields \<open>ps\<close> different key ids other than \<open>NOID\<close> within some number of rounds, and its
  pool then has exactly \<open>ps\<close> keys, ascending, none of them \<open>NOID\<close> and all below \<open>MAXUID\<close>.
\<close>

theorem key_pool_complete:
  assumes "intrand_range intrand"
    and "ps \<le> card (set (keyid_draws intrand n r) - {NOID})"
  shows "\<exists>s. NetworkOwner intrand r ps rs g = Some s \<and> length (keyPool s) = ps \<and> pool_ok (keyPool s)"
proof (cases "ps = 0")
  case True
  then show ?thesis by (simp add: NetworkOwner_def generateKeyPool_def pool_ok_def)
next
  case False
  let ?w = "while_option (\<lambda>s. length (fst s) \<noteq> ps) (poolstep intrand) ([], r)"
  have start: "pool_ok []" by (simp add: pool_ok_def)
  have "ps \<le> length (fst ((poolstep intrand ^^ n) ([], r)))"
    using assms(2) poolstep_pow_ok [OF assms(1), of "([], r)" n] start
    by (simp add: length_pool_card pool_ok_def keys_poolstep_pow)
  then obtain t where t: "?w = Some t" "length (fst t) = ps"
    using pool.loop_returns [where s = "([], r)" and n = ps and intrand = intrand and k = n] by auto
  have "pool_ok (fst t)"
    by (rule while_option_rule [OF _ t(1), where P = "\<lambda>s. pool_ok (fst s)"])
       (simp_all add: poolstep_ok assms(1) start)
  with t False show ?thesis
    by (auto simp: NetworkOwner_def generateKeyPool_from_empty split: prod.split)
qed

theorem key_pool_complete_witness:
  "intrand_range (\<lambda>r n. (if r < n then (r, Suc r) else (0, Suc r))) \<and>
   (\<exists>s. NetworkOwner (\<lambda>r n. (if r < n then (r, Suc r) else (0, Suc r))) 0 1 7 False = Some s
      \<and> length (keyPool s) = 1 \<and> pool_ok (keyPool s))"
proof -
  let ?i = "\<lambda>r n. (if r < n then (r, Suc r) else (0, Suc r)) :: nat \<times> nat"
  have r: "intrand_range ?i" by (simp add: intrand_range_def)
  have "1 \<le> card (set (keyid_draws ?i (Suc (Suc 0)) 0) - {NOID})"
    by (simp add: Let_def NOID_def unat_MAXUID)
  from key_pool_complete [OF r this, of 7 False] r show ?thesis by blast
qed

text \<open>
  C40. No pool with \<open>MAXUID\<close> keys or more exists: asked for one, the constructor never
  returns, whatever the generator draws.
\<close>

theorem key_pool_too_large_diverges:
  assumes "intrand_range intrand" and "unat MAXUID \<le> ps"
  shows "NetworkOwner intrand r ps rs g = None"
proof -
  have "ps \<noteq> 0" using assms(2) by (auto simp: unat_MAXUID)
  moreover have "length (fst ((poolstep intrand ^^ k) ([], r))) \<noteq> ps" for k
    using pool_ok_small [OF poolstep_pow_ok [OF assms(1), of "([], r)" k]] assms(2)
    by (auto simp: pool_ok_def)
  ultimately show ?thesis
    by (simp add: NetworkOwner_def generateKeyPool_from_empty pool.loop_diverges)
qed

theorem key_pool_too_large_diverges_witness:
  "NetworkOwner (\<lambda>r n. (0, r)) () (2 ^ 31) 7 False = None"
  using key_pool_too_large_diverges [of "\<lambda>r n. (0, r)" "2 ^ 31" "()" 7 False]
  by (simp add: intrand_range_def unat_MAXUID)

section \<open>Key rings\<close>

text \<open>The positions of the pool the first \<open>n\<close> rounds draw.\<close>

fun index_draws :: "'r intrand \<Rightarrow> nat \<Rightarrow> nat \<Rightarrow> 'r \<Rightarrow> nat list" where
  "index_draws intrand len 0 r = []"
| "index_draws intrand len (Suc n) r =
     (let (i, r1) = intrand r len in i # index_draws intrand len n r1)"

text \<open>What a prover relies on: a ring is a part of the pool.\<close>

definition ring_of :: "keyrng_t \<Rightarrow> keyrng_t \<Rightarrow> bool" where
  "ring_of pool ring \<longleftrightarrow> omap_wf ring \<and> map_of ring \<subseteq>\<^sub>m map_of pool"

lemma ringstep_keys:
  "fst ` set (fst (ringstep intrand pool (ring, r))) =
     insert (fst (pool ! fst (intrand r (length pool)))) (fst ` set ring)"
proof -
  obtain i r1 where i: "intrand r (length pool) = (i, r1)" by fastforce
  obtain k v where kv: "pool ! i = (k, v)" by fastforce
  have "map_of ring k = Some w \<Longrightarrow> insert k (fst ` set ring) = fst ` set ring" for w
    by (metis domI dom_map_of_conv_image_fst insert_absorb)
  with i kv show ?thesis
    by (simp add: ringstep_def omap_insert_def split: option.split)
qed

lemma keys_ringstep_pow:
  "fst ` set (fst ((ringstep intrand pool ^^ n) (ring, r))) =
     fst ` set ring \<union> (\<lambda>i. fst (pool ! i)) ` set (index_draws intrand (length pool) n r)"
proof (induction n arbitrary: ring r)
  case (Suc n)
  obtain ring' r' where step: "ringstep intrand pool (ring, r) = (ring', r')" by fastforce
  have r': "r' = snd (intrand r (length pool))"
    using step by (auto simp: ringstep_def Let_def split: prod.splits)
  have "(ringstep intrand pool ^^ Suc n) (ring, r) = (ringstep intrand pool ^^ n) (ring', r')"
    by (simp only: funpow_Suc_right o_apply step)
  moreover have "index_draws intrand (length pool) (Suc n) r =
      fst (intrand r (length pool)) # index_draws intrand (length pool) n r'"
    by (simp add: r' Let_def split: prod.split)
  ultimately show ?case
    using ringstep_keys [of intrand pool ring r] step by (simp add: Suc.IH del: funpow.simps)
qed simp

lemma ringstep_ring_of:
  assumes "intrand_range intrand" and "pool \<noteq> []" and "omap_wf pool" and "ring_of pool (fst s)"
  shows "ring_of pool (fst (ringstep intrand pool s))"
proof -
  obtain ring r where s: "s = (ring, r)" by (cases s)
  obtain i r1 where i: "intrand r (length pool) = (i, r1)" by fastforce
  obtain k v where kv: "pool ! i = (k, v)" by fastforce
  have "i < length pool" using assms(1,2) i by (metis fst_conv intrand_range_def length_greater_0_conv)
  then have "(k, v) \<in> set pool" using kv by (metis nth_mem)
  then have "map_of pool k = Some v"
    using omap_wf_distinct [OF assms(3)] by (simp add: map_of_eq_Some_iff)
  moreover have "a = map_of pool k" if "map_of ring k = a" "a \<noteq> None" for a
    using assms(4) s that by (auto simp: ring_of_def map_le_def dom_def)
  ultimately have "map_of (omap_insert k v ring) \<subseteq>\<^sub>m map_of pool"
    using assms(4) s
    by (fastforce simp: ring_of_def map_of_omap_insert map_le_def dom_def split: option.splits if_splits)
  with assms(4) s i kv show ?thesis
    by (simp add: ringstep_def ring_of_def omap_wf_insert)
qed

lemma index_draws_below:
  assumes "intrand_range intrand" and "0 < len"
  shows "i \<in> set (index_draws intrand len n r) \<Longrightarrow> i < len"
proof (induction n arbitrary: r)
  case (Suc n)
  obtain j r1 where j: "intrand r len = (j, r1)" by fastforce
  with assms have "j < len" by (metis fst_conv intrand_range_def)
  with Suc j show ?case by auto
qed simp

lemma inj_on_pool_keys: "omap_wf pool \<Longrightarrow> A \<subseteq> {..< length pool} \<Longrightarrow> inj_on (\<lambda>i. fst (pool ! i)) A"
proof (rule inj_onI)
  fix i j
  assume wf: "omap_wf pool" and "A \<subseteq> {..< length pool}" "i \<in> A" "j \<in> A"
    and eq: "fst (pool ! i) = fst (pool ! j)"
  then have "i < length pool" "j < length pool" by auto
  with eq omap_wf_distinct [OF wf] show "i = j"
    by (metis length_map nth_eq_iff_index_eq nth_map)
qed

lemma ringstep_pow_ring_of:
  assumes "intrand_range intrand" and "pool \<noteq> []" and "omap_wf pool"
  shows "ring_of pool (fst ((ringstep intrand pool ^^ k) ([], r)))"
proof (induction k)
  case 0
  show ?case by (simp add: ring_of_def map_le_def)
next
  case (Suc k)
  then show ?case by (simp add: ringstep_ring_of assms)
qed

lemma getKeyRing_while:
  assumes "keyPool s \<noteq> []" and "no_KRsize s \<noteq> 0"
  shows "getKeyRing intrand s = map_option (\<lambda>(ring, r). Inr (ring, s\<lparr>no_rng := r\<rparr>))
    (while_option (\<lambda>t. length (fst t) \<noteq> no_KRsize s) (ringstep intrand (keyPool s)) ([], no_rng s))"
  using assms by (simp add: getKeyRing_def length_neq_eq do_while_eq_while)

text \<open>
  C11. Dealing a key ring of size \<open>KRsize\<close> from a pool returns, as soon as \<open>KRsize\<close>
  different positions of the pool are drawn within some number of rounds; the ring has
  exactly that size and every entry of it is an entry of the pool.
\<close>

theorem key_ring_from_pool:
  assumes "intrand_range intrand" and "omap_wf (keyPool s)" and "keyPool s \<noteq> []"
    and "0 < no_KRsize s"
    and "no_KRsize s \<le> card (set (index_draws intrand (length (keyPool s)) n (no_rng s)))"
  shows "\<exists>ring s'. getKeyRing intrand s = Some (Inr (ring, s')) \<and> length ring = no_KRsize s
     \<and> ring_of (keyPool s) ring \<and> keyPool s' = keyPool s"
proof -
  let ?step = "ringstep intrand (keyPool s)"
  let ?s0 = "([], no_rng s)"
  let ?draws = "set (index_draws intrand (length (keyPool s)) n (no_rng s))"
  have "?draws \<subseteq> {..< length (keyPool s)}"
    using index_draws_below [OF assms(1)] assms(3) by auto
  then have "card ((\<lambda>i. fst (keyPool s ! i)) ` ?draws) = card ?draws"
    using assms(2) by (intro card_image inj_on_pool_keys)
  then have "no_KRsize s \<le> length (fst ((?step ^^ n) ?s0))"
    using assms(5) ringstep_pow_ring_of [OF assms(1,3,2), of n "no_rng s"]
    by (simp add: length_pool_card ring_of_def keys_ringstep_pow)
  then obtain t where t: "while_option (\<lambda>t. length (fst t) \<noteq> no_KRsize s) ?step ?s0 = Some t"
      and len: "length (fst t) = no_KRsize s"
    using ring.loop_returns [where s = ?s0 and n = "no_KRsize s" and intrand = intrand
        and pool = "keyPool s" and k = n] by auto
  from while_option_stop2 [OF t] ringstep_pow_ring_of [OF assms(1,3,2)]
  have "ring_of (keyPool s) (fst t)" by auto
  with t len assms(3,4) show ?thesis
    by (auto simp: getKeyRing_while split: prod.split)
qed

theorem key_ring_from_pool_witness:
  "\<exists>ring s'. getKeyRing (\<lambda>r n. (r mod n, Suc r))
      \<lparr>no_rng = 0, no_KPsize = 3, no_KRsize = 2, keyPool = [(1, 5), (2, 6), (4, 7)], initialized = True\<rparr>
      = Some (Inr (ring, s'))
     \<and> length ring = 2 \<and> ring_of [(1, 5), (2, 6), (4, 7)] ring"
proof -
  let ?i = "\<lambda>r n. (r mod n, Suc r) :: nat \<times> nat"
  let ?s = "\<lparr>no_rng = 0, no_KPsize = 3, no_KRsize = 2,
     keyPool = [(1, 5), (2, 6), (4, 7)], initialized = True\<rparr> :: nat network_owner"
  have "intrand_range ?i" by (simp add: intrand_range_def)
  moreover have "no_KRsize ?s \<le> card (set (index_draws ?i (length (keyPool ?s)) (Suc (Suc 0)) (no_rng ?s)))"
    by simp
  ultimately show ?thesis
    using key_ring_from_pool [of ?i ?s "Suc (Suc 0)"] by auto
qed

text \<open>
  Dealing never returns for a ring size of zero (the body of the do-while loop has
  already added a key) and for a ring larger than the pool.
\<close>

theorem key_ring_size_diverges:
  assumes "intrand_range intrand" and "omap_wf (keyPool s)" and "keyPool s \<noteq> []"
    and "no_KRsize s = 0 \<or> length (keyPool s) < no_KRsize s"
  shows "getKeyRing intrand s = None"
proof -
  let ?step = "ringstep intrand (keyPool s)"
  let ?s1 = "?step ([], no_rng s)"
  have "length (fst ((?step ^^ k) ?s1)) \<noteq> no_KRsize s" for k
  proof -
    have "(?step ^^ k) ?s1 = (?step ^^ Suc k) ([], no_rng s)"
      by (simp only: funpow_Suc_right o_apply)
    then have ring: "ring_of (keyPool s) (fst ((?step ^^ k) ?s1))"
      using ringstep_pow_ring_of [OF assms(1,3,2), of "Suc k" "no_rng s"] by simp
    then have "dom (map_of (fst ((?step ^^ k) ?s1))) \<subseteq> dom (map_of (keyPool s))"
      by (simp add: ring_of_def map_le_implies_dom_le)
    then have "length (fst ((?step ^^ k) ?s1)) \<le> length (keyPool s)"
      using ring assms(2) by (simp add: ring_of_def length_omap_card card_mono finite_dom_map_of)
    moreover have "length (fst ?s1) = 1"
      by (simp add: ringstep_def omap_insert_def split: prod.splits)
    then have "0 < length (fst ((?step ^^ k) ?s1))"
      using ring.count_pow [where s = ?s1 and k = k and intrand = intrand and pool = "keyPool s"]
      by linarith
    ultimately show ?thesis using assms(4) by auto
  qed
  then show ?thesis
    using assms(3) by (simp add: getKeyRing_def length_neq_eq ring.loop_diverges)
qed

theorem key_ring_size_diverges_witness:
  "getKeyRing (\<lambda>r n. (0, r))
     \<lparr>no_rng = (), no_KPsize = 1, no_KRsize = 0, keyPool = [(1, 5)], initialized = True\<rparr> = None"
  by (rule key_ring_size_diverges) (simp_all add: intrand_range_def)

lemma getKeyRing_ring_of:
  assumes deal: "getKeyRing intrand s = Some (Inr (ring, s'))"
    and "intrand_range intrand" and "omap_wf (keyPool s)"
  shows "keyPool s' = keyPool s \<and> ring_of (keyPool s) ring"
proof -
  let ?step = "ringstep intrand (keyPool s)"
  from deal have ne: "keyPool s \<noteq> []" by (auto simp: getKeyRing_def split: if_splits)
  with deal obtain u where
    u: "while_option (\<lambda>t. length (fst t) \<noteq> no_KRsize s) ?step (?step ([], no_rng s)) = Some u"
    and eq: "ring = fst u" "s' = s\<lparr>no_rng := snd u\<rparr>"
    by (auto simp: getKeyRing_def length_neq_eq split: prod.splits)
  from while_option_stop2 [OF u] obtain k where
    "u = (?step ^^ k) (?step ([], no_rng s))" by blast
  then have "u = (?step ^^ Suc k) ([], no_rng s)" by (simp only: funpow_Suc_right o_apply)
  then have "ring_of (keyPool s) (fst u)"
    using ringstep_pow_ring_of [OF assms(2) ne assms(3), of "Suc k" "no_rng s"] by simp
  with eq show ?thesis by simp
qed

text \<open>
  Two rings dealt one after the other from one pool agree: a key id that both hold
  names the same key, so two provers that find a common key id can authenticate each other.
\<close>

theorem key_rings_agree:
  assumes "getKeyRing intrand s = Some (Inr (ring1, s1))"
    and "getKeyRing intrand s1 = Some (Inr (ring2, s2))"
    and "intrand_range intrand" and "omap_wf (keyPool s)"
    and "map_of ring1 k = Some v" and "map_of ring2 k = Some w"
  shows "v = w"
proof -
  from getKeyRing_ring_of [OF assms(1,3,4)]
  have 1: "keyPool s1 = keyPool s" "map_of ring1 \<subseteq>\<^sub>m map_of (keyPool s)"
    by (auto simp: ring_of_def)
  then have 2: "map_of ring2 \<subseteq>\<^sub>m map_of (keyPool s)"
    using getKeyRing_ring_of [OF assms(2,3)] assms(4) by (simp add: ring_of_def)
  from 1(2) 2 assms(5,6) have "map_of (keyPool s) k = Some v" "map_of (keyPool s) k = Some w"
    by (metis domI map_le_def)+
  then show ?thesis by simp
qed

theorem key_rings_agree_witness:
  "getKeyRing (\<lambda>r n. (0, r)) \<lparr>no_rng = (), no_KPsize = 1, no_KRsize = 1, keyPool = [(1, 5)], initialized = True\<rparr>
     = Some (Inr ([(1, 5)], \<lparr>no_rng = (), no_KPsize = 1, no_KRsize = 1, keyPool = [(1, 5)], initialized = True\<rparr>))
   \<and> (5 :: keyv_t) = 5"
proof -
  let ?s = "\<lparr>no_rng = (), no_KPsize = 1, no_KRsize = 1, keyPool = [(1, 5)], initialized = True\<rparr>"
  have deal: "getKeyRing (\<lambda>r n. (0, r)) ?s = Some (Inr ([(1, 5)], ?s))"
    by (simp add: getKeyRing_def ringstep_def omap_insert_def while_option_unfold)
  have "map_of [(1 :: keyid_t, 5 :: keyv_t)] 1 = Some 5" by simp
  from key_rings_agree [OF deal deal _ _ this this] deal show ?thesis
    by (simp add: intrand_range_def)
qed

end
