(* ===== verification/Report.thy ===== *)
theory Report
  imports Fadia_Constants
begin

text \<open>
  The attestation report of \<open>AProver.h\<close> (\<open>report_t\<close>) and the operations of
  \<open>AProver.cpp\<close> on it: \<open>addOwnReport\<close>, \<open>fixProofs\<close>, \<open>finalizeProofs\<close> and the part of
  \<open>handleUpReq\<close> that merges a child's report (lines 941 to 1016).

  A report is a list of records (prover id and counter) cut into groups by separators
  \<open>NOID\<close>; each group of at most \<open>aggsize\<close> records shares one aggregated proof, the
  exclusive or of the proofs of its records. The group after the last separator is still
  open.
\<close>

unbundle bit_operations_syntax

section \<open>The report and its operations\<close>

record report_t =
  uids :: "uid_t list"
  counters :: "nat list"
  proofs :: "mac_t list"
  tid :: treeid_t
  rsize :: "64 word"
  sepsize :: "64 word"

definition report0 :: report_t where
  "report0 = \<lparr>uids = [], counters = [], proofs = [], tid = NOID, rsize = 0, sepsize = 0\<rparr>"

text \<open>
  The loop that walks back over the open group: from position \<open>a\<close> with \<open>n\<close> records
  seen, to the start of the group and its length.
\<close>

fun open_group :: "uid_t list \<Rightarrow> nat \<Rightarrow> nat \<Rightarrow> nat \<times> nat" where
  "open_group us 0 n = (0, n)"
| "open_group us (Suc a) n = (if us ! a \<noteq> NOID then open_group us a (Suc n) else (Suc a, n))"

text \<open>\<open>proofs.back() ^= m\<close>\<close>

definition xor_back :: "mac_t \<Rightarrow> mac_t list \<Rightarrow> mac_t list result" where
  "xor_back m ps = (if ps = [] then Inl EmptyVector else Inr (butlast ps @ [last ps XOR m]))"

definition fixProofs :: "nat \<Rightarrow> report_t \<Rightarrow> report_t" where
  "fixProofs aggsize r =
     (let (a, s) = open_group (uids r) (length (uids r)) 0 in
      if s = aggsize
      then r\<lparr>uids := uids r @ [NOID], counters := counters r @ [0], sepsize := sepsize r + 1\<rparr>
      else r)"

text \<open>The MAC of the own record is the constant 0 in the simulation.\<close>

definition addOwnReport :: "nat \<Rightarrow> uid_t \<Rightarrow> nat \<Rightarrow> report_t \<Rightarrow> (report_t \<times> nat) result" where
  "addOwnReport aggsize UId attestcount r =
     (let mac = (0 :: mac_t) in
      if aggsize = 0 then Inl DivisionByZero
      else
        let a = length (uids r) mod aggsize in
        rbind (if a = 0 then Inr (proofs r @ [mac]) else xor_back mac (proofs r)) (\<lambda>ps.
        let attestcount' = attestcount + 1;
            r' = r\<lparr>proofs := ps, uids := uids r @ [UId], counters := counters r @ [attestcount'],
                   rsize := rsize r + 1\<rparr>
        in Inr (fixProofs aggsize r', attestcount')))"

definition finalizeProofs :: "nat \<Rightarrow> report_t \<Rightarrow> report_t result" where
  "finalizeProofs aggsize r =
     (if aggsize = 0 then Inl DivisionByZero
      else if length (uids r) mod aggsize > aggsize div 2 then
        if proofs r = [] \<or> length (proofs r) \<le> unat (rsize r - 2) then Inl EmptyVector
        else
          let i = unat (rsize r - 2)
          in Inr (r\<lparr>proofs := butlast ((proofs r)[i := proofs r ! i XOR last (proofs r)])\<rparr>)
      else Inr r)"

text \<open>
  Appending the received records, counting separators and records, and the received
  proofs. Reading a counter beyond the message's array raises an error in the kernel.
\<close>

definition appendReport :: "uid_t list \<Rightarrow> nat list \<Rightarrow> mac_t list \<Rightarrow> report_t \<Rightarrow> report_t result" where
  "appendReport report1 report2 proof r =
     (if length report2 < length report1 then Inl (RuntimeError ''getReport2: index out of range'')
      else Inr (r\<lparr>uids := uids r @ report1,
                  counters := counters r @ take (length report1) report2,
                  sepsize := sepsize r + of_nat (count_list report1 NOID),
                  rsize := rsize r + of_nat (length (filter (\<lambda>u. u \<noteq> NOID) report1)),
                  proofs := proofs r @ proof\<rparr>))"

definition mergeReport ::
  "nat \<Rightarrow> uid_t list \<Rightarrow> nat list \<Rightarrow> mac_t list \<Rightarrow> report_t \<Rightarrow> report_t result" where
  "mergeReport aggsize report1 report2 proof r =
     (let (a, uncompleted) = open_group (uids r) (length (uids r)) 0;
          tmpuids = drop a (uids r);
          tmpcounters = drop a (counters r)
      in if uncompleted = 0 then appendReport report1 report2 proof r
      else if proofs r = [] then Inl EmptyVector
      else
        let tmpproof = last (proofs r);
            r1 = r\<lparr>uids := take a (uids r), counters := take a (counters r),
                   rsize := rsize r - of_nat uncompleted, proofs := butlast (proofs r)\<rparr>
        in rbind (appendReport report1 report2 proof r1) (\<lambda>r2.
        let (a2, uncompleted2) = open_group (uids r2) (length (uids r2)) 0 in
        if aggsize = 0 then Inl DivisionByZero
        else
          let q = uncompleted2 mod aggsize in
          if q + length tmpuids \<le> aggsize then
            rbind (if q \<noteq> 0 then xor_back tmpproof (proofs r2) else Inr (proofs r2 @ [tmpproof])) (\<lambda>ps.
            Inr (fixProofs aggsize
              (r2\<lparr>uids := uids r2 @ tmpuids, counters := counters r2 @ tmpcounters,
                  rsize := rsize r2 + of_nat (length tmpuids), proofs := ps\<rparr>)))
          else
            Inr (r2\<lparr>uids := uids r2 @ [NOID] @ tmpuids, counters := counters r2 @ [0] @ tmpcounters,
                    sepsize := sepsize r2 + 1,
                    rsize := rsize r2 + of_nat (length tmpuids), proofs := proofs r2 @ [tmpproof]\<rparr>)))"

section \<open>The loop finds the open group\<close>

lemma open_group_acc: "a \<le> length us \<Longrightarrow>
  open_group us a n = (a - length (lastrun NOID (take a us)), n + length (lastrun NOID (take a us)))"
proof (induction us a n rule: open_group.induct)
  case (2 us a n)
  then have "take (Suc a) us = take a us @ [us ! a]" by (simp add: take_Suc_conv_app_nth)
  with 2 show ?case
    using length_lastrun_le [of NOID "take a us"] by (auto simp: lastrun_snoc)
qed simp

lemma open_group_eq [simp]: "open_group us (length us) 0 =
  (length us - length (lastrun NOID us), length (lastrun NOID us))"
  by (simp add: open_group_acc)

section \<open>Groups\<close>

text \<open>No group has more than \<open>n\<close> records; the number of groups that have any.\<close>

definition bounded :: "nat \<Rightarrow> uid_t list \<Rightarrow> bool" where
  "bounded n us \<longleftrightarrow> (\<forall>g \<in> set (runs NOID us). length g \<le> n)"

definition groups :: "uid_t list \<Rightarrow> nat" where
  "groups us = length (filter (\<lambda>g. g \<noteq> []) (runs NOID us))"

lemma runs_split: obtains gs where "runs z us = gs @ [lastrun z us]"
  by (metis append_butlast_last_id last_runs runs_nonempty that)

lemma runs_append_closed:
  assumes "runs z us = gs @ [[]]"
  shows "runs z (us @ vs) = gs @ runs z vs"
  using assms by (simp add: runs_append)

lemma runs_snoc_sep: "runs z (us @ [z]) = runs z us @ [[]]"
  by (induction us) (auto simp: hd_append tl_append split: list.split)

lemma runs_append_sep: "runs z (us @ z # vs) = runs z us @ runs z vs"
  using runs_append_closed [OF runs_snoc_sep, of z us vs] by simp

lemma runs_append_open:
  assumes "z \<notin> set vs" and "runs z us = gs @ [lastrun z us]"
  shows "runs z (us @ vs) = gs @ [lastrun z us @ vs]"
  using assms by (simp add: runs_append runs_no_sep)

lemma bounded_closed:
  assumes "lastrun NOID us = []"
  shows "bounded n (us @ vs) \<longleftrightarrow> bounded n us \<and> bounded n vs"
proof -
  obtain gs where "runs NOID us = gs @ [[]]" using assms by (metis runs_split)
  then show ?thesis by (auto simp: bounded_def runs_append_closed)
qed

lemma bounded_sep: "bounded n (us @ NOID # vs) \<longleftrightarrow> bounded n us \<and> bounded n vs"
  by (auto simp: bounded_def runs_append_sep)

lemma bounded_open:
  assumes "NOID \<notin> set vs"
  shows "bounded n (us @ vs) \<longleftrightarrow> bounded n us \<and> length (lastrun NOID us) + length vs \<le> n"
proof -
  obtain gs where "runs NOID us = gs @ [lastrun NOID us]" by (rule runs_split)
  then show ?thesis by (auto simp: bounded_def runs_append_open [OF assms])
qed

lemma bounded_Nil [simp]: "bounded n []"
  by (simp add: bounded_def)

lemma bounded_snoc_sep [simp]: "bounded n (us @ [NOID]) = bounded n us"
  using bounded_sep [of n us "[]"] by simp

lemma groups_closed:
  assumes "lastrun NOID us = []"
  shows "groups (us @ vs) = groups us + groups vs"
proof -
  obtain gs where "runs NOID us = gs @ [[]]" using assms by (metis runs_split)
  then show ?thesis by (simp add: groups_def runs_append_closed)
qed

lemma groups_sep: "groups (us @ NOID # vs) = groups us + groups vs"
  by (simp add: groups_def runs_append_sep)

lemma groups_open:
  assumes "NOID \<notin> set vs" and "vs \<noteq> []"
  shows "groups (us @ vs) = groups us + (if lastrun NOID us = [] then 1 else 0)"
proof -
  obtain gs where "runs NOID us = gs @ [lastrun NOID us]" by (rule runs_split)
  with assms(2) show ?thesis by (simp add: groups_def runs_append_open [OF assms(1)])
qed

lemma groups_single: "NOID \<notin> set us \<Longrightarrow> us \<noteq> [] \<Longrightarrow> groups us = 1"
  by (simp add: groups_def runs_no_sep)

lemma groups_Nil [simp]: "groups [] = 0"
  by (simp add: groups_def)

lemma groups_snoc_sep [simp]: "groups (us @ [NOID]) = groups us"
  using groups_sep [of us "[]"] by simp

section \<open>Exclusive or of all proofs\<close>

definition xorall :: "mac_t list \<Rightarrow> mac_t" where
  "xorall ps = foldr (XOR) ps 0"

lemma xorall_Nil [simp]: "xorall [] = 0"
  and xorall_Cons [simp]: "xorall (p # ps) = p XOR xorall ps"
  by (simp_all add: xorall_def)

lemma xorall_append [simp]: "xorall (ps @ qs) = xorall ps XOR xorall qs"
  by (induction ps) (simp_all add: ac_simps)

lemma xorall_butlast: "ps \<noteq> [] \<Longrightarrow> xorall (butlast ps) XOR last ps = xorall ps"
  by (metis append_butlast_last_id xorall_Cons xorall_Nil xorall_append xor.right_neutral)

lemma xor_back_ok: "ps \<noteq> [] \<Longrightarrow> xor_back m ps = Inr (butlast ps @ [last ps XOR m])"
  by (simp add: xor_back_def)

lemma xor_back_total: "xor_back m ps = Inr qs \<Longrightarrow> qs \<noteq> [] \<and> xorall qs = xorall ps XOR m"
  using xorall_butlast [of ps] by (auto simp: xor_back_def ac_simps split: if_splits)

section \<open>Well-formed reports\<close>

text \<open>
  What a report keeps: a counter per entry, a proof as soon as there is an entry, no group
  above \<open>n\<close> records, an open group that is not full.
\<close>

definition wire_ok :: "nat \<Rightarrow> uid_t list \<Rightarrow> nat list \<Rightarrow> mac_t list \<Rightarrow> bool" where
  "wire_ok n us cs ps \<longleftrightarrow> length cs = length us \<and> (ps = [] \<longleftrightarrow> us = []) \<and>
     bounded n us \<and> length (lastrun NOID us) < n"

definition report_ok :: "nat \<Rightarrow> report_t \<Rightarrow> bool" where
  "report_ok n r \<longleftrightarrow> wire_ok n (uids r) (counters r) (proofs r)"

definition records :: "uid_t list \<Rightarrow> nat list \<Rightarrow> (uid_t \<times> nat) list" where
  "records us cs = filter (\<lambda>(u, c). u \<noteq> NOID) (zip us cs)"

text \<open>The part of a report before its open group.\<close>

abbreviation closed_part :: "uid_t list \<Rightarrow> uid_t list" where
  "closed_part us \<equiv> take (length us - length (lastrun NOID us)) us"

lemma closed_part_append: "closed_part us @ lastrun NOID us = us"
  by (rule lastrun_split)

lemma drop_closed_part: "drop (length us - length (lastrun NOID us)) us = lastrun NOID us"
  by (metis append_take_drop_id lastrun_split same_append_eq)

lemma bounded_parts: "bounded n us \<longleftrightarrow> bounded n (closed_part us) \<and> length (lastrun NOID us) \<le> n"
  using bounded_open [of "lastrun NOID us" n "closed_part us"]
  by (simp add: closed_part_append lastrun_take lastrun_no_sep)

lemma groups_parts: "groups us = groups (closed_part us) + (if lastrun NOID us = [] then 0 else 1)"
  using groups_open [of "lastrun NOID us" "closed_part us"]
  by (cases "lastrun NOID us = []") (simp_all add: closed_part_append lastrun_take lastrun_no_sep)

lemma records_append:
  "length us = length cs \<Longrightarrow> records (us @ vs) (cs @ ds) = records us cs @ records vs ds"
  by (simp add: records_def)

lemma records_snoc_sep: "length us = length cs \<Longrightarrow> records (us @ [NOID]) (cs @ [c]) = records us cs"
  by (simp add: records_append records_def)

lemma records_Nil [simp]: "records [] cs = []"
  by (simp add: records_def)

lemma records_parts:
  assumes "length cs = length us"
  shows "records us cs = records (closed_part us) (take (length us - length (lastrun NOID us)) cs)
    @ records (lastrun NOID us) (drop (length us - length (lastrun NOID us)) cs)"
  using assms records_append [of "closed_part us" "take (length us - length (lastrun NOID us)) cs"
      "lastrun NOID us" "drop (length us - length (lastrun NOID us)) cs"]
  by (simp add: closed_part_append)

lemma fixProofs_eq: "fixProofs n r =
  (if length (lastrun NOID (uids r)) = n
   then r\<lparr>uids := uids r @ [NOID], counters := counters r @ [0], sepsize := sepsize r + 1\<rparr> else r)"
  by (simp add: fixProofs_def)

lemma proofs_fixProofs [simp]: "proofs (fixProofs n r) = proofs r"
  and rsize_fixProofs [simp]: "rsize (fixProofs n r) = rsize r"
  and tid_fixProofs [simp]: "tid (fixProofs n r) = tid r"
  by (simp_all add: fixProofs_eq)

lemma records_fixProofs:
  "length (uids r) = length (counters r) \<Longrightarrow>
     records (uids (fixProofs n r)) (counters (fixProofs n r)) = records (uids r) (counters r)"
  by (simp add: fixProofs_eq records_snoc_sep)

lemma groups_fixProofs [simp]: "groups (uids (fixProofs n r)) = groups (uids r)"
  by (simp add: fixProofs_eq)

text \<open>\<open>fixProofs\<close> closes a group that just became full, which restores well-formedness.\<close>

lemma fixProofs_ok:
  assumes "length (counters r) = length (uids r)" and "proofs r \<noteq> []" and "uids r \<noteq> []"
    and "bounded n (uids r)" and "0 < n"
  shows "report_ok n (fixProofs n r)"
proof -
  have "length (lastrun NOID (uids r)) \<le> n" using assms(4) bounded_parts by blast
  then show ?thesis using assms by (auto simp: report_ok_def wire_ok_def fixProofs_eq)
qed

section \<open>Adding the own record\<close>

text \<open>
  Adding the own record to a well-formed report returns: the counter goes up by one, the
  record of the prover with the new counter is appended to the records, the exclusive or of
  all proofs is unchanged (the own MAC is 0), and the report stays well-formed.
\<close>

lemma addOwnReport_ok:
  assumes "report_ok n r" and "0 < n" and "UId \<noteq> NOID"
  shows "\<exists>r'. addOwnReport n UId c r = Inr (r', c + 1) \<and> report_ok n r' \<and>
    records (uids r') (counters r') = records (uids r) (counters r) @ [(UId, c + 1)] \<and>
    xorall (proofs r') = xorall (proofs r) \<and> rsize r' = rsize r + 1"
proof -
  let ?a = "length (uids r) mod n"
  obtain ps where ps: "(if ?a = 0 then Inr (proofs r @ [0]) else xor_back 0 (proofs r)) = Inr ps"
      and "ps \<noteq> []" and x: "xorall ps = xorall (proofs r)"
    using assms(1) by (cases "?a = 0")
      (auto simp: report_ok_def wire_ok_def xor_back_ok xorall_butlast split: if_splits)
  let ?r = "r\<lparr>proofs := ps, uids := uids r @ [UId], counters := counters r @ [c + 1], rsize := rsize r + 1\<rparr>"
  have "addOwnReport n UId c r = Inr (fixProofs n ?r, c + 1)"
    using ps assms(2) by (simp add: addOwnReport_def Let_def)
  moreover have "report_ok n (fixProofs n ?r)"
    using assms \<open>ps \<noteq> []\<close>
    by (intro fixProofs_ok) (auto simp: report_ok_def wire_ok_def bounded_open)
  moreover have "records (uids (fixProofs n ?r)) (counters (fixProofs n ?r)) =
      records (uids r) (counters r) @ [(UId, c + 1)]"
    using assms by (simp add: records_fixProofs records_append report_ok_def wire_ok_def)
      (simp add: records_def)
  ultimately show ?thesis using x by simp
qed

section \<open>Merging a child's report\<close>

text \<open>
  The report between the two phases: the open group is taken off, the child's report is
  appended, and the open group goes back, into the child's open group if it fits.
\<close>

lemma mergeReport_closed:
  assumes "lastrun NOID (uids r) = []"
  shows "mergeReport n u c p r = appendReport u c p r"
  using assms by (simp add: mergeReport_def)

lemma mergeReport_open:
  assumes "lastrun NOID (uids r) \<noteq> []" and "report_ok n r" and "wire_ok n u c p" and "0 < n"
  defines "tmp \<equiv> lastrun NOID (uids r)" and "k \<equiv> length (uids r) - length (lastrun NOID (uids r))"
  defines "base \<equiv> take k (uids r) @ u" and "cbase \<equiv> take k (counters r) @ c"
    and "q \<equiv> length (lastrun NOID (take k (uids r) @ u))"
  shows "\<exists>r'. mergeReport n u c p r = Inr r' \<and>
    (if q + length tmp \<le> n then \<exists>ps r2. r' = fixProofs n r2 \<and>
          uids r2 = base @ tmp \<and> counters r2 = cbase @ drop k (counters r) \<and> proofs r2 = ps \<and>
          (if q \<noteq> 0 then xor_back (last (proofs r)) (butlast (proofs r) @ p) = Inr ps
           else ps = butlast (proofs r) @ p @ [last (proofs r)])
     else uids r' = base @ NOID # tmp \<and> counters r' = cbase @ 0 # drop k (counters r) \<and>
          proofs r' = butlast (proofs r) @ p @ [last (proofs r)]) \<and>
    tid r' = tid r \<and>
    rsize r' = rsize r - of_nat (length tmp) + of_nat (length (filter (\<lambda>x. x \<noteq> NOID) u)) + of_nat (length tmp)"
proof -
  have ne: "proofs r \<noteq> []" using assms(1,2) by (auto simp: report_ok_def wire_ok_def)
  have len: "length c = length u" using assms(3) by (simp add: wire_ok_def)
  have "q < n"
  proof (cases "NOID \<in> set u")
    case True
    then show ?thesis using assms(3) by (simp add: q_def lastrun_append wire_ok_def)
  next
    case False
    then show ?thesis using assms(3)
      by (simp add: q_def k_def lastrun_append lastrun_take lastrun_id wire_ok_def)
  qed
  then have qmod: "q mod n = q" by simp
  have pne: "q \<noteq> 0 \<Longrightarrow> p \<noteq> []"
    using assms(3) by (auto simp: q_def k_def wire_ok_def lastrun_take)
  show ?thesis
  proof (cases "q + length tmp \<le> n")
    case True
    then show ?thesis
      using assms(1,4) ne len qmod pne
      by (auto simp: mergeReport_def appendReport_def Let_def drop_closed_part xor_back_ok
          tmp_def base_def cbase_def k_def q_def)
  next
    case False
    then show ?thesis
      using assms(1,4) ne len qmod
      by (auto simp: mergeReport_def appendReport_def Let_def drop_closed_part
          tmp_def base_def cbase_def k_def q_def)
  qed
qed

text \<open>The view of a report its parent and the collector care about: its records and its proof total.\<close>

definition report_view :: "uid_t list \<Rightarrow> nat list \<Rightarrow> mac_t list \<Rightarrow> (uid_t \<times> nat) multiset \<times> mac_t" where
  "report_view us cs ps = (mset (records us cs), xorall ps)"

definition view_add :: "(uid_t \<times> nat) multiset \<times> mac_t \<Rightarrow> (uid_t \<times> nat) multiset \<times> mac_t
    \<Rightarrow> (uid_t \<times> nat) multiset \<times> mac_t" where
  "view_add v w = (fst v + fst w, snd v XOR snd w)"

abbreviation rview :: "report_t \<Rightarrow> (uid_t \<times> nat) multiset \<times> mac_t" where
  "rview r \<equiv> report_view (uids r) (counters r) (proofs r)"

lemma report_ok_lengths: "report_ok n r \<Longrightarrow> length (counters r) = length (uids r)"
  by (simp add: report_ok_def wire_ok_def)

lemma appendReport_closed_ok:
  assumes "lastrun NOID (uids r) = []" and "report_ok n r" and "wire_ok n u c p"
  shows "\<exists>r'. appendReport u c p r = Inr r' \<and> report_ok n r' \<and> rview r' = view_add (rview r) (report_view u c p)"
  using assms
  by (auto simp: appendReport_def report_ok_def wire_ok_def bounded_closed lastrun_append
      report_view_def view_add_def records_append lastrun_id)

text \<open>The two ways the open group \<open>tmp\<close> goes back behind \<open>base\<close>.\<close>

lemma merged_fits:
  assumes "uids r2 = base @ tmp" and "counters r2 = cbase @ ctmp" and "proofs r2 \<noteq> []"
    and "NOID \<notin> set tmp" and "tmp \<noteq> []" and "bounded n base"
    and "length (lastrun NOID base) + length tmp \<le> n"
    and "length cbase = length base" and "length ctmp = length tmp" and "0 < n"
  shows "report_ok n (fixProofs n r2) \<and>
    records (uids (fixProofs n r2)) (counters (fixProofs n r2)) = records base cbase @ records tmp ctmp"
  using assms by (auto intro!: fixProofs_ok simp: bounded_open records_fixProofs records_append)

lemma merged_overflows:
  assumes "uids r' = base @ NOID # tmp" and "counters r' = cbase @ 0 # ctmp" and "proofs r' \<noteq> []"
    and "NOID \<notin> set tmp" and "length tmp < n" and "bounded n base"
    and "length cbase = length base" and "length ctmp = length tmp"
  shows "report_ok n r' \<and> records (uids r') (counters r') = records base cbase @ records tmp ctmp"
proof -
  have "bounded n tmp" using assms(4,5) by (simp add: bounded_def runs_no_sep)
  with assms show ?thesis
    by (simp add: report_ok_def wire_ok_def bounded_sep lastrun_append lastrun_after_sep records_append)
       (simp add: records_def)
qed

text \<open>Merging keeps well-formedness and adds up the views.\<close>

lemma mergeReport_ok:
  assumes "report_ok n r" and "wire_ok n u c p" and "0 < n"
  shows "\<exists>r'. mergeReport n u c p r = Inr r' \<and> report_ok n r' \<and>
    rview r' = view_add (rview r) (report_view u c p)"
proof (cases "lastrun NOID (uids r) = []")
  case True
  then show ?thesis using appendReport_closed_ok [OF True assms(1,2)] by (simp add: mergeReport_closed)
next
  case open_group: False
  define tmp where "tmp = lastrun NOID (uids r)"
  define k where "k = length (uids r) - length tmp"
  define base where "base = take k (uids r) @ u"
  define cbase where "cbase = take k (counters r) @ c"
  define q where "q = length (lastrun NOID base)"
  have ne: "proofs r \<noteq> []" "uids r \<noteq> []" and cl: "length (counters r) = length (uids r)"
    and ul: "length c = length u"
    using assms(1,2) open_group by (auto simp: report_ok_def wire_ok_def)
  have tmp: "NOID \<notin> set tmp" "tmp \<noteq> []" "length tmp < n"
    using assms(1) open_group by (simp_all add: tmp_def lastrun_no_sep report_ok_def wire_ok_def)
  have closed: "lastrun NOID (take k (uids r)) = []" by (simp add: k_def tmp_def lastrun_take)
  have bb: "bounded n base"
    using assms(1,2) closed bounded_parts [of n "uids r"]
    by (simp add: base_def k_def tmp_def bounded_closed report_ok_def wire_ok_def)
  have recs: "mset (records base cbase) + mset (records tmp (drop k (counters r))) =
      mset (records (uids r) (counters r)) + mset (records u c)"
    using cl records_parts [OF cl]
    by (simp add: base_def cbase_def records_append k_def tmp_def)
  have lb: "length cbase = length base" using cl ul by (simp add: base_def cbase_def)
  have lt: "length (drop k (counters r)) = length tmp"
    using cl length_lastrun_le [of NOID "uids r"] by (simp add: k_def tmp_def)
  obtain r' where m: "mergeReport n u c p r = Inr r'"
    and r': "if q + length tmp \<le> n then \<exists>ps r2. r' = fixProofs n r2 \<and>
          uids r2 = base @ tmp \<and> counters r2 = cbase @ drop k (counters r) \<and> proofs r2 = ps \<and>
          (if q \<noteq> 0 then xor_back (last (proofs r)) (butlast (proofs r) @ p) = Inr ps
           else ps = butlast (proofs r) @ p @ [last (proofs r)])
        else uids r' = base @ NOID # tmp \<and> counters r' = cbase @ 0 # drop k (counters r) \<and>
          proofs r' = butlast (proofs r) @ p @ [last (proofs r)]"
    using mergeReport_open [OF open_group assms]
    unfolding tmp_def k_def base_def cbase_def q_def by blast
  have "report_ok n r' \<and> rview r' = view_add (rview r) (report_view u c p)"
  proof (cases "q + length tmp \<le> n")
    case True
    with r' obtain ps r2 where r2: "r' = fixProofs n r2" "uids r2 = base @ tmp"
        "counters r2 = cbase @ drop k (counters r)" "proofs r2 = ps"
      and ps: "if q \<noteq> 0 then xor_back (last (proofs r)) (butlast (proofs r) @ p) = Inr ps
           else ps = butlast (proofs r) @ p @ [last (proofs r)]" by auto
    have x: "ps \<noteq> [] \<and> xorall ps = xorall (proofs r) XOR xorall p"
      using ps xorall_butlast [OF ne(1)]
      by (auto simp: ac_simps dest: xor_back_total split: if_splits)
    then show ?thesis
      using merged_fits [OF r2(2,3) _ tmp(1,2) bb _ lb lt assms(3)] True r2 recs
      by (simp add: report_view_def view_add_def q_def)
  next
    case False
    with r' have r'': "uids r' = base @ NOID # tmp" "counters r' = cbase @ 0 # drop k (counters r)"
      "proofs r' = butlast (proofs r) @ p @ [last (proofs r)]" by auto
    have "xorall (proofs r') = xorall (proofs r) XOR xorall p"
      using r'' xorall_butlast [OF ne(1)] by (simp add: ac_simps)
    then show ?thesis
      using merged_overflows [OF r''(1,2) _ tmp(1,3) bb lb lt] r''(3) recs
      by (simp add: report_view_def view_add_def)
  qed
  with m show ?thesis by blast
qed

text \<open>
  C5. Merging a child's well-formed report into a well-formed report returns a well-formed
  report: no record is lost, invented or duplicated, the exclusive or of all proofs is the
  exclusive or of both, there is a counter per entry, and no group exceeds \<open>n\<close> records.
\<close>

theorem mergeReport_correct:
  assumes "report_ok n r" and "wire_ok n u c p" and "0 < n"
  shows "\<exists>r'. mergeReport n u c p r = Inr r' \<and>
    mset (records (uids r') (counters r')) = mset (records (uids r) (counters r)) + mset (records u c) \<and>
    xorall (proofs r') = xorall (proofs r) XOR xorall p \<and>
    length (counters r') = length (uids r') \<and> bounded n (uids r')"
  using mergeReport_ok [OF assms]
  by (auto simp: report_view_def view_add_def report_ok_def wire_ok_def)

theorem mergeReport_correct_witness:
  "\<exists>r'. mergeReport 2 [7, 0, 8] [1, 0, 2] [3, 4]
      \<lparr>uids = [5], counters = [9], proofs = [6], tid = 0, rsize = 1, sepsize = 0\<rparr> = Inr r' \<and>
    mset (records (uids r') (counters r')) = {#(7, 1), (8, 2), (5, 9)#} \<and>
    length (counters r') = length (uids r') \<and> bounded 2 (uids r')"
  using mergeReport_correct
    [of 2 "\<lparr>uids = [5], counters = [9], proofs = [6], tid = 0, rsize = 1, sepsize = 0\<rparr>"
      "[7, 0, 8]" "[1, 0, 2]" "[3, 4]"]
  by (auto simp: report_ok_def wire_ok_def bounded_def records_def NOID_def lastrun_def)

section \<open>Merging any number of reports\<close>

text \<open>
  What the collecting phase relies on: merging keeps the invariant and adds up the views.
  Any number of merges then returns, and the order in which reports arrive does not matter.
\<close>

fun merge_all :: "('u \<Rightarrow> 'r \<Rightarrow> 'r result) \<Rightarrow> 'u list \<Rightarrow> 'r \<Rightarrow> 'r result" where
  "merge_all merge [] r = Inr r"
| "merge_all merge (u # us) r = rbind (merge u r) (merge_all merge us)"

locale aggregation =
  fixes merge :: "'u \<Rightarrow> 'r \<Rightarrow> 'r result"
    and view :: "'r \<Rightarrow> 'v" and uview :: "'u \<Rightarrow> 'v" and add :: "'v \<Rightarrow> 'v \<Rightarrow> 'v"
    and inv :: "'r \<Rightarrow> bool" and uok :: "'u \<Rightarrow> bool"
  assumes merge_ok: "inv r \<Longrightarrow> uok u \<Longrightarrow>
      \<exists>r'. merge u r = Inr r' \<and> inv r' \<and> view r' = add (view r) (uview u)"
    and add_left_comm: "add (add x y) z = add (add x z) y"
begin

lemma merge_all_ok:
  "inv r \<Longrightarrow> \<forall>u \<in> set us. uok u \<Longrightarrow>
    \<exists>r'. merge_all merge us r = Inr r' \<and> inv r' \<and> view r' = foldl add (view r) (map uview us)"
proof (induction us arbitrary: r)
  case (Cons u us)
  then obtain r1 where "merge u r = Inr r1" "inv r1" "view r1 = add (view r) (uview u)"
    using merge_ok by (metis list.set_intros(1))
  with Cons.IH [of r1] Cons.prems show ?case by auto
qed simp

lemma foldl_add_perm: "mset xs = mset ys \<Longrightarrow> foldl add v xs = foldl add v ys"
proof -
  assume "mset xs = mset ys"
  then have "fold (\<lambda>x v. add v x) xs = fold (\<lambda>x v. add v x) ys"
    by (intro fold_multiset_equiv) (auto simp: fun_eq_iff add_left_comm)
  then show ?thesis by (simp add: foldl_conv_fold)
qed

lemma merge_order:
  assumes "inv r" and "\<forall>u \<in> set us. uok u" and "mset us = mset vs"
  shows "\<exists>r1 r2. merge_all merge us r = Inr r1 \<and> merge_all merge vs r = Inr r2 \<and> view r1 = view r2"
proof -
  from assms(2,3) have "\<forall>u \<in> set vs. uok u" by (metis set_mset_mset)
  moreover from assms(3) have "mset (map uview us) = mset (map uview vs)" by simp
  ultimately show ?thesis
    using merge_all_ok [OF assms(1)] assms(2) foldl_add_perm by metis
qed

end

text \<open>A report on the wire: the three arrays of an \<open>UpdateReq\<close>.\<close>

type_synonym wire = "uid_t list \<times> nat list \<times> mac_t list"

definition merge_wire :: "nat \<Rightarrow> wire \<Rightarrow> report_t \<Rightarrow> report_t result" where
  "merge_wire n = (\<lambda>(u, c, p). mergeReport n u c p)"

definition wire_view :: "wire \<Rightarrow> (uid_t \<times> nat) multiset \<times> mac_t" where
  "wire_view = (\<lambda>(u, c, p). report_view u c p)"

interpretation reports: aggregation "merge_wire (Suc m)" rview wire_view view_add
    "report_ok (Suc m)" "\<lambda>(u, c, p). wire_ok (Suc m) u c p" for m
proof unfold_locales
  fix r and u :: wire
  assume "report_ok (Suc m) r" and "case u of (u, c, p) \<Rightarrow> wire_ok (Suc m) u c p"
  then show "\<exists>r'. merge_wire (Suc m) u r = Inr r' \<and> report_ok (Suc m) r' \<and>
      rview r' = view_add (rview r) (wire_view u)"
    using mergeReport_ok [of "Suc m" r] by (cases u) (auto simp: merge_wire_def wire_view_def)
qed (auto simp: view_add_def ac_simps)

lemma foldl_view_add: "foldl view_add v (map wire_view ws) =
  (fst v + (\<Sum>w \<leftarrow> ws. mset (records (fst w) (fst (snd w)))),
   snd v XOR xorall (concat (map (\<lambda>w. snd (snd w)) ws)))"
  by (induction ws arbitrary: v)
     (auto simp: view_add_def wire_view_def report_view_def ac_simps split: prod.splits)

text \<open>
  C9. A prover that starts from an empty report, merges the well-formed reports of its
  children in the order they arrive and then adds its own record returns a report whose
  records are exactly those of all children and its own one, whose proof total is the
  exclusive or of all received proofs, and in which no group exceeds \<open>aggsize\<close> records.
\<close>

theorem collect_and_report:
  assumes "0 < n" and "UId \<noteq> NOID" and "\<forall>(u, c, p) \<in> set ws. wire_ok n u c p"
  shows "\<exists>r r'. merge_all (merge_wire n) ws report0 = Inr r \<and>
    addOwnReport n UId k r = Inr (r', k + 1) \<and> report_ok n r' \<and>
    mset (records (uids r') (counters r')) =
      (\<Sum>w \<leftarrow> ws. mset (records (fst w) (fst (snd w)))) + {#(UId, k + 1)#} \<and>
    xorall (proofs r') = xorall (concat (map (\<lambda>w. snd (snd w)) ws))"
proof -
  obtain m where n: "n = Suc m" using assms(1) by (cases n) auto
  have "report_ok (Suc m) report0" by (simp add: report0_def report_ok_def wire_ok_def)
  then obtain r where r: "merge_all (merge_wire n) ws report0 = Inr r" "report_ok n r"
      "rview r = foldl view_add (rview report0) (map wire_view ws)"
    using reports.merge_all_ok [of m report0 ws] assms(3) n by blast
  obtain r' where r': "addOwnReport n UId k r = Inr (r', k + 1)" "report_ok n r'"
      "records (uids r') (counters r') = records (uids r) (counters r) @ [(UId, k + 1)]"
      "xorall (proofs r') = xorall (proofs r)"
    using addOwnReport_ok [OF r(2) assms(1,2)] by blast
  have "mset (records (uids r) (counters r)) = (\<Sum>w \<leftarrow> ws. mset (records (fst w) (fst (snd w))))"
    and "xorall (proofs r) = xorall (concat (map (\<lambda>w. snd (snd w)) ws))"
    using r(3) by (simp_all add: foldl_view_add report_view_def report0_def)
  with r(1) r' show ?thesis by simp
qed

theorem collect_and_report_witness:
  "\<exists>r r'. merge_all (merge_wire 2) [([7], [1], [3]), ([8], [4], [5])] report0 = Inr r \<and>
    addOwnReport 2 9 0 r = Inr (r', 1) \<and>
    mset (records (uids r') (counters r')) =
      mset (records [7] [1]) + mset (records [8] [4]) + {#(9, 1)#} \<and>
    xorall (proofs r') = xorall [3, 5]"
proof -
  have "\<forall>(u, c, p) \<in> set [([7 :: uid_t], [1 :: nat], [3 :: mac_t]), ([8], [4], [5])]. wire_ok 2 u c p"
    by (simp add: wire_ok_def bounded_def NOID_def lastrun_def)
  from collect_and_report [OF _ _ this, of 9 0] show ?thesis by (auto simp: NOID_def)
qed

text \<open>
  C24. The order in which a prover receives its children's reports does not change what it
  reports: two orders of the same reports give the same records and the same proof total.
\<close>

theorem report_order_irrelevant:
  assumes "0 < n" and "\<forall>(u, c, p) \<in> set ws. wire_ok n u c p" and "mset ws = mset vs"
    and "report_ok n r"
  shows "\<exists>r1 r2. merge_all (merge_wire n) ws r = Inr r1 \<and> merge_all (merge_wire n) vs r = Inr r2 \<and>
    mset (records (uids r1) (counters r1)) = mset (records (uids r2) (counters r2)) \<and>
    xorall (proofs r1) = xorall (proofs r2)"
proof -
  obtain m where "n = Suc m" using assms(1) by (cases n) auto
  with assms reports.merge_order [of m r ws vs] show ?thesis by (auto simp: report_view_def)
qed

theorem report_order_irrelevant_witness:
  "\<exists>r1 r2. merge_all (merge_wire 1) [([7, 0], [1, 0], [3]), ([8, 0], [4, 0], [5])] report0 = Inr r1 \<and>
    merge_all (merge_wire 1) [([8, 0], [4, 0], [5]), ([7, 0], [1, 0], [3])] report0 = Inr r2 \<and>
    mset (records (uids r1) (counters r1)) = mset (records (uids r2) (counters r2)) \<and>
    xorall (proofs r1) = xorall (proofs r2)"
  using report_order_irrelevant [of 1 "[([7, 0], [1, 0], [3]), ([8, 0], [4, 0], [5])]"
      "[([8, 0], [4, 0], [5]), ([7, 0], [1, 0], [3])]" report0]
  by (simp add: wire_ok_def report_ok_def report0_def bounded_def NOID_def lastrun_def add_mset_commute)

section \<open>One proof per group\<close>

text \<open>A report is exact when it carries one aggregated proof for each group with records.\<close>

definition exact :: "uid_t list \<Rightarrow> mac_t list \<Rightarrow> bool" where
  "exact us ps \<longleftrightarrow> length ps = groups us"

lemma length_xor_back: "xor_back m ps = Inr qs \<Longrightarrow> length qs = length ps"
  by (auto simp: xor_back_def split: if_splits)

lemma groups_merged:
  assumes "lastrun NOID (uids r) \<noteq> []"
  defines "k \<equiv> length (uids r) - length (lastrun NOID (uids r))"
  shows "groups (take k (uids r) @ u) + 1 = groups (uids r) + groups u"
  using assms(1) groups_parts [of "uids r"] by (simp add: k_def groups_closed lastrun_take)

text \<open>
  Merging keeps exactness: when the own report and the child's report each carry one
  proof per group, so does the result.
\<close>

theorem mergeReport_exact:
  assumes "report_ok n r" and "wire_ok n u c p" and "0 < n"
    and "exact (uids r) (proofs r)" and "exact u p"
  shows "\<exists>r'. mergeReport n u c p r = Inr r' \<and> exact (uids r') (proofs r')"
proof (cases "lastrun NOID (uids r) = []")
  case True
  then show ?thesis
    using assms by (simp add: mergeReport_closed appendReport_def wire_ok_def exact_def groups_closed)
next
  case False
  let ?tmp = "lastrun NOID (uids r)"
  let ?base = "closed_part (uids r) @ u"
  have "0 < groups (uids r)" by (simp add: groups_parts [of "uids r"] False)
  moreover have "groups (?base @ ?tmp) = groups ?base + (if lastrun NOID ?base = [] then 1 else 0)"
    by (rule groups_open [OF lastrun_no_sep False])
  moreover have "groups (?base @ NOID # ?tmp) = groups ?base + 1"
    by (simp only: groups_sep groups_single [OF lastrun_no_sep False])
  ultimately show ?thesis
    using mergeReport_open [OF False assms(1-3)] groups_merged [OF False, of u] assms(4,5)
    by (auto simp: exact_def dest!: length_xor_back split: if_splits)
qed

text \<open>
  Adding the own record keeps exactness exactly when the test on the total number of
  entries, \<open>uids.size() % aggsize == 0\<close>, agrees with the open group being empty.
\<close>

theorem addOwnReport_exact_iff:
  assumes "report_ok n r" and "0 < n" and "UId \<noteq> NOID" and "exact (uids r) (proofs r)"
  shows "\<exists>r'. addOwnReport n UId c r = Inr (r', c + 1) \<and>
    (exact (uids r') (proofs r') \<longleftrightarrow> (length (uids r) mod n = 0 \<longleftrightarrow> lastrun NOID (uids r) = []))"
proof -
  have "proofs r = [] \<longleftrightarrow> uids r = []" using assms(1) by (simp add: report_ok_def wire_ok_def)
  then show ?thesis
    using assms(2-4) groups_open [of "[UId]" "uids r"]
    by (auto simp: addOwnReport_def Let_def xor_back_def exact_def)
qed

theorem mergeReport_exact_witness:
  "\<exists>r'. mergeReport 2 [7, 0, 8] [1, 0, 2] [3, 4]
      \<lparr>uids = [5], counters = [9], proofs = [6], tid = 0, rsize = 1, sepsize = 0\<rparr> = Inr r' \<and>
    exact (uids r') (proofs r')"
  by (rule mergeReport_exact)
     (simp_all add: report_ok_def wire_ok_def bounded_def exact_def groups_def NOID_def lastrun_def)

theorem addOwnReport_exact_iff_witness:
  "\<exists>r'. addOwnReport 2 4 0 report0 = Inr (r', 0 + 1) \<and>
    (exact (uids r') (proofs r') \<longleftrightarrow>
      (length (uids report0) mod 2 = 0 \<longleftrightarrow> lastrun NOID (uids report0) = []))"
  by (rule addOwnReport_exact_iff)
     (simp_all add: report0_def report_ok_def wire_ok_def exact_def NOID_def)

text \<open>
  With the two group sizes of \<open>omnetpp.ini\<close> the own record is added exactly: with
  \<open>aggsize = 1\<close> always, and with a group size that the report does not reach (999999) as
  long as it has no separator. The result then again satisfies the condition.
\<close>

theorem addOwnReport_exact_configured:
  assumes "report_ok n r" and "UId \<noteq> NOID" and "exact (uids r) (proofs r)"
    and "n = 1 \<or> NOID \<notin> set (uids r) \<and> length (uids r) + 1 < n"
  shows "\<exists>r'. addOwnReport n UId c r = Inr (r', c + 1) \<and> exact (uids r') (proofs r') \<and>
    (n = 1 \<or> NOID \<notin> set (uids r') \<and> length (uids r') = length (uids r) + 1)"
proof -
  have "0 < n" using assms(4) by auto
  have ne: "proofs r = [] \<longleftrightarrow> uids r = []" using assms(1) by (simp add: report_ok_def wire_ok_def)
  have "length (lastrun NOID (uids r)) < n" using assms(1) by (simp add: report_ok_def wire_ok_def)
  then have "length (uids r) mod n = 0 \<longleftrightarrow> lastrun NOID (uids r) = []"
    using assms(4) by (auto simp: lastrun_id)
  then show ?thesis
    using \<open>0 < n\<close> assms(2-4) ne groups_open [of "[UId]" "uids r"] groups_snoc_sep [of "uids r @ [UId]"]
    by (auto simp: addOwnReport_def Let_def xor_back_def exact_def fixProofs_eq lastrun_snoc lastrun_id)
qed

theorem addOwnReport_exact_configured_witness:
  "\<exists>r'. addOwnReport 999999 4 0 report0 = Inr (r', 0 + 1) \<and> exact (uids r') (proofs r') \<and>
    (999999 = (1 :: nat) \<or> NOID \<notin> set (uids r') \<and> length (uids r') = length (uids report0) + 1)"
  by (rule addOwnReport_exact_configured)
     (simp_all add: report0_def report_ok_def wire_ok_def exact_def NOID_def)

text \<open>
  For other group sizes the test goes wrong, because it counts the separators: with
  \<open>aggsize = 2\<close> a prover that merges the reports of two leaves and adds its own record
  sends two groups with a single proof, the own proof folded into the one of a group that
  was already closed.
\<close>

theorem addOwnReport_loses_proof:
  "\<exists>r r'. merge_all (merge_wire 2) [([7], [1], [3]), ([8], [1], [5])] report0 = Inr r \<and>
     exact (uids r) (proofs r) \<and> addOwnReport 2 9 0 r = Inr (r', 1) \<and>
     uids r' = [8, 7, NOID, 9] \<and> groups (uids r') = 2 \<and> length (proofs r') = 1"
  by (simp add: merge_wire_def mergeReport_def appendReport_def addOwnReport_def xor_back_def
      report0_def fixProofs_eq exact_def groups_def NOID_def lastrun_def Let_def)

section \<open>Counting records\<close>

text \<open>The counter \<open>size\<close> of a report that was empty at the start of the simulation.\<close>

definition size_exact :: "report_t \<Rightarrow> bool" where
  "size_exact r \<longleftrightarrow> rsize r = of_nat (length (filter (\<lambda>u. u \<noteq> NOID) (uids r)))"

text \<open>
  \<open>finalizeProofs\<close> (called nowhere) indexes the proofs by the number of records: on the
  report a prover builds from two leaves with \<open>aggsize = 4\<close> it reads past the end.
\<close>

lemma finalizeProofs_out_of_range:
  "finalizeProofs 4 \<lparr>uids = [8, 7, 9], counters = [1, 1, 1], proofs = [6], tid = 1, rsize = 3, sepsize = 0\<rparr>
     = Inl EmptyVector"
  by (simp add: finalizeProofs_def)

end
