(* ===== verification/Lifecycle.thy ===== *)
theory Lifecycle
  imports Fadia_Prelude
begin

text \<open>
  The lifecycle of a network node in INET: the operations of \<open>ModuleOperations.h\<close>, the
  stages a \<open>LifecycleController\<close> runs over the module tree of a node
  (\<open>LifecycleController.cc\<close>), and the \<open>NodeStatus\<close> module that turns them into the state
  of the node. FADIA reaches this code when the battery of a prover is empty.

  A module tree has a number per module. The modules that implement \<open>ILifecycle\<close> are a
  parameter: a function from the number to the handler of an operation stage, on a state
  all modules share. A handler says whether it is done with the stage; the number of one
  that is not goes to the list of pending callbacks.
\<close>

section \<open>Operations and modules\<close>

datatype node_state = UP | DOWN | GOING_UP | GOING_DOWN

datatype operation = ModuleStartOperation | ModuleStopOperation | ModuleCrashOperation

text \<open>The position of \<open>STAGE_LAST\<close> in the enumeration of stages, plus one.\<close>

fun getNumStages :: "operation \<Rightarrow> nat" where
  "getNumStages ModuleStartOperation = 8"
| "getNumStages ModuleStopOperation = 8"
| "getNumStages ModuleCrashOperation = 2"

datatype cModule = Module nat "cModule list"

record lifecycle_operation =
  opkind :: operation
  rootModule :: cModule
  currentStage :: nat
  pendingList :: "nat list"
  insideInitiateOperation :: bool
  operationCompletionCallback :: bool

type_synonym 's subjects = "nat \<Rightarrow> (operation \<Rightarrow> nat \<Rightarrow> 's \<Rightarrow> (bool \<times> 's) result) option"

section \<open>The controller\<close>

text \<open>One module of a stage: its handler, if it has one, and the pending list.\<close>

definition stage_one :: "'s subjects \<Rightarrow> operation \<Rightarrow> nat \<Rightarrow> nat \<Rightarrow> nat list \<times> 's \<Rightarrow> (nat list \<times> 's) result" where
  "stage_one H k n i = (\<lambda>(pending, s).
     case H i of
       None \<Rightarrow> Inr (pending, s)
     | Some h \<Rightarrow> rbind (h k n s) (\<lambda>(done, s'). Inr (if done then pending else pending @ [i], s')))"

fun doOneStage :: "'s subjects \<Rightarrow> operation \<Rightarrow> nat \<Rightarrow> cModule \<Rightarrow> nat list \<times> 's \<Rightarrow> (nat list \<times> 's) result"
  and doSubmodules :: "'s subjects \<Rightarrow> operation \<Rightarrow> nat \<Rightarrow> cModule list \<Rightarrow> nat list \<times> 's \<Rightarrow> (nat list \<times> 's) result"
where
  "doOneStage H k n (Module i ms) p = rbind (stage_one H k n i p) (doSubmodules H k n ms)"
| "doSubmodules H k n [] p = Inr p"
| "doSubmodules H k n (m # ms) p = rbind (doOneStage H k n m p) (doSubmodules H k n ms)"

text \<open>
  The result of \<open>resumeOperation\<close>: whether the operation is done, whether its completion
  callback was invoked, the operation and the shared state.
\<close>

function resumeOperation ::
  "'s subjects \<Rightarrow> lifecycle_operation \<Rightarrow> 's \<Rightarrow> (bool \<times> bool \<times> lifecycle_operation \<times> 's) result" where
  "resumeOperation H p s =
     (if currentStage p < getNumStages (opkind p) then
        rbind (doOneStage H (opkind p) (currentStage p) (rootModule p) (pendingList p, s)) (\<lambda>(pending, s').
        if pending = [] then
          resumeOperation H (p\<lparr>pendingList := [], currentStage := currentStage p + 1\<rparr>) s'
        else Inr (False, False, p\<lparr>pendingList := pending\<rparr>, s'))
      else Inr (True, operationCompletionCallback p \<and> \<not> insideInitiateOperation p, p, s))"
  by pat_completeness auto

termination
  by (relation "measure (\<lambda>(H, p, s). getNumStages (opkind p) - currentStage p)") auto

declare resumeOperation.simps [simp del]

definition initiateOperation ::
  "'s subjects \<Rightarrow> lifecycle_operation \<Rightarrow> bool \<Rightarrow> 's \<Rightarrow> (bool \<times> bool \<times> lifecycle_operation \<times> 's) result" where
  "initiateOperation H p callback s =
     resumeOperation H (p\<lparr>currentStage := 0, operationCompletionCallback := callback,
       insideInitiateOperation := True\<rparr>) s"

text \<open>A pending module reports the end of its stage: \<open>Callback::invoke\<close>.\<close>

definition moduleOperationStageCompleted ::
  "'s subjects \<Rightarrow> nat \<Rightarrow> lifecycle_operation \<Rightarrow> 's \<Rightarrow> (bool \<times> bool \<times> lifecycle_operation \<times> 's) result" where
  "moduleOperationStageCompleted H i p s =
     (if i \<notin> set (pendingList p) then Inl (RuntimeError ''ASSERT: callback not in the pending list'')
      else
        let p' = p\<lparr>pendingList := remove1 i (pendingList p)\<rparr> in
        if pendingList p' = [] then
          resumeOperation H (p'\<lparr>currentStage := currentStage p' + 1, insideInitiateOperation := False\<rparr>) s
        else Inr (False, False, p', s))"

section \<open>The node status\<close>

definition operation_stage ::
  "node_state \<Rightarrow> node_state \<Rightarrow> node_state \<Rightarrow> string \<Rightarrow> nat \<Rightarrow> nat \<Rightarrow> node_state \<Rightarrow> (bool \<times> node_state) result" where
  "operation_stage from during to err numStages opStage state =
     rbind (if opStage = 0 then if state \<noteq> from then Inl (RuntimeError err) else Inr during
            else Inr state) (\<lambda>state.
     rbind (if opStage = numStages - 1
            then if state \<noteq> during then Inl (RuntimeError ''ASSERT'') else Inr to
            else Inr state) (\<lambda>state. Inr (True, state)))"

fun handleOperationStage :: "operation \<Rightarrow> nat \<Rightarrow> node_state \<Rightarrow> (bool \<times> node_state) result" where
  "handleOperationStage ModuleStartOperation opStage state =
     operation_stage DOWN GOING_UP UP ''Current node status is not 'down' at ModuleStartOperation''
       (getNumStages ModuleStartOperation) opStage state"
| "handleOperationStage ModuleStopOperation opStage state =
     operation_stage UP GOING_DOWN DOWN ''Current node status is not 'up' at ModuleStopOperation''
       (getNumStages ModuleStopOperation) opStage state"
| "handleOperationStage ModuleCrashOperation opStage state =
     operation_stage UP GOING_DOWN DOWN ''Current node status is not 'up' at ModuleCrashOperation''
       (getNumStages ModuleCrashOperation) opStage state"

section \<open>A stage visits the tree in preorder\<close>

fun preorder :: "cModule \<Rightarrow> nat list" and preorders :: "cModule list \<Rightarrow> nat list" where
  "preorder (Module i ms) = i # preorders ms"
| "preorders [] = []"
| "preorders (m # ms) = preorder m @ preorders ms"

fun stage_list :: "'s subjects \<Rightarrow> operation \<Rightarrow> nat \<Rightarrow> nat list \<Rightarrow> nat list \<times> 's \<Rightarrow> (nat list \<times> 's) result" where
  "stage_list H k n [] p = Inr p"
| "stage_list H k n (i # is) p = rbind (stage_one H k n i p) (stage_list H k n is)"

lemma stage_list_append:
  "stage_list H k n (is @ js) p = rbind (stage_list H k n is p) (stage_list H k n js)"
  by (induction "is" arbitrary: p) (auto simp: rbind_def split: sum.split)

lemma doOneStage_preorder:
  "doOneStage H k n m p = stage_list H k n (preorder m) p"
  "doSubmodules H k n ms p = stage_list H k n (preorders ms) p"
  by (induction H k n m p and H k n ms p rule: doOneStage_doSubmodules.induct)
     (auto simp: stage_list_append rbind_def split: sum.split)

lemma stage_list_idle: "\<forall>i \<in> set is. H i = None \<Longrightarrow> stage_list H k n is p = Inr p"
  by (induction "is") (auto simp: stage_one_def split: prod.split)

text \<open>A tree with one module that has a handler behaves like that handler.\<close>

lemma stage_list_single:
  assumes "H j = Some h" and "\<And>i. i \<noteq> j \<Longrightarrow> H i = None" and "count_list is j = 1"
  shows "stage_list H k n is ([], s) =
    rbind (h k n s) (\<lambda>(done, s'). Inr (if done then [] else [j], s'))"
proof -
  from assms(3) have "j \<in> set is" by (metis count_notin zero_neq_one)
  then obtain xs ys where split: "is = xs @ j # ys" "j \<notin> set xs" by (metis split_list_first)
  with assms(3) have "count_list ys j = 0" by simp
  then have "j \<notin> set ys" by (simp add: count_list_0_iff)
  with split(2) assms(2) have idle: "\<forall>i \<in> set xs. H i = None" "\<forall>i \<in> set ys. H i = None" by metis+
  have "rbind r (stage_list H k n ys) = r" for r
    using idle(2) by (cases r) (auto simp: stage_list_idle)
  with split(1) idle(1) assms(1) show ?thesis
    by (simp add: stage_list_append stage_list_idle stage_one_def cong: if_cong)
qed

section \<open>Operations of a node\<close>

definition status_only :: "nat \<Rightarrow> node_state subjects" where
  "status_only j = (\<lambda>i. if i = j then Some handleOperationStage else None)"

lemma stage_status_only:
  assumes "count_list (preorder m) j = 1"
  shows "doOneStage (status_only j) k n m ([], s) = rbind (handleOperationStage k n s) (\<lambda>(d, s'). Inr ([], s'))"
proof -
  have "d" if "handleOperationStage k n s = Inr (d, s')" for d s'
    using that by (cases k) (auto simp: operation_stage_def rbind_eq_Inr split: if_splits)
  with stage_list_single [of "status_only j" j handleOperationStage "preorder m" k n s] assms
  show ?thesis
    by (auto simp: doOneStage_preorder status_only_def rbind_def split: sum.split prod.split)
qed

fun state_before :: "operation \<Rightarrow> node_state" where
  "state_before ModuleStartOperation = DOWN"
| "state_before _ = UP"

fun state_during :: "operation \<Rightarrow> node_state" where
  "state_during ModuleStartOperation = GOING_UP"
| "state_during _ = GOING_DOWN"

fun state_after :: "operation \<Rightarrow> node_state" where
  "state_after ModuleStartOperation = UP"
| "state_after _ = DOWN"

lemma handleOperationStage_eq:
  "handleOperationStage k 0 s =
     (if s = state_before k then Inr (True, state_during k)
      else handleOperationStage k 0 s)"
  "0 < n \<Longrightarrow> n < getNumStages k \<Longrightarrow> handleOperationStage k n (state_during k) =
     Inr (True, if n = getNumStages k - 1 then state_after k else state_during k)"
  by (cases k; auto simp: operation_stage_def)+

lemma resume_status_only:
  assumes "count_list (preorder (rootModule p)) j = 1" and "pendingList p = []"
    and "0 < currentStage p" and "currentStage p < getNumStages (opkind p)"
  shows "\<exists>p'. resumeOperation (status_only j) p (state_during (opkind p)) =
    Inr (True, operationCompletionCallback p \<and> \<not> insideInitiateOperation p, p', state_after (opkind p))"
  using assms
proof (induction "getNumStages (opkind p) - currentStage p" arbitrary: p rule: less_induct)
  case less
  let ?q = "p\<lparr>pendingList := [], currentStage := currentStage p + 1\<rparr>"
  let ?s = "if currentStage p = getNumStages (opkind p) - 1
    then state_after (opkind p) else state_during (opkind p)"
  have step: "resumeOperation (status_only j) p (state_during (opkind p)) = resumeOperation (status_only j) ?q ?s"
    using less.prems
    by (subst resumeOperation.simps) (simp add: stage_status_only handleOperationStage_eq(2))
  show ?case
  proof (cases "currentStage p = getNumStages (opkind p) - 1")
    case True
    with less.prems have "\<not> currentStage ?q < getNumStages (opkind ?q)" by simp
    with True show ?thesis unfolding step by (subst resumeOperation.simps) (simp del: not_less)
  next
    case False
    with less.prems have "\<exists>p'. resumeOperation (status_only j) ?q (state_during (opkind ?q)) =
      Inr (True, operationCompletionCallback ?q \<and> \<not> insideInitiateOperation ?q, p', state_after (opkind ?q))"
      by (intro less.hyps) auto
    then show ?thesis unfolding step using False by simp
  qed
qed

lemma initiate_status_only:
  assumes "count_list (preorder (rootModule p)) j = 1" and "pendingList p = []"
  shows "\<exists>p'. initiateOperation (status_only j) p callback (state_before (opkind p)) =
    Inr (True, False, p', state_after (opkind p))"
proof -
  let ?p0 = "p\<lparr>currentStage := 0, operationCompletionCallback := callback, insideInitiateOperation := True\<rparr>"
  let ?p1 = "?p0\<lparr>pendingList := [], currentStage := 1\<rparr>"
  have "1 < getNumStages (opkind p)" by (cases "opkind p") simp_all
  with assms resume_status_only [of ?p1 j] have
    "\<exists>p'. resumeOperation (status_only j) ?p1 (state_during (opkind p)) = Inr (True, False, p', state_after (opkind p))"
    by simp
  with assms \<open>1 < _\<close> show ?thesis
    unfolding initiateOperation_def
    by (subst resumeOperation.simps) (simp add: stage_status_only handleOperationStage_eq(1))
qed

text \<open>
  In a node whose only lifecycle module is its status, an operation runs to its end
  inside \<open>initiateOperation\<close> exactly when the node is in the state the operation starts
  from: then the node is up after a start and down after a stop or a crash. In every
  other state the operation stops with an error, whatever the shape of the module tree.
\<close>

theorem node_operation:
  assumes "count_list (preorder (rootModule p)) j = 1" and "pendingList p = []"
  shows "if s = state_before (opkind p)
    then \<exists>p'. initiateOperation (status_only j) p callback s = Inr (True, False, p', state_after (opkind p))
    else \<exists>e. initiateOperation (status_only j) p callback s = Inl (RuntimeError e)"
proof (cases "s = state_before (opkind p)")
  case True
  with initiate_status_only [OF assms] show ?thesis by simp
next
  case False
  then have "\<exists>e. handleOperationStage (opkind p) 0 s = Inl (RuntimeError e)"
    by (cases "opkind p") (auto simp: operation_stage_def)
  moreover have "0 < getNumStages (opkind p)" by (cases "opkind p") simp_all
  ultimately show ?thesis using False assms
    unfolding initiateOperation_def
    by (subst resumeOperation.simps) (auto simp: stage_status_only)
qed

text \<open>
  However the modules answer, a controller that returns is in one of two situations:
  the operation is done, all its stages were run and no callback is pending; or it waits
  in a stage for at least one callback. The completion callback is invoked only when the
  operation is done, and never from within \<open>initiateOperation\<close>.
\<close>

theorem operation_done_or_pending:
  assumes "resumeOperation H p s = Inr (d, invoked, p', s')"
    and "currentStage p \<le> getNumStages (opkind p)" and "pendingList p = []"
  shows "currentStage p \<le> currentStage p' \<and> opkind p' = opkind p \<and>
    (d \<longrightarrow> currentStage p' = getNumStages (opkind p) \<and> pendingList p' = []) \<and>
    (\<not> d \<longrightarrow> currentStage p' < getNumStages (opkind p) \<and> pendingList p' \<noteq> []) \<and>
    invoked = (d \<and> operationCompletionCallback p \<and> \<not> insideInitiateOperation p)"
  using assms
proof (induction "getNumStages (opkind p) - currentStage p" arbitrary: p s rule: less_induct)
  case less
  show ?case
  proof (cases "currentStage p < getNumStages (opkind p)")
    case True
    with less.prems(1) obtain pending t where
      stage: "doOneStage H (opkind p) (currentStage p) (rootModule p) (pendingList p, s) = Inr (pending, t)"
      and rest: "(if pending = []
        then resumeOperation H (p\<lparr>pendingList := [], currentStage := currentStage p + 1\<rparr>) t
        else Inr (False, False, p\<lparr>pendingList := pending\<rparr>, t)) = Inr (d, invoked, p', s')"
      by (subst (asm) resumeOperation.simps) (auto simp: rbind_eq_Inr)
    show ?thesis
    proof (cases "pending = []")
      case None: True
      let ?q = "p\<lparr>pendingList := [], currentStage := currentStage p + 1\<rparr>"
      have "getNumStages (opkind ?q) - currentStage ?q < getNumStages (opkind p) - currentStage p"
        using True by simp
      from less.hyps [OF this, of t] None rest True show ?thesis by (auto dest: Suc_leD)
    qed (use rest True in auto)
  next
    case False
    with less.prems show ?thesis by (subst (asm) resumeOperation.simps) auto
  qed
qed

definition prover_node :: cModule where
  "prover_node = Module 0 [Module 1 [], Module 2 [], Module 3 [], Module 4 []]"

definition prover_operation :: "operation \<Rightarrow> lifecycle_operation" where
  "prover_operation k = \<lparr>opkind = k, rootModule = prover_node, currentStage = 0, pendingList = [],
     insideInitiateOperation = False, operationCompletionCallback = False\<rparr>"

theorem node_operation_witness:
  "\<exists>p'. initiateOperation (status_only 1) (prover_operation ModuleCrashOperation) False UP = Inr (True, False, p', DOWN)"
  using node_operation [of "prover_operation ModuleCrashOperation" 1 UP False]
  by (simp add: prover_operation_def prover_node_def)

text \<open>A node with a second module that needs time for stage 0 of a crash.\<close>

theorem operation_done_or_pending_witness:
  "\<exists>p'. resumeOperation ((status_only 1)(4 \<mapsto> (\<lambda>k n s. Inr (n \<noteq> 0, s)))) (prover_operation ModuleCrashOperation) UP =
      Inr (False, False, p', GOING_DOWN) \<and> currentStage p' < 2 \<and> pendingList p' \<noteq> []"
proof -
  let ?H = "(status_only 1)(4 \<mapsto> (\<lambda>k n s. Inr (n \<noteq> 0, s)))"
  have "\<exists>p'. resumeOperation ?H (prover_operation ModuleCrashOperation) UP = Inr (False, False, p', GOING_DOWN)"
    by (subst resumeOperation.simps)
       (simp add: prover_operation_def prover_node_def stage_one_def status_only_def operation_stage_def)
  then obtain p' where r: "resumeOperation ?H (prover_operation ModuleCrashOperation) UP = Inr (False, False, p', GOING_DOWN)" ..
  from operation_done_or_pending [OF r] show ?thesis
    using r by (simp add: prover_operation_def)
qed

end
