(* ===== verification/Energy_Storage.thy ===== *)
theory Energy_Storage
  imports Lifecycle
begin

text \<open>
  The battery of a prover: INET's \<open>SimpleEpEnergyStorage\<close> with its base classes
  (\<open>EpEnergyStorageBase\<close>, \<open>EpEnergySourceBase\<close>, \<open>EpEnergySinkBase\<close>,
  \<open>EnergySourceBase\<close>, \<open>EnergySinkBase\<close>).

  Energies are real numbers of joules, powers of watts, times of seconds (rounding is not
  modelled); a \<open>printCapacityStep\<close> of NaN is \<open>None\<close>. Consumers and generators are numbers;
  the power each reports is a parameter. \<open>nodeState\<close> is the state of the containing
  node's \<open>NodeStatus\<close>, \<open>None\<close> outside a network node; the crash of an empty node runs the
  lifecycle operation of \<open>Lifecycle\<close> over the modules of \<open>Prover.ned\<close>. The signals the
  storage emits are not modelled (\<open>SimpleEpEnergyManagement\<close>, the subscriber, is not part
  of a FADIA node).
\<close>

section \<open>The base classes\<close>

text \<open>
  \<open>EnergySourceBase\<close> and \<open>EnergySinkBase\<close> keep lists of consumers and generators; a class that
  inherits from them recomputes its totals, by a virtual method, when a list changes.
\<close>

record energy_base =
  energyConsumers :: "nat list"
  energyGenerators :: "nat list"

record ep_storage_base = energy_base +
  totalPowerConsumption :: real
  totalPowerGeneration :: real

definition sourceAdd :: "('a energy_base_scheme \<Rightarrow> 'b result) \<Rightarrow> nat \<Rightarrow> 'a energy_base_scheme \<Rightarrow> 'b result" where
  "sourceAdd updateTotal c e = updateTotal (e\<lparr>energyConsumers := energyConsumers e @ [c]\<rparr>)"

definition sourceRemove :: "('a energy_base_scheme \<Rightarrow> 'b result) \<Rightarrow> nat \<Rightarrow> 'a energy_base_scheme \<Rightarrow> 'b result" where
  "sourceRemove updateTotal c e =
     (if c \<notin> set (energyConsumers e) then Inl (RuntimeError ''Energy consumer not found'')
      else updateTotal (e\<lparr>energyConsumers := remove1 c (energyConsumers e)\<rparr>))"

definition sinkAdd :: "('a energy_base_scheme \<Rightarrow> 'b result) \<Rightarrow> nat \<Rightarrow> 'a energy_base_scheme \<Rightarrow> 'b result" where
  "sinkAdd updateTotal g e = updateTotal (e\<lparr>energyGenerators := energyGenerators e @ [g]\<rparr>)"

definition sinkRemove :: "('a energy_base_scheme \<Rightarrow> 'b result) \<Rightarrow> nat \<Rightarrow> 'a energy_base_scheme \<Rightarrow> 'b result" where
  "sinkRemove updateTotal g e =
     (if g \<notin> set (energyGenerators e) then Inl (RuntimeError ''Energy generator not found'')
      else updateTotal (e\<lparr>energyGenerators := remove1 g (energyGenerators e)\<rparr>))"

definition computeTotalPowerConsumption :: "(nat \<Rightarrow> real) \<Rightarrow> 'a ep_storage_base_scheme \<Rightarrow> real" where
  "computeTotalPowerConsumption watts e = foldl (\<lambda>sum c. sum + watts c) 0 (energyConsumers e)"

definition computeTotalPowerGeneration :: "(nat \<Rightarrow> real) \<Rightarrow> 'a ep_storage_base_scheme \<Rightarrow> real" where
  "computeTotalPowerGeneration watts e = foldl (\<lambda>sum g. sum + watts g) 0 (energyGenerators e)"

definition newConsumption :: "(nat \<Rightarrow> real) \<Rightarrow> 'a ep_storage_base_scheme \<Rightarrow> 'a ep_storage_base_scheme" where
  "newConsumption watts e = e\<lparr>totalPowerConsumption := computeTotalPowerConsumption watts e\<rparr>"

definition newGeneration :: "(nat \<Rightarrow> real) \<Rightarrow> 'a ep_storage_base_scheme \<Rightarrow> 'a ep_storage_base_scheme" where
  "newGeneration watts e = e\<lparr>totalPowerGeneration := computeTotalPowerGeneration watts e\<rparr>"

section \<open>The storage\<close>

record energy_storage = ep_storage_base +
  nominalCapacity :: real
  residualCapacity :: real
  printCapacityStep :: "real option"
  lastResidualCapacityUpdate :: real
  timerAt :: "real option"
  targetCapacity :: real
  nodeState :: "node_state option"

definition executeNodeOperation :: "real \<Rightarrow> energy_storage \<Rightarrow> energy_storage result" where
  "executeNodeOperation newResidualCapacity e =
     (case nodeState e of
        None \<Rightarrow> Inl NullPointer
      | Some st \<Rightarrow>
          if newResidualCapacity \<le> 0 \<and> st = UP then
            rbind (initiateOperation (status_only 1) (prover_operation ModuleCrashOperation) False st)
              (\<lambda>(d, invoked, p, st'). Inr (e\<lparr>nodeState := Some st'\<rparr>))
          else Inr e)"

definition setResidualCapacity :: "real \<Rightarrow> real \<Rightarrow> energy_storage \<Rightarrow> energy_storage result" where
  "setResidualCapacity now newResidualCapacity e =
     (let e' = e\<lparr>residualCapacity := newResidualCapacity, lastResidualCapacityUpdate := now\<rparr> in
      if nodeState e' \<noteq> None then executeNodeOperation newResidualCapacity e' else Inr e')"

definition updateResidualCapacity :: "real \<Rightarrow> energy_storage \<Rightarrow> energy_storage result" where
  "updateResidualCapacity now e =
     (if now \<noteq> lastResidualCapacityUpdate e then
        let new = residualCapacity e +
              (now - lastResidualCapacityUpdate e) * (totalPowerGeneration e - totalPowerConsumption e)
        in setResidualCapacity now
             (if new < 0 then 0 else if new > nominalCapacity e then nominalCapacity e else new) e
      else Inr e)"

definition getResidualEnergyCapacity :: "real \<Rightarrow> energy_storage \<Rightarrow> (real \<times> energy_storage) result" where
  "getResidualEnergyCapacity now e =
     rbind (updateResidualCapacity now e) (\<lambda>e'. Inr (residualCapacity e', e'))"

text \<open>
  The next value at which the timer fires: the next multiple of the print step in the
  direction of the change, one step further when there is no change to reach it. (Adding
  a step of NaN gives NaN and leads to no timer; here the bound stays, which
  is the residual capacity then, and leads to no timer either.)
\<close>

definition nextTarget :: "energy_storage \<Rightarrow> real" where
  "nextTarget e =
     (let totalPower = totalPowerGeneration e - totalPowerConsumption e; res = residualCapacity e in
      if totalPower > 0 then
        (case printCapacityStep e of
           None \<Rightarrow> nominalCapacity e
         | Some st \<Rightarrow> let t = real_of_int \<lceil>res / st\<rceil> * st in if (t - res) / totalPower = 0 then t + st else t)
      else if totalPower < 0 then
        (case printCapacityStep e of
           None \<Rightarrow> 0
         | Some st \<Rightarrow> let t = real_of_int \<lfloor>res / st\<rfloor> * st in if (t - res) / totalPower = 0 then t - st else t)
      else res)"

definition scheduleTimer :: "real \<Rightarrow> energy_storage \<Rightarrow> energy_storage" where
  "scheduleTimer now e =
     (let totalPower = totalPowerGeneration e - totalPowerConsumption e;
          t = nextTarget e;
          target = (if t < 0 then 0 else if t > nominalCapacity e then nominalCapacity e else t);
          remainingTime = (target - residualCapacity e) / totalPower
      in e\<lparr>targetCapacity := target,
           timerAt := if totalPower \<noteq> 0 \<and> remainingTime > 0 then Some (now + remainingTime) else None\<rparr>)"

text \<open>\<open>handleMessage\<close> for the timer.\<close>

definition handleTimer :: "real \<Rightarrow> energy_storage \<Rightarrow> energy_storage result" where
  "handleTimer now e =
     rbind (setResidualCapacity now (targetCapacity e) (e\<lparr>timerAt := None\<rparr>)) (\<lambda>e'.
     Inr (scheduleTimer now e'))"

section \<open>Consumers and generators\<close>

definition updateTotalPowerConsumption :: "(nat \<Rightarrow> real) \<Rightarrow> real \<Rightarrow> energy_storage \<Rightarrow> energy_storage result" where
  "updateTotalPowerConsumption watts now e =
     rbind (updateResidualCapacity now e) (\<lambda>e'. Inr (scheduleTimer now (newConsumption watts e')))"

definition updateTotalPowerGeneration :: "(nat \<Rightarrow> real) \<Rightarrow> real \<Rightarrow> energy_storage \<Rightarrow> energy_storage result" where
  "updateTotalPowerGeneration watts now e =
     rbind (updateResidualCapacity now e) (\<lambda>e'. Inr (scheduleTimer now (newGeneration watts e')))"

definition energy_initialize ::
  "(nat \<Rightarrow> real) \<Rightarrow> real \<Rightarrow> real \<Rightarrow> real option \<Rightarrow> node_state option \<Rightarrow> real \<Rightarrow> nat list \<Rightarrow> nat list \<Rightarrow> energy_storage result" where
  "energy_initialize watts nominal initial step st now consumers generators =
     (let e = \<lparr>energyConsumers = consumers, energyGenerators = generators, totalPowerConsumption = 0,
               totalPowerGeneration = 0, nominalCapacity = nominal, residualCapacity = 0, printCapacityStep = step,
               lastResidualCapacityUpdate = -1, timerAt = None, targetCapacity = 0, nodeState = st\<rparr>;
          e' = newGeneration watts (newConsumption watts e)
      in rbind (setResidualCapacity now initial e') (\<lambda>e''. Inr (scheduleTimer now e'')))"

section \<open>The storage never fails\<close>

text \<open>
  The abstract storage: the residual capacity is a number in an interval that follows the
  net power, and a node that is up and runs out of energy goes down.
\<close>

definition clamp :: "real \<Rightarrow> real \<Rightarrow> real" where
  "clamp nominal x = (if x < 0 then 0 else if x > nominal then nominal else x)"

definition put_residual :: "real \<Rightarrow> real \<Rightarrow> energy_storage \<Rightarrow> energy_storage" where
  "put_residual now r e = e\<lparr>residualCapacity := r, lastResidualCapacityUpdate := now,
     nodeState := if r \<le> 0 \<and> nodeState e = Some UP then Some DOWN else nodeState e\<rparr>"

definition refresh :: "real \<Rightarrow> energy_storage \<Rightarrow> energy_storage" where
  "refresh now e =
     (if now \<noteq> lastResidualCapacityUpdate e
      then put_residual now (clamp (nominalCapacity e) (residualCapacity e +
             (now - lastResidualCapacityUpdate e) * (totalPowerGeneration e - totalPowerConsumption e))) e
      else e)"

lemma setResidualCapacity_eq [simp]: "setResidualCapacity now r e = Inr (put_residual now r e)"
proof -
  obtain p' where "initiateOperation (status_only 1) (prover_operation ModuleCrashOperation) False UP =
      Inr (True, False, p', DOWN)"
    using initiate_status_only [of "prover_operation ModuleCrashOperation" 1 False]
    by (auto simp: prover_operation_def prover_node_def)
  then show ?thesis
    by (auto simp: setResidualCapacity_def executeNodeOperation_def put_residual_def Let_def
        split: option.split)
qed

lemma updateResidualCapacity_eq [simp]: "updateResidualCapacity now e = Inr (refresh now e)"
  by (simp add: updateResidualCapacity_def refresh_def clamp_def Let_def)

lemma getResidualEnergyCapacity_eq [simp]:
  "getResidualEnergyCapacity now e = Inr (residualCapacity (refresh now e), refresh now e)"
  by (simp add: getResidualEnergyCapacity_def)

text \<open>What \<open>refresh\<close> leaves unchanged.\<close>

lemma refresh_frame [simp]:
  "nominalCapacity (refresh now e) = nominalCapacity e"
  "totalPowerConsumption (refresh now e) = totalPowerConsumption e"
  "totalPowerGeneration (refresh now e) = totalPowerGeneration e"
  "energyConsumers (refresh now e) = energyConsumers e"
  "energyGenerators (refresh now e) = energyGenerators e"
  "timerAt (refresh now e) = timerAt e"
  "targetCapacity (refresh now e) = targetCapacity e"
  "printCapacityStep (refresh now e) = printCapacityStep e"
  "lastResidualCapacityUpdate (refresh now e) = now"
  by (simp_all add: refresh_def put_residual_def)

lemma clamp_range [simp]: "0 \<le> n \<Longrightarrow> 0 \<le> clamp n x \<and> clamp n x \<le> n"
  by (simp add: clamp_def)

lemma clamp_id: "0 \<le> x \<Longrightarrow> x \<le> n \<Longrightarrow> clamp n x = x"
  by (simp add: clamp_def)

section \<open>Capacity stays in its range\<close>

text \<open>
  The ranges the header file documents, and that an armed timer aims at a value in range.
\<close>

definition storage_ok :: "energy_storage \<Rightarrow> bool" where
  "storage_ok e \<longleftrightarrow> 0 \<le> residualCapacity e \<and> residualCapacity e \<le> nominalCapacity e \<and>
     (timerAt e \<noteq> None \<longrightarrow> 0 \<le> targetCapacity e \<and> targetCapacity e \<le> nominalCapacity e)"

lemma storage_ok_refresh [simp]: "storage_ok e \<Longrightarrow> storage_ok (refresh now e)"
  by (auto simp: storage_ok_def refresh_def put_residual_def clamp_def)

lemma storage_ok_schedule:
  "0 \<le> residualCapacity e \<Longrightarrow> residualCapacity e \<le> nominalCapacity e \<Longrightarrow> storage_ok (scheduleTimer now e)"
  by (auto simp: storage_ok_def scheduleTimer_def Let_def)

lemma storage_okD: "storage_ok e \<Longrightarrow> 0 \<le> residualCapacity e \<and> residualCapacity e \<le> nominalCapacity e"
  by (simp add: storage_ok_def)

datatype storage_op =
    Query
  | Timer
  | SetConsumption real
  | ConsumptionChanged
  | GenerationChanged
  | AddConsumer nat
  | RemoveConsumer nat
  | AddGenerator nat
  | RemoveGenerator nat

text \<open>
  The operations on a storage: the queries and timer, the changes its consumers and
  generators signal, and the one FADIA makes (write a new power after an update). The
  timer runs only when it is armed.
\<close>

fun storage_step :: "(nat \<Rightarrow> real) \<Rightarrow> real \<Rightarrow> storage_op \<Rightarrow> energy_storage \<Rightarrow> energy_storage result" where
  "storage_step watts now Query e = map_sum id snd (getResidualEnergyCapacity now e)"
| "storage_step watts now Timer e = (if timerAt e = Some now then handleTimer now e else Inr e)"
| "storage_step watts now (SetConsumption w) e =
     rbind (updateResidualCapacity now e) (\<lambda>e'. Inr (e'\<lparr>totalPowerConsumption := w\<rparr>))"
| "storage_step watts now ConsumptionChanged e = updateTotalPowerConsumption watts now e"
| "storage_step watts now GenerationChanged e = updateTotalPowerGeneration watts now e"
| "storage_step watts now (AddConsumer c) e = sourceAdd (updateTotalPowerConsumption watts now) c e"
| "storage_step watts now (RemoveConsumer c) e = sourceRemove (updateTotalPowerConsumption watts now) c e"
| "storage_step watts now (AddGenerator g) e = sinkAdd (updateTotalPowerGeneration watts now) g e"
| "storage_step watts now (RemoveGenerator g) e = sinkRemove (updateTotalPowerGeneration watts now) g e"

fun storage_run :: "(nat \<Rightarrow> real) \<Rightarrow> (real \<times> storage_op) list \<Rightarrow> energy_storage \<Rightarrow> energy_storage result" where
  "storage_run watts [] e = Inr e"
| "storage_run watts ((now, x) # xs) e = rbind (storage_step watts now x e) (storage_run watts xs)"

lemma storage_ok_setConsumption [simp]: "storage_ok (e\<lparr>totalPowerConsumption := w\<rparr>) = storage_ok e"
  and storage_ok_setGeneration [simp]: "storage_ok (e\<lparr>totalPowerGeneration := w\<rparr>) = storage_ok e"
  and storage_ok_setConsumers [simp]: "storage_ok (e\<lparr>energyConsumers := cs\<rparr>) = storage_ok e"
  and storage_ok_setGenerators [simp]: "storage_ok (e\<lparr>energyGenerators := cs\<rparr>) = storage_ok e"
  by (simp_all add: storage_ok_def)

lemma storage_ok_scheduled [simp]: "storage_ok e \<Longrightarrow> storage_ok (scheduleTimer now e)"
  by (simp add: storage_ok_schedule storage_okD)

lemma storage_ok_put:
  "storage_ok e \<Longrightarrow> timerAt e \<noteq> None \<Longrightarrow>
    storage_ok (scheduleTimer now (put_residual now (targetCapacity e) (e\<lparr>timerAt := None\<rparr>)))"
  by (rule storage_ok_schedule) (auto simp: storage_ok_def put_residual_def)

lemma storage_step_ok:
  "storage_ok e \<Longrightarrow> storage_step watts now x e = Inr e' \<Longrightarrow> storage_ok e'"
  by (cases x) (auto simp: updateTotalPowerConsumption_def updateTotalPowerGeneration_def newConsumption_def newGeneration_def
      sourceAdd_def sinkAdd_def sourceRemove_def sinkRemove_def
      handleTimer_def storage_ok_put split: if_splits)

text \<open>
  C16. A storage that starts with a charge between 0 and its nominal capacity keeps its
  residual capacity in this range for every sequence of operations at any times.
\<close>

theorem capacity_in_range:
  assumes "0 \<le> initial" and "initial \<le> nominal"
    and "energy_initialize watts nominal initial step st now cs gs = Inr e"
    and "storage_run watts xs e = Inr e'"
  shows "0 \<le> residualCapacity e' \<and> residualCapacity e' \<le> nominalCapacity e'"
proof -
  have run: "storage_ok a \<Longrightarrow> storage_run watts xs a = Inr b \<Longrightarrow> storage_ok b" for a b
    by (induction watts xs a rule: storage_run.induct) (auto simp: rbind_eq_Inr dest: storage_step_ok)
  from assms(1-3) have "storage_ok e"
    by (auto simp: energy_initialize_def newConsumption_def newGeneration_def put_residual_def Let_def intro!: storage_ok_schedule)
  with run assms(4) show ?thesis using storage_okD by blast
qed

theorem capacity_in_range_witness:
  "\<exists>e e'. energy_initialize (\<lambda>_. 1) 10 4 None (Some UP) 0 [] [] = Inr e \<and>
     storage_run (\<lambda>_. 1) [(1, SetConsumption 3), (5, Query)] e = Inr e' \<and>
     0 \<le> residualCapacity e' \<and> residualCapacity e' \<le> nominalCapacity e' \<and> nodeState e' = Some DOWN"
proof -
  obtain e where e: "energy_initialize (\<lambda>_. 1) 10 4 None (Some UP) 0 [] [] = Inr e"
    by (simp add: energy_initialize_def Let_def)
  obtain e' where e': "storage_run (\<lambda>_. 1) [(1, SetConsumption 3), (5, Query)] e = Inr e'" by simp
  have "nodeState e' = Some DOWN"
    using e e' by (auto simp: energy_initialize_def newConsumption_def newGeneration_def put_residual_def scheduleTimer_def nextTarget_def
        computeTotalPowerConsumption_def computeTotalPowerGeneration_def refresh_def clamp_def)
  with capacity_in_range [OF _ _ e e'] e e' show ?thesis by auto
qed

section \<open>Polling and the timer\<close>

lemma clamp_path:
  assumes "0 \<le> r" and "r \<le> n" and "0 \<le> a" and "0 \<le> b"
  shows "clamp n (clamp n (r + a * p) + b * p) = clamp n (r + (a + b) * p)"
proof (cases "0 \<le> p")
  case True
  with assms have "0 \<le> a * p" "0 \<le> b * p" by simp_all
  with assms show ?thesis by (auto simp: clamp_def algebra_simps)
next
  case False
  with assms have "a * p \<le> 0" "b * p \<le> 0" by (simp_all add: mult_nonneg_nonpos)
  with assms show ?thesis by (auto simp: clamp_def algebra_simps)
qed

text \<open>
  What INET's stores of energy and of charge have in common: a level between 0 and a capacity
  that was brought up to date at some time and changes at a rate since then. \<open>forecast\<close> is
  the level at a later time as long as the rate stays the same.
\<close>

locale integrator =
  fixes level :: "'s \<Rightarrow> real" and capacity :: "'s \<Rightarrow> real" and rate :: "'s \<Rightarrow> real" and seen :: "'s \<Rightarrow> real"
    and advance :: "real \<Rightarrow> 's \<Rightarrow> 's"
  assumes advance_level: "t \<noteq> seen s \<Longrightarrow> level (advance t s) = clamp (capacity s) (level s + (t - seen s) * rate s)"
    and advance_same: "advance (seen s) s = s"
    and advance_frame: "capacity (advance t s) = capacity s" "rate (advance t s) = rate s" "seen (advance t s) = t"
begin

definition forecast :: "'s \<Rightarrow> real \<Rightarrow> real" where
  "forecast s t = clamp (capacity s) (level s + (t - seen s) * rate s)"

definition filled :: "'s \<Rightarrow> bool" where
  "filled s \<longleftrightarrow> 0 \<le> level s \<and> level s \<le> capacity s"

lemma forecast_now: "filled s \<Longrightarrow> forecast s (seen s) = level s"
  by (simp add: forecast_def filled_def clamp_id)

lemma level_advance: "filled s \<Longrightarrow> level (advance t s) = forecast s t"
  by (cases "t = seen s") (simp_all add: advance_same forecast_now, simp add: advance_level forecast_def)

lemma filled_advance: "filled s \<Longrightarrow> filled (advance t s)"
  by (cases "t = seen s") (auto simp: advance_same filled_def advance_level advance_frame clamp_def)

lemma forecast_advance:
  assumes "filled s" and "seen s \<le> t" and "t \<le> u"
  shows "forecast (advance t s) u = forecast s u"
proof -
  have "forecast (advance t s) u = clamp (capacity s) (forecast s t + (u - t) * rate s)"
    using assms(1) by (simp add: forecast_def advance_frame level_advance)
  also have "\<dots> = forecast s u"
    using clamp_path [of "level s" "capacity s" "t - seen s" "u - t" "rate s"] assms by (simp add: forecast_def filled_def)
  finally show ?thesis .
qed

lemma advance_advance:
  "filled s \<Longrightarrow> seen s \<le> t \<Longrightarrow> t \<le> u \<Longrightarrow> level (advance u (advance t s)) = level (advance u s)"
  by (simp add: level_advance filled_advance forecast_advance)

text \<open>A level above a bound stays above it until the rate has used up the difference, and dually.\<close>

lemma forecast_above:
  assumes "filled s" and "0 \<le> b" and "b < level s" and "seen s \<le> t" and "forecast s t \<le> b"
  shows "rate s < 0 \<and> seen s + (b - level s) / rate s \<le> t"
proof -
  let ?x = "level s + (t - seen s) * rate s"
  have "?x \<le> b" using assms by (auto simp: forecast_def filled_def clamp_def split: if_splits)
  then have neg: "(t - seen s) * rate s \<le> b - level s" by simp
  then have "rate s < 0" using assms(3,4) by (smt (verit) mult_nonneg_nonneg)
  moreover have "(b - level s) / rate s \<le> t - seen s"
    using neg \<open>rate s < 0\<close> by (simp add: neg_divide_le_eq)
  ultimately show ?thesis by simp
qed

lemma forecast_below:
  assumes "filled s" and "b \<le> capacity s" and "level s < b" and "seen s \<le> t" and "b \<le> forecast s t"
  shows "0 < rate s \<and> seen s + (b - level s) / rate s \<le> t"
proof -
  let ?x = "level s + (t - seen s) * rate s"
  have "b \<le> ?x" using assms by (auto simp: forecast_def filled_def clamp_def split: if_splits)
  then have pos: "b - level s \<le> (t - seen s) * rate s" by simp
  then have "0 < rate s" using assms(3,4) by (smt (verit) mult_nonneg_nonpos)
  moreover have "(b - level s) / rate s \<le> t - seen s"
    using pos \<open>0 < rate s\<close> by (simp add: pos_divide_le_eq)
  ultimately show ?thesis by simp
qed

lemma forecast_reaches:
  assumes "filled s" and "rate s \<noteq> 0" and "0 \<le> b" and "b \<le> capacity s" and "seen s + (b - level s) / rate s \<le> t"
  shows "if rate s < 0 then forecast s t \<le> b else b \<le> forecast s t"
proof -
  have d: "(b - level s) / rate s \<le> t - seen s" using assms(5) by simp
  show ?thesis
  proof (cases "rate s < 0")
    case True
    then have "level s + (t - seen s) * rate s \<le> b" using d by (simp add: neg_divide_le_eq)
    with True assms(3,4) show ?thesis by (simp add: forecast_def clamp_def)
  next
    case False
    then have "b \<le> level s + (t - seen s) * rate s" using d assms(2) by (simp add: pos_divide_le_eq)
    with False assms(3,4) show ?thesis by (simp add: forecast_def clamp_def)
  qed
qed

end

abbreviation net_power :: "energy_storage \<Rightarrow> real" where
  "net_power e \<equiv> totalPowerGeneration e - totalPowerConsumption e"

interpretation ep: integrator residualCapacity nominalCapacity net_power lastResidualCapacityUpdate refresh
  by unfold_locales (simp_all, simp_all add: refresh_def put_residual_def)

lemma storage_ok_filled: "storage_ok e \<Longrightarrow> ep.filled e"
  by (simp add: storage_ok_def ep.filled_def)

text \<open>
  Polling is harmless: reading the battery at any time between two updates does not
  change the later reading, as long as the power stays the same. The accounting of energy
  does not depend on how often it is brought up to date.
\<close>

theorem polling_harmless:
  assumes "storage_ok e" and "lastResidualCapacityUpdate e \<le> t" and "t \<le> u"
    and "updateResidualCapacity t e = Inr e1"
    and "updateResidualCapacity u e1 = Inr e2" and "updateResidualCapacity u e = Inr e3"
  shows "residualCapacity e2 = residualCapacity e3"
  using assms ep.advance_advance [OF storage_ok_filled] by auto

definition battery :: energy_storage where
  "battery = \<lparr>energyConsumers = [], energyGenerators = [], totalPowerConsumption = 2, totalPowerGeneration = 0,
     nominalCapacity = 10, residualCapacity = 4, printCapacityStep = None,
     lastResidualCapacityUpdate = 0, timerAt = None, targetCapacity = 0, nodeState = Some UP\<rparr>"

theorem polling_harmless_witness:
  "\<exists>e1 e2 e3. updateResidualCapacity 1 battery = Inr e1 \<and> updateResidualCapacity 3 e1 = Inr e2 \<and>
     updateResidualCapacity 3 battery = Inr e3 \<and> residualCapacity e2 = residualCapacity e3"
proof -
  have "storage_ok battery" "lastResidualCapacityUpdate battery \<le> 1"
    by (simp_all add: battery_def storage_ok_def)
  from polling_harmless [OF this, of 3 "refresh 1 battery" "refresh 3 (refresh 1 battery)" "refresh 3 battery"]
  show ?thesis by simp
qed

text \<open>What \<open>scheduleTimer\<close> leaves unchanged, and the charge at the time it arms the timer for.\<close>

lemma schedule_frame [simp]:
  "residualCapacity (scheduleTimer now e) = residualCapacity e"
  "nominalCapacity (scheduleTimer now e) = nominalCapacity e"
  "lastResidualCapacityUpdate (scheduleTimer now e) = lastResidualCapacityUpdate e"
  "totalPowerConsumption (scheduleTimer now e) = totalPowerConsumption e"
  "totalPowerGeneration (scheduleTimer now e) = totalPowerGeneration e"
  "nodeState (scheduleTimer now e) = nodeState e"
  "energyConsumers (scheduleTimer now e) = energyConsumers e"
  "energyGenerators (scheduleTimer now e) = energyGenerators e"
  by (simp_all add: scheduleTimer_def Let_def)

lemma schedule_forecast:
  assumes "storage_ok e" and "lastResidualCapacityUpdate e = now" and "timerAt (scheduleTimer now e) = Some t"
  shows "now < t" and "ep.forecast (scheduleTimer now e) t = targetCapacity (scheduleTimer now e)"
proof -
  let ?e = "scheduleTimer now e"
  from assms(3) have p: "net_power e \<noteq> 0" "0 < (targetCapacity ?e - residualCapacity e) / net_power e"
    and t: "t = now + (targetCapacity ?e - residualCapacity e) / net_power e"
    by (auto simp: scheduleTimer_def Let_def split: if_splits)
  from p(2) t show "now < t" by linarith
  have "residualCapacity e + (t - now) * net_power e = targetCapacity ?e" using p(1) t by simp
  moreover have "clamp (nominalCapacity e) (targetCapacity ?e) = targetCapacity ?e"
    using storage_ok_scheduled [OF assms(1), of now] assms(3) by (simp add: storage_ok_def clamp_id)
  ultimately show "ep.forecast ?e t = targetCapacity ?e" using assms(2) by (simp add: ep.forecast_def)
qed

lemma refresh_forecast: "refresh t e = (if t = lastResidualCapacityUpdate e then e else put_residual t (ep.forecast e t) e)"
  by (simp add: refresh_def ep.forecast_def)

text \<open>
  The timer fires at the right time: when \<open>scheduleTimer\<close> arms it, the target value it
  will store then is exactly the charge the accounting gives at that time. Consequently
  \<open>handleTimer\<close> and \<open>updateResidualCapacity\<close> agree on the residual capacity there,
  provided that the power did not change in between.
\<close>

theorem timer_on_time:
  assumes "storage_ok e" and "lastResidualCapacityUpdate e = now"
    and "timerAt (scheduleTimer now e) = Some t"
  shows "now < t \<and> (\<exists>e1 e2. handleTimer t (scheduleTimer now e) = Inr e1 \<and>
    updateResidualCapacity t (scheduleTimer now e) = Inr e2 \<and>
    residualCapacity e1 = residualCapacity e2 \<and> nodeState e1 = nodeState e2)"
proof -
  let ?e = "scheduleTimer now e"
  have "now < t" "refresh t ?e = put_residual t (targetCapacity ?e) ?e"
    using schedule_forecast [OF assms] assms(2) by (auto simp: refresh_forecast)
  then show ?thesis by (simp add: handleTimer_def) (simp add: put_residual_def)
qed

theorem timer_on_time_witness:
  "(0::real) < 2 \<and> (\<exists>e1 e2. handleTimer 2 (scheduleTimer 0 battery) = Inr e1 \<and>
    updateResidualCapacity 2 (scheduleTimer 0 battery) = Inr e2 \<and>
    residualCapacity e1 = residualCapacity e2 \<and> nodeState e1 = nodeState e2)"
  by (rule timer_on_time) (simp_all add: battery_def storage_ok_def scheduleTimer_def nextTarget_def)

text \<open>Consumers and generators: the totals are the sums over those registered.\<close>

lemma computeTotalPowerConsumption_sum:
  "computeTotalPowerConsumption watts e = sum_list (map watts (energyConsumers e))"
proof -
  have "foldl (\<lambda>sum c. sum + watts c) a xs = a + sum_list (map watts xs)" for a xs
    by (induction xs arbitrary: a) auto
  then show ?thesis by (simp add: computeTotalPowerConsumption_def)
qed

lemma add_remove_consumer:
  assumes "sourceAdd (updateTotalPowerConsumption watts now) c e = Inr e1" and "sourceRemove (updateTotalPowerConsumption watts now) c e1 = Inr e2"
    and "totalPowerConsumption e = computeTotalPowerConsumption watts e"
  shows "totalPowerConsumption e2 = totalPowerConsumption e"
proof -
  have rem: "sum_list (map watts (remove1 c (xs @ [c]))) = sum_list (map watts xs)" for xs
    by (induction xs) auto
  from assms show ?thesis
    by (auto simp: sourceAdd_def sourceRemove_def updateTotalPowerConsumption_def newConsumption_def
        computeTotalPowerConsumption_sum rem split: if_splits)
qed

end
