(* ===== verification/Coord.thy ===== *)
theory Coord
  imports Complex_Main
begin

text \<open>
  Positions: INET's \<open>Coord\<close> (\<open>Coord.h\<close>, \<open>Coord.cc\<close>) with the helpers it takes from
  \<open>INETMath.h\<close>. Doubles are real numbers. The members that change the object in place
  (\<open>operator+=\<close> and the like) and the ones that return a changed copy are one function
  here: it returns the new value.
\<close>

section \<open>Helpers (INETMath.h)\<close>

definition modulo_real :: "real \<Rightarrow> real \<Rightarrow> real" where
  "modulo_real a n = a - n * real_of_int \<lfloor>a / n\<rfloor>"

definition close_real :: "real \<Rightarrow> real \<Rightarrow> bool" where
  "close_real one two = (\<bar>one - two\<bar> < 0.001)"

definition clamp_real :: "real \<Rightarrow> real \<Rightarrow> real \<Rightarrow> real" where
  "clamp_real v l u = (if v < l then l else if v > u then u else v)"

definition sign_real :: "real \<Rightarrow> real" where
  "sign_real v = (if 0 < v then 1 else 0) - (if v < 0 then 1 else 0)"

definition step_real :: "real \<Rightarrow> real \<Rightarrow> real" where
  "step_real a b = (if b < a then 0 else 1)"

definition minnan :: "real \<Rightarrow> real \<Rightarrow> real" where
  "minnan a b = (if a < b then a else if b < a then b else a)"

section \<open>Coordinates\<close>

record coord =
  cx :: real
  cy :: real
  cz :: real

definition mkCoord :: "real \<Rightarrow> real \<Rightarrow> real \<Rightarrow> coord" where
  "mkCoord x y z = \<lparr>cx = x, cy = y, cz = z\<rparr>"

definition coord_ZERO :: coord where
  "coord_ZERO = mkCoord 0 0 0"

definition coord_yzx :: "coord \<Rightarrow> coord" where
  "coord_yzx a = mkCoord (cy a) (cz a) (cx a)"

definition coord_zxy :: "coord \<Rightarrow> coord" where
  "coord_zxy a = mkCoord (cz a) (cx a) (cy a)"

definition coord_neg :: "coord \<Rightarrow> coord" where
  "coord_neg a = mkCoord (- cx a) (- cy a) (- cz a)"

definition coord_mult :: "coord \<Rightarrow> real \<Rightarrow> coord" where
  "coord_mult a f = mkCoord (cx a * f) (cy a * f) (cz a * f)"

definition coord_div :: "coord \<Rightarrow> real \<Rightarrow> coord" where
  "coord_div a f = mkCoord (cx a / f) (cy a / f) (cz a / f)"

definition coord_add :: "coord \<Rightarrow> coord \<Rightarrow> coord" where
  "coord_add a b = mkCoord (cx a + cx b) (cy a + cy b) (cz a + cz b)"

definition coord_sub :: "coord \<Rightarrow> coord \<Rightarrow> coord" where
  "coord_sub a b = mkCoord (cx a - cx b) (cy a - cy b) (cz a - cz b)"

definition coord_dot :: "coord \<Rightarrow> coord \<Rightarrow> real" where
  "coord_dot a v = cx a * cx v + cy a * cy v + cz a * cz v"

definition coord_cross :: "coord \<Rightarrow> coord \<Rightarrow> coord" where
  "coord_cross a v = mkCoord (cy a * cz v - cz a * cy v) (cz a * cx v - cx a * cz v) (cx a * cy v - cy a * cx v)"

definition coord_eq :: "coord \<Rightarrow> coord \<Rightarrow> bool" where
  "coord_eq a b \<longleftrightarrow> close_real (cx a) (cx b) \<and> close_real (cy a) (cy b) \<and> close_real (cz a) (cz b)"

definition coord_clamp :: "coord \<Rightarrow> real \<Rightarrow> real \<Rightarrow> coord" where
  "coord_clamp a l u = mkCoord (clamp_real (cx a) l u) (clamp_real (cy a) l u) (clamp_real (cz a) l u)"

definition coord_sign :: "coord \<Rightarrow> coord" where
  "coord_sign a = mkCoord (sign_real (cx a)) (sign_real (cy a)) (sign_real (cz a))"

definition coord_abs :: "coord \<Rightarrow> coord" where
  "coord_abs a = mkCoord \<bar>cx a\<bar> \<bar>cy a\<bar> \<bar>cz a\<bar>"

definition coord_step :: "coord \<Rightarrow> coord \<Rightarrow> coord" where
  "coord_step a b = mkCoord (step_real (cx a) (cx b)) (step_real (cy a) (cy b)) (step_real (cz a) (cz b))"

definition divideElementwise :: "coord \<Rightarrow> coord \<Rightarrow> coord" where
  "divideElementwise a b = mkCoord (cx a / cx b) (cy a / cy b) (cz a / cz b)"

definition multiplyElementwise :: "coord \<Rightarrow> coord \<Rightarrow> coord" where
  "multiplyElementwise a b = mkCoord (cx a * cx b) (cy a * cy b) (cz a * cz b)"

definition squareLength :: "coord \<Rightarrow> real" where
  "squareLength a = cx a * cx a + cy a * cy a + cz a * cz a"

definition coord_length :: "coord \<Rightarrow> real" where
  "coord_length a = sqrt (squareLength a)"

definition coord_distance :: "coord \<Rightarrow> coord \<Rightarrow> real" where
  "coord_distance a b = coord_length (coord_sub a b)"

definition sqrdist :: "coord \<Rightarrow> coord \<Rightarrow> real" where
  "sqrdist a b = squareLength (coord_sub a b)"

definition coord_normalize :: "coord \<Rightarrow> coord" where
  "coord_normalize a = coord_div a (coord_length a)"

definition isInBoundary :: "coord \<Rightarrow> coord \<Rightarrow> coord \<Rightarrow> bool" where
  "isInBoundary a lower upper \<longleftrightarrow>
     cx lower \<le> cx a \<and> cx a \<le> cx upper \<and>
     cy lower \<le> cy a \<and> cy a \<le> cy upper \<and>
     cz lower \<le> cz a \<and> cz a \<le> cz upper"

definition coord_min :: "coord \<Rightarrow> coord \<Rightarrow> coord" where
  "coord_min a b = mkCoord (if cx a < cx b then cx a else cx b) (if cy a < cy b then cy a else cy b)
     (if cz a < cz b then cz a else cz b)"

definition coord_max :: "coord \<Rightarrow> coord \<Rightarrow> coord" where
  "coord_max a b = mkCoord (if cx a > cx b then cx a else cx b) (if cy a > cy b then cy a else cy b)
     (if cz a > cz b then cz a else cz b)"

text \<open>
  One axis of a torus. For different coordinates the code stops at \<open>assert(size != 0)\<close>
  when the size is 0; the definition has no meaning there.
\<close>

definition torus_dist :: "real \<Rightarrow> real \<Rightarrow> real \<Rightarrow> real" where
  "torus_dist coord1 coord2 extent =
     (let difference = \<bar>coord1 - coord2\<bar> in
      if difference = 0 then 0
      else let d = modulo_real difference extent in minnan d (extent - d))"

definition sqrTorusDist :: "coord \<Rightarrow> coord \<Rightarrow> coord \<Rightarrow> real" where
  "sqrTorusDist a b extent =
     (let xDist = torus_dist (cx a) (cx b) (cx extent);
          yDist = torus_dist (cy a) (cy b) (cy extent);
          zDist = torus_dist (cz a) (cz b) (cz extent)
      in xDist * xDist + yDist * yDist + zDist * zDist)"

section \<open>Laws\<close>

lemma mkCoord_sel [simp]: "cx (mkCoord x y z) = x" "cy (mkCoord x y z) = y" "cz (mkCoord x y z) = z"
  by (simp_all add: mkCoord_def)

lemma mkCoord_eta [simp]: "mkCoord (cx a) (cy a) (cz a) = a"
  by (simp add: mkCoord_def)

lemma coord_eqI: "cx a = cx b \<Longrightarrow> cy a = cy b \<Longrightarrow> cz a = cz b \<Longrightarrow> a = (b :: coord)"
  by simp

text \<open>
  The operators of \<open>Coord\<close> are those of a real vector space, so that the algebra of the library
  applies to positions. (A record type has a last component for its extensions, here
  \<open>unit\<close>, which has to be a vector space as well.)
\<close>

instantiation unit :: real_vector
begin

definition zero_unit :: unit where "zero_unit = ()"

definition plus_unit :: "unit \<Rightarrow> unit \<Rightarrow> unit" where "plus_unit a b = ()"

definition minus_unit :: "unit \<Rightarrow> unit \<Rightarrow> unit" where "minus_unit a b = ()"

definition uminus_unit :: "unit \<Rightarrow> unit" where "uminus_unit a = ()"

definition scaleR_unit :: "real \<Rightarrow> unit \<Rightarrow> unit" where "scaleR_unit r a = ()"

instance by standard simp_all

end

instantiation coord_ext :: (real_vector) real_vector
begin

definition zero_coord_ext :: "'a coord_ext" where
  "zero_coord_ext = \<lparr>cx = 0, cy = 0, cz = 0, \<dots> = 0\<rparr>"

definition plus_coord_ext :: "'a coord_ext \<Rightarrow> 'a coord_ext \<Rightarrow> 'a coord_ext" where
  "plus_coord_ext a b = \<lparr>cx = cx a + cx b, cy = cy a + cy b, cz = cz a + cz b, \<dots> = coord.more a + coord.more b\<rparr>"

definition minus_coord_ext :: "'a coord_ext \<Rightarrow> 'a coord_ext \<Rightarrow> 'a coord_ext" where
  "minus_coord_ext a b = \<lparr>cx = cx a - cx b, cy = cy a - cy b, cz = cz a - cz b, \<dots> = coord.more a - coord.more b\<rparr>"

definition uminus_coord_ext :: "'a coord_ext \<Rightarrow> 'a coord_ext" where
  "uminus_coord_ext a = \<lparr>cx = - cx a, cy = - cy a, cz = - cz a, \<dots> = - coord.more a\<rparr>"

definition scaleR_coord_ext :: "real \<Rightarrow> 'a coord_ext \<Rightarrow> 'a coord_ext" where
  "scaleR_coord_ext r a = \<lparr>cx = r * cx a, cy = r * cy a, cz = r * cz a, \<dots> = r *\<^sub>R coord.more a\<rparr>"

instance
  by standard (simp_all add: zero_coord_ext_def plus_coord_ext_def minus_coord_ext_def uminus_coord_ext_def
      scaleR_coord_ext_def algebra_simps)

end

lemma coord_vector:
  "coord_ZERO = 0" "coord_add a b = a + b" "coord_sub a b = a - b" "coord_neg a = - a" "coord_mult a f = f *\<^sub>R a"
  "coord_div a f = (1 / f) *\<^sub>R a"
  by (simp_all add: coord_ZERO_def coord_add_def coord_sub_def coord_neg_def coord_mult_def coord_div_def mkCoord_def
      zero_coord_ext_def plus_coord_ext_def minus_coord_ext_def uminus_coord_ext_def scaleR_coord_ext_def)

lemma squareLength_nonneg [simp]: "0 \<le> squareLength a"
  by (simp add: squareLength_def)

lemma sqrdist_nonneg [simp]: "0 \<le> sqrdist a b"
  by (simp add: sqrdist_def)

lemma sqrdist_sym: "sqrdist a b = sqrdist b a"
  by (simp add: sqrdist_def squareLength_def coord_sub_def algebra_simps)

lemma coord_yzx_zxy [simp]: "coord_yzx (coord_zxy a) = a" "coord_zxy (coord_yzx a) = a"
  by (simp_all add: coord_yzx_def coord_zxy_def)

lemma coord_cross_orthogonal: "coord_dot a (coord_cross a b) = 0" "coord_dot b (coord_cross a b) = 0"
  by (simp_all add: coord_dot_def coord_cross_def algebra_simps)

lemma coord_add_sub [simp]: "coord_add a (coord_sub b a) = b"
  by (simp add: coord_vector)

lemma coord_clamp_in: "l \<le> u \<Longrightarrow> isInBoundary (coord_clamp a l u) (mkCoord l l l) (mkCoord u u u)"
  by (simp add: isInBoundary_def coord_clamp_def clamp_real_def)

lemma coord_length_mult: "coord_length (coord_mult a f) = \<bar>f\<bar> * coord_length a"
proof -
  have "squareLength (coord_mult a f) = f\<^sup>2 * squareLength a"
    by (simp add: squareLength_def coord_mult_def power2_eq_square algebra_simps)
  then show ?thesis by (simp add: coord_length_def real_sqrt_mult)
qed

lemma coord_length_normalize: "coord_length a \<noteq> 0 \<Longrightarrow> coord_length (coord_normalize a) = 1"
proof -
  assume "coord_length a \<noteq> 0"
  moreover have "0 \<le> coord_length a" by (simp add: coord_length_def)
  ultimately have "0 < coord_length a" by simp
  moreover have "coord_normalize a = coord_mult a (1 / coord_length a)"
    by (simp add: coord_normalize_def coord_div_def coord_mult_def)
  ultimately show ?thesis by (simp add: coord_length_mult)
qed

text \<open>The triangle inequality, from the one of the plane.\<close>

lemma coord_length_triangle: "coord_length (coord_add a b) \<le> coord_length a + coord_length b"
proof -
  have len: "coord_length c = sqrt ((sqrt ((cx c)\<^sup>2 + (cy c)\<^sup>2))\<^sup>2 + (cz c)\<^sup>2)" for c
    by (simp add: coord_length_def squareLength_def power2_eq_square)
  let ?p = "\<lambda>c. sqrt ((cx c)\<^sup>2 + (cy c)\<^sup>2)"
  have plane: "?p (coord_add a b) \<le> ?p a + ?p b"
    by (simp add: coord_add_def real_sqrt_sum_squares_triangle_ineq)
  have "(?p (coord_add a b))\<^sup>2 \<le> (?p a + ?p b)\<^sup>2" by (rule power_mono [OF plane]) simp
  then have "coord_length (coord_add a b) \<le> sqrt ((?p a + ?p b)\<^sup>2 + (cz a + cz b)\<^sup>2)"
    unfolding len by (simp add: coord_add_def)
  also have "\<dots> \<le> coord_length a + coord_length b"
    unfolding len by (rule real_sqrt_sum_squares_triangle_ineq)
  finally show ?thesis .
qed

lemma modulo_real_range: "0 < n \<Longrightarrow> 0 \<le> modulo_real a n \<and> modulo_real a n < n"
proof -
  assume n: "0 < n"
  have "real_of_int \<lfloor>a / n\<rfloor> \<le> a / n" "a / n < real_of_int \<lfloor>a / n\<rfloor> + 1" by linarith+
  then have "n * real_of_int \<lfloor>a / n\<rfloor> \<le> a" "a < n * (real_of_int \<lfloor>a / n\<rfloor> + 1)"
    unfolding pos_le_divide_eq [OF n] pos_divide_less_eq [OF n] by (simp_all only: mult.commute)
  then show ?thesis by (simp add: modulo_real_def algebra_simps)
qed

lemma modulo_real_le: "0 < n \<Longrightarrow> 0 \<le> a \<Longrightarrow> modulo_real a n \<le> a"
  by (simp add: modulo_real_def)

lemma torus_dist_range:
  assumes "0 < extent"
  shows "0 \<le> torus_dist a b extent" and "torus_dist a b extent \<le> extent / 2" and "torus_dist a b extent \<le> \<bar>a - b\<bar>"
  using modulo_real_range [OF assms, of "\<bar>a - b\<bar>"] modulo_real_le [OF assms, of "\<bar>a - b\<bar>"] assms
  by (auto simp: torus_dist_def Let_def minnan_def)

text \<open>
  The range test of the devices compares squared distances, without a square root: for
  a range that is not negative it holds exactly when the distance is within the range, it
  is symmetric, so that two devices with the same range see each other or neither, and
  the distance on a torus of positive size is never larger.
\<close>

theorem range_test:
  assumes "0 \<le> rng"
  shows "(sqrdist a b \<le> rng * rng \<longleftrightarrow> coord_distance a b \<le> rng) \<and>
    sqrdist a b = sqrdist b a \<and>
    (0 < cx extent \<and> 0 < cy extent \<and> 0 < cz extent \<longrightarrow> sqrTorusDist a b extent \<le> sqrdist a b)"
proof (intro conjI impI)
  have "sqrt (sqrdist a b) \<le> sqrt (rng * rng) \<longleftrightarrow> sqrdist a b \<le> rng * rng"
    by (rule real_sqrt_le_iff)
  moreover have "sqrt (rng * rng) = rng" using assms by simp
  ultimately show "sqrdist a b \<le> rng * rng \<longleftrightarrow> coord_distance a b \<le> rng"
    by (simp add: coord_distance_def coord_length_def sqrdist_def)
next
  assume s: "0 < cx extent \<and> 0 < cy extent \<and> 0 < cz extent"
  have sq: "t * t \<le> d * d" if "0 \<le> t" "t \<le> \<bar>d\<bar>" for t d :: real
    using that abs_le_square_iff [of t d] by (simp add: power2_eq_square)
  from s show "sqrTorusDist a b extent \<le> sqrdist a b"
    unfolding sqrTorusDist_def sqrdist_def squareLength_def coord_sub_def Let_def mkCoord_sel
    by (intro add_mono sq torus_dist_range(1) torus_dist_range(3)) simp_all
qed (rule sqrdist_sym)

theorem range_test_witness:
  "sqrdist (mkCoord 0 0 0) (mkCoord 3 4 0) \<le> 5 * 5 \<and> coord_distance (mkCoord 0 0 0) (mkCoord 3 4 0) \<le> 5"
proof -
  have "sqrdist (mkCoord 0 0 0) (mkCoord 3 4 0) \<le> 5 * 5"
    by (simp add: sqrdist_def squareLength_def coord_sub_def)
  with range_test [of 5 "mkCoord 0 0 0" "mkCoord 3 4 0"] show ?thesis by simp
qed

text \<open>The comparison up to \<open>EPSILON\<close> is not transitive, as its comment says.\<close>

lemma coord_eq_not_transitive:
  "\<exists>a b c. coord_eq a b \<and> coord_eq b c \<and> \<not> coord_eq a c"
  by (rule exI [of _ "mkCoord 0 0 0"], rule exI [of _ "mkCoord 0.0009 0 0"], rule exI [of _ "mkCoord 0.0018 0 0"])
     (simp add: coord_eq_def close_real_def)

end
