(* ===== verification/Channel.thy ===== *)
theory Channel
  imports Fadia_Constants Coord
begin

text \<open>
  Carrier sensing of \<open>ADevice.cpp\<close>: the two versions of \<open>isChannelBusy\<close> and
  \<open>connectedGates\<close>.

  Devices are numbers. The wiring that the NED files configure is a \<open>topology\<close>: the number
  of gates of a device, and for a connected gate the device and gate index at the other
  end, with a flag for a gate of a gate vector (only those are followed). Which devices
  transmit, and where they are, belongs to the devices and their mobility modules: these
  are parameters of the definitions.
\<close>

section \<open>Wired\<close>

record topology =
  gateSize :: "nat \<Rightarrow> nat"
  link :: "nat \<Rightarrow> nat \<Rightarrow> (nat \<times> nat \<times> bool) option"

text \<open>\<open>isChannelBusy(far, gid)\<close>; \<open>gid\<close> is the gate the request came through, \<open>None\<close> for -1.\<close>

fun isChannelBusyFar :: "topology \<Rightarrow> (nat \<Rightarrow> bool) \<Rightarrow> nat \<Rightarrow> nat option \<Rightarrow> nat \<Rightarrow> bool" where
  "isChannelBusyFar T transmitting 0 gid d = transmitting d"
| "isChannelBusyFar T transmitting (Suc far) gid d =
     (transmitting d \<or>
      list_ex (\<lambda>g. case link T d g of
          Some (d', g', True) \<Rightarrow> gid \<noteq> Some g \<and> isChannelBusyFar T transmitting far (Some g') d'
        | _ \<Rightarrow> False)
        (rev [0..<gateSize T d]))"

definition connectedGates :: "topology \<Rightarrow> nat \<Rightarrow> nat" where
  "connectedGates T d = length (filter (\<lambda>g. link T d g \<noteq> None) (rev [0..<gateSize T d]))"

section \<open>Wireless\<close>

text \<open>\<open>isChannelBusy()\<close>: device \<open>me\<close> of the \<open>numProvers\<close> provers.\<close>

definition isChannelBusyRadio ::
  "(nat \<Rightarrow> coord) \<Rightarrow> real \<Rightarrow> (nat \<Rightarrow> bool) \<Rightarrow> nat \<Rightarrow> nat \<Rightarrow> bool" where
  "isChannelBusyRadio position rng transmitting numProvers me =
     (transmitting me \<or>
      list_ex (\<lambda>i. i \<noteq> me \<and> sqrdist (position me) (position i) \<le> rng * rng \<and> transmitting i)
        [0..<numProvers])"

lemma isChannelBusyRadio_iff:
  "me < numProvers \<Longrightarrow> isChannelBusyRadio position rng transmitting numProvers me \<longleftrightarrow>
    (\<exists>i < numProvers. (i = me \<or> sqrdist (position me) (position i) \<le> rng * rng) \<and> transmitting i)"
  by (auto simp: isChannelBusyRadio_def list_ex_iff)

section \<open>The recursion computes graph distance\<close>

text \<open>
  \<open>walk T n gid d e\<close>: from \<open>d\<close> one comes to \<open>e\<close> in at most \<open>n\<close> links without going back
  through the gate one came from, at first the gate \<open>gid\<close>. \<open>near\<close> is the distance in
  the graph, with any links.
\<close>

inductive walk :: "topology \<Rightarrow> nat \<Rightarrow> nat option \<Rightarrow> nat \<Rightarrow> nat \<Rightarrow> bool" for T where
  here: "walk T n gid d d"
| go: "g < gateSize T d \<Longrightarrow> link T d g = Some (d', g', True) \<Longrightarrow> gid \<noteq> Some g \<Longrightarrow>
       walk T n (Some g') d' e \<Longrightarrow> walk T (Suc n) gid d e"

inductive near :: "topology \<Rightarrow> nat \<Rightarrow> nat \<Rightarrow> nat \<Rightarrow> bool" for T where
  here: "near T n d d"
| go: "g < gateSize T d \<Longrightarrow> link T d g = Some (d', g', True) \<Longrightarrow>
       near T n d' e \<Longrightarrow> near T (Suc n) d e"

inductive_cases walk_SucE: "walk T (Suc n) gid d e"
inductive_cases walk_0E: "walk T 0 gid d e"

lemma isChannelBusyFar_walk:
  "isChannelBusyFar T transmitting far gid d \<longleftrightarrow> (\<exists>e. walk T far gid d e \<and> transmitting e)"
proof (induction far arbitrary: gid d)
  case 0
  then show ?case by (auto intro: walk.here elim: walk_0E)
next
  case (Suc far)
  have gate: "(case link T d g of Some (d', g', True) \<Rightarrow> gid \<noteq> Some g \<and> isChannelBusyFar T transmitting far (Some g') d'
          | _ \<Rightarrow> False) \<longleftrightarrow>
      (\<exists>d' g' e. link T d g = Some (d', g', True) \<and> gid \<noteq> Some g \<and> walk T far (Some g') d' e \<and> transmitting e)" for g
    by (auto simp: Suc.IH split: option.split bool.split)
  have "isChannelBusyFar T transmitting (Suc far) gid d \<longleftrightarrow> transmitting d \<or>
      (\<exists>g < gateSize T d. \<exists>d' g' e. link T d g = Some (d', g', True) \<and> gid \<noteq> Some g \<and>
         walk T far (Some g') d' e \<and> transmitting e)"
    unfolding isChannelBusyFar.simps list_ex_iff gate set_rev set_upt by (simp add: Bex_def)
  also have "\<dots> \<longleftrightarrow> (\<exists>e. walk T (Suc far) gid d e \<and> transmitting e)"
    by (blast intro: walk.intros elim: walk_SucE)
  finally show ?case .
qed

lemma walk_near: "walk T n gid d e \<Longrightarrow> near T n d e"
  by (induction rule: walk.induct) (auto intro: near.intros)

lemma walk_None: "walk T n gid d e \<Longrightarrow> walk T n None d e"
  by (induction rule: walk.induct) (auto intro: walk.intros)

lemma walk_mono: "walk T n gid d e \<Longrightarrow> n \<le> m \<Longrightarrow> walk T m gid d e"
proof (induction arbitrary: m rule: walk.induct)
  case (go g d d' g' gid n e)
  then obtain k where "m = Suc k" "n \<le> k" by (cases m) auto
  with go show ?case by (auto intro: walk.go)
qed (rule walk.here)

text \<open>Links have two ends.\<close>

definition symmetric :: "topology \<Rightarrow> bool" where
  "symmetric T \<longleftrightarrow> (\<forall>d g d' g'. g < gateSize T d \<longrightarrow> link T d g = Some (d', g', True) \<longrightarrow>
     g' < gateSize T d' \<and> link T d' g' = Some (d, g, True))"

text \<open>The same for the cables among the devices of a set, which they do not leave.\<close>

definition symmetric_on :: "nat set \<Rightarrow> topology \<Rightarrow> bool" where
  "symmetric_on A T \<longleftrightarrow> (\<forall>d \<in> A. \<forall>g d' g'. g < gateSize T d \<longrightarrow> link T d g = Some (d', g', True) \<longrightarrow>
     d' \<in> A \<and> g' < gateSize T d' \<and> link T d' g' = Some (d, g, True))"

lemma symmetric_on_UNIV: "symmetric T = symmetric_on UNIV T"
  by (simp add: symmetric_def symmetric_on_def)

lemma near_walk:
  assumes "symmetric_on A T"
  shows "near T n d e \<Longrightarrow> d \<in> A \<Longrightarrow> walk T n None d e"
proof (induction rule: near.induct)
  case (go g d d' g' n e)
  from go(1,2,5) assms have other: "link T d' g' = Some (d, g, True)" and A: "d' \<in> A"
    unfolding symmetric_on_def by metis+
  from go.IH [OF A] show ?case
  proof (cases rule: walk.cases)
    case here
    then show ?thesis using go(1,2) by (auto intro: walk.intros)
  next
    case (go h d2 h2 k)
    show ?thesis
    proof (cases "h = g'")
      case True
      with other go(3) have "d2 = d" by simp
      with go(5) have "walk T k None d e" by (auto dest: walk_None)
      then show ?thesis using go(1) by (auto intro: walk_mono)
    next
      case False
      with go have "walk T n (Some g') d' e" by (auto intro: walk.go)
      then show ?thesis using \<open>g < gateSize T d\<close> \<open>link T d g = Some (d', g', True)\<close> by (auto intro: walk.go)
    qed
  qed
qed (rule walk.here)

lemma near_snoc: "near T n d e \<Longrightarrow> g < gateSize T e \<Longrightarrow> link T e g = Some (f, g', True) \<Longrightarrow> near T (Suc n) d f"
proof (induction rule: near.induct)
  case (here n d)
  then show ?case using near.go [OF here near.here] by blast
next
  case (go h d d' h' n e)
  then show ?case by (intro near.go [OF go.hyps(1,2)]) simp
qed

lemma near_sym:
  assumes "symmetric_on A T"
  shows "near T n d e \<Longrightarrow> d \<in> A \<Longrightarrow> near T n e d"
proof (induction rule: near.induct)
  case (go g d d' g' n e)
  from go(1,2,5) assms have "d' \<in> A" "g' < gateSize T d'" "link T d' g' = Some (d, g, True)"
    unfolding symmetric_on_def by metis+
  with go.IH show ?case by (auto intro: near_snoc)
qed (rule near.here)

text \<open>A device that senses a free channel has no transmitting neighbour.\<close>

lemma busy_when_near:
  assumes "symmetric_on A T" and "d \<in> A" and "near T far d e" and "transmitting e"
  shows "isChannelBusyFar T transmitting far None d"
  using near_walk [OF assms(1,3,2)] assms(4) by (auto simp: isChannelBusyFar_walk)

text \<open>
  C15. Over cables that have two ends, the recursive search of \<open>isChannelBusy(far, -1)\<close>
  finds a busy channel exactly when some device at distance at most \<open>far\<close> in the wiring
  transmits: not going back through the arrival gate loses no device, whatever the shape
  of the network.
\<close>

theorem channel_busy_iff_near:
  assumes "symmetric T"
  shows "isChannelBusyFar T transmitting far None d \<longleftrightarrow> (\<exists>e. near T far d e \<and> transmitting e)"
  using isChannelBusyFar_walk [of T transmitting far None d] walk_near near_walk [OF assms [unfolded symmetric_on_UNIV]] by blast

text \<open>A ring of three devices with two gates each.\<close>

definition ring3 :: topology where
  "ring3 = \<lparr>gateSize = (\<lambda>_. 2),
     link = (\<lambda>d g. if d < 3 \<and> g < 2 then Some (if g = 0 then (d + 1) mod 3 else (d + 2) mod 3, 1 - g, True) else None)\<rparr>"

lemma ring3_symmetric: "symmetric ring3"
proof -
  have "link ring3 d' g' = Some (d, g, True)" "g' < gateSize ring3 d'"
    if "link ring3 d g = Some (d', g', True)" for d g d' g'
  proof -
    from that have "d < 3" "g < 2" by (auto simp: ring3_def split: if_splits)
    then have "d = 0 \<or> d = 1 \<or> d = 2" "g = 0 \<or> g = 1" by auto
    with that show "link ring3 d' g' = Some (d, g, True)" "g' < gateSize ring3 d'"
      by (auto simp: ring3_def)
  qed
  then show ?thesis unfolding symmetric_def by blast
qed

theorem channel_busy_iff_near_witness:
  "isChannelBusyFar ring3 (\<lambda>d. d = 2) 1 None 0 \<longleftrightarrow> (\<exists>e. near ring3 1 0 e \<and> e = 2)"
  by (rule channel_busy_iff_near [OF ring3_symmetric])

lemma ring3_busy: "isChannelBusyFar ring3 (\<lambda>d. d = 2) 1 None 0"
  by (simp add: ring3_def numeral_2_eq_2)

end
