(* ===== verification/Mobility.thy ===== *)
theory Mobility
  imports Coord Fadia_Prelude
begin

text \<open>
  The movement of the provers: INET's \<open>MobilityBase\<close> with its border policies,
  \<open>MovingMobilityBase\<close>, \<open>LineSegmentsMobilityBase\<close> and the \<open>RandomWaypointMobility\<close> that the
  configuration of FADIA selects.

  The random variates of a step are an argument \<open>draw\<close>: \<open>uniform k a b\<close> is the variate for axis
  \<open>k\<close>, \<open>speed\<close> and \<open>waitTime\<close> the values of the two volatile parameters. \<open>simtime\<close> is the
  conversion of a double to the simulation time. A velocity is \<open>None\<close> when the code
  divides by a duration of 0 and the components are not numbers; the positions
  computed from it would not be either, which is the fault \<open>DivisionByZero\<close>. Orientation,
  display and signals are left out.
\<close>

section \<open>State\<close>

record mobility =
  constraintAreaMin :: coord
  constraintAreaMax :: coord
  lastPosition :: coord

record moving = mobility +
  updateInterval :: real
  stationary :: bool
  lastVelocity :: "coord option"
  lastUpdate :: real
  nextChange :: real
  moveTimer :: "real option"

record segments = moving +
  targetPosition :: coord

record waypoint = segments +
  nextMoveIsWait :: bool
  hasWaitTime :: bool

record draw =
  uniform :: "nat \<Rightarrow> real \<Rightarrow> real \<Rightarrow> real"
  speed :: real
  waitTime :: real

datatype BorderPolicy = REFLECT | WRAP | PLACERANDOMLY | RAISEERROR

section \<open>MobilityBase\<close>

definition getRandomPosition :: "draw \<Rightarrow> 'a mobility_scheme \<Rightarrow> coord" where
  "getRandomPosition d s =
     (let lo = constraintAreaMin s; hi = constraintAreaMax s
      in mkCoord (uniform d 0 (cx lo) (cx hi)) (uniform d 1 (cy lo) (cy hi)) (uniform d 2 (cz lo) (cz hi)))"

definition isOutside :: "'a mobility_scheme \<Rightarrow> bool" where
  "isOutside s =
     (let p = lastPosition s; lo = constraintAreaMin s; hi = constraintAreaMax s
      in cx p < cx lo \<or> cx p > cx hi \<or> cy p < cy lo \<or> cy p > cy hi \<or> cz p < cz lo \<or> cz p > cz hi)"

definition raiseErrorIfOutside :: "'a mobility_scheme \<Rightarrow> 'a mobility_scheme result" where
  "raiseErrorIfOutside s =
     (if isOutside s then Inl (RuntimeError ''Mobility moved outside the area'') else Inr s)"

definition checkPosition :: "'a mobility_scheme \<Rightarrow> 'a mobility_scheme result" where
  "checkPosition s =
     (if isOutside s then Inl (RuntimeError ''Mobility position is outside the constraint area'') else Inr s)"

text \<open>
  Where the first position comes from: the display string of the subject (with the result of
  the canvas projection), the three coordinates, the geographic coordinates, or chance.
\<close>

record placement =
  initFromDisplayString :: bool
  automaticArrangement :: bool
  displayPoint :: "coord option"
  coordinateSystem :: bool
  initialXYZ :: "coord option"
  initialGeo :: "coord option"

definition setInitialPosition :: "placement \<Rightarrow> draw \<Rightarrow> 'a mobility_scheme \<Rightarrow> 'a mobility_scheme result" where
  "setInitialPosition P d s =
     (if initFromDisplayString P then
        if automaticArrangement P then Inl (RuntimeError ''The coordinates are invalid'')
        else (case displayPoint P of
                Some p \<Rightarrow> Inr (s\<lparr>lastPosition := p\<rparr>)
              | None \<Rightarrow> Inr (s\<lparr>lastPosition := getRandomPosition d s\<rparr>))
      else if \<not> coordinateSystem P \<and> initialXYZ P \<noteq> None then Inr (s\<lparr>lastPosition := the (initialXYZ P)\<rparr>)
      else if coordinateSystem P \<and> initialGeo P \<noteq> None then Inr (s\<lparr>lastPosition := the (initialGeo P)\<rparr>)
      else Inr (s\<lparr>lastPosition := getRandomPosition d s\<rparr>))"

text \<open>\<open>reflect\<close>: the sign, and the new coordinate and speed.\<close>

definition reflect :: "real \<Rightarrow> real \<Rightarrow> real \<Rightarrow> real \<Rightarrow> (real \<times> real \<times> real) result" where
  "reflect lo hi coordinate v =
     (let sz = hi - lo; value = coordinate - lo in
      if sz = 0 then Inl DivisionByZero
      else
        let sign = 1 - modulo_real (real_of_int \<lfloor>value / sz\<rfloor>) 2 * 2 in
        if \<not> (sign = 1 \<or> sign = -1) then Inl (RuntimeError ''assert'')
        else Inr (sign, modulo_real (sign * value) sz + lo, sign * v))"

text \<open>The quaternion is absent when the caller passes \<open>Quaternion::NIL\<close>; angles are in radians.\<close>

record quaternion =
  qs :: real
  qx :: real
  qy :: real
  qz :: real

record motion =
  m_target :: coord
  m_velocity :: coord
  m_heading :: real
  m_elevation :: real
  m_quaternion :: "quaternion option"

definition reflectX :: "'a mobility_scheme \<Rightarrow> motion \<Rightarrow> ('a mobility_scheme \<times> motion) result" where
  "reflectX s m =
     (let lo = cx (constraintAreaMin s); hi = cx (constraintAreaMax s); p = lastPosition s in
      if cx p < lo \<or> hi < cx p then
        rbind (reflect lo hi (cx p) (cx (m_velocity m))) (\<lambda>(sign, x, v).
        rbind (reflect lo hi (cx (m_target m)) 0) (\<lambda>(_, tx, _).
        Inr (s\<lparr>lastPosition := p\<lparr>cx := x\<rparr>\<rparr>,
             m\<lparr>m_velocity := (m_velocity m)\<lparr>cx := v\<rparr>, m_target := (m_target m)\<lparr>cx := tx\<rparr>,
               m_heading := pi / 2 + (m_heading m - pi / 2) * sign,
               m_quaternion := (if sign = -1
                 then map_option (\<lambda>q. \<lparr>qs = qz q, qx = - qy q, qy = - qx q, qz = qs q\<rparr>) (m_quaternion m)
                 else m_quaternion m)\<rparr>)))
      else Inr (s, m))"

definition reflectY :: "'a mobility_scheme \<Rightarrow> motion \<Rightarrow> ('a mobility_scheme \<times> motion) result" where
  "reflectY s m =
     (let lo = cy (constraintAreaMin s); hi = cy (constraintAreaMax s); p = lastPosition s in
      if cy p < lo \<or> hi < cy p then
        rbind (reflect lo hi (cy p) (cy (m_velocity m))) (\<lambda>(sign, y, v).
        rbind (reflect lo hi (cy (m_target m)) 0) (\<lambda>(_, ty, _).
        Inr (s\<lparr>lastPosition := p\<lparr>cy := y\<rparr>\<rparr>,
             m\<lparr>m_velocity := (m_velocity m)\<lparr>cy := v\<rparr>, m_target := (m_target m)\<lparr>cy := ty\<rparr>,
               m_heading := m_heading m * sign,
               m_quaternion := (if sign = -1
                 then map_option (\<lambda>q. q\<lparr>qx := - qx q, qz := - qz q\<rparr>) (m_quaternion m)
                 else m_quaternion m)\<rparr>)))
      else Inr (s, m))"

definition reflectZ :: "'a mobility_scheme \<Rightarrow> motion \<Rightarrow> ('a mobility_scheme \<times> motion) result" where
  "reflectZ s m =
     (let lo = cz (constraintAreaMin s); hi = cz (constraintAreaMax s); p = lastPosition s in
      if cz p < lo \<or> hi < cz p then
        rbind (reflect lo hi (cz p) (cz (m_velocity m))) (\<lambda>(sign, z, v).
        rbind (reflect lo hi (cz (m_target m)) 0) (\<lambda>(_, tz, _).
        Inr (s\<lparr>lastPosition := p\<lparr>cz := z\<rparr>\<rparr>,
             m\<lparr>m_velocity := (m_velocity m)\<lparr>cz := v\<rparr>, m_target := (m_target m)\<lparr>cz := tz\<rparr>,
               m_elevation := m_elevation m * sign,
               m_quaternion := (if sign = -1
                 then map_option (\<lambda>q. q\<lparr>qx := - qx q, qy := - qy q\<rparr>) (m_quaternion m)
                 else m_quaternion m)\<rparr>)))
      else Inr (s, m))"

definition reflectIfOutside :: "'a mobility_scheme \<Rightarrow> motion \<Rightarrow> ('a mobility_scheme \<times> motion) result" where
  "reflectIfOutside s m =
     rbind (reflectX s m) (\<lambda>(s1, m1). rbind (reflectY s1 m1) (\<lambda>(s2, m2). reflectZ s2 m2))"

definition wrap :: "real \<Rightarrow> real \<Rightarrow> real \<Rightarrow> real result" where
  "wrap lo hi coordinate =
     (if hi - lo = 0 then Inl DivisionByZero else Inr (modulo_real (coordinate - lo) (hi - lo) + lo))"

text \<open>One axis of \<open>wrapIfOutside\<close>: the new coordinates of the position and of the target.\<close>

definition wrapAxis :: "real \<Rightarrow> real \<Rightarrow> real \<Rightarrow> real \<Rightarrow> (real \<times> real) result" where
  "wrapAxis lo hi p t =
     (if p < lo \<or> hi < p then rbind (wrap lo hi p) (\<lambda>p'. rbind (wrap lo hi t) (\<lambda>t'. Inr (p', t'))) else Inr (p, t))"

definition wrapIfOutside :: "'a mobility_scheme \<Rightarrow> motion \<Rightarrow> ('a mobility_scheme \<times> motion) result" where
  "wrapIfOutside s m =
     (let lo = constraintAreaMin s; hi = constraintAreaMax s; p = lastPosition s; t = m_target m in
      rbind (wrapAxis (cx lo) (cx hi) (cx p) (cx t)) (\<lambda>(x, tx).
      rbind (wrapAxis (cy lo) (cy hi) (cy p) (cy t)) (\<lambda>(y, ty).
      rbind (wrapAxis (cz lo) (cz hi) (cz p) (cz t)) (\<lambda>(z, tz).
      Inr (s\<lparr>lastPosition := mkCoord x y z\<rparr>, m\<lparr>m_target := mkCoord tx ty tz\<rparr>)))))"

definition placeRandomlyIfOutside :: "draw \<Rightarrow> 'a mobility_scheme \<Rightarrow> motion \<Rightarrow> 'a mobility_scheme \<times> motion" where
  "placeRandomlyIfOutside d s m =
     (if isOutside s then
        let newPosition = getRandomPosition d s
        in (s\<lparr>lastPosition := newPosition\<rparr>,
            m\<lparr>m_target := coord_add (m_target m) (coord_sub newPosition (lastPosition s))\<rparr>)
      else (s, m))"

definition handleIfOutside ::
  "BorderPolicy \<Rightarrow> draw \<Rightarrow> 'a mobility_scheme \<Rightarrow> motion \<Rightarrow> ('a mobility_scheme \<times> motion) result" where
  "handleIfOutside policy d s m =
     (case policy of
        REFLECT \<Rightarrow> reflectIfOutside s m
      | WRAP \<Rightarrow> wrapIfOutside s m
      | PLACERANDOMLY \<Rightarrow> Inr (placeRandomlyIfOutside d s m)
      | RAISEERROR \<Rightarrow> rbind (raiseErrorIfOutside s) (\<lambda>s'. Inr (s', m)))"

section \<open>MovingMobilityBase\<close>

definition scheduleMove :: "real \<Rightarrow> real \<Rightarrow> 'a moving_scheme \<Rightarrow> 'a moving_scheme result" where
  "scheduleMove now t s =
     (if t < now then Inl (RuntimeError ''Cannot schedule message into the past'') else Inr (s\<lparr>moveTimer := Some t\<rparr>))"

definition scheduleUpdate :: "real \<Rightarrow> 'a moving_scheme \<Rightarrow> 'a moving_scheme result" where
  "scheduleUpdate now s0 =
     (let s = s0\<lparr>moveTimer := None\<rparr> in
      if \<not> stationary s \<and> updateInterval s \<noteq> 0 then
        let nextUpdate = now + updateInterval s in
        if nextChange s \<noteq> -1 \<and> nextChange s < nextUpdate then scheduleMove now (nextChange s) s
        else scheduleMove now nextUpdate s
      else if nextChange s \<noteq> -1 then scheduleMove now (nextChange s) s
      else Inr s)"

text \<open>\<open>moveAndUpdate\<close> with the virtual \<open>move\<close>.\<close>

definition moveAndUpdate :: "('a moving_scheme \<Rightarrow> 'a moving_scheme result) \<Rightarrow> real \<Rightarrow> 'a moving_scheme \<Rightarrow> 'a moving_scheme result" where
  "moveAndUpdate move now s =
     (if nextChange s = now \<or> lastUpdate s \<noteq> now
      then rbind (move s) (\<lambda>s'. Inr (s'\<lparr>lastUpdate := now\<rparr>)) else Inr s)"

definition handleSelfMessage :: "('a moving_scheme \<Rightarrow> 'a moving_scheme result) \<Rightarrow> real \<Rightarrow> 'a moving_scheme \<Rightarrow> 'a moving_scheme result" where
  "handleSelfMessage move now s = rbind (moveAndUpdate move now s) (scheduleUpdate now)"

definition getCurrentPosition ::
  "('a moving_scheme \<Rightarrow> 'a moving_scheme result) \<Rightarrow> real \<Rightarrow> 'a moving_scheme \<Rightarrow> (coord \<times> 'a moving_scheme) result" where
  "getCurrentPosition move now s = rbind (moveAndUpdate move now s) (\<lambda>s'. Inr (lastPosition s', s'))"

section \<open>LineSegmentsMobilityBase\<close>

text \<open>\<open>lastVelocity = (targetPosition - lastPosition) / (nextChange - simTime()).dbl()\<close>\<close>

definition setVelocity :: "real \<Rightarrow> 'a segments_scheme \<Rightarrow> 'a segments_scheme" where
  "setVelocity now s = s\<lparr>lastVelocity :=
     (if nextChange s - now = 0 then None
      else Some (coord_div (coord_sub (targetPosition s) (lastPosition s)) (nextChange s - now)))\<rparr>"

text \<open>\<open>move\<close> with the virtual \<open>setTargetPosition\<close>.\<close>

definition lineMove ::
  "('a segments_scheme \<Rightarrow> 'a segments_scheme result) \<Rightarrow> real \<Rightarrow> 'a segments_scheme \<Rightarrow> 'a segments_scheme result" where
  "lineMove setTarget now s =
     (if now = nextChange s then
        rbind (setTarget (s\<lparr>lastPosition := targetPosition s\<rparr>)) (\<lambda>s1. Inr (setVelocity now s1))
      else if now > lastUpdate s then
        if \<not> (nextChange s = -1 \<or> now < nextChange s) then Inl (RuntimeError ''assert'')
        else (case lastVelocity s of
                None \<Rightarrow> Inl DivisionByZero
              | Some v \<Rightarrow> Inr (s\<lparr>lastPosition := coord_add (lastPosition s) (coord_mult v (now - lastUpdate s))\<rparr>))
      else Inr s)"

text \<open>\<open>initializePosition\<close> with the virtual \<open>setInitialPosition\<close> and \<open>setTargetPosition\<close>.\<close>

definition initializeSegments ::
  "('a segments_scheme \<Rightarrow> 'a segments_scheme result) \<Rightarrow> ('a segments_scheme \<Rightarrow> 'a segments_scheme result) \<Rightarrow> real \<Rightarrow>
   'a segments_scheme \<Rightarrow> 'a segments_scheme result" where
  "initializeSegments setInitial setTarget now s =
     rbind (setInitial s) (\<lambda>s1.
     rbind (checkPosition s1) (\<lambda>s2.
     rbind (if \<not> stationary s2 then rbind (setTarget s2) (\<lambda>s3. Inr (setVelocity now s3)) else Inr s2) (\<lambda>s4.
     scheduleUpdate now (s4\<lparr>lastUpdate := now\<rparr>))))"

section \<open>RandomWaypointMobility\<close>

definition setTargetPosition :: "(real \<Rightarrow> real) \<Rightarrow> draw \<Rightarrow> real \<Rightarrow> waypoint \<Rightarrow> waypoint result" where
  "setTargetPosition simtime d now s =
     (if nextMoveIsWait s then Inr (s\<lparr>nextChange := now + simtime (waitTime d), nextMoveIsWait := False\<rparr>)
      else
        let t = getRandomPosition d s; distance = coord_distance (lastPosition s) t in
        if speed d = 0 then Inl (RuntimeError ''Cannot convert to simtime_t: Out of range'')
        else Inr (s\<lparr>targetPosition := t, nextChange := now + simtime (distance / speed d), nextMoveIsWait := hasWaitTime s\<rparr>))"

definition waypoint_move :: "(real \<Rightarrow> real) \<Rightarrow> draw \<Rightarrow> real \<Rightarrow> waypoint \<Rightarrow> waypoint result" where
  "waypoint_move simtime d now s = rbind (lineMove (setTargetPosition simtime d now) now s) raiseErrorIfOutside"

text \<open>The parameters of the module; \<open>None\<close> stands for a volatile expression.\<close>

definition waypoint_initialize :: "coord \<Rightarrow> coord \<Rightarrow> real \<Rightarrow> real option \<Rightarrow> real option \<Rightarrow> waypoint" where
  "waypoint_initialize lo hi interval wait sp =
     \<lparr>constraintAreaMin = lo, constraintAreaMax = hi, lastPosition = coord_ZERO, updateInterval = interval,
      stationary = (case sp of None \<Rightarrow> False | Some v \<Rightarrow> v = 0), lastVelocity = Some coord_ZERO, lastUpdate = 0,
      nextChange = -1, moveTimer = None, targetPosition = coord_ZERO, nextMoveIsWait = False,
      hasWaitTime = (case wait of None \<Rightarrow> True | Some w \<Rightarrow> w \<noteq> 0)\<rparr>"

definition initializePosition :: "(real \<Rightarrow> real) \<Rightarrow> placement \<Rightarrow> draw \<Rightarrow> draw \<Rightarrow> real \<Rightarrow> waypoint \<Rightarrow> waypoint result" where
  "initializePosition simtime P d d' now = initializeSegments (setInitialPosition P d) (setTargetPosition simtime d' now) now"

section \<open>Border policies\<close>

text \<open>\<open>modulo_real a n\<close> is the only number in the range that differs from \<open>a\<close> by a multiple of \<open>n\<close>.\<close>

lemma modulo_real_unique: "0 \<le> r \<Longrightarrow> r < n \<Longrightarrow> a = r + n * real_of_int k \<Longrightarrow> modulo_real a n = r"
proof -
  assume r: "0 \<le> r" "r < n" "a = r + n * real_of_int k"
  then have "a / n = r / n + real_of_int k" by (simp add: field_simps)
  moreover have "0 \<le> r / n" "r / n < 1" using r by (simp_all add: field_simps)
  ultimately have "\<lfloor>a / n\<rfloor> = k" by linarith
  with r show ?thesis by (simp add: modulo_real_def)
qed

lemma parity_sign: "1 - modulo_real (real_of_int k) 2 * 2 = (if even k then 1 else -1)"
proof -
  have "modulo_real (real_of_int k) 2 = (if even k then 0 else 1)"
  proof (cases "even k")
    case True
    then obtain j where "k = 2 * j" ..
    then show ?thesis using modulo_real_unique [of 0 2 "real_of_int k" j] by simp
  next
    case False
    then obtain j where "k = 2 * j + 1" by (elim oddE)
    then show ?thesis using modulo_real_unique [of 1 2 "real_of_int k" j] by simp
  qed
  then show ?thesis by simp
qed

text \<open>The mirror images of an interval, as a triangle wave.\<close>

definition fold_back :: "real \<Rightarrow> real \<Rightarrow> real \<Rightarrow> real" where
  "fold_back lo hi c = lo + \<bar>modulo_real (c - lo + (hi - lo)) (2 * (hi - lo)) - (hi - lo)\<bar>"

lemma reflect_eq:
  fixes c :: real
  assumes "lo < hi"
  defines "k \<equiv> \<lfloor>(c - lo) / (hi - lo)\<rfloor>"
  shows "reflect lo hi c v = Inr (if even k then (1, modulo_real (c - lo) (hi - lo) + lo, v)
    else (-1, modulo_real (lo - c) (hi - lo) + lo, - v))"
  using assms by (simp add: reflect_def Let_def parity_sign k_def)

text \<open>
  The image of a coordinate with \<open>k\<close> whole widths to its left and the rest \<open>r\<close>.
\<close>

lemma reflect_parts:
  assumes "lo < hi" and "0 \<le> r" and "r < hi - lo" and "c = lo + r + (hi - lo) * real_of_int k"
  shows "reflect lo hi c v = Inr (if even k then (1, lo + r, v) else (-1, if r = 0 then lo else hi - r, - v))"
    and "fold_back lo hi c = (if even k then lo + r else hi - r)"
proof -
  let ?n = "hi - lo"
  have "(c - lo) / ?n = r / ?n + real_of_int k" using assms by (simp add: field_simps)
  moreover have "0 \<le> r / ?n" "r / ?n < 1" using assms by (simp_all add: field_simps)
  ultimately have k: "\<lfloor>(c - lo) / ?n\<rfloor> = k" by linarith
  have "modulo_real (c - lo) ?n = r" using assms by (intro modulo_real_unique [of _ _ _ k]) simp_all
  moreover have "modulo_real (lo - c) ?n = (if r = 0 then 0 else ?n - r)"
    using assms by (intro modulo_real_unique [of _ _ _ "if r = 0 then - k else - k - 1"]) (auto simp: algebra_simps)
  ultimately show "reflect lo hi c v = Inr (if even k then (1, lo + r, v) else (-1, if r = 0 then lo else hi - r, - v))"
    using reflect_eq [OF assms(1), of c v] by (simp add: k add.commute)
  have "modulo_real (c - lo + ?n) (2 * ?n) = (if even k then ?n + r else r)"
  proof (cases "even k")
    case True
    then obtain j where "k = 2 * j" ..
    then show ?thesis using assms by (intro modulo_real_unique [of _ _ _ j]) (simp_all add: algebra_simps)
  next
    case False
    then obtain j where "k = 2 * j + 1" by (elim oddE)
    then show ?thesis using assms by (intro modulo_real_unique [of _ _ _ "j + 1"]) (simp_all add: algebra_simps)
  qed
  then show "fold_back lo hi c = (if even k then lo + r else hi - r)"
    using assms(2,3) by (simp add: fold_back_def)
qed

lemma width_parts:
  fixes c lo hi :: real
  assumes "lo < hi"
  obtains k r where "0 \<le> r" "r < hi - lo" "c = lo + r + (hi - lo) * real_of_int k"
proof
  let ?k = "\<lfloor>(c - lo) / (hi - lo)\<rfloor>" let ?r = "modulo_real (c - lo) (hi - lo)"
  show "0 \<le> ?r" "?r < hi - lo" using modulo_real_range [of "hi - lo" "c - lo"] assms by auto
  show "c = lo + ?r + (hi - lo) * real_of_int ?k" by (simp add: modulo_real_def)
qed

text \<open>
  \<open>reflect\<close> folds a coordinate back into the interval: it returns the mirror image and turns
  the speed around exactly for an odd number of reflections. The exception are the
  coordinates an odd number of widths from the lower wall, whose mirror image is the upper
  wall: the code returns the lower wall instead.
\<close>
theorem reflect_folds_back:
  assumes "lo < hi"
  shows "\<exists>sign c'. reflect lo hi c v = Inr (sign, c', sign * v) \<and> lo \<le> c' \<and> c' < hi \<and>
    (sign = -1 \<longleftrightarrow> odd \<lfloor>(c - lo) / (hi - lo)\<rfloor>) \<and> (sign = 1 \<or> sign = -1) \<and>
    (if \<exists>k. odd k \<and> c = lo + (hi - lo) * real_of_int k then c' = lo \<and> fold_back lo hi c = hi else c' = fold_back lo hi c)"
proof -
  obtain k r where r: "0 \<le> r" "r < hi - lo" and c: "c = lo + r + (hi - lo) * real_of_int k" using width_parts [OF assms] .
  have unique: "j = k \<and> r = 0" if "c = lo + (hi - lo) * real_of_int j" for j
  proof -
    have "modulo_real (c - lo) (hi - lo) = r" "modulo_real (c - lo) (hi - lo) = 0"
      using modulo_real_unique [OF r, of "c - lo" k] modulo_real_unique [of 0 "hi - lo" "c - lo" j] c that assms by auto
    with c that assms show ?thesis by simp
  qed
  have "(c - lo) / (hi - lo) = r / (hi - lo) + real_of_int k" using assms c by (simp add: field_simps)
  moreover have "0 \<le> r / (hi - lo)" "r / (hi - lo) < 1" using assms r by (simp_all add: field_simps)
  ultimately have k: "\<lfloor>(c - lo) / (hi - lo)\<rfloor> = k" by linarith
  have wall: "(\<exists>j. odd j \<and> c = lo + (hi - lo) * real_of_int j) \<longleftrightarrow> odd k \<and> r = 0" using unique c by auto
  show ?thesis
    unfolding reflect_parts [OF assms r c] k wall using r assms by (cases "even k"; cases "r = 0") auto
qed

theorem reflect_folds_back_witness:
  "\<exists>sign c'. reflect 0 10 13 2 = Inr (sign, c', sign * 2) \<and> sign = -1 \<and> 0 \<le> c' \<and> c' < 10"
proof -
  have "(0 :: real) < 10" by simp
  from reflect_folds_back [OF this, of 13 2] show ?thesis by auto
qed

section \<open>Staying inside\<close>

abbreviation inside :: "'a mobility_scheme \<Rightarrow> coord \<Rightarrow> bool" where
  "inside s p \<equiv> isInBoundary p (constraintAreaMin s) (constraintAreaMax s)"

lemma isOutside_iff: "isOutside s \<longleftrightarrow> \<not> inside s (lastPosition s)"
  by (auto simp: isOutside_def Let_def isInBoundary_def)

definition area_ok :: "'a mobility_scheme \<Rightarrow> bool" where
  "area_ok s \<longleftrightarrow> (let lo = constraintAreaMin s; hi = constraintAreaMax s in cx lo \<le> cx hi \<and> cy lo \<le> cy hi \<and> cz lo \<le> cz hi)"

text \<open>What the random number generator promises, and the two volatile parameters.\<close>

definition draw_ok :: "draw \<Rightarrow> bool" where
  "draw_ok d \<longleftrightarrow> (\<forall>k a b. a \<le> b \<longrightarrow> a \<le> uniform d k a b \<and> uniform d k a b \<le> b) \<and> 0 < speed d \<and> 0 \<le> waitTime d"

lemma random_inside: "draw_ok d \<Longrightarrow> area_ok s \<Longrightarrow> inside s (getRandomPosition d s)"
  by (simp add: draw_ok_def area_ok_def getRandomPosition_def isInBoundary_def mkCoord_def Let_def)

text \<open>One axis.\<close>

lemma reflect_inside: "lo < hi \<Longrightarrow> \<exists>sg x v'. reflect lo hi c v = Inr (sg, x, v') \<and> lo \<le> x \<and> x \<le> hi"
proof -
  assume l: "lo < hi"
  obtain k r where "0 \<le> r" "r < hi - lo" "c = lo + r + (hi - lo) * real_of_int k" using width_parts [OF l] .
  with reflect_parts(1) [OF l this, of v] l show ?thesis by (cases "even k") auto
qed

lemma wrap_inside: "lo < hi \<Longrightarrow> \<exists>x. wrap lo hi c = Inr x \<and> lo \<le> x \<and> x \<le> hi"
  using modulo_real_range [of "hi - lo" "c - lo"] by (auto simp: wrap_def)

lemma wrapAxis_inside: "lo < hi \<Longrightarrow> \<exists>x t'. wrapAxis lo hi c t = Inr (x, t') \<and> lo \<le> x \<and> x \<le> hi"
  using wrap_inside [of lo hi c] wrap_inside [of lo hi t] by (auto simp: wrapAxis_def)

text \<open>Reflection on one axis moves that axis into the area and leaves the others.\<close>

lemma reflectX_inside:
  assumes "cx (constraintAreaMin s) < cx (constraintAreaMax s)"
  shows "\<exists>x m'. reflectX s m = Inr (s\<lparr>lastPosition := (lastPosition s)\<lparr>cx := x\<rparr>\<rparr>, m') \<and>
    cx (constraintAreaMin s) \<le> x \<and> x \<le> cx (constraintAreaMax s)"
proof (cases "cx (lastPosition s) < cx (constraintAreaMin s) \<or> cx (constraintAreaMax s) < cx (lastPosition s)")
  case True
  with reflect_inside [OF assms, of "cx (lastPosition s)" "cx (m_velocity m)"] reflect_inside [OF assms, of "cx (m_target m)" 0]
  show ?thesis by (auto simp: reflectX_def Let_def)
next
  case False
  then show ?thesis by (intro exI [of _ "cx (lastPosition s)"] exI [of _ m]) (auto simp: reflectX_def Let_def)
qed

lemma reflectY_inside:
  assumes "cy (constraintAreaMin s) < cy (constraintAreaMax s)"
  shows "\<exists>y m'. reflectY s m = Inr (s\<lparr>lastPosition := (lastPosition s)\<lparr>cy := y\<rparr>\<rparr>, m') \<and>
    cy (constraintAreaMin s) \<le> y \<and> y \<le> cy (constraintAreaMax s)"
proof (cases "cy (lastPosition s) < cy (constraintAreaMin s) \<or> cy (constraintAreaMax s) < cy (lastPosition s)")
  case True
  with reflect_inside [OF assms, of "cy (lastPosition s)" "cy (m_velocity m)"] reflect_inside [OF assms, of "cy (m_target m)" 0]
  show ?thesis by (auto simp: reflectY_def Let_def)
next
  case False
  then show ?thesis by (intro exI [of _ "cy (lastPosition s)"] exI [of _ m]) (auto simp: reflectY_def Let_def)
qed

lemma reflectZ_inside:
  assumes "cz (constraintAreaMin s) < cz (constraintAreaMax s)"
  shows "\<exists>z m'. reflectZ s m = Inr (s\<lparr>lastPosition := (lastPosition s)\<lparr>cz := z\<rparr>\<rparr>, m') \<and>
    cz (constraintAreaMin s) \<le> z \<and> z \<le> cz (constraintAreaMax s)"
proof (cases "cz (lastPosition s) < cz (constraintAreaMin s) \<or> cz (constraintAreaMax s) < cz (lastPosition s)")
  case True
  with reflect_inside [OF assms, of "cz (lastPosition s)" "cz (m_velocity m)"] reflect_inside [OF assms, of "cz (m_target m)" 0]
  show ?thesis by (auto simp: reflectZ_def Let_def)
next
  case False
  then show ?thesis by (intro exI [of _ "cz (lastPosition s)"] exI [of _ m]) (auto simp: reflectZ_def Let_def)
qed

definition wide_area :: "'a mobility_scheme \<Rightarrow> bool" where
  "wide_area s \<longleftrightarrow> (let lo = constraintAreaMin s; hi = constraintAreaMax s in cx lo < cx hi \<and> cy lo < cy hi \<and> cz lo < cz hi)"

lemma reflectIfOutside_inside:
  assumes "wide_area s"
  shows "\<exists>p m'. reflectIfOutside s m = Inr (s\<lparr>lastPosition := p\<rparr>, m') \<and> inside s p"
proof -
  let ?lo = "constraintAreaMin s" let ?hi = "constraintAreaMax s"
  have w: "cx ?lo < cx ?hi" "cy ?lo < cy ?hi" "cz ?lo < cz ?hi" using assms by (simp_all add: wide_area_def Let_def)
  from reflectX_inside [OF w(1), of m] obtain x m1 where
    x: "reflectX s m = Inr (s\<lparr>lastPosition := (lastPosition s)\<lparr>cx := x\<rparr>\<rparr>, m1)" "cx ?lo \<le> x" "x \<le> cx ?hi" by blast
  let ?s1 = "s\<lparr>lastPosition := (lastPosition s)\<lparr>cx := x\<rparr>\<rparr>"
  from reflectY_inside [of ?s1 m1] w(2) obtain y m2 where
    y: "reflectY ?s1 m1 = Inr (s\<lparr>lastPosition := (lastPosition s)\<lparr>cx := x, cy := y\<rparr>\<rparr>, m2)" "cy ?lo \<le> y" "y \<le> cy ?hi" by auto
  let ?s2 = "s\<lparr>lastPosition := (lastPosition s)\<lparr>cx := x, cy := y\<rparr>\<rparr>"
  from reflectZ_inside [of ?s2 m2] w(3) obtain z m3 where
    z: "reflectZ ?s2 m2 = Inr (s\<lparr>lastPosition := (lastPosition s)\<lparr>cx := x, cy := y, cz := z\<rparr>\<rparr>, m3)" "cz ?lo \<le> z" "z \<le> cz ?hi" by auto
  have "reflectIfOutside s m = Inr (s\<lparr>lastPosition := (lastPosition s)\<lparr>cx := x, cy := y, cz := z\<rparr>\<rparr>, m3)"
    by (simp add: reflectIfOutside_def x(1) y(1) z(1))
  moreover have "inside s ((lastPosition s)\<lparr>cx := x, cy := y, cz := z\<rparr>)" using x y z by (simp add: isInBoundary_def)
  ultimately show ?thesis by blast
qed

lemma wrapIfOutside_inside:
  assumes "wide_area s"
  shows "\<exists>p m'. wrapIfOutside s m = Inr (s\<lparr>lastPosition := p\<rparr>, m') \<and> inside s p"
proof -
  let ?lo = "constraintAreaMin s" let ?hi = "constraintAreaMax s" let ?p = "lastPosition s" let ?t = "m_target m"
  have w: "cx ?lo < cx ?hi" "cy ?lo < cy ?hi" "cz ?lo < cz ?hi" using assms by (simp_all add: wide_area_def Let_def)
  obtain x tx where x: "wrapAxis (cx ?lo) (cx ?hi) (cx ?p) (cx ?t) = Inr (x, tx)" "cx ?lo \<le> x" "x \<le> cx ?hi"
    using wrapAxis_inside [OF w(1)] by blast
  obtain y ty where y: "wrapAxis (cy ?lo) (cy ?hi) (cy ?p) (cy ?t) = Inr (y, ty)" "cy ?lo \<le> y" "y \<le> cy ?hi"
    using wrapAxis_inside [OF w(2)] by blast
  obtain z tz where z: "wrapAxis (cz ?lo) (cz ?hi) (cz ?p) (cz ?t) = Inr (z, tz)" "cz ?lo \<le> z" "z \<le> cz ?hi"
    using wrapAxis_inside [OF w(3)] by blast
  show ?thesis using x y z
    by (intro exI [of _ "mkCoord x y z"] exI [of _ "m\<lparr>m_target := mkCoord tx ty tz\<rparr>"])
       (simp add: wrapIfOutside_def Let_def isInBoundary_def mkCoord_def)
qed

text \<open>
  In an area with three positive extents every border policy but \<open>RAISEERROR\<close> brings the
  position into the area, and changes nothing else of the module; \<open>RAISEERROR\<close> stops
  the simulation exactly when the position is outside.
\<close>
theorem border_policy_inside:
  assumes "wide_area s" and "draw_ok d"
  shows "if policy = RAISEERROR
    then handleIfOutside policy d s m = (if isOutside s then Inl (RuntimeError ''Mobility moved outside the area'') else Inr (s, m))
    else \<exists>p m'. handleIfOutside policy d s m = Inr (s\<lparr>lastPosition := p\<rparr>, m') \<and> \<not> isOutside (s\<lparr>lastPosition := p\<rparr>)"
proof (cases policy)
  case REFLECT
  then show ?thesis using reflectIfOutside_inside [OF assms(1), of m] by (auto simp: handleIfOutside_def isOutside_iff)
next
  case WRAP
  then show ?thesis using wrapIfOutside_inside [OF assms(1), of m] by (auto simp: handleIfOutside_def isOutside_iff)
next
  case PLACERANDOMLY
  have a: "area_ok s" using assms(1) by (auto simp: wide_area_def area_ok_def Let_def)
  show ?thesis
  proof (cases "isOutside s")
    case True
    with PLACERANDOMLY random_inside [OF assms(2) a] show ?thesis
      by (auto simp: handleIfOutside_def placeRandomlyIfOutside_def Let_def isOutside_iff)
  next
    case False
    with PLACERANDOMLY show ?thesis
      by (auto simp: handleIfOutside_def placeRandomlyIfOutside_def intro!: exI [of _ "lastPosition s"])
  qed
next
  case RAISEERROR
  then show ?thesis by (simp add: handleIfOutside_def raiseErrorIfOutside_def)
qed

definition unit_draw :: draw where
  "unit_draw = \<lparr>uniform = (\<lambda>k a b. a), speed = 1, waitTime = 0\<rparr>"

definition unit_area :: "coord \<Rightarrow> mobility" where
  "unit_area p = \<lparr>constraintAreaMin = mkCoord 0 0 0, constraintAreaMax = mkCoord 1 1 1, lastPosition = p\<rparr>"

lemma unit_draw_ok: "draw_ok unit_draw"
  by (simp add: draw_ok_def unit_draw_def)

theorem border_policy_inside_witness:
  "\<forall>p m. \<exists>q m'. handleIfOutside WRAP unit_draw (unit_area p) m = Inr (unit_area q, m') \<and> \<not> isOutside (unit_area q)"
proof (intro allI)
  fix p m
  have "wide_area (unit_area p)" by (simp add: wide_area_def unit_area_def mkCoord_def)
  from border_policy_inside [OF this unit_draw_ok, of WRAP m]
  show "\<exists>q m'. handleIfOutside WRAP unit_draw (unit_area p) m = Inr (unit_area q, m') \<and> \<not> isOutside (unit_area q)"
    by (simp add: unit_area_def)
qed

section \<open>Runs of the random waypoint model\<close>

text \<open>
  Between two events the position is on the segment from the position of the last update to
  the target: \<open>nextChange\<close> is the time it gets there.
\<close>

definition segment_ok :: "waypoint \<Rightarrow> bool" where
  "segment_ok s \<longleftrightarrow> nextChange s = lastUpdate s \<or>
     (\<exists>v. lastVelocity s = Some v \<and>
        coord_add (lastPosition s) (coord_mult v (nextChange s - lastUpdate s)) = targetPosition s)"

definition waypoint_inv :: "real \<Rightarrow> waypoint \<Rightarrow> bool" where
  "waypoint_inv now s \<longleftrightarrow> area_ok s \<and> inside s (lastPosition s) \<and> 0 \<le> updateInterval s \<and> 0 \<le> lastUpdate s \<and> lastUpdate s \<le> now \<and>
     (if stationary s then lastVelocity s = Some coord_ZERO \<and> nextChange s = -1 \<and> moveTimer s = None
      else inside s (targetPosition s) \<and> segment_ok s \<and> lastUpdate s \<le> nextChange s \<and>
        (\<exists>t. moveTimer s = Some t \<and> now \<le> t \<and> t \<le> nextChange s))"

definition simtime_ok :: "(real \<Rightarrow> real) \<Rightarrow> bool" where
  "simtime_ok st \<longleftrightarrow> (\<forall>x \<ge> 0. 0 \<le> st x)"

lemma coord_distance_nonneg: "0 \<le> coord_distance a b"
  by (simp add: coord_distance_def coord_length_def squareLength_def)

lemma distance_not_neg: "\<not> coord_distance a b < 0"
  using coord_distance_nonneg [of a b] by simp

text \<open>A point of a segment between two points of the area.\<close>

lemma between_axis:
  fixes a b v d e lo hi :: real
  assumes "lo \<le> a" "a \<le> hi" "lo \<le> a + v * d" "a + v * d \<le> hi" "0 \<le> e" "e \<le> d"
  shows "lo \<le> a + v * e \<and> a + v * e \<le> hi"
proof (cases "0 \<le> v")
  case True
  then have "0 \<le> v * e" "v * e \<le> v * d" using assms by (simp_all add: mult_left_mono)
  with assms show ?thesis by linarith
next
  case False
  then have "v * e \<le> 0" "v * d \<le> v * e" using assms by (simp_all add: mult_left_mono_neg mult_nonpos_nonneg)
  with assms show ?thesis by linarith
qed

lemma between_inside:
  assumes "isInBoundary a lo hi" and "isInBoundary (coord_add a (coord_mult v d)) lo hi" and "0 \<le> e" and "e \<le> d"
  shows "isInBoundary (coord_add a (coord_mult v e)) lo hi"
  using assms between_axis [of "cx lo" "cx a" "cx hi" "cx v" d e] between_axis [of "cy lo" "cy a" "cy hi" "cy v" d e]
    between_axis [of "cz lo" "cz a" "cz hi" "cz v" d e]
  by (simp add: isInBoundary_def coord_add_def coord_mult_def mkCoord_def)

lemma coord_walk: "coord_add (coord_add a (coord_mult v d)) (coord_mult v e) = coord_add a (coord_mult v (d + e))"
  by (simp add: coord_vector scaleR_left_distrib)

lemma coord_reach: "d \<noteq> 0 \<Longrightarrow> coord_add a (coord_mult (coord_div (coord_sub b a) d) d) = b"
  by (simp add: coord_vector)

text \<open>A new segment from a position inside the area.\<close>

lemma new_segment:
  assumes "draw_ok d" and "simtime_ok st" and "area_ok s" and "inside s (lastPosition s)"
    and "nextMoveIsWait s \<Longrightarrow> inside s (targetPosition s)"
  shows "\<exists>s'. setTargetPosition st d now s = Inr s' \<and>
    (let s2 = setVelocity now s' in area_ok s2 \<and> inside s2 (lastPosition s2) \<and> inside s2 (targetPosition s2) \<and>
       updateInterval s2 = updateInterval s \<and> stationary s2 = stationary s \<and> lastUpdate s2 = lastUpdate s \<and>
       moveTimer s2 = moveTimer s \<and> now \<le> nextChange s2 \<and> segment_ok (s2\<lparr>lastUpdate := now\<rparr>))"
proof -
  have t: "inside s (getRandomPosition d s)" using random_inside assms by blast
  have pos: "0 \<le> st (waitTime d)" "0 \<le> st (coord_distance (lastPosition s) p / speed d)" "speed d \<noteq> 0" for p
    using assms(1,2) coord_distance_nonneg by (auto simp: draw_ok_def simtime_ok_def)
  show ?thesis
  proof (cases "nextMoveIsWait s")
    case True
    then show ?thesis using assms(3-5) pos(1)
      by (auto simp: setTargetPosition_def setVelocity_def segment_ok_def coord_reach area_ok_def)
  next
    case False
    then show ?thesis using assms(3,4) t pos(2) [of "getRandomPosition d s"] pos(3)
      by (auto simp: setTargetPosition_def setVelocity_def segment_ok_def coord_reach area_ok_def Let_def)
  qed
qed

text \<open>Moving to the time \<open>t\<close>, not after the pending timer.\<close>

definition moved :: "real \<Rightarrow> waypoint \<Rightarrow> waypoint \<Rightarrow> bool" where
  "moved t s s' \<longleftrightarrow> area_ok s' \<and> inside s' (lastPosition s') \<and> lastUpdate s' = t \<and> updateInterval s' = updateInterval s \<and>
     stationary s' = stationary s \<and> moveTimer s' = moveTimer s \<and>
     (if stationary s then lastVelocity s' = Some coord_ZERO \<and> nextChange s' = -1
      else inside s' (targetPosition s') \<and> segment_ok s' \<and> t \<le> nextChange s')"

lemma raiseErrorIfOutside_inside: "inside s (lastPosition s) \<Longrightarrow> raiseErrorIfOutside s = Inr s"
  by (simp add: raiseErrorIfOutside_def isOutside_iff)

lemma moveAndUpdate_moved:
  assumes inv: "waypoint_inv now s" and t: "now \<le> t" "\<And>u. moveTimer s = Some u \<Longrightarrow> t \<le> u"
    and d: "draw_ok d" and st: "simtime_ok st"
  shows "ok (moved t s) (moveAndUpdate (waypoint_move st d t) t s)"
proof (cases "stationary s")
  case True
  then have s: "nextChange s = -1" "lastVelocity s = Some coord_ZERO" "inside s (lastPosition s)" "area_ok s" "0 \<le> lastUpdate s" "lastUpdate s \<le> t"
    using inv t(1) by (auto simp: waypoint_inv_def)
  have z: "coord_add (lastPosition s) (coord_mult coord_ZERO x) = lastPosition s" for x
    by (simp add: coord_add_def coord_mult_def coord_ZERO_def mkCoord_def)
  have "t \<noteq> -1" using s(5,6) by linarith
  then show ?thesis using s True
    by (auto simp: moveAndUpdate_def waypoint_move_def lineMove_def raiseErrorIfOutside_inside moved_def z area_ok_def)
next
  case False
  then have s: "inside s (lastPosition s)" "inside s (targetPosition s)" "area_ok s" "segment_ok s" "lastUpdate s \<le> t"
    and n: "lastUpdate s \<le> nextChange s" "t \<le> nextChange s"
    using inv t by (fastforce simp: waypoint_inv_def)+
  show ?thesis
  proof (cases "t = nextChange s")
    case True
    have "inside (s\<lparr>lastPosition := targetPosition s\<rparr>) (lastPosition (s\<lparr>lastPosition := targetPosition s\<rparr>))"
      "area_ok (s\<lparr>lastPosition := targetPosition s\<rparr>)" using s by (simp_all add: area_ok_def)
    from new_segment [OF d st this(2,1), of t] s(2) obtain s' where
      s': "setTargetPosition st d t (s\<lparr>lastPosition := targetPosition s\<rparr>) = Inr s'"
      and p: "let s2 = setVelocity t s' in area_ok s2 \<and> inside s2 (lastPosition s2) \<and> inside s2 (targetPosition s2) \<and>
        updateInterval s2 = updateInterval s \<and> stationary s2 = stationary s \<and> lastUpdate s2 = lastUpdate s \<and>
        moveTimer s2 = moveTimer s \<and> t \<le> nextChange s2 \<and> segment_ok (s2\<lparr>lastUpdate := t\<rparr>)" by auto
    from p have "raiseErrorIfOutside (setVelocity t s') = Inr (setVelocity t s')"
      by (intro raiseErrorIfOutside_inside) (simp add: Let_def)
    then show ?thesis using True p s' \<open>\<not> stationary s\<close>
      by (simp add: moveAndUpdate_def waypoint_move_def lineMove_def moved_def Let_def area_ok_def)
  next
    case less: False
    show ?thesis
    proof (cases "lastUpdate s = t")
      case True
      then show ?thesis using less s n \<open>\<not> stationary s\<close> by (simp add: moveAndUpdate_def moved_def)
    next
      case later: False
      with s(5) n(2) less have lt: "lastUpdate s < t" "t < nextChange s" by auto
      with s(4) obtain v where v: "lastVelocity s = Some v"
        "coord_add (lastPosition s) (coord_mult v (nextChange s - lastUpdate s)) = targetPosition s" by (auto simp: segment_ok_def)
      let ?p = "coord_add (lastPosition s) (coord_mult v (t - lastUpdate s))"
      have in': "inside s ?p" using between_inside [OF s(1), of v "nextChange s - lastUpdate s" "t - lastUpdate s"] v(2) s(2) lt by auto
      have "coord_add ?p (coord_mult v (nextChange s - t)) = targetPosition s" using v(2) by (simp add: coord_walk)
      with in' v(1) lt s less later \<open>\<not> stationary s\<close> show ?thesis
        by (simp add: moveAndUpdate_def waypoint_move_def lineMove_def raiseErrorIfOutside_inside moved_def area_ok_def segment_ok_def)
    qed
  qed
qed

lemma scheduleUpdate_inv:
  assumes "moved t s0 s" and "0 \<le> t" and "0 \<le> updateInterval s"
  shows "ok (waypoint_inv t) (scheduleUpdate t s)"
  using assms
  by (auto simp: moved_def scheduleUpdate_def scheduleMove_def Let_def waypoint_inv_def segment_ok_def area_ok_def split: if_splits)

lemma handleSelfMessage_inv:
  assumes "waypoint_inv now s" and "moveTimer s = Some t" and "draw_ok d" and "simtime_ok st" and "now \<le> t"
  shows "ok (waypoint_inv t) (handleSelfMessage (waypoint_move st d t) t s)"
proof -
  have "ok (moved t s) (moveAndUpdate (waypoint_move st d t) t s)"
    using moveAndUpdate_moved [OF assms(1,5) _ assms(3,4)] assms(2) by simp
  moreover have "0 \<le> t" "0 \<le> updateInterval s" using assms(1,5) by (auto simp: waypoint_inv_def)
  then have "ok (waypoint_inv t) (scheduleUpdate t s')" if "moved t s s'" for s'
    using scheduleUpdate_inv [OF that] that by (simp add: moved_def)
  ultimately show ?thesis by (auto simp: handleSelfMessage_def ok_eq)
qed

lemma nextChange_kept:
  "moveAndUpdate (waypoint_move st d t) t s = Inr s' \<Longrightarrow> nextChange s' = nextChange s \<or> t = nextChange s"
  by (auto simp: moveAndUpdate_def waypoint_move_def lineMove_def raiseErrorIfOutside_def rbind_eq_Inr split: if_splits option.splits)

lemma getCurrentPosition_inv:
  assumes "waypoint_inv now s" and "now \<le> t" and "\<And>u. moveTimer s = Some u \<Longrightarrow> t \<le> u" and "draw_ok d" and "simtime_ok st"
  shows "ok (\<lambda>(p, s'). waypoint_inv t s' \<and> p = lastPosition s' \<and> inside s' p) (getCurrentPosition (waypoint_move st d t) t s)"
proof -
  have "ok (moved t s) (moveAndUpdate (waypoint_move st d t) t s)" using assms by (intro moveAndUpdate_moved)
  then obtain s' where s': "moveAndUpdate (waypoint_move st d t) t s = Inr s'" "moved t s s'" by (auto simp: ok_eq)
  have "0 \<le> t" "0 \<le> updateInterval s" using assms(1,2) by (auto simp: waypoint_inv_def)
  moreover have "\<exists>u. moveTimer s = Some u \<and> t \<le> u \<and> u \<le> nextChange s'" if "\<not> stationary s"
  proof -
    obtain u where u: "moveTimer s = Some u" "u \<le> nextChange s" using assms(1) \<open>\<not> stationary s\<close> by (auto simp: waypoint_inv_def)
    moreover have "t \<le> u" using assms(3) [OF u(1)] .
    moreover have "t \<le> nextChange s'" using s'(2) that by (simp add: moved_def)
    ultimately show ?thesis using nextChange_kept [OF s'(1)] by auto
  qed
  moreover have "stationary s \<Longrightarrow> moveTimer s = None" using assms(1) by (auto simp: waypoint_inv_def)
  ultimately have "waypoint_inv t s'" using s'(2) by (auto simp: waypoint_inv_def moved_def split: if_splits)
  then show ?thesis using s' by (simp add: getCurrentPosition_def moved_def)
qed

lemma initializePosition_inv:
  assumes "area_ok (waypoint_initialize lo hi iv w sp)" and "0 \<le> iv" and "0 \<le> now" and "draw_ok d'" and "simtime_ok st"
    and "initializePosition st P d d' now (waypoint_initialize lo hi iv w sp) = Inr s"
  shows "waypoint_inv now s"
proof -
  let ?s0 = "waypoint_initialize lo hi iv w sp"
  from assms(6) obtain s1 where s1: "setInitialPosition P d ?s0 = Inr s1" "\<not> isOutside s1"
    by (auto simp: initializePosition_def initializeSegments_def rbind_eq_Inr checkPosition_def split: if_splits)
  then have s1': "s1 = ?s0\<lparr>lastPosition := lastPosition s1\<rparr>"
    by (auto simp: setInitialPosition_def waypoint_initialize_def split: if_splits option.splits)
  have f: "stationary s1 = stationary ?s0" "area_ok s1" "updateInterval s1 = iv" "lastVelocity s1 = Some coord_ZERO" "nextChange s1 = -1"
    "nextMoveIsWait s1 = False"
    by (subst s1', use assms(1) in \<open>simp add: waypoint_initialize_def area_ok_def\<close>)+
  have in1: "inside s1 (lastPosition s1)" using s1(2) by (simp add: isOutside_iff)
  have "ok (waypoint_inv now) (initializePosition st P d d' now ?s0)"
  proof (cases "stationary ?s0")
    case True
    then have "moved now s1 (s1\<lparr>lastUpdate := now\<rparr>)" using f in1 by (simp add: moved_def area_ok_def)
    from scheduleUpdate_inv [OF this assms(3)] f assms(2) True s1 show ?thesis
      by (simp add: initializePosition_def initializeSegments_def checkPosition_def)
  next
    case False
    from new_segment [OF assms(4,5) f(2) in1, of now] f(6) obtain s' where s': "setTargetPosition st d' now s1 = Inr s'"
      and p: "let s2 = setVelocity now s' in area_ok s2 \<and> inside s2 (lastPosition s2) \<and> inside s2 (targetPosition s2) \<and>
        updateInterval s2 = updateInterval s1 \<and> stationary s2 = stationary s1 \<and> lastUpdate s2 = lastUpdate s1 \<and>
        moveTimer s2 = moveTimer s1 \<and> now \<le> nextChange s2 \<and> segment_ok (s2\<lparr>lastUpdate := now\<rparr>)" by auto
    then have "moved now s1 ((setVelocity now s')\<lparr>lastUpdate := now\<rparr>)"
      using f False by (simp add: moved_def Let_def area_ok_def)
    from scheduleUpdate_inv [OF this assms(3)] p s' f assms(2) False s1 show ?thesis
      by (simp add: initializePosition_def initializeSegments_def checkPosition_def Let_def)
  qed
  with assms(6) show ?thesis by simp
qed

text \<open>
  A run: the initialisation, the timer of the module at the time it was scheduled for, and
  questions for the position in between, never after the pending timer.
\<close>

inductive waypoint_run :: "(real \<Rightarrow> real) \<Rightarrow> real \<Rightarrow> waypoint \<Rightarrow> bool" for st where
  start: "area_ok (waypoint_initialize lo hi iv w sp) \<Longrightarrow> 0 \<le> iv \<Longrightarrow> 0 \<le> now \<Longrightarrow> draw_ok d' \<Longrightarrow>
    initializePosition st P d d' now (waypoint_initialize lo hi iv w sp) = Inr s \<Longrightarrow> waypoint_run st now s"
| timer: "waypoint_run st now s \<Longrightarrow> moveTimer s = Some t \<Longrightarrow> draw_ok d \<Longrightarrow>
    handleSelfMessage (waypoint_move st d t) t s = Inr s' \<Longrightarrow> waypoint_run st t s'"
| ask: "waypoint_run st now s \<Longrightarrow> now \<le> t \<Longrightarrow> (\<forall>u. moveTimer s = Some u \<longrightarrow> t \<le> u) \<Longrightarrow> draw_ok d \<Longrightarrow>
    getCurrentPosition (waypoint_move st d t) t s = Inr (p, s') \<Longrightarrow> waypoint_run st t s'"

lemma timer_not_past: "waypoint_inv now s \<Longrightarrow> moveTimer s = Some t \<Longrightarrow> now \<le> t"
  by (auto simp: waypoint_inv_def split: if_splits)

lemma waypoint_run_inv: "waypoint_run st now s \<Longrightarrow> simtime_ok st \<Longrightarrow> waypoint_inv now s"
proof (induction rule: waypoint_run.induct)
  case (start lo hi iv w sp now d' P d s)
  then show ?case using initializePosition_inv by blast
next
  case (timer now s t d s')
  from handleSelfMessage_inv [OF timer.IH [OF timer.prems] timer(2,3) timer.prems] timer_not_past [OF timer.IH [OF timer.prems] timer(2)] timer(4)
  show ?case by simp
next
  case (ask now s t d p s')
  from getCurrentPosition_inv [OF ask.IH [OF ask.prems] ask(2) _ ask(4) ask.prems] ask(3,5) show ?case by simp
qed

text \<open>
  C28. A prover that moves by the random waypoint model never leaves its area: through every run
  of initialisation, timer events and questions for the position, in any order in time, the
  position stays inside, the next timer event and every question up to it return (no
  check for the border fires, no position is computed from a velocity that is not a
  number, no event is scheduled into the past), and every answer is inside.
\<close>
theorem waypoint_stays_inside:
  assumes "waypoint_run st now s" and "simtime_ok st"
  shows "\<not> isOutside s \<and>
    (\<forall>t d. moveTimer s = Some t \<and> draw_ok d \<longrightarrow> (\<exists>s'. handleSelfMessage (waypoint_move st d t) t s = Inr s')) \<and>
    (\<forall>t d. now \<le> t \<and> (\<forall>u. moveTimer s = Some u \<longrightarrow> t \<le> u) \<and> draw_ok d \<longrightarrow>
      (\<exists>p s'. getCurrentPosition (waypoint_move st d t) t s = Inr (p, s') \<and> \<not> isOutside (s'\<lparr>lastPosition := p\<rparr>)))"
proof (intro conjI allI impI)
  have inv: "waypoint_inv now s" using waypoint_run_inv assms by blast
  then show "\<not> isOutside s" by (simp add: waypoint_inv_def isOutside_iff)
  fix t d
  show "\<exists>s'. handleSelfMessage (waypoint_move st d t) t s = Inr s'" if "moveTimer s = Some t \<and> draw_ok d"
    using handleSelfMessage_inv [OF inv _ _ assms(2)] timer_not_past [OF inv] that by (auto simp: ok_eq)
  assume "now \<le> t \<and> (\<forall>u. moveTimer s = Some u \<longrightarrow> t \<le> u) \<and> draw_ok d"
  then have "ok (\<lambda>(p, s'). waypoint_inv t s' \<and> p = lastPosition s' \<and> inside s' p) (getCurrentPosition (waypoint_move st d t) t s)"
    using getCurrentPosition_inv [OF inv _ _ _ assms(2)] by blast
  then show "\<exists>p s'. getCurrentPosition (waypoint_move st d t) t s = Inr (p, s') \<and> \<not> isOutside (s'\<lparr>lastPosition := p\<rparr>)"
    by (auto simp: ok_eq isOutside_iff)
qed

text \<open>A prover of the configured area that starts at its lower corner.\<close>

definition demo_waypoint :: waypoint where
  "demo_waypoint = waypoint_initialize (mkCoord 0 0 0) (mkCoord 300 300 0) (1 / 10) (Some 0) None"

definition corner_draw :: draw where
  "corner_draw = \<lparr>uniform = (\<lambda>k a b. b), speed = 2, waitTime = 0\<rparr>"

definition random_placement :: placement where
  "random_placement = \<lparr>initFromDisplayString = False, automaticArrangement = False, displayPoint = None, coordinateSystem = False,
     initialXYZ = None, initialGeo = None\<rparr>"

theorem waypoint_stays_inside_witness:
  "\<exists>s. waypoint_run (\<lambda>x. x) 0 s \<and> initializePosition (\<lambda>x. x) random_placement unit_draw corner_draw 0 demo_waypoint = Inr s \<and>
    \<not> isOutside s \<and> (\<forall>t. moveTimer s = Some t \<longrightarrow> (\<exists>s'. handleSelfMessage (waypoint_move (\<lambda>x. x) corner_draw t) t s = Inr s'))"
proof -
  have d: "draw_ok corner_draw" "simtime_ok (\<lambda>x. x)" by (simp_all add: draw_ok_def corner_draw_def simtime_ok_def)
  have "\<exists>s. initializePosition (\<lambda>x. x) random_placement unit_draw corner_draw 0 demo_waypoint = Inr s"
    by (simp add: initializePosition_def initializeSegments_def setInitialPosition_def random_placement_def checkPosition_def isOutside_def demo_waypoint_def
        waypoint_initialize_def getRandomPosition_def unit_draw_def corner_draw_def mkCoord_def setTargetPosition_def setVelocity_def
        scheduleUpdate_def scheduleMove_def Let_def distance_not_neg)
  then obtain s where s: "initializePosition (\<lambda>x. x) random_placement unit_draw corner_draw 0 demo_waypoint = Inr s" ..
  have "area_ok demo_waypoint" by (simp add: area_ok_def demo_waypoint_def waypoint_initialize_def mkCoord_def)
  then have "waypoint_run (\<lambda>x. x) 0 s"
    using s d(1) waypoint_run.start [of "mkCoord 0 0 0" "mkCoord 300 300 0" "1 / 10" "Some 0" None 0 corner_draw] by (simp add: demo_waypoint_def)
  with waypoint_stays_inside [OF this d(2)] d(1) s show ?thesis by blast
qed

end
