(* ===== verification/Device.thy ===== *)
theory Device
  imports Fadia_Messages Energy_Storage Channel
begin

text \<open>
  The part of a device that provers and collectors share: the members and methods of
  \<open>ADevice\<close> (\<open>ADevice.h\<close>, \<open>ADevice_template.h\<close>, \<open>ADevice.cpp\<close>), the dispatch of messages
  apart, which is in \<open>Dispatch\<close>.

  The state of a device is the record \<open>adevice\<close>; provers and collectors extend it. What a
  device reads from the rest of the simulation while it handles one event is the record
  \<open>env\<close>: the clock, the answer of the kernel to \<open>isScheduled\<close> (a function of the calls the
  device made), the positions and the states of other modules, random draws. What it does
  to the rest is appended to its call log. \<open>logInfo\<close> and \<open>logDebug\<close> only print and are left
  out.
\<close>

section \<open>Environment and state\<close>

record env =
  simTime :: real
  isScheduled :: "call list \<Rightarrow> msgid \<Rightarrow> bool"
  arrivalGate :: int
  numProvers :: nat
  numCollectors :: nat
  position :: "nat \<Rightarrow> coord"
  transmitting :: "nat \<Rightarrow> bool"
  collectorProcessing :: bool
  wiring :: topology
  drawTree :: treeid_t
  drawStart :: real
  drawRevoke :: real

record adevice =
  moduleIndex :: nat
  device :: device_t
  maxdepth :: nat
  maxchildren :: nat
  deltah :: real
  deltag :: real
  aggsize :: nat
  crashed :: bool
  gatsz :: "64 word"
  statadapt :: bool
  range_m :: real
  selfish :: bool
  status :: status_e
  energy :: "energy_storage option"
  drange :: int
  rootidx :: int
  countcrash :: nat
  KRsize :: nat
  KPsize :: nat
  macdelays :: "real list"
  deviceg :: "(uid_t, int) omap"
  txrxstat :: txrx_e
  chanstat :: cstat_e
  procstat :: pstat_e
  msgqueue :: "cMessage list"
  pupmsg :: "cMessage option"
  calls :: "call list"

definition baseID :: "32 word" where
  "baseID = 1"

text \<open>The initial values that \<open>ADevice.h\<close> declares; the others are arguments.\<close>

definition initial_drange :: "config \<Rightarrow> int" where
  "initial_drange C = (if WIRELESS C then -1 else NEIGHBOR_DISTANCE)"

text \<open>The message objects every device allocates.\<close>

definition timer_msg :: "MSG \<Rightarrow> msgid \<Rightarrow> packet \<Rightarrow> cMessage" where
  "timer_msg k i p = \<lparr>mkind = k, mid = i, mself = True, mbytes = 0, mpacket = p\<rparr>"

definition txmsg :: cMessage where
  "txmsg = timer_msg TXDONE Txmsg NoPacket"

definition cbusymsg :: cMessage where
  "cbusymsg = timer_msg CBUSYMSG Cbusymsg NoPacket"

definition collbusymsg :: cMessage where
  "collbusymsg = timer_msg COLLBSYMSG Collbusymsg NoPacket"

definition entxmsg :: cMessage where
  "entxmsg = timer_msg ENTXDONE Entxmsg NoPacket"

definition procendmsg :: cMessage where
  "procendmsg = timer_msg PROCDONE Procendmsg NoPacket"

section \<open>Kernel calls\<close>

definition emit_call :: "call \<Rightarrow> 'a adevice_scheme \<Rightarrow> 'a adevice_scheme" where
  "emit_call c s = s\<lparr>calls := c # calls s\<rparr>"

definition scheduleAt :: "real \<Rightarrow> cMessage \<Rightarrow> 'a adevice_scheme \<Rightarrow> 'a adevice_scheme" where
  "scheduleAt t m = emit_call (ScheduleAt t m)"

definition cancelEvent :: "msgid \<Rightarrow> 'a adevice_scheme \<Rightarrow> 'a adevice_scheme" where
  "cancelEvent i = emit_call (CancelEvent i)"

definition deleteMsg :: "cMessage \<Rightarrow> 'a adevice_scheme \<Rightarrow> 'a adevice_scheme" where
  "deleteMsg m = emit_call (DeleteMsg m)"

definition logError :: "string \<Rightarrow> 'a adevice_scheme \<Rightarrow> 'a adevice_scheme" where
  "logError t = emit_call (LogError t)"

definition logWarn :: "string \<Rightarrow> 'a adevice_scheme \<Rightarrow> 'a adevice_scheme" where
  "logWarn t = emit_call (LogWarn t)"

section \<open>Delays and MACs\<close>

definition macDelay :: "config \<Rightarrow> nat \<Rightarrow> 'a adevice_scheme \<Rightarrow> real result" where
  "macDelay C bytes s =
     (case device s of
        SKY \<Rightarrow> HMAC_DELAY_S (SCENARIO C) bytes
      | PI2 \<Rightarrow> HMAC_DELAY_P (SCENARIO C) bytes
      | SERV \<Rightarrow> HMAC_DELAY_P (SCENARIO C) bytes
      | NA \<Rightarrow> HMAC_DELAY (SCENARIO C) bytes)"

definition checkMAC :: "config \<Rightarrow> cMessage \<Rightarrow> 'a adevice_scheme \<Rightarrow> (bool \<times> 'a adevice_scheme) result" where
  "checkMAC C msg s =
     rbind (macDelay C (mbytes msg) s) (\<lambda>d.
     Inr (pmac (mpacket msg) = 0, s\<lparr>macdelays := macdelays s @ [d]\<rparr>))"

definition generateMAC :: "packet \<Rightarrow> keyid_t \<Rightarrow> mac_t" where
  "generateMAC p kid = 0"

fun drain :: "real list \<Rightarrow> real \<Rightarrow> real" where
  "drain [] acc = acc"
| "drain (d # ds) acc = drain ds (acc + d)"

definition getMacDelays :: "'a adevice_scheme \<Rightarrow> real \<times> 'a adevice_scheme" where
  "getMacDelays s = (drain (macdelays s) 0, s\<lparr>macdelays := []\<rparr>)"

definition checkRecordTime :: "env \<Rightarrow> 'a adevice_scheme \<Rightarrow> bool" where
  "checkRecordTime E s \<longleftrightarrow> 0 \<le> simTime E \<and> simTime E \<le> deltah s * 6"

definition checkFirmwareDelay :: "config \<Rightarrow> 'a adevice_scheme \<Rightarrow> real result" where
  "checkFirmwareDelay C s =
     (case device s of
        SKY \<Rightarrow> FIRMWARE_CHECK_DELAY_S (SCENARIO C)
      | PI2 \<Rightarrow> FIRMWARE_CHECK_DELAY_P (SCENARIO C)
      | SERV \<Rightarrow> Inr 0
      | NA \<Rightarrow> FIRMWARE_CHECK_DELAY (SCENARIO C))"

definition setProcessing :: "'a adevice_scheme \<Rightarrow> 'a adevice_scheme" where
  "setProcessing s = s\<lparr>procstat := PBUSY\<rparr>"

section \<open>Energy modes\<close>

text \<open>
  \<open>energy->updateResidualCapacity()\<close> followed by a new power in mW. Only a prover sets
  the pointer \<open>energy\<close>.
\<close>

definition setPower :: "env \<Rightarrow> real \<Rightarrow> 'a adevice_scheme \<Rightarrow> 'a adevice_scheme result" where
  "setPower E mW s =
     (case energy s of
        None \<Rightarrow> Inl NullPointer
      | Some e \<Rightarrow> rbind (updateResidualCapacity (simTime E) e) (\<lambda>e'.
          Inr (s\<lparr>energy := Some (e'\<lparr>totalPowerConsumption := mW / 1000\<rparr>)\<rparr>)))"

section \<open>Sensing\<close>

text \<open>\<open>isTransmiting\<close> of the devices: the own state, and the others as the environment has them.\<close>

definition isTransmiting :: "env \<Rightarrow> 'a adevice_scheme \<Rightarrow> nat \<Rightarrow> bool" where
  "isTransmiting E s i = (if i = moduleIndex s then txrxstat s = TRANSMITING else transmitting E i)"

text \<open>\<open>isChannelBusy(drange, -1)\<close>\<close>

definition isChannelBusy :: "env \<Rightarrow> 'a adevice_scheme \<Rightarrow> bool" where
  "isChannelBusy E s =
     (if drange s = -1
      then isChannelBusyRadio (position E) (range_m s) (isTransmiting E s) (numProvers E) (moduleIndex s)
      else isChannelBusyFar (wiring E) (isTransmiting E s) (nat (drange s)) None (moduleIndex s))"

definition isCollectorBusy :: "env \<Rightarrow> bool" where
  "isCollectorBusy E = collectorProcessing E"

definition proverIndex :: "uid_t \<Rightarrow> nat" where
  "proverIndex target = unat ((target - baseID) mod MAXUID)"

definition isWithinRange :: "env \<Rightarrow> cMessage \<Rightarrow> 'a adevice_scheme \<Rightarrow> bool result" where
  "isWithinRange E msg s =
     (if \<not> is_UpdateReq (mpacket msg) then Inl BadCast
      else
        let indx = proverIndex (pdest (mpacket msg)) in
        if numProvers E \<le> indx then Inl NullPointer
        else Inr (sqrdist (position E (moduleIndex s)) (position E indx) \<le> range_m s * range_m s))"

section \<open>Sending\<close>

definition enqueue :: "cMessage \<Rightarrow> 'a adevice_scheme \<Rightarrow> 'a adevice_scheme" where
  "enqueue msg s = s\<lparr>msgqueue := msgqueue s @ [msg]\<rparr>"

definition channelBusy :: "config \<Rightarrow> env \<Rightarrow> cMessage \<Rightarrow> 'a adevice_scheme \<Rightarrow> 'a adevice_scheme" where
  "channelBusy C E msg s =
     scheduleAt (simTime E + PDELAY (SCENARIO C)) cbusymsg (enqueue msg (s\<lparr>chanstat := BUSY\<rparr>))"

text \<open>The end of every send: transmission starts and its end is scheduled.\<close>

definition startTx :: "config \<Rightarrow> env \<Rightarrow> real \<Rightarrow> real \<Rightarrow> 'a adevice_scheme \<Rightarrow> 'a adevice_scheme result" where
  "startTx C E bl duration s =
     (let s1 = s\<lparr>txrxstat := TRANSMITING\<rparr> in
      rbind (if ENERGY_TEST C
             then rbind (setPower E TRANSMITION_CONSUMPTION s1) (\<lambda>s2.
                  Inr (scheduleAt (simTime E + bl / BYTERATE (SCENARIO C)) entxmsg s2))
             else Inr s1) (\<lambda>s3.
      Inr (scheduleAt (simTime E + duration) txmsg s3)))"

definition sendGate :: "uid_t \<Rightarrow> cMessage \<Rightarrow> 'a adevice_scheme \<Rightarrow> 'a adevice_scheme" where
  "sendGate target msg s =
     (let s1 = s\<lparr>deviceg := omap_insert target 0 (deviceg s)\<rparr>
      in emit_call (SendGate (the (map_of (deviceg s1) target)) msg) s1)"

definition txTime :: "config \<Rightarrow> real \<Rightarrow> real" where
  "txTime C bl = NDELAY (SCENARIO C) + bl / BYTERATE (SCENARIO C)"

definition sendProver ::
  "config \<Rightarrow> env \<Rightarrow> (uid_t \<Rightarrow> bool result) \<Rightarrow> (packet \<Rightarrow> bool) \<Rightarrow> cMessage \<Rightarrow> 'a adevice_scheme \<Rightarrow> 'a adevice_scheme result" where
  "sendProver C E isChannelBusyServ is_T msg s =
     (if txrxstat s = TRANSMITING \<or> chanstat s = BUSY then Inr (enqueue msg s)
      else if \<not> is_T (mpacket msg) then Inl BadCast
      else
        let target = pdest (mpacket msg); bl = real (mbytes msg) in
        rbind (if device s \<noteq> SERV then Inr (isChannelBusy E s) else isChannelBusyServ target) (\<lambda>busy.
        if busy then Inr (channelBusy C E msg s)
        else
          rbind (if WIRELESS C then
                   let indx = proverIndex target in
                   if numProvers E \<le> indx then Inl NullPointer
                   else
                     let s1 = (if device s \<noteq> SERV \<and>
                                  sqrdist (position E (moduleIndex s)) (position E indx) \<le> range_m s * range_m s \<and>
                                  checkRecordTime E s
                               then emit_call (Emit Txsig bl) s else s)
                     in Inr (emit_call (SendProver indx (txTime C bl) msg) s1)
                 else Inr (sendGate target msg s)) (\<lambda>s2.
          startTx C E bl (txTime C bl) s2)))"

definition sendCollector ::
  "config \<Rightarrow> env \<Rightarrow> (packet \<Rightarrow> bool) \<Rightarrow> cMessage \<Rightarrow> 'a adevice_scheme \<Rightarrow> 'a adevice_scheme result" where
  "sendCollector C E is_T msg s0 =
     (let s = s0\<lparr>pupmsg := None\<rparr> in
      if txrxstat s = TRANSMITING \<or> chanstat s = BUSY then Inr (enqueue msg s)
      else if isChannelBusy E s then Inr (channelBusy C E msg s)
      else if isCollectorBusy E then
        let s1 = s\<lparr>pupmsg := Some msg\<rparr> in
        Inr (if \<not> isScheduled E (calls s1) Collbusymsg
             then scheduleAt (simTime E + PPDELAY (SCENARIO C)) collbusymsg s1 else s1)
      else if \<not> is_T (mpacket msg) then Inl BadCast
      else
        let target = pdest (mpacket msg); bl = real (mbytes msg) in
        rbind (if WIRELESS C then
                 let indx = proverIndex target in
                 if numCollectors E \<le> indx then Inl NullPointer
                 else
                   let s1 = (if checkRecordTime E s then emit_call (Emit Txsig bl) s else s)
                   in Inr (emit_call SetProcessing (emit_call (SendCollector indx (txTime C bl) msg) s1))
               else Inr (sendGate target msg s)) (\<lambda>s2.
        startTx C E bl (txTime C bl) s2))"

text \<open>The two versions of \<open>sendProverBroadcast\<close>: a copy to every other prover in range, or to every connected gate.\<close>

definition inRadioRange :: "env \<Rightarrow> 'a adevice_scheme \<Rightarrow> nat list" where
  "inRadioRange E s = filter (\<lambda>i. i \<noteq> moduleIndex s \<and>
     sqrdist (position E (moduleIndex s)) (position E i) \<le> range_m s * range_m s) [0..<numProvers E]"

definition connected :: "env \<Rightarrow> 'a adevice_scheme \<Rightarrow> nat list" where
  "connected E s = filter (\<lambda>g. link (wiring E) (moduleIndex s) g \<noteq> None)
     (rev [0..<gateSize (wiring E) (moduleIndex s)])"

definition sendProverBroadcast :: "config \<Rightarrow> env \<Rightarrow> cMessage \<Rightarrow> 'a adevice_scheme \<Rightarrow> 'a adevice_scheme result" where
  "sendProverBroadcast C E msg s =
     (if txrxstat s = TRANSMITING \<or> chanstat s = BUSY then Inr (enqueue msg s)
      else if isChannelBusy E s then Inr (channelBusy C E msg s)
      else
        let bl = real (mbytes msg) in
        if WIRELESS C then
          if numProvers E = 0 then Inl (RuntimeError ''assert'')
          else
            let s1 = fold (\<lambda>i. emit_call (SendProver i (txTime C bl) msg)) (inRadioRange E s) s in
            if inRadioRange E s \<noteq> [] then
              startTx C E bl (txTime C bl)
                (if checkRecordTime E s1 \<and> device s1 \<noteq> SERV then emit_call (Emit Txsig bl) s1 else s1)
            else Inr s1
        else
          let s1 = fold (\<lambda>g. emit_call (SendGate (int g) msg)) (connected E s) s in
          if connected E s \<noteq> [] then
            Inr (scheduleAt (simTime E + NDELAY (SCENARIO C)) txmsg (s1\<lparr>txrxstat := TRANSMITING\<rparr>))
          else Inr s1)"

definition updateGates :: "config \<Rightarrow> env \<Rightarrow> (packet \<Rightarrow> bool) \<Rightarrow> cMessage \<Rightarrow> 'a adevice_scheme \<Rightarrow> 'a adevice_scheme result" where
  "updateGates C E is_T msg s =
     (if WIRELESS C \<or> device s = SERV then Inr s
      else if \<not> is_T (mpacket msg) then Inl BadCast
      else
        let uid = psource (mpacket msg) in
        Inr (if map_of (deviceg s) uid = None then s\<lparr>deviceg := omap_put uid (arrivalGate E) (deviceg s)\<rparr> else s))"

section \<open>Timers of the device\<close>

text \<open>The power of a device that does not transmit: idle after its report, else listening.\<close>

definition restPower :: "'a adevice_scheme \<Rightarrow> real" where
  "restPower s = (if status s = FINISHED \<and> pupmsg s = None then IDLE_CONSUMPTION else LISTENING_CONSUMPTION)"

definition handleDoneEnMsg :: "env \<Rightarrow> cMessage \<Rightarrow> 'a adevice_scheme \<Rightarrow> 'a adevice_scheme result" where
  "handleDoneEnMsg E msg s =
     rbind (setPower E (restPower s) s) (\<lambda>s1.
     let s2 = (if mkind msg = ENRXDONE \<or> mkind msg = ENMAC then deleteMsg msg s1 else s1) in
     case energy s2 of
       None \<Rightarrow> Inl NullPointer
     | Some e \<Rightarrow> rbind (getResidualEnergyCapacity (simTime E) e) (\<lambda>(res, e').
         let s3 = s2\<lparr>energy := Some e'\<rparr> in
         if res \<le> 0 then
           let s4 = logWarn ''Device energy depleted!'' ((emit_call (Emit Crashsig (simTime E)) s3)\<lparr>crashed := True\<rparr>);
               s5 = s4\<lparr>countcrash := countcrash s4 + 1\<rparr>
           in Inr (if countcrash s5 \<ge> MAX_CRASH then emit_call EndSimulation s5 else s5)
         else Inr s3))"

definition handleProcDoneMsg :: "'a adevice_scheme \<Rightarrow> 'a adevice_scheme" where
  "handleProcDoneMsg s = s\<lparr>procstat := PIDLE\<rparr>"

section \<open>What the send operations change\<close>

text \<open>The timers of the transmission machinery.\<close>

definition io_timers :: "msgid set" where
  "io_timers = {Txmsg, Cbusymsg, Collbusymsg, Entxmsg, Newmsg}"

text \<open>The rest of a device: everything but its transmission state.\<close>

definition core :: "'a adevice_scheme \<Rightarrow> 'a adevice_scheme" where
  "core s = s\<lparr>txrxstat := DIDLE, chanstat := CIDLE, msgqueue := [], pupmsg := None, energy := None,
     deviceg := [], calls := []\<rparr>"

text \<open>The calls that sending \<open>msg\<close> makes: its own timers, and \<open>msg\<close> to the network.\<close>

fun io_call :: "cMessage \<Rightarrow> call \<Rightarrow> bool" where
  "io_call msg (ScheduleAt t m) = (m \<in> {txmsg, cbusymsg, collbusymsg, entxmsg})"
| "io_call msg (SendProver i t m) = (m = msg)"
| "io_call msg (SendCollector i t m) = (m = msg)"
| "io_call msg (SendGate g m) = (m = msg)"
| "io_call msg (Emit x v) = True"
| "io_call msg SetProcessing = True"
| "io_call msg _ = False"

text \<open>
  Sending \<open>msg\<close> changes only the transmission state: the two status flags, the queue (which
  can gain \<open>msg\<close>), the waiting update (which can be lost or become \<open>msg\<close>), the battery, the
  gate table and the call log, with no effect on the timers of the protocol.
\<close>

definition io_step :: "cMessage \<Rightarrow> 'a adevice_scheme \<Rightarrow> 'a adevice_scheme \<Rightarrow> bool" where
  "io_step msg s s' \<longleftrightarrow>
     core s' = core s \<and>
     msgqueue s' \<in> {msgqueue s, msgqueue s @ [msg]} \<and> pupmsg s' \<in> {None, pupmsg s, Some msg} \<and>
     (energy s' = None \<longleftrightarrow> energy s = None) \<and>
     (\<forall>i. i \<notin> io_timers \<longrightarrow> armed (calls s') i = armed (calls s) i) \<and>
     (\<forall>c \<in> set (calls s'). c \<in> set (calls s) \<or> io_call msg c)"

text \<open>The state of the channel agrees with the timers that end it.\<close>

definition chan_ok :: "'a adevice_scheme \<Rightarrow> bool" where
  "chan_ok s \<longleftrightarrow>
     \<not> (txrxstat s = TRANSMITING \<and> chanstat s = BUSY) \<and>
     (armed (calls s) Txmsg \<longleftrightarrow> txrxstat s = TRANSMITING) \<and>
     (armed (calls s) Cbusymsg \<longleftrightarrow> chanstat s = BUSY) \<and>
     clean_of Txmsg (calls s) \<and> clean_of Cbusymsg (calls s)"

lemmas call_defs = emit_call_def scheduleAt_def cancelEvent_def deleteMsg_def logError_def logWarn_def

lemmas timer_defs = txmsg_def cbusymsg_def collbusymsg_def entxmsg_def procendmsg_def timer_msg_def

lemma mid_timers [simp]:
  "mid txmsg = Txmsg" "mid cbusymsg = Cbusymsg" "mid collbusymsg = Collbusymsg" "mid entxmsg = Entxmsg"
  "mid procendmsg = Procendmsg"
  by (simp_all add: timer_defs)

lemma not_TRANSMITING [simp]: "t \<noteq> TRANSMITING \<longleftrightarrow> t = DIDLE"
  by (cases t) simp_all

lemma not_BUSY [simp]: "c \<noteq> BUSY \<longleftrightarrow> c = CIDLE"
  by (cases c) simp_all

definition send_ok :: "cMessage \<Rightarrow> 'a adevice_scheme \<Rightarrow> 'a adevice_scheme \<Rightarrow> bool" where
  "send_ok msg s s' \<longleftrightarrow> io_step msg s s' \<and> (chan_ok s \<longrightarrow> chan_ok s')"

lemma setPower_ok: "energy s \<noteq> None \<Longrightarrow> \<exists>e. setPower E mW s = Inr (s\<lparr>energy := Some e\<rparr>)"
  by (auto simp: setPower_def)

lemma core_upd [simp]:
  "core (s\<lparr>txrxstat := a\<rparr>) = core s" "core (s\<lparr>chanstat := b\<rparr>) = core s"
  "core (s\<lparr>msgqueue := c\<rparr>) = core s" "core (s\<lparr>pupmsg := d\<rparr>) = core s"
  "core (s\<lparr>energy := e\<rparr>) = core s" "core (s\<lparr>deviceg := f\<rparr>) = core s"
  "core (s\<lparr>calls := g\<rparr>) = core s" "core (emit_call k s) = core s"
  by (simp_all add: core_def emit_call_def)

lemma emit_call_sel [simp]:
  "txrxstat (emit_call c s) = txrxstat s" "chanstat (emit_call c s) = chanstat s"
  "msgqueue (emit_call c s) = msgqueue s" "pupmsg (emit_call c s) = pupmsg s"
  "energy (emit_call c s) = energy s" "calls (emit_call c s) = c # calls s"
  "status (emit_call c s) = status s" "device (emit_call c s) = device s"
  by (simp_all add: emit_call_def)

lemma io_step_refl: "io_step msg s s"
  by (simp add: io_step_def)

lemmas send_ok_defs = send_ok_def io_step_def chan_ok_def io_timers_def

lemma send_ok_enqueue: "send_ok msg s (enqueue msg s)"
  by (simp add: send_ok_defs enqueue_def)

lemma send_ok_channelBusy:
  "txrxstat s = DIDLE \<Longrightarrow> chanstat s = CIDLE \<Longrightarrow> send_ok msg s (channelBusy C E msg s)"
  by (auto simp: send_ok_defs channelBusy_def enqueue_def scheduleAt_def mid_timers)

text \<open>Calls that name no timer.\<close>

lemma chan_ok_call: "timerless c \<Longrightarrow> chan_ok (emit_call c s) = chan_ok s"
  by (simp add: chan_ok_def armed_timerless clean_timerless)

lemma io_step_call:
  "timerless c \<Longrightarrow> io_call msg c \<Longrightarrow> io_step msg s s' \<Longrightarrow> io_step msg s (emit_call c s')"
  by (simp add: io_step_def io_timers_def armed_timerless)

lemma startTx_eq:
  assumes "ENERGY_TEST C \<longrightarrow> energy s \<noteq> None"
  shows "\<exists>e cs. startTx C E bl d s = Inr (s\<lparr>txrxstat := TRANSMITING, energy := e, calls := ScheduleAt (simTime E + d) txmsg # cs @ calls s\<rparr>) \<and>
    (e = None \<longleftrightarrow> energy s = None) \<and> cs \<in> {[], [ScheduleAt (simTime E + bl / BYTERATE (SCENARIO C)) entxmsg]}"
proof (cases "ENERGY_TEST C")
  case True
  with assms setPower_ok [of "s\<lparr>txrxstat := TRANSMITING\<rparr>" E TRANSMITION_CONSUMPTION]
  obtain e where "setPower E TRANSMITION_CONSUMPTION (s\<lparr>txrxstat := TRANSMITING\<rparr>) = Inr (s\<lparr>txrxstat := TRANSMITING, energy := Some e\<rparr>)"
    by auto
  with True assms show ?thesis
    by (intro exI [of _ "Some e"] exI [of _ "[ScheduleAt (simTime E + bl / BYTERATE (SCENARIO C)) entxmsg]"])
       (simp add: startTx_def call_defs)
next
  case False
  then show ?thesis
    by (intro exI [of _ "energy s"] exI [of _ "[]"]) (simp add: startTx_def call_defs)
qed

lemma startTx_ok:
  assumes "ENERGY_TEST C \<Longrightarrow> energy s \<noteq> None" and "io_step msg s0 s"
    and "chan_ok s0 \<Longrightarrow> chan_ok s" and "txrxstat s = DIDLE" and "chanstat s = CIDLE"
  shows "ok (send_ok msg s0) (startTx C E bl d s)"
proof -
  from assms(1) have "ENERGY_TEST C \<longrightarrow> energy s \<noteq> None" by blast
  from startTx_eq [OF this, where E=E and bl=bl and d=d] obtain e cs where
    eq: "startTx C E bl d s = Inr (s\<lparr>txrxstat := TRANSMITING, energy := e, calls := ScheduleAt (simTime E + d) txmsg # cs @ calls s\<rparr>)"
    and e: "e = None \<longleftrightarrow> energy s = None" and cs: "cs \<in> {[], [ScheduleAt (simTime E + bl / BYTERATE (SCENARIO C)) entxmsg]}"
    by (elim exE conjE)
  let ?s' = "s\<lparr>txrxstat := TRANSMITING, energy := e, calls := ScheduleAt (simTime E + d) txmsg # cs @ calls s\<rparr>"
  have "armed (calls ?s') i = armed (calls s) i" if "i \<notin> io_timers" for i
    using that cs by (auto simp: io_timers_def timer_defs)
  moreover have "\<forall>c \<in> set (calls ?s'). c \<in> set (calls s) \<or> io_call msg c" using cs by auto
  ultimately have "io_step msg s0 ?s'" using assms(2) e by (auto simp: io_step_def)
  moreover have "chan_ok s \<Longrightarrow> chan_ok ?s'"
    using assms(4,5) cs by (auto simp: chan_ok_def timer_defs)
  ultimately show ?thesis using assms(3) by (simp add: eq send_ok_def)
qed

lemma sendGate_frame:
  "io_step msg s (sendGate target msg s)" "chan_ok (sendGate target msg s) = chan_ok s"
  "txrxstat (sendGate target msg s) = txrxstat s" "chanstat (sendGate target msg s) = chanstat s"
  "energy (sendGate target msg s) = energy s"
  by (simp_all add: sendGate_def Let_def io_step_def chan_ok_def)

lemma sendProver_ok:
  assumes "ENERGY_TEST C \<Longrightarrow> energy s \<noteq> None" and "is_T (mpacket msg)"
    and "WIRELESS C \<Longrightarrow> proverIndex (pdest (mpacket msg)) < numProvers E"
    and "device s = SERV \<Longrightarrow> ok (\<lambda>_. True) (serv (pdest (mpacket msg)))"
  shows "ok (send_ok msg s) (sendProver C E serv is_T msg s)"
proof (cases "txrxstat s = TRANSMITING \<or> chanstat s = BUSY")
  case True
  then show ?thesis by (simp add: sendProver_def send_ok_enqueue)
next
  case False
  then have idle: "txrxstat s = DIDLE" "chanstat s = CIDLE" by auto
  have "\<exists>busy. (if device s \<noteq> SERV then Inr (isChannelBusy E s) else serv (pdest (mpacket msg))) = Inr busy"
    using assms(4) by (simp add: ok_eq)
  then obtain busy where "(if device s \<noteq> SERV then Inr (isChannelBusy E s) else serv (pdest (mpacket msg))) = Inr busy" ..
  moreover have "ok (send_ok msg s) (startTx C E bl d (emit_call (SendProver i t msg) s))"
    "ok (send_ok msg s) (startTx C E bl d (emit_call (SendProver i t msg) (emit_call (Emit Txsig x) s)))"
    for bl d i t x
    using assms(1) idle
    by (intro startTx_ok; simp add: timerless_def chan_ok_call io_step_call io_step_refl)+
  moreover have "ok (send_ok msg s) (startTx C E bl d (sendGate target msg s))" for bl d target
    using assms(1) idle by (intro startTx_ok) (auto simp: sendGate_frame)
  ultimately show ?thesis
    using assms(2,3) idle by (cases busy; cases "WIRELESS C") (simp_all add: sendProver_def Let_def send_ok_channelBusy not_le)
qed

lemma send_ok_drop: "send_ok msg (s\<lparr>pupmsg := None\<rparr>) s' \<Longrightarrow> send_ok msg s s'"
  by (auto simp: send_ok_def io_step_def chan_ok_def)

lemma sendCollector_ok:
  assumes "ENERGY_TEST C \<Longrightarrow> energy s \<noteq> None" and "is_T (mpacket msg)"
    and "WIRELESS C \<Longrightarrow> proverIndex (pdest (mpacket msg)) < numCollectors E"
  shows "ok (send_ok msg s) (sendCollector C E is_T msg s)"
proof -
  let ?s = "s\<lparr>pupmsg := None\<rparr>"
  have "ok (send_ok msg ?s) (sendCollector C E is_T msg s)"
  proof (cases "txrxstat s = TRANSMITING \<or> chanstat s = BUSY")
    case True
    then show ?thesis by (simp add: sendCollector_def Let_def send_ok_enqueue)
  next
    case False
    then have idle: "txrxstat ?s = DIDLE" "chanstat ?s = CIDLE" by auto
    have "ok (send_ok msg ?s) (startTx C E bl d (emit_call SetProcessing (emit_call (SendCollector i t msg) ?s)))"
      "ok (send_ok msg ?s) (startTx C E bl d (emit_call SetProcessing (emit_call (SendCollector i t msg)
         (emit_call (Emit Txsig x) ?s))))" for bl d i t x
      using assms(1) idle
      by (intro startTx_ok; simp add: timerless_def chan_ok_call io_step_call io_step_refl)+
    moreover have "ok (send_ok msg ?s) (startTx C E bl d (sendGate target msg ?s))" for bl d target
      using assms(1) idle by (intro startTx_ok) (auto simp: sendGate_frame)
    moreover have "send_ok msg ?s (?s\<lparr>pupmsg := Some msg\<rparr>)"
      "send_ok msg ?s (scheduleAt t collbusymsg (?s\<lparr>pupmsg := Some msg\<rparr>))" for t
      by (auto simp: send_ok_defs scheduleAt_def mid_timers)
    ultimately show ?thesis
      using assms(2,3) idle
      by (cases "WIRELESS C") (simp_all add: sendCollector_def Let_def send_ok_channelBusy not_le)
  qed
  then show ?thesis by (rule ok_mono) (rule send_ok_drop)
qed

lemma fold_calls:
  assumes "\<And>i. timerless (f i)" and "\<And>i. io_call msg (f i)"
  shows "io_step msg s (fold (\<lambda>i. emit_call (f i)) is s)"
    and "chan_ok (fold (\<lambda>i. emit_call (f i)) is s) = chan_ok s"
    and "txrxstat (fold (\<lambda>i. emit_call (f i)) is s) = txrxstat s"
    and "chanstat (fold (\<lambda>i. emit_call (f i)) is s) = chanstat s"
    and "energy (fold (\<lambda>i. emit_call (f i)) is s) = energy s"
proof -
  have "io_step msg s t \<Longrightarrow> io_step msg s (fold (\<lambda>i. emit_call (f i)) is t)" for t
    using assms by (induction "is" arbitrary: t) (auto simp: io_step_call)
  then show "io_step msg s (fold (\<lambda>i. emit_call (f i)) is s)" by (simp add: io_step_refl)
  show "chan_ok (fold (\<lambda>i. emit_call (f i)) is s) = chan_ok s"
    using assms by (induction "is" arbitrary: s) (auto simp: chan_ok_call)
qed (induction "is" arbitrary: s; simp)+

lemma sendProverBroadcast_ok:
  assumes "ENERGY_TEST C \<Longrightarrow> energy s \<noteq> None" and "WIRELESS C \<Longrightarrow> 0 < numProvers E"
  shows "ok (send_ok msg s) (sendProverBroadcast C E msg s)"
proof (cases "txrxstat s = TRANSMITING \<or> chanstat s = BUSY")
  case True
  then show ?thesis by (simp add: sendProverBroadcast_def send_ok_enqueue)
next
  case False
  then have idle: "txrxstat s = DIDLE" "chanstat s = CIDLE" by auto
  have radio: "io_step msg s (fold (\<lambda>i. emit_call (SendProver i t msg)) is s)"
    "chan_ok (fold (\<lambda>i. emit_call (SendProver i t msg)) is s) = chan_ok s"
    "txrxstat (fold (\<lambda>i. emit_call (SendProver i t msg)) is s) = txrxstat s"
    "chanstat (fold (\<lambda>i. emit_call (SendProver i t msg)) is s) = chanstat s"
    "energy (fold (\<lambda>i. emit_call (SendProver i t msg)) is s) = energy s" for t "is"
    by (rule fold_calls; simp add: timerless_def)+
  have cable: "io_step msg s (fold (\<lambda>g. emit_call (SendGate (int g) msg)) is s)"
    "chan_ok (fold (\<lambda>g. emit_call (SendGate (int g) msg)) is s) = chan_ok s"
    "txrxstat (fold (\<lambda>g. emit_call (SendGate (int g) msg)) is s) = txrxstat s"
    "chanstat (fold (\<lambda>g. emit_call (SendGate (int g) msg)) is s) = chanstat s"
    "energy (fold (\<lambda>g. emit_call (SendGate (int g) msg)) is s) = energy s" for "is"
    by (rule fold_calls; simp add: timerless_def)+
  have "send_ok msg s (scheduleAt t txmsg (s'\<lparr>txrxstat := TRANSMITING\<rparr>))"
    if "io_step msg s s'" "chan_ok s' = chan_ok s" "txrxstat s' = DIDLE" "chanstat s' = CIDLE" for t s'
    using that by (auto simp: send_ok_defs scheduleAt_def mid_timers)
  note sched = this [OF cable(1,2)]
  have tx: "ok (send_ok msg s) (startTx C E bl d (if b then emit_call (Emit Txsig x) s' else s'))"
    if "io_step msg s s'" "chan_ok s' = chan_ok s" "txrxstat s' = DIDLE" "chanstat s' = CIDLE" "energy s' = energy s"
    for b bl d x s'
    using that assms(1) by (intro startTx_ok) (auto simp: timerless_def chan_ok_call io_step_call)
  show ?thesis
  proof (cases "isChannelBusy E s")
    case True
    with idle show ?thesis by (simp add: sendProverBroadcast_def send_ok_channelBusy)
  next
    case False
    with idle assms(2) show ?thesis
      using tx [OF radio(1,2)] sched radio(1,2) cable(1,2)
      by (cases "WIRELESS C")
         (simp_all add: sendProverBroadcast_def Let_def radio(3-) cable(3-) send_ok_def io_step_refl)
  qed
qed

end
