(* ===== verification/Dispatch.thy ===== *)
theory Dispatch
  imports Device
begin

text \<open>
  The dispatch of messages: \<open>ADevice::handleMessage\<close> and the \<open>ADevice\<close> methods it calls.

  The virtual methods that provers and collectors override are the fields of the record
  \<open>vtable\<close>. \<open>handleMessage\<close> calls itself on the message at the front of the queue (or on
  the update that waits for the collector) when a transmission or a pause ends, so its model
  has fuel; \<open>handleMessage_fuel\<close> shows that fuel 2 gives the result of the code whenever
  no end-of-transmission timer is in the queue.

  \<open>message_loop\<close> is the contract under which the loop keeps an invariant of a device. It is
  interpreted for the prover in \<open>Prover_Loop\<close> and for the collector in \<open>Collector\<close>.
\<close>

section \<open>Virtual methods\<close>

record 's vtable =
  v_sendJoinReq :: "'s \<Rightarrow> 's result"
  v_handleJoinReq :: "cMessage \<Rightarrow> 's \<Rightarrow> 's result"
  v_handleJoinResp :: "cMessage \<Rightarrow> 's \<Rightarrow> 's result"
  v_handleJoinAck :: "cMessage \<Rightarrow> 's \<Rightarrow> 's result"
  v_handleJoinRespTimeOut :: "cMessage \<Rightarrow> 's \<Rightarrow> 's result"
  v_handleJoinAckTimeOut :: "cMessage \<Rightarrow> 's \<Rightarrow> 's result"
  v_startAttestation :: "'s \<Rightarrow> 's result"
  v_checkSoftConfig :: "'s \<Rightarrow> 's result"
  v_sendCommitReq :: "treeid_t \<Rightarrow> 's \<Rightarrow> 's result"
  v_handleCommitReq :: "cMessage \<Rightarrow> 's \<Rightarrow> 's result"
  v_handleCommitResp :: "cMessage \<Rightarrow> 's \<Rightarrow> 's result"
  v_handleCommitAck :: "cMessage \<Rightarrow> 's \<Rightarrow> 's result"
  v_handleCommitRespTimeOut :: "cMessage \<Rightarrow> 's \<Rightarrow> 's result"
  v_handleCommitAckTimeOut :: "cMessage \<Rightarrow> 's \<Rightarrow> 's result"
  v_handleUpReq :: "cMessage \<Rightarrow> 's \<Rightarrow> 's result"
  v_handleUpdateTimeOut :: "cMessage \<Rightarrow> 's \<Rightarrow> 's result"
  v_handleRevReq :: "cMessage \<Rightarrow> 's \<Rightarrow> 's result"
  v_sendRevReq :: "uid_t \<Rightarrow> keyid_t list \<Rightarrow> 's \<Rightarrow> 's result"
  v_sendSyncReq :: "'s \<Rightarrow> 's result"
  v_handleSyncReq :: "cMessage \<Rightarrow> 's \<Rightarrow> 's result"
  v_isChannelBusyServ :: "'s \<Rightarrow> uid_t \<Rightarrow> bool result"

type_synonym 'a dev = "'a adevice_scheme"

section \<open>Messages of one kind\<close>

definition handleJoinMsg :: "'a dev vtable \<Rightarrow> cMessage \<Rightarrow> 'a dev \<Rightarrow> 'a dev result" where
  "handleJoinMsg V msg s =
     (case mkind msg of
        JNRQ \<Rightarrow> v_handleJoinReq V msg s
      | JNRP \<Rightarrow> v_handleJoinResp V msg s
      | JNAK \<Rightarrow> v_handleJoinAck V msg s
      | _ \<Rightarrow> Inr s)"

definition handleCommitMsg :: "'a dev vtable \<Rightarrow> cMessage \<Rightarrow> 'a dev \<Rightarrow> 'a dev result" where
  "handleCommitMsg V msg s =
     (case mkind msg of
        CMRQ \<Rightarrow> v_handleCommitReq V msg s
      | CMRP \<Rightarrow> v_handleCommitResp V msg s
      | CMAK \<Rightarrow> v_handleCommitAck V msg s
      | _ \<Rightarrow> Inr s)"

definition handleUpMsg :: "'a dev vtable \<Rightarrow> cMessage \<Rightarrow> 'a dev \<Rightarrow> 'a dev result" where
  "handleUpMsg V = v_handleUpReq V"

definition handleRevMsg :: "'a dev vtable \<Rightarrow> cMessage \<Rightarrow> 'a dev \<Rightarrow> 'a dev result" where
  "handleRevMsg V = v_handleRevReq V"

definition handleSyncMsg :: "'a dev vtable \<Rightarrow> cMessage \<Rightarrow> 'a dev \<Rightarrow> 'a dev result" where
  "handleSyncMsg V = v_handleSyncReq V"

section \<open>The queue\<close>

text \<open>\<open>handleMessage(msgqueue.front()); msgqueue.pop();\<close> when the queue is not empty.\<close>

definition serveQueue :: "(cMessage \<Rightarrow> 'a dev \<Rightarrow> 'a dev result) \<Rightarrow> 'a dev \<Rightarrow> 'a dev result" where
  "serveQueue handle s =
     (case msgqueue s of
        [] \<Rightarrow> Inr s
      | m # q \<Rightarrow> rbind (handle m s) (\<lambda>s'.
          if msgqueue s' = [] then Inl EmptyVector else Inr (s'\<lparr>msgqueue := tl (msgqueue s')\<rparr>)))"

definition handleTxDoneMsg :: "(cMessage \<Rightarrow> 'a dev \<Rightarrow> 'a dev result) \<Rightarrow> 'a dev \<Rightarrow> 'a dev result" where
  "handleTxDoneMsg handle s = serveQueue handle (s\<lparr>txrxstat := DIDLE\<rparr>)"

definition handlePostponeDoneMsg :: "(cMessage \<Rightarrow> 'a dev \<Rightarrow> 'a dev result) \<Rightarrow> 'a dev \<Rightarrow> 'a dev result" where
  "handlePostponeDoneMsg handle s = serveQueue handle (s\<lparr>chanstat := CIDLE\<rparr>)"

definition handlePostponeUpMsg ::
  "config \<Rightarrow> env \<Rightarrow> (cMessage \<Rightarrow> 'a dev \<Rightarrow> 'a dev result) \<Rightarrow> 'a dev \<Rightarrow> 'a dev result" where
  "handlePostponeUpMsg C E handle s =
     (case pupmsg s of
        Some m \<Rightarrow>
          if ENERGY_TEST C then rbind (handle m s) (\<lambda>s'. setPower E (restPower s') s')
          else Inr s
      | None \<Rightarrow> Inr (logError ''handlePostponeUpMsg: update message lost after queued!!!'' s))"

section \<open>The two switches of handleMessage\<close>

definition sendUpdate :: "config \<Rightarrow> env \<Rightarrow> 'a dev vtable \<Rightarrow> cMessage \<Rightarrow> 'a dev \<Rightarrow> 'a dev result" where
  "sendUpdate C E V msg s =
     (if WIRELESS C then
        rbind (isWithinRange E msg s) (\<lambda>near.
        if near then sendProver C E (v_isChannelBusyServ V s) is_UpdateReq msg s
        else case mpacket msg of
          UpdateReq src dst us cs t mac ps \<Rightarrow>
            sendCollector C E is_UpdateReq (msg\<lparr>mkind := UPRQF, mpacket := UpdateReq src baseID us cs t mac ps\<rparr>) s
        | _ \<Rightarrow> Inl BadCast)
      else sendProver C E (v_isChannelBusyServ V s) is_UpdateReq msg s)"

definition handleSelf ::
  "config \<Rightarrow> env \<Rightarrow> 'a dev vtable \<Rightarrow> (cMessage \<Rightarrow> 'a dev \<Rightarrow> 'a dev result) \<Rightarrow> cMessage \<Rightarrow> 'a dev \<Rightarrow> 'a dev result" where
  "handleSelf C E V handle msg s =
     (case mkind msg of
        JOIN \<Rightarrow> v_sendJoinReq V s
      | MKTREE \<Rightarrow> v_sendCommitReq V NOID s
      | CHECK \<Rightarrow> v_checkSoftConfig V s
      | ATTEST \<Rightarrow> v_startAttestation V s
      | REVOKE \<Rightarrow> rbind (v_sendRevReq V 0 [] s) (\<lambda>s'. Inr (deleteMsg msg s'))
      | SYNC \<Rightarrow> rbind (v_sendSyncReq V s) (sendCollector C E is_JoinReq msg)
      | JNRQ \<Rightarrow> sendCollector C E is_JoinReq msg s
      | JNRP \<Rightarrow> sendProver C E (v_isChannelBusyServ V s) is_JoinResp msg s
      | JNAK \<Rightarrow> sendCollector C E is_JoinAck msg s
      | JNRPTO \<Rightarrow> v_handleJoinRespTimeOut V msg s
      | JNAKTO \<Rightarrow> v_handleJoinAckTimeOut V msg s
      | CMRQ \<Rightarrow> sendProverBroadcast C E msg s
      | CMRP \<Rightarrow> sendProver C E (v_isChannelBusyServ V s) is_CommitResp msg s
      | CMAK \<Rightarrow> sendProver C E (v_isChannelBusyServ V s) is_CommitAck msg s
      | RVKRQ \<Rightarrow> sendProver C E (v_isChannelBusyServ V s) is_RevokeReq msg s
      | CMRPTO \<Rightarrow> v_handleCommitRespTimeOut V msg s
      | CMAKTO \<Rightarrow> v_handleCommitAckTimeOut V msg s
      | UPRQ \<Rightarrow> sendUpdate C E V msg s
      | UPRQC \<Rightarrow> sendCollector C E is_UpdateReq msg s
      | UPRQF \<Rightarrow> sendCollector C E is_UpdateReq msg s
      | UPTO \<Rightarrow> v_handleUpdateTimeOut V msg s
      | TXDONE \<Rightarrow> handleTxDoneMsg handle s
      | CBUSYMSG \<Rightarrow> handlePostponeDoneMsg handle s
      | COLLBSYMSG \<Rightarrow> handlePostponeUpMsg C E handle s
      | PROCDONE \<Rightarrow> Inr (handleProcDoneMsg s)
      | k \<Rightarrow>
          if ENERGY_TEST C \<and> (k = ENTXDONE \<or> k = ENRXDONE \<or> k = ENMAC) then handleDoneEnMsg E msg s
          else Inr (logError ''Received message of unknown type'' s))"

definition handleNetwork :: "config \<Rightarrow> env \<Rightarrow> 'a dev vtable \<Rightarrow> cMessage \<Rightarrow> 'a dev \<Rightarrow> 'a dev result" where
  "handleNetwork C E V msg s =
     (case mkind msg of
        JNRQ \<Rightarrow> rbind (updateGates C E is_JoinReq msg s) (handleJoinMsg V msg)
      | JNRP \<Rightarrow> rbind (updateGates C E is_JoinResp msg s) (handleJoinMsg V msg)
      | JNAK \<Rightarrow> rbind (updateGates C E is_JoinAck msg s) (handleJoinMsg V msg)
      | CMRQ \<Rightarrow> rbind (updateGates C E is_CommitReq msg s) (handleCommitMsg V msg)
      | CMRP \<Rightarrow> rbind (updateGates C E is_CommitResp msg s) (handleCommitMsg V msg)
      | CMAK \<Rightarrow> rbind (updateGates C E is_CommitAck msg s) (handleCommitMsg V msg)
      | UPRQ \<Rightarrow> rbind (updateGates C E is_UpdateReq msg s) (handleUpMsg V msg)
      | UPRQC \<Rightarrow> rbind (updateGates C E is_UpdateReq msg s) (handleUpMsg V msg)
      | UPRQF \<Rightarrow> rbind (updateGates C E is_UpdateReq msg s) (handleUpMsg V msg)
      | RVKRQ \<Rightarrow> handleRevMsg V msg s
      | _ \<Rightarrow> Inr (logError ''Received message of unknown type'' s))"

fun handleMessage ::
  "config \<Rightarrow> env \<Rightarrow> 'a dev vtable \<Rightarrow> nat \<Rightarrow> cMessage \<Rightarrow> 'a dev \<Rightarrow> 'a dev result" where
  "handleMessage C E V 0 msg s = Inl OutOfFuel"
| "handleMessage C E V (Suc k) msg s =
     (if crashed s then Inr s
      else if mself msg then handleSelf C E V (handleMessage C E V k) msg s
      else handleNetwork C E V msg s)"

text \<open>The kernel delivers a message: a self message is no longer scheduled then.\<close>

definition deliver :: "config \<Rightarrow> env \<Rightarrow> 'a dev vtable \<Rightarrow> cMessage \<Rightarrow> 'a dev \<Rightarrow> 'a dev result" where
  "deliver C E V msg s =
     handleMessage C E V 2 msg (if mself msg then emit_call (Delivered (mid msg)) s else s)"

section \<open>Fuel\<close>

definition loops :: "cMessage \<Rightarrow> bool" where
  "loops m \<longleftrightarrow> mself m \<and> (mkind m = TXDONE \<or> mkind m = CBUSYMSG \<or> mkind m = COLLBSYMSG)"

lemma handleSelf_no_loop:
  "mkind m \<notin> {TXDONE, CBUSYMSG, COLLBSYMSG} \<Longrightarrow> handleSelf C E V f m s = handleSelf C E V g m s"
  by (cases "mkind m") (simp_all add: handleSelf_def)

lemma handleMessage_no_loop:
  "\<not> loops m \<Longrightarrow> handleMessage C E V (Suc k) m s = handleMessage C E V (Suc 0) m s"
  by (auto simp: loops_def intro: handleSelf_no_loop)

lemma serveQueue_cong:
  "(\<And>m q. msgqueue s = m # q \<Longrightarrow> f m s = g m s) \<Longrightarrow> serveQueue f s = serveQueue g s"
  by (simp add: serveQueue_def split: list.split)

lemma fuel_two:
  assumes "\<forall>m \<in> set (msgqueue s). \<not> loops m" and "\<forall>m. pupmsg s = Some m \<longrightarrow> \<not> loops m"
  shows "handleMessage C E V (Suc (Suc k)) msg s = handleMessage C E V 2 msg s"
proof (cases "loops msg")
  case False
  then show ?thesis by (metis handleMessage_no_loop numeral_2_eq_2)
next
  case True
  have front: "handleMessage C E V (Suc k) m t = handleMessage C E V (Suc 0) m t"
    if "m \<in> set (msgqueue s) \<or> pupmsg s = Some m" for m t
    using that assms handleMessage_no_loop by blast
  have queue: "serveQueue (handleMessage C E V (Suc k)) t = serveQueue (handleMessage C E V (Suc 0)) t"
    if "msgqueue t = msgqueue s" for t
    by (rule serveQueue_cong) (use that front in simp)
  have "handleSelf C E V (handleMessage C E V (Suc k)) msg s = handleSelf C E V (handleMessage C E V (Suc 0)) msg s"
    using True queue front
    by (auto simp: loops_def handleSelf_def handleTxDoneMsg_def handlePostponeDoneMsg_def handlePostponeUpMsg_def
        simp del: handleMessage.simps split: option.split)
  moreover have "mself msg" using True by (simp add: loops_def)
  ultimately show ?thesis by (simp add: numeral_2_eq_2 del: handleMessage.simps add: handleMessage.simps(2) [of _ _ _ "Suc k" for k])
qed

section \<open>The contract of a device\<close>

text \<open>
  \<open>inv\<close> is an invariant of the device, \<open>queued\<close> describes the messages that wait in its
  queue. The laws: the queue holds only such messages, handling one of them keeps the
  invariant and does not shorten the queue, and the invariant does not depend on the
  front of the queue.
\<close>

locale message_loop =
  fixes C :: config and E :: env and V :: "'a dev vtable"
    and inv :: "'a dev \<Rightarrow> bool" and queued :: "cMessage \<Rightarrow> bool"
  assumes waiting: "inv s \<Longrightarrow> list_all queued (msgqueue s) \<and> (\<forall>m. pupmsg s = Some m \<longrightarrow> queued m)"
    and no_loop: "queued m \<Longrightarrow> \<not> loops m"
    and handles: "inv s \<Longrightarrow> queued m \<Longrightarrow>
      ok (\<lambda>s'. inv s' \<and> length (msgqueue s) \<le> length (msgqueue s')) (handleMessage C E V 1 m s)"
    and popped: "inv s \<Longrightarrow> inv (s\<lparr>msgqueue := tl (msgqueue s)\<rparr>)"
    and powered: "inv s \<Longrightarrow> ENERGY_TEST C \<Longrightarrow> ok inv (setPower E x s)"
    and logged: "inv s \<Longrightarrow> inv (logError t s)"
begin

lemma serveQueue_inv: "inv s \<Longrightarrow> ok inv (serveQueue (handleMessage C E V 1) s)"
proof (cases "msgqueue s")
  case (Cons m q)
  moreover assume inv: "inv s"
  ultimately have "queued m" using waiting by fastforce
  from handles [OF inv this] show ?thesis
    using Cons popped by (auto simp: serveQueue_def ok_eq simp del: handleMessage.simps)
qed (simp add: serveQueue_def)

lemma handlePostponeUpMsg_inv: "inv s \<Longrightarrow> ok inv (handlePostponeUpMsg C E (handleMessage C E V 1) s)"
proof (cases "pupmsg s")
  case (Some m)
  moreover assume inv: "inv s"
  ultimately have "queued m" using waiting by blast
  from handles [OF inv this] Some inv show ?thesis
    using powered by (auto simp: handlePostponeUpMsg_def ok_eq simp del: handleMessage.simps)
qed (simp add: handlePostponeUpMsg_def logged)

lemma fuel_enough: "inv s \<Longrightarrow> handleMessage C E V (Suc (Suc k)) m s = handleMessage C E V 2 m s"
  using waiting [of s] no_loop by (intro fuel_two) (auto simp: list_all_iff)

end

end
