(* ===== verification/Prover.thy ===== *)
theory Prover
  imports Device Report Network_Owner
begin

text \<open>
  The prover: the members of \<open>AProver.h\<close> and every handler of \<open>AProver.cpp\<close>.

  \<open>psessions\<close> is the pair of the parent's id and a session pointer (\<open>None\<close> for null);
  \<open>csessions\<close> maps the children, and \<open>NOID\<close> while the prover has an open commitment, to
  their sessions. The timer objects of a prover are told apart by \<open>msgid\<close>; the data a
  handler reads from a timer message is part of the scheduled message. The timers that
  \<open>sendCommitAck\<close> allocates are identified by the child and the tree.

  Every handler returns a \<open>result\<close>: a null pointer that is followed, \<open>back()\<close> of an empty
  vector, a division by zero and a failing cast are faults.
\<close>

section \<open>State\<close>

record session_t =
  treeID :: treeid_t
  deviceID :: uid_t
  keyID :: keyid_t
  depth :: "32 word"
  valid :: bool
  tomsg :: "msgid option"

definition session0 :: session_t where
  "session0 = \<lparr>treeID = NOID, deviceID = NOID, keyID = NOID, depth = 0, valid = False, tomsg = None\<rparr>"

definition mkSession :: "treeid_t \<Rightarrow> uid_t \<Rightarrow> keyid_t \<Rightarrow> 32 word \<Rightarrow> bool \<Rightarrow> session_t" where
  "mkSession t uid k d v = \<lparr>treeID = t, deviceID = uid, keyID = k, depth = d, valid = v, tomsg = None\<rparr>"

record aprover = adevice +
  UId :: uid_t
  KeyRing :: keyrng_t
  pfirst :: uid_t
  psecond :: "session_t option"
  csessions :: "(uid_t, session_t) omap"
  cid :: cid_t
  attestcount :: nat
  aggreport :: report_t

definition ckey :: keyv_t where
  "ckey = 0xCAFED00D"

section \<open>Utilities\<close>

definition findClosestCollector :: cid_t where
  "findClosestCollector = baseID"

definition getKeyRingIds :: "aprover \<Rightarrow> keyid_t list" where
  "getKeyRingIds s = map fst (KeyRing s)"

text \<open>\<open>std::set_intersection\<close> on two sorted ranges.\<close>

fun set_intersection :: "'a::linorder list \<Rightarrow> 'a list \<Rightarrow> 'a list" where
  "set_intersection (x # xs) (y # ys) =
     (if x < y then set_intersection xs (y # ys)
      else if y < x then set_intersection (x # xs) ys
      else x # set_intersection xs ys)"
| "set_intersection _ _ = []"

definition sharedKeys :: "keyid_t list \<Rightarrow> aprover \<Rightarrow> keyid_t list" where
  "sharedKeys v2 s = set_intersection (sort (getKeyRingIds s)) (sort v2)"

definition getBatteryLevel :: "env \<Rightarrow> aprover \<Rightarrow> (real \<times> aprover) result" where
  "getBatteryLevel E s =
     (case energy s of
        None \<Rightarrow> Inl BadCast
      | Some e \<Rightarrow> rbind (getResidualEnergyCapacity (simTime E) e) (\<lambda>(res, e').
          Inr (res / nominalCapacity e', s\<lparr>energy := Some e'\<rparr>)))"

definition postponeMsg :: "config \<Rightarrow> env \<Rightarrow> cMessage \<Rightarrow> aprover \<Rightarrow> aprover" where
  "postponeMsg C E msg = scheduleAt (simTime E + PDELAY (SCENARIO C)) msg"

text \<open>The share of the battery that is left, which reading brings up to date.\<close>

definition energyShare :: "env \<Rightarrow> aprover \<Rightarrow> (real \<times> aprover) result" where
  "energyShare E s =
     (case energy s of
        None \<Rightarrow> Inl NullPointer
      | Some e \<Rightarrow> rbind (getResidualEnergyCapacity (simTime E) e) (\<lambda>(res, e').
          Inr (res / nominalCapacity e', s\<lparr>energy := Some e'\<rparr>)))"

definition updateMaxChildren :: "env \<Rightarrow> aprover \<Rightarrow> aprover result" where
  "updateMaxChildren E s =
     (if selfish s then Inr (s\<lparr>maxchildren := 0\<rparr>)
      else rbind (energyShare E s) (\<lambda>(per, s').
        let v = CHILDREN per; v' = (if v < 1 then 0 else v)
        in Inr (s'\<lparr>maxchildren := nat \<lceil>v'\<rceil>\<rparr>)))"

definition chooseTreeDelay :: "env \<Rightarrow> aprover \<Rightarrow> (real \<times> aprover) result" where
  "chooseTreeDelay E s =
     (if selfish s then Inr (0, s)
      else rbind (energyShare E s) (\<lambda>(per, s').
        let v = DELTAG per (deltag s') in Inr (if v < 0 then 0 else v, s')))"

definition newmsg :: "MSG \<Rightarrow> nat \<Rightarrow> packet \<Rightarrow> cMessage" where
  "newmsg k bytes p = \<lparr>mkind = k, mid = Newmsg, mself = True, mbytes = bytes, mpacket = p\<rparr>"

text \<open>The battery of a prover that receives a message, and the statistics.\<close>

definition receive :: "config \<Rightarrow> env \<Rightarrow> cMessage \<Rightarrow> aprover \<Rightarrow> aprover result" where
  "receive C E msg s =
     (let bl = real (mbytes msg);
          s1 = (if checkRecordTime E s \<and> device s \<noteq> SERV then emit_call (Emit Rxsig bl) s else s)
      in if ENERGY_TEST C \<and> energy s1 \<noteq> None
         then rbind (setPower E RECEPTION_CONSUMPTION s1) (\<lambda>s2.
              Inr (scheduleAt (simTime E + bl / BYTERATE (SCENARIO C)) (newmsg ENRXDONE 0 NoPacket) s2))
         else Inr s1)"

text \<open>The time for the MACs of \<open>msg\<close> and of the checks before; the message that ends their energy use.\<close>

definition macTime :: "config \<Rightarrow> cMessage \<Rightarrow> aprover \<Rightarrow> (real \<times> aprover) result" where
  "macTime C msg s =
     rbind (macDelay C (mbytes msg) s) (\<lambda>d.
     let (sum, s') = getMacDelays s in Inr (d + sum, s'))"

definition scheduleMac :: "config \<Rightarrow> env \<Rightarrow> real \<Rightarrow> cMessage \<Rightarrow> aprover \<Rightarrow> aprover" where
  "scheduleMac C E macd msg s =
     scheduleAt (simTime E + macd) msg
       (if ENERGY_TEST C then scheduleAt (simTime E + macd) (newmsg ENMAC 0 NoPacket) s else s)"

section \<open>Join\<close>

definition sendJoinReq :: "config \<Rightarrow> env \<Rightarrow> aprover \<Rightarrow> aprover result" where
  "sendJoinReq C E s0 =
     (let s = s0\<lparr>status := JOINING, cid := findClosestCollector\<rparr> in
      if cid s = NOID then Inr s
      else
        let p = JoinReq (UId s) (cid s) (getKeyRingIds s) 0;
            msg = newmsg JNRQ (JRQ_SIZE (length (KeyRing s))) (JoinReq (UId s) (cid s) (getKeyRingIds s) (generateMAC p ckey))
        in rbind (macTime C msg s) (\<lambda>(d1, s1).
           let s2 = scheduleAt (simTime E + d1) msg s1 in
           rbind (macTime C msg s2) (\<lambda>(d2, s3).
           Inr (scheduleAt (simTime E + TIMEOUT_ACK (SCENARIO C) + d2) (timer_msg JNRPTO Jointomsg NoPacket) s3))))"

definition handleJoinResp :: "config \<Rightarrow> env \<Rightarrow> cMessage \<Rightarrow> aprover \<Rightarrow> aprover result" where
  "handleJoinResp C E msg s =
     (case mpacket msg of
        JoinResp src dst dep dh mac \<Rightarrow>
          if dst \<noteq> UId s \<or> src \<noteq> cid s then
            Inr (deleteMsg msg (logError ''handleJoinResp: received message with wrong src/dest'' s))
          else
            let s1 = (if isScheduled E (calls s) Jointomsg then cancelEvent Jointomsg s else s);
                s2 = s1\<lparr>maxdepth := unat dep, deltah := dh,
                        deltag := dh - (TIMEOUT_RSP (SCENARIO C) + TIMEOUT_ACK (SCENARIO C)) * real (unat dep)
                                  - TIMEOUT_UP (SCENARIO C)\<rparr>
            in rbind (checkMAC C msg s2) (\<lambda>(good, s3).
               rbind (if good
                      then rbind (macTime C msg s3) (\<lambda>(d, s4).
                           Inr (scheduleAt (simTime E + d) (timer_msg ATTEST Attesttimer NoPacket) s4))
                      else Inr s3) (\<lambda>s5.
               Inr (deleteMsg msg s5)))
      | _ \<Rightarrow> Inl BadCast)"

definition handleJoinRespTimeOut :: "config \<Rightarrow> env \<Rightarrow> cMessage \<Rightarrow> aprover \<Rightarrow> aprover result" where
  "handleJoinRespTimeOut C E msg s = rbind (sendJoinReq C E s) (\<lambda>s'. Inr (deleteMsg msg s'))"

section \<open>Attestation period\<close>

text \<open>Back to a state without sessions and records; \<open>aggreport.size\<close> and \<open>sepsize\<close> stay.\<close>

definition clearPeriod :: "aprover \<Rightarrow> aprover" where
  "clearPeriod s = s\<lparr>status := CHECKING, csessions := [], psecond := None, pfirst := NOID,
     aggreport := (aggreport s)\<lparr>uids := [], counters := [], proofs := []\<rparr>\<rparr>"

definition startAttestation :: "config \<Rightarrow> env \<Rightarrow> aprover \<Rightarrow> aprover result" where
  "startAttestation C E s0 =
     (let s = (if status s0 \<noteq> FINISHED \<and> status s0 \<noteq> JOINING
               then logWarn ''Device didn't attest last deltah!!!'' s0 else s0)
      in rbind (if ENERGY_TEST C then
                  rbind (if statadapt s then updateMaxChildren E (clearPeriod s) else Inr (clearPeriod s))
                    (setPower E LISTENING_CONSUMPTION)
                else Inr (clearPeriod s)) (\<lambda>s1.
      let s2 = (if TREE C then
                  let g = of_nat (connectedGates (wiring E) (moduleIndex s1)) in
                  if g = of_nat MINGSIZE then s1\<lparr>gatsz := g, maxchildren := 0\<rparr> else s1\<lparr>gatsz := g\<rparr>
                else s1);
          s3 = scheduleAt (simTime E + deltah s2) (timer_msg ATTEST Attesttimer NoPacket) s2
      in rbind (checkFirmwareDelay C s3) (\<lambda>fw.
      let s4 = scheduleAt (simTime E + fw) (timer_msg CHECK Checkdelaymsg NoPacket) s3 in
      if RUNTIME_TEST C then Inr s4
      else rbind (if statadapt s4 then chooseTreeDelay E s4 else Inr (deltag s4, s4)) (\<lambda>(d, s5).
        Inr (scheduleAt (simTime E + fw + d) (timer_msg MKTREE Mktreetimer NoPacket) s5)))))"

definition checkSoftConfig :: "config \<Rightarrow> env \<Rightarrow> aprover \<Rightarrow> aprover result" where
  "checkSoftConfig C E s0 =
     (let s = s0\<lparr>status := READY\<rparr> in
      if RUNTIME_TEST C \<and> int (moduleIndex s) = rootidx s then
        let s1 = scheduleAt (simTime E) (timer_msg MKTREE Startmsg NoPacket) s
        in Inr (if isScheduled E (calls s1) Mktreetimer then cancelEvent Mktreetimer s1 else s1)
      else Inr s)"

section \<open>Update\<close>

definition sendUpReq :: "config \<Rightarrow> env \<Rightarrow> treeid_t \<Rightarrow> aprover \<Rightarrow> aprover result" where
  "sendUpReq C E t s =
     rbind (addOwnReport (aggsize s) (UId s) (attestcount s) ((aggreport s)\<lparr>tid := t\<rparr>)) (\<lambda>(r, count).
     if length (counters r) < length (uids r) then Inl EmptyVector
     else case psecond s of
       None \<Rightarrow> Inl NullPointer
     | Some sess \<Rightarrow>
         let s1 = s\<lparr>aggreport := r, attestcount := count\<rparr>;
             dest = (if pfirst s \<noteq> NOID then pfirst s else findClosestCollector);
             k = (if pfirst s \<noteq> NOID then UPRQ else UPRQC);
             p = UpdateReq (UId s) dest (uids r) (take (length (uids r)) (counters r)) t 0 (proofs r);
             msg = newmsg k (URQ_SIZE (unat (rsize r)) (length (proofs r)))
                     (UpdateReq (UId s) dest (uids r) (take (length (uids r)) (counters r)) t
                        (generateMAC p (keyID sess)) (proofs r))
         in rbind (macTime C msg s1) (\<lambda>(macd, s2).
            let s3 = scheduleMac C E macd msg s2
            in Inr (s3\<lparr>csessions := omap_erase NOID (csessions s3), psecond := None, pfirst := NOID,
                       status := FINISHED\<rparr>)))"

section \<open>Spanning tree\<close>

definition sendCommitReq :: "config \<Rightarrow> env \<Rightarrow> treeid_t \<Rightarrow> aprover \<Rightarrow> aprover result" where
  "sendCommitReq C E t s =
     (if status s = ATTESTING then Inr (s\<lparr>status := ATTESTING_CREATING\<rparr>)
      else
        let root = mkSession (drawTree E) NOID ckey (word_of_nat (maxdepth s)) True in
        if maxchildren s = 0 then sendUpReq C E (drawTree E) (s\<lparr>psecond := Some root\<rparr>)
        else
          rbind (if pfirst s = NOID then Inr (s\<lparr>psecond := Some root\<rparr>, word_of_nat (maxdepth s), drawTree E)
                 else case psecond s of
                   None \<Rightarrow> Inl NullPointer
                 | Some sess \<Rightarrow> Inr (s, depth sess - 1, t)) (\<lambda>(s1, dep, treeid).
          let s2 = s1\<lparr>status := CREATING\<rparr>;
              creq = \<lparr>mkind = CMRQ, mid = Creqmsg, mself = True, mbytes = CRQ_SIZE (length (KeyRing s2)),
                      mpacket = CommitReq (UId s2) dep (getKeyRingIds s2) treeid\<rparr>;
              s3 = scheduleAt (simTime E) creq s2;
              s4 = s3\<lparr>csessions := omap_put NOID (session0\<lparr>treeID := treeid\<rparr>) (csessions s3)\<rparr>
          in Inr (scheduleAt (simTime E + TIMEOUT_RSP (SCENARIO C))
                    (timer_msg CMRPTO Cresptomsg (CommitTimeOut 0 treeid)) (cancelEvent Cresptomsg s4))))"

definition sendCommitResp :: "config \<Rightarrow> env \<Rightarrow> uid_t \<Rightarrow> treeid_t \<Rightarrow> aprover \<Rightarrow> aprover result" where
  "sendCommitResp C E target t s0 =
     (let s = s0\<lparr>status := ATTESTING\<rparr> in
      case psecond s of
        None \<Rightarrow> Inl NullPointer
      | Some sess \<Rightarrow>
          let kid = keyID sess;
              p = CommitResp (UId s) target kid t 0;
              msg = newmsg CMRP CRP_SIZE (CommitResp (UId s) target kid t (generateMAC p kid))
          in rbind (macTime C msg s) (\<lambda>(macd, s1).
             Inr (scheduleAt (simTime E + TIMEOUT_ACK (SCENARIO C))
                    (timer_msg CMAKTO Cacktomsg (CommitTimeOut target t)) (scheduleMac C E macd msg s1))))"

fun find_kid :: "keyid_t list \<Rightarrow> keyrng_t \<Rightarrow> keyid_t option" where
  "find_kid [] ring = None"
| "find_kid (k # ks) ring = (if map_of ring k \<noteq> None then Some k else find_kid ks ring)"

definition handleCommitReq :: "config \<Rightarrow> env \<Rightarrow> cMessage \<Rightarrow> aprover \<Rightarrow> aprover result" where
  "handleCommitReq C E msg s =
     (case mpacket msg of
        CommitReq senderid dep kids t \<Rightarrow>
          if status s \<noteq> READY then Inr (deleteMsg msg s)
          else rbind (receive C E msg s) (\<lambda>s1.
            case find_kid kids (KeyRing s1) of
              None \<Rightarrow> Inr (deleteMsg msg s1)
            | Some k \<Rightarrow>
                rbind (sendCommitResp C E senderid t
                         (s1\<lparr>pfirst := senderid, psecond := Some (mkSession t senderid k dep False)\<rparr>)) (\<lambda>s2.
                Inr (deleteMsg msg s2)))
      | _ \<Rightarrow> Inl BadCast)"

definition handleCommitAck :: "config \<Rightarrow> env \<Rightarrow> cMessage \<Rightarrow> aprover \<Rightarrow> aprover result" where
  "handleCommitAck C E msg s0 =
     (case mpacket msg of
        CommitAck senderid dst t mac \<Rightarrow>
          rbind (receive C E msg s0) (\<lambda>s.
          if pfirst s \<noteq> senderid then
            Inr (deleteMsg msg (logWarn ''handleCommitAck: Unexpected Ack (probably from a timedout session)'' s))
          else if dst \<noteq> UId s then
            Inr (deleteMsg msg (logError ''handleCommitAck: wrong destination!!!'' s))
          else case psecond s of
            None \<Rightarrow> Inl NullPointer
          | Some sess \<Rightarrow>
              if map_of (KeyRing s) (keyID sess) = None then
                Inr (deleteMsg msg (logError ''handleCommitAck: I dont have this key!!!'' s))
              else rbind (checkMAC C msg s) (\<lambda>(good, s1).
                if \<not> good then
                  Inr (deleteMsg msg (logError ''handleCommitAck: Invalid MAC!!!'' s1))
                else
                  let s2 = (if isScheduled E (calls s1) Mktreetimer then cancelEvent Mktreetimer s1 else s1);
                      s3 = (if isScheduled E (calls s2) Cacktomsg then cancelEvent Cacktomsg s2 else s2);
                      s4 = s3\<lparr>psecond := Some (sess\<lparr>valid := True\<rparr>)\<rparr>
                  in rbind (if depth sess = 1 \<or> maxchildren s4 = 0
                            then sendUpReq C E t (s4\<lparr>status := FINISHED\<rparr>)
                            else sendCommitReq C E t (s4\<lparr>status := CREATING\<rparr>)) (\<lambda>s5.
                     Inr (deleteMsg msg s5))))
      | _ \<Rightarrow> Inl BadCast)"

definition handleCommitAckTimeOut :: "config \<Rightarrow> env \<Rightarrow> cMessage \<Rightarrow> aprover \<Rightarrow> aprover result" where
  "handleCommitAckTimeOut C E msg s =
     (case mpacket msg of
        CommitTimeOut dev t \<Rightarrow>
          if dev \<noteq> pfirst s then
            Inr (logError ''handleCommitAckTimeOut: timeout with wrong data received!!!'' s)
          else
            let s1 = s\<lparr>psecond := None, pfirst := NOID\<rparr> in
            if status s1 = ATTESTING_CREATING then sendCommitReq C E NOID (s1\<lparr>status := CREATING\<rparr>)
            else Inr (s1\<lparr>status := READY\<rparr>)
      | _ \<Rightarrow> Inl BadCast)"

definition handleCommitRespTimeOut :: "config \<Rightarrow> env \<Rightarrow> cMessage \<Rightarrow> aprover \<Rightarrow> aprover result" where
  "handleCommitRespTimeOut C E msg s0 =
     (let s = s0\<lparr>status := COLLECTING\<rparr> in
      if length (csessions s) = 1 then
        (case mpacket msg of
           CommitTimeOut dev t \<Rightarrow> sendUpReq C E t s
         | _ \<Rightarrow> Inl BadCast)
      else Inr s)"

definition sendCommitAck :: "config \<Rightarrow> env \<Rightarrow> uid_t \<Rightarrow> treeid_t \<Rightarrow> aprover \<Rightarrow> aprover result" where
  "sendCommitAck C E target t s =
     (case map_of (csessions s) target of
        None \<Rightarrow> Inl NullPointer
      | Some sess \<Rightarrow>
          let p = CommitAck (UId s) target t 0;
              msg = newmsg CMAK CAK_SIZE (CommitAck (UId s) target t (generateMAC p (keyID sess)))
          in rbind (macTime C msg s) (\<lambda>(macd, s1).
             let s2 = scheduleMac C E macd msg s1 in
             if WIRELESS C then
               (case psecond s2 of
                  None \<Rightarrow> Inl NullPointer
                | Some psess \<Rightarrow>
                    let delaytime = (TIMEOUT_ACK (SCENARIO C) + TIMEOUT_RSP (SCENARIO C)) * real (unat (depth psess - 1))
                                    + TIMEOUT_UP (SCENARIO C);
                        s3 = scheduleAt (simTime E + delaytime) (timer_msg UPTO (Uptomsg target t) (CommitTimeOut target t)) s2
                    in Inr (s3\<lparr>csessions := omap_put target (sess\<lparr>tomsg := Some (Uptomsg target t)\<rparr>) (csessions s3)\<rparr>))
             else Inr s2))"

definition handleCommitResp :: "config \<Rightarrow> env \<Rightarrow> cMessage \<Rightarrow> aprover \<Rightarrow> aprover result" where
  "handleCommitResp C E msg s0 =
     (case mpacket msg of
        CommitResp senderid dst kid t mac \<Rightarrow>
          if status s0 = COLLECTING \<or> status s0 = FINISHED \<or> status s0 = READY then Inr (deleteMsg msg s0)
          else if status s0 \<noteq> CREATING then
            Inr (deleteMsg msg (logError ''handleCommitResp: Unexpected status'' s0))
          else if csessions s0 = [] \<or> length (csessions s0) - 1 \<ge> maxchildren s0 then
            Inr (deleteMsg msg (logError ''handleCommitResp: Unexpected status (should be waiting)'' s0))
          else rbind (receive C E msg s0) (\<lambda>s.
            if dst \<noteq> UId s then
              Inr (deleteMsg msg (logError ''handleCommitResp: wrong destination!!!'' s))
            else if map_of (csessions s) senderid \<noteq> None then Inr (deleteMsg msg s)
            else if map_of (KeyRing s) kid = None then Inr (deleteMsg msg s)
            else rbind (checkMAC C msg s) (\<lambda>(good, s1).
              if \<not> good then Inr (deleteMsg msg s1)
              else
                let s2 = s1\<lparr>csessions := omap_put senderid (mkSession t senderid kid 0 True) (csessions s1)\<rparr>
                in rbind (sendCommitAck C E senderid t s2) (\<lambda>s3.
                   let s4 = (if length (csessions s3) = maxchildren s3 + 1
                             then cancelEvent Cresptomsg (s3\<lparr>status := COLLECTING\<rparr>) else s3)
                   in Inr (deleteMsg msg s4))))
      | _ \<Rightarrow> Inl BadCast)"

definition handleUpdateTimeOut :: "config \<Rightarrow> env \<Rightarrow> cMessage \<Rightarrow> aprover \<Rightarrow> aprover result" where
  "handleUpdateTimeOut C E msg s0 =
     (case mpacket msg of
        CommitTimeOut uid t \<Rightarrow>
          let s = logWarn ''handleUpdateTimeOut: update session of prover timed out'' s0;
              s1 = s\<lparr>csessions := omap_erase uid (csessions s)\<rparr>
          in rbind (if length (csessions s1) = 1 then sendUpReq C E t (s1\<lparr>status := FINISHED\<rparr>) else Inr s1) (\<lambda>s2.
             Inr (deleteMsg msg s2))
      | _ \<Rightarrow> Inl BadCast)"

section \<open>Receiving a report\<close>

text \<open>The end of \<open>handleUpReq\<close>: the child's session is closed, the report is sent with the last one.\<close>

definition closeChild :: "config \<Rightarrow> env \<Rightarrow> uid_t \<Rightarrow> treeid_t \<Rightarrow> session_t \<Rightarrow> aprover \<Rightarrow> aprover result" where
  "closeChild C E senderid t sess s =
     (let s1 = (case tomsg sess of
                  Some i \<Rightarrow> if isScheduled E (calls s) i then emit_call (CancelAndDelete i) s else s
                | None \<Rightarrow> s);
          s2 = s1\<lparr>csessions := omap_erase senderid (csessions s1)\<rparr>
      in if TREE C then
           let s3 = s2\<lparr>gatsz := gatsz s2 - 1\<rparr> in
           if length (csessions s3) = 1 \<and> gatsz s3 = of_nat MINGSIZE then sendUpReq C E t s3 else Inr s3
         else if length (csessions s2) = 1 then sendUpReq C E t s2 else Inr s2)"

text \<open>From the child's session on: the checks, the merge, the end of the session.\<close>

definition acceptReport :: "config \<Rightarrow> env \<Rightarrow> cMessage \<Rightarrow> aprover \<Rightarrow> aprover result" where
  "acceptReport C E msg s =
     (case map_of (csessions s) (psource (mpacket msg)) of
        None \<Rightarrow> Inr (deleteMsg msg s)
      | Some sess \<Rightarrow>
          (case psecond s of
             None \<Rightarrow> Inl NullPointer
           | Some psess \<Rightarrow>
               if ptree (mpacket msg) \<noteq> treeID psess then
                 Inr (deleteMsg msg (logError ''handleUpReq: wrong tid!!!'' s))
               else rbind (checkMAC C msg s) (\<lambda>(good, s1).
                 if \<not> good then Inr (deleteMsg msg s1)
                 else
                   rbind (mergeReport (aggsize s1) (preport1 (mpacket msg)) (preport2 (mpacket msg))
                            (pproof (mpacket msg)) (aggreport s1)) (\<lambda>r.
                   rbind (closeChild C E (psource (mpacket msg)) (ptree (mpacket msg)) sess (s1\<lparr>aggreport := r\<rparr>)) (\<lambda>s2.
                   Inr (deleteMsg msg s2))))))"

definition handleUpReq :: "config \<Rightarrow> env \<Rightarrow> cMessage \<Rightarrow> aprover \<Rightarrow> aprover result" where
  "handleUpReq C E msg s0 =
     (if mkind msg = UPRQF then sendCollector C E is_UpdateReq msg s0
      else case mpacket msg of
        UpdateReq senderid dst rep1 rep2 t mac prf \<Rightarrow>
          if dst \<noteq> UId s0 then Inr (deleteMsg msg (logError ''handleUpReq: wrong destination!!!'' s0))
          else rbind (receive C E msg s0) (\<lambda>s.
            if status s = FINISHED then
              sendCollector C E is_UpdateReq
                (msg\<lparr>mkind := UPRQF, mpacket := UpdateReq senderid findClosestCollector rep1 rep2 t mac prf\<rparr>)
                (logWarn ''handleUpReq: session of child is already timedout!!! '' s)
            else if status s \<noteq> COLLECTING \<and> status s \<noteq> CREATING then
              Inr (deleteMsg msg (logError ''handleUpReq: Unexpected state!!!'' s))
            else acceptReport C E msg s)
      | _ \<Rightarrow> Inl BadCast)"

section \<open>Revocation and end\<close>

definition handleRevReq :: "config \<Rightarrow> cMessage \<Rightarrow> aprover \<Rightarrow> aprover result" where
  "handleRevReq C msg s =
     (case mpacket msg of
        RevokeReq dst kids mac \<Rightarrow>
          if dst \<noteq> UId s then Inr (deleteMsg msg (logError ''handleRevokeReq: wrong destination!!!'' s))
          else rbind (checkMAC C msg s) (\<lambda>(good, s1).
            Inr (deleteMsg msg (if good then emit_call (Emit Revokesig (real (length kids))) s1 else s1)))
      | _ \<Rightarrow> Inl BadCast)"

text \<open>The destination and the MAC of a leaving prover's request keep their defaults.\<close>

definition sendRevReq :: "aprover \<Rightarrow> aprover result" where
  "sendRevReq s =
     Inr (emit_call (SendCollector 0 0
            (newmsg RVKRQ (RVK_SIZE (length (KeyRing s))) (RevokeReq 0 (getKeyRingIds s) 0)))
          (s\<lparr>status := OFFLINE\<rparr>))"

definition prover_finish :: "aprover \<Rightarrow> aprover" where
  "prover_finish = fold (\<lambda>i. emit_call (CancelAndDelete i))
     [Startmsg, Jointomsg, Mktreetimer, Attesttimer, Checkdelaymsg, Cresptomsg, Cacktomsg, Creqmsg,
      Txmsg, Entxmsg, Procendmsg, Cbusymsg]"

section \<open>Initialisation\<close>

text \<open>
  The parameters that \<open>initialize\<close> reads, and the variables that all provers share. The
  members the constructors leave uninitialised keep the values of \<open>raw\<close>.
\<close>

record params =
  htime :: nat
  range_p :: real
  root :: int
  aggsize_p :: nat
  maxdepth_p :: nat
  drop_p :: int
  type_p :: device_t
  numself :: int
  numProvers_p :: int
  statadapt_p :: bool
  keyRingSize :: nat
  keyPoolSize :: nat
  energyStorage :: "energy_storage option"

record 'r statics =
  NO :: "'r network_owner"
  selfcount :: "64 word"
  rvkd :: real

definition construct :: "config \<Rightarrow> nat \<Rightarrow> aprover \<Rightarrow> aprover" where
  "construct C index raw = raw\<lparr>moduleIndex := index, device := NA, maxchildren := MAXCHILDREN, crashed := False,
     gatsz := 0, selfish := False, status := OFFLINE, energy := None, drange := initial_drange C, rootidx := 0,
     macdelays := [], deviceg := [], txrxstat := DIDLE, chanstat := CIDLE, procstat := PIDLE, msgqueue := [],
     pupmsg := None, calls := [], pfirst := NOID, psecond := None, csessions := [], attestcount := 0,
     aggreport := report0\<rparr>"

text \<open>\<open>None\<close> when a loop of the network owner does not end.\<close>

definition initNO ::
  "'r intrand \<Rightarrow> 'r \<Rightarrow> bool \<Rightarrow> params \<Rightarrow> aprover \<times> 'r statics \<Rightarrow> (aprover \<times> 'r statics) option" where
  "initNO intrand rng garbage P = (\<lambda>(s, g).
     if initialized (NO g) then Some (s, g)
     else map_option (\<lambda>no. (s\<lparr>KRsize := keyRingSize P, KPsize := keyPoolSize P\<rparr>, g\<lparr>NO := no\<lparr>initialized := True\<rparr>\<rparr>))
            (NetworkOwner intrand rng (keyPoolSize P) (keyRingSize P) garbage))"

definition initUID :: "aprover \<Rightarrow> aprover" where
  "initUID s = s\<lparr>UId := (baseID + of_nat (moduleIndex s)) mod MAXUID\<rparr>"

definition initKeyRing :: "'r intrand \<Rightarrow> aprover \<times> 'r statics \<Rightarrow> (aprover \<times> 'r statics) result option" where
  "initKeyRing intrand = (\<lambda>(s, g).
     map_option (\<lambda>r. rbind r (\<lambda>(ring, no). Inr (s\<lparr>KeyRing := ring\<rparr>, g\<lparr>NO := no\<rparr>))) (getKeyRing intrand (NO g)))"

text \<open>The parameters of the simulation and of the device.\<close>

definition readParams :: "config \<Rightarrow> params \<Rightarrow> aprover \<Rightarrow> aprover" where
  "readParams C P s =
     (let dg = real (htime P) - (TIMEOUT_RSP (SCENARIO C) + TIMEOUT_ACK (SCENARIO C)) * real (maxdepth_p P)
               - TIMEOUT_UP (SCENARIO C)
      in s\<lparr>deltah := real (htime P), range_m := range_p P, rootidx := root P, aggsize := aggsize_p P,
           maxdepth := maxdepth_p P, device := (if SCENARIO C = FADIA then type_p P else NA),
           deltag := (if dg < 0 then 0 else dg)\<rparr>)"

text \<open>The energy build: the storage, and whether the prover is one of the selfish ones.\<close>

definition chooseSelfish :: "env \<Rightarrow> params \<Rightarrow> aprover \<times> 'r statics \<Rightarrow> (aprover \<times> 'r statics) result" where
  "chooseSelfish E P = (\<lambda>(s, g).
     case energyStorage P of
       None \<Rightarrow> Inl BadCast
     | Some e0 \<Rightarrow>
         let e = e0\<lparr>totalPowerConsumption := IDLE_CONSUMPTION / 1000\<rparr>;
             s1 = s\<lparr>energy := Some e, statadapt := statadapt_p P\<rparr>
         in if selfcount g < of_int (numself P) then
              rbind (getResidualEnergyCapacity (simTime E) e) (\<lambda>(res, e').
              let s2 = s1\<lparr>energy := Some e'\<rparr> in
              if res > 250 \<or> unat (of_int (numProvers_p P) - UId s :: 32 word) < unat (of_int (numself P) - selfcount g)
              then Inr (s2\<lparr>selfish := True\<rparr>, g\<lparr>selfcount := selfcount g + 1\<rparr>)
              else Inr (s2, g))
            else Inr (s1, g))"

text \<open>The first event of the prover, and its revocation in the revocation test.\<close>

definition scheduleStart :: "config \<Rightarrow> env \<Rightarrow> params \<Rightarrow> aprover \<times> 'r statics \<Rightarrow> aprover \<times> 'r statics" where
  "scheduleStart C E P = (\<lambda>(s, g).
     if RUNTIME_TEST C then
       ((scheduleAt (simTime E) (timer_msg ATTEST Startmsg NoPacket) s)\<lparr>status := JOINING\<rparr>, g)
     else
       let s1 = scheduleAt (simTime E + drawStart E) (timer_msg ATTEST Startmsg NoPacket) (s\<lparr>status := FINISHED\<rparr>) in
       if REVOKE_TEST C then
         let g1 = (if UId s1 = 1 then g\<lparr>rvkd := drawRevoke E\<rparr> else g) in
         (if UId s1 \<le> of_int (drop_p P)
          then scheduleAt (simTime E + rvkd g1) (newmsg REVOKE 0 NoPacket) s1 else s1, g1)
       else (s1, g))"

definition prover_initialize ::
  "config \<Rightarrow> env \<Rightarrow> params \<Rightarrow> 'r intrand \<Rightarrow> 'r \<Rightarrow> bool \<Rightarrow> aprover \<times> 'r statics \<Rightarrow> (aprover \<times> 'r statics) result option" where
  "prover_initialize C E P intrand rng garbage sg =
     Option.bind (initNO intrand rng garbage P sg) (\<lambda>(s1, g1).
     map_option (\<lambda>r. rbind r (\<lambda>(s2, g2).
       rbind (if ENERGY_TEST C then chooseSelfish E P (readParams C P s2, g2) else Inr (readParams C P s2, g2)) (\<lambda>sg3.
       Inr (scheduleStart C E P sg3))))
     (initKeyRing intrand (initUID s1, g1)))"

end
