(* ===== verification/Prover_Inv.thy ===== *)
theory Prover_Inv
  imports Prover
begin

text \<open>
  The invariant of a prover and the proof that every handler keeps it and returns without
  a fault.

  The invariant has four parts: the parameters of the device are usable (\<open>static_inv\<close>), the
  sessions and the report are well-formed (\<open>session_inv\<close>), the pending timers agree with the
  state of the protocol (\<open>timer_inv\<close>), and every message the device scheduled, sent or
  queued is well-formed (\<open>log_inv\<close>).
\<close>

section \<open>Well-formed messages\<close>

definition valid_uid :: "nat \<Rightarrow> uid_t \<Rightarrow> bool" where
  "valid_uid N u \<longleftrightarrow> u \<noteq> NOID \<and> proverIndex u < N \<and> unat (u - baseID) < N"

text \<open>The packets a prover sends, for \<open>N\<close> provers that aggregate \<open>n\<close> records.\<close>

definition outgoing :: "nat \<Rightarrow> nat \<Rightarrow> cMessage \<Rightarrow> bool" where
  "outgoing N n m \<longleftrightarrow>
     (case mpacket m of
        JoinReq src dst kids mac \<Rightarrow> mkind m = JNRQ \<and> valid_uid N src \<and> dst = baseID
      | CommitReq src dep kids t \<Rightarrow> mkind m = CMRQ \<and> valid_uid N src
      | CommitResp src dst kid t mac \<Rightarrow> mkind m = CMRP \<and> valid_uid N src \<and> valid_uid N dst
      | CommitAck src dst t mac \<Rightarrow> mkind m = CMAK \<and> valid_uid N src \<and> valid_uid N dst
      | UpdateReq src dst us cs t mac ps \<Rightarrow> valid_uid N src \<and> wire_ok n us cs ps \<and>
          (mkind m = UPRQ \<and> valid_uid N dst \<or> (mkind m = UPRQC \<or> mkind m = UPRQF) \<and> dst = baseID)
      | _ \<Rightarrow> False)"

definition mk_timer :: "config \<Rightarrow> msgid" where
  "mk_timer C = (if RUNTIME_TEST C then Startmsg else Mktreetimer)"

text \<open>
  The messages a prover schedules for itself. No code schedules a \<open>JOIN\<close> message, so the
  timeout of a join request is not among them.
\<close>

definition sched_ok :: "config \<Rightarrow> nat \<Rightarrow> nat \<Rightarrow> cMessage \<Rightarrow> bool" where
  "sched_ok C N n m \<longleftrightarrow> mself m \<and>
     (case mkind m of
        ATTEST \<Rightarrow> mid m = Startmsg \<or> mid m = Attesttimer
      | CHECK \<Rightarrow> mid m = Checkdelaymsg
      | MKTREE \<Rightarrow> mid m = mk_timer C
      | REVOKE \<Rightarrow> mid m = Newmsg
      | CMRPTO \<Rightarrow> mid m = Cresptomsg \<and> is_CommitTimeOut (mpacket m)
      | CMAKTO \<Rightarrow> mid m = Cacktomsg \<and> is_CommitTimeOut (mpacket m) \<and> pdevice (mpacket m) \<noteq> NOID
      | UPTO \<Rightarrow> is_CommitTimeOut (mpacket m) \<and> pdevice (mpacket m) \<noteq> NOID \<and>
          mid m = Uptomsg (pdevice (mpacket m)) (ptree (mpacket m))
      | TXDONE \<Rightarrow> mid m = Txmsg
      | CBUSYMSG \<Rightarrow> mid m = Cbusymsg
      | COLLBSYMSG \<Rightarrow> mid m = Collbusymsg
      | ENTXDONE \<Rightarrow> mid m = Entxmsg
      | ENRXDONE \<Rightarrow> mid m = Newmsg
      | ENMAC \<Rightarrow> mid m = Newmsg
      | CMRQ \<Rightarrow> outgoing N n m \<and> mid m = Creqmsg
      | _ \<Rightarrow> outgoing N n m \<and> mid m = Newmsg)"

definition queued_ok :: "nat \<Rightarrow> nat \<Rightarrow> cMessage \<Rightarrow> bool" where
  "queued_ok N n m \<longleftrightarrow> outgoing N n m \<and> (mself m \<or> mkind m = UPRQF)"

fun call_ok :: "config \<Rightarrow> nat \<Rightarrow> nat \<Rightarrow> call \<Rightarrow> bool" where
  "call_ok C N n (ScheduleAt t m) = sched_ok C N n m"
| "call_ok C N n (SendProver i t m) = outgoing N n m"
| "call_ok C N n (SendGate i m) = outgoing N n m"
| "call_ok C N n (SendCollector i t m) = (outgoing N n m \<or> mkind m = RVKRQ \<and> is_RevokeReq (mpacket m))"
| "call_ok C N n _ = True"

section \<open>The invariant\<close>

definition static_inv :: "config \<Rightarrow> nat \<Rightarrow> nat \<Rightarrow> aprover \<Rightarrow> bool" where
  "static_inv C N n s \<longleftrightarrow>
     (if SCENARIO C = FADIA then device s = SKY \<or> device s = PI2 else device s = NA) \<and>
     0 < n \<and> aggsize s = n \<and> valid_uid N (UId s) \<and> (ENERGY_TEST C \<longrightarrow> energy s \<noteq> None)"

text \<open>An entry of the child table: a prover (or the open commitment) whose timer is an update timeout.\<close>

definition child_ok :: "nat \<Rightarrow> uid_t \<Rightarrow> session_t \<Rightarrow> bool" where
  "child_ok N u x \<longleftrightarrow> (u = NOID \<or> valid_uid N u) \<and> (\<forall>i. tomsg x = Some i \<longrightarrow> (\<exists>v t. i = Uptomsg v t))"

definition session_inv :: "nat \<Rightarrow> nat \<Rightarrow> aprover \<Rightarrow> bool" where
  "session_inv N n s \<longleftrightarrow>
     report_ok n (aggreport s) \<and>
     omap_wf (csessions s) \<and> length (csessions s) \<le> maxchildren s + 1 \<and>
     (\<forall>u x. map_of (csessions s) u = Some x \<longrightarrow> child_ok N u x) \<and>
     (pfirst s \<noteq> NOID \<longrightarrow> valid_uid N (pfirst s) \<and> psecond s \<noteq> None) \<and>
     (csessions s \<noteq> [] \<longrightarrow> map_of (csessions s) NOID \<noteq> None \<and> psecond s \<noteq> None \<and> maxchildren s \<noteq> 0 \<and>
        (pfirst s \<noteq> NOID \<longrightarrow> depth (the (psecond s)) \<noteq> 1)) \<and>
     (status s = CREATING \<longrightarrow> csessions s \<noteq> []) \<and>
     (status s = READY \<longrightarrow> csessions s = [])"

definition timer_inv :: "config \<Rightarrow> aprover \<Rightarrow> bool" where
  "timer_inv C s \<longleftrightarrow>
     (armed (calls s) Cacktomsg \<and> pfirst s \<noteq> NOID \<longrightarrow> csessions s = [] \<and> \<not> armed (calls s) Cresptomsg) \<and>
     (armed (calls s) (mk_timer C) \<and> pfirst s \<noteq> NOID \<longrightarrow> status s = ATTESTING \<or> csessions s \<noteq> []) \<and>
     (armed (calls s) Checkdelaymsg \<longrightarrow> csessions s = [] \<and> pfirst s = NOID \<and> status s \<noteq> READY \<and>
        \<not> armed (calls s) Cresptomsg) \<and>
     (status s = READY \<or> status s = ATTESTING \<longrightarrow> \<not> armed (calls s) Cresptomsg)"

definition log_inv :: "config \<Rightarrow> nat \<Rightarrow> nat \<Rightarrow> aprover \<Rightarrow> bool" where
  "log_inv C N n s \<longleftrightarrow> list_all (call_ok C N n) (calls s) \<and> list_all (queued_ok N n) (msgqueue s) \<and>
     (case pupmsg s of None \<Rightarrow> True | Some m \<Rightarrow> queued_ok N n m)"

definition prover_inv :: "config \<Rightarrow> nat \<Rightarrow> nat \<Rightarrow> aprover \<Rightarrow> bool" where
  "prover_inv C N n s \<longleftrightarrow> static_inv C N n s \<and> session_inv N n s \<and> timer_inv C s \<and> log_inv C N n s \<and> chan_ok s"

section \<open>Building blocks\<close>

lemma macDelay_ok: "static_inv C N n s \<Longrightarrow> \<exists>d. macDelay C b s = Inr d"
proof -
  assume "static_inv C N n s"
  then have "ok (\<lambda>_. True) (macDelay C b s)"
    by (cases "SCENARIO C") (auto simp: static_inv_def macDelay_def)
  then show ?thesis by (simp add: ok_eq)
qed

lemma checkFirmwareDelay_ok: "static_inv C N n s \<Longrightarrow> \<exists>d. checkFirmwareDelay C s = Inr d"
proof -
  assume "static_inv C N n s"
  then have "ok (\<lambda>_. True) (checkFirmwareDelay C s)"
    by (cases "SCENARIO C") (auto simp: static_inv_def checkFirmwareDelay_def)
  then show ?thesis by (simp add: ok_eq)
qed

lemma macTime_ok: "static_inv C N n s \<Longrightarrow> \<exists>d. macTime C msg s = Inr (d, s\<lparr>macdelays := []\<rparr>)"
  using macDelay_ok [of C N n s "mbytes msg"] by (auto simp: macTime_def getMacDelays_def Let_def)

lemma checkMAC_ok:
  "static_inv C N n s \<Longrightarrow> \<exists>d. checkMAC C msg s = Inr (pmac (mpacket msg) = 0, s\<lparr>macdelays := d\<rparr>)"
  using macDelay_ok [of C N n s "mbytes msg"] by (auto simp: checkMAC_def)

text \<open>A call log grown by calls that name no timer and are well-formed.\<close>

definition quiet :: "config \<Rightarrow> nat \<Rightarrow> nat \<Rightarrow> call list \<Rightarrow> bool" where
  "quiet C N n cs \<longleftrightarrow> list_all (\<lambda>c. timerless c \<and> call_ok C N n c) cs"

lemma armed_quiet: "quiet C N n cs \<Longrightarrow> i \<noteq> Newmsg \<Longrightarrow> armed (cs @ ds) i = armed ds i"
  by (induction cs) (auto simp: quiet_def armed_timerless)

lemma clean_quiet: "quiet C N n cs \<Longrightarrow> i \<noteq> Newmsg \<Longrightarrow> clean_of i (cs @ ds) = clean_of i ds"
  by (induction cs) (auto simp: quiet_def clean_timerless)

lemma quiet_call_ok: "quiet C N n cs \<Longrightarrow> list_all (call_ok C N n) cs"
  by (auto simp: quiet_def list_all_iff)

lemma receive_ok:
  "\<exists>e cs. receive C E msg s = Inr (s\<lparr>energy := e, calls := cs @ calls s\<rparr>) \<and>
    (e = None \<longleftrightarrow> energy s = None) \<and> quiet C N n cs"
proof -
  define cs1 where "cs1 = (if checkRecordTime E s \<and> device s \<noteq> SERV then [Emit Rxsig (real (mbytes msg))] else [])"
  let ?s1 = "s\<lparr>calls := cs1 @ calls s\<rparr>"
  have s1: "(if checkRecordTime E s \<and> device s \<noteq> SERV then emit_call (Emit Rxsig (real (mbytes msg))) s else s) = ?s1"
    by (simp add: cs1_def emit_call_def)
  have q1: "quiet C N n cs1" by (simp add: cs1_def quiet_def timerless_def)
  show ?thesis
  proof (cases "ENERGY_TEST C \<and> energy s \<noteq> None")
    case True
    then obtain e where e: "setPower E RECEPTION_CONSUMPTION ?s1 = Inr (?s1\<lparr>energy := Some e\<rparr>)"
      using setPower_ok [of ?s1 E RECEPTION_CONSUMPTION] by auto
    let ?c = "ScheduleAt (simTime E + real (mbytes msg) / BYTERATE (SCENARIO C)) (newmsg ENRXDONE 0 NoPacket)"
    have "receive C E msg s = Inr (s\<lparr>energy := Some e, calls := (?c # cs1) @ calls s\<rparr>)"
      using True e by (simp add: receive_def s1 scheduleAt_def emit_call_def)
    moreover have "quiet C N n (?c # cs1)"
      using q1 by (simp add: quiet_def timerless_def sched_ok_def newmsg_def)
    ultimately show ?thesis using True by (metis option.distinct(1))
  next
    case False
    then have "receive C E msg s = Inr (s\<lparr>energy := energy s, calls := cs1 @ calls s\<rparr>)"
      by (auto simp: receive_def s1)
    with q1 show ?thesis by blast
  qed
qed

lemma static_inv_upd [simp]:
  "static_inv C N n (s\<lparr>status := a\<rparr>) = static_inv C N n s"
  "static_inv C N n (s\<lparr>calls := b\<rparr>) = static_inv C N n s"
  "static_inv C N n (s\<lparr>macdelays := c\<rparr>) = static_inv C N n s"
  "static_inv C N n (s\<lparr>aggreport := d\<rparr>) = static_inv C N n s"
  "static_inv C N n (s\<lparr>attestcount := e\<rparr>) = static_inv C N n s"
  "static_inv C N n (s\<lparr>csessions := f\<rparr>) = static_inv C N n s"
  "static_inv C N n (s\<lparr>pfirst := g\<rparr>) = static_inv C N n s"
  "static_inv C N n (s\<lparr>psecond := h\<rparr>) = static_inv C N n s"
  "static_inv C N n (s\<lparr>maxchildren := i\<rparr>) = static_inv C N n s"
  "static_inv C N n (s\<lparr>gatsz := j\<rparr>) = static_inv C N n s"
  "static_inv C N n (s\<lparr>cid := k\<rparr>) = static_inv C N n s"
  "static_inv C N n (emit_call l s) = static_inv C N n s"
  by (simp_all add: static_inv_def emit_call_def)

lemma emit_call_sel_prover [simp]:
  "UId (emit_call c s) = UId s" "KeyRing (emit_call c s) = KeyRing s" "pfirst (emit_call c s) = pfirst s"
  "psecond (emit_call c s) = psecond s" "csessions (emit_call c s) = csessions s"
  "aggreport (emit_call c s) = aggreport s" "maxchildren (emit_call c s) = maxchildren s"
  "attestcount (emit_call c s) = attestcount s" "aggsize (emit_call c s) = aggsize s"
  by (simp_all add: emit_call_def)

lemma sendUpReq_eq:
  assumes st: "static_inv C N n s" and rep: "report_ok n (aggreport s)" and "psecond s \<noteq> None"
    and "pfirst s \<noteq> NOID \<longrightarrow> valid_uid N (pfirst s)"
  shows "\<exists>r cs. sendUpReq C E t s = Inr (s\<lparr>aggreport := r, attestcount := attestcount s + 1, macdelays := [],
      calls := cs @ calls s, csessions := omap_erase NOID (csessions s), psecond := None, pfirst := NOID,
      status := FINISHED\<rparr>) \<and> report_ok n r \<and> quiet C N n cs"
proof -
  let ?r0 = "(aggreport s)\<lparr>tid := t\<rparr>"
  have r0: "report_ok n ?r0" using rep by (simp add: report_ok_def)
  have n: "0 < n" "aggsize s = n" "UId s \<noteq> NOID" "valid_uid N (UId s)"
    using st by (auto simp: static_inv_def valid_uid_def)
  from addOwnReport_ok [OF r0 n(1,3), of "attestcount s"] obtain r where
    r: "addOwnReport n (UId s) (attestcount s) ?r0 = Inr (r, attestcount s + 1)" "report_ok n r" by blast
  have len: "length (counters r) = length (uids r)" using r(2) by (simp add: report_ok_def wire_ok_def)
  obtain sess where sess: "psecond s = Some sess" using assms(3) by blast
  define msg where "msg = newmsg (if pfirst s \<noteq> NOID then UPRQ else UPRQC) (URQ_SIZE (unat (rsize r)) (length (proofs r)))
    (UpdateReq (UId s) (if pfirst s \<noteq> NOID then pfirst s else findClosestCollector) (uids r) (counters r) t 0 (proofs r))"
  define s1 where "s1 = s\<lparr>aggreport := r, attestcount := attestcount s + 1\<rparr>"
  have "static_inv C N n s1" using st by (simp add: s1_def)
  from macTime_ok [OF this, of msg] obtain d where d: "macTime C msg s1 = Inr (d, s1\<lparr>macdelays := []\<rparr>)" ..
  let ?cs = "ScheduleAt (simTime E + d) msg #
    (if ENERGY_TEST C then [ScheduleAt (simTime E + d) (newmsg ENMAC 0 NoPacket)] else [])"
  have "outgoing N n msg"
    using n assms(4) r(2) by (auto simp: outgoing_def msg_def newmsg_def findClosestCollector_def report_ok_def)
  then have "quiet C N n ?cs"
    by (auto simp: quiet_def timerless_def sched_ok_def msg_def newmsg_def)
  moreover have "sendUpReq C E t s = Inr (s\<lparr>aggreport := r, attestcount := attestcount s + 1, macdelays := [],
      calls := ?cs @ calls s, csessions := omap_erase NOID (csessions s), psecond := None, pfirst := NOID,
      status := FINISHED\<rparr>)"
    using r(1) n(2) len sess d
    by (simp add: sendUpReq_def Let_def generateMAC_def s1_def msg_def [symmetric] scheduleMac_def call_defs)
  ultimately show ?thesis using r(2) by blast
qed

lemmas inv_parts = session_inv_def timer_inv_def log_inv_def

lemma sendUpReq_inv:
  assumes "static_inv C N n s" and "report_ok n (aggreport s)" and "psecond s \<noteq> None"
    and "pfirst s \<noteq> NOID \<longrightarrow> valid_uid N (pfirst s)"
    and "omap_erase NOID (csessions s) = []" and "log_inv C N n s" and "chan_ok s"
    and "armed (calls s) Checkdelaymsg \<longrightarrow> \<not> armed (calls s) Cresptomsg"
  shows "ok (prover_inv C N n) (sendUpReq C E t s)"
proof -
  from sendUpReq_eq [OF assms(1-4)] obtain r cs where
    eq: "sendUpReq C E t s = Inr (s\<lparr>aggreport := r, attestcount := attestcount s + 1, macdelays := [],
      calls := cs @ calls s, csessions := omap_erase NOID (csessions s), psecond := None, pfirst := NOID,
      status := FINISHED\<rparr>)" and r: "report_ok n r" and q: "quiet C N n cs" by blast
  show ?thesis
    using assms r q quiet_call_ok [OF q]
    by (simp add: eq prover_inv_def inv_parts chan_ok_def armed_quiet [OF q] clean_quiet [OF q])
qed

lemma length_put_sentinel:
  assumes "omap_wf m" and "m \<noteq> [] \<longrightarrow> map_of m k \<noteq> None"
  shows "length (omap_put k v m) = max 1 (length m)"
proof (cases "m = []")
  case False
  with assms have "length (omap_put k v m) = length m" by (intro omap.size_put_old) auto
  with False show ?thesis by (cases m) auto
qed simp

lemma omap_put_nonempty [simp]: "omap_put k v m \<noteq> []"
  by (cases "(k, v, m)" rule: omap_put.cases) auto

lemma sendCommitReq_inv:
  assumes st: "static_inv C N n s" and rep: "report_ok n (aggreport s)" and log: "log_inv C N n s" and ch: "chan_ok s"
    and wf: "omap_wf (csessions s)" and len: "length (csessions s) \<le> maxchildren s + 1"
    and keys: "\<forall>u x. map_of (csessions s) u = Some x \<longrightarrow> child_ok N u x"
    and pf: "pfirst s \<noteq> NOID \<longrightarrow> valid_uid N (pfirst s) \<and> psecond s \<noteq> None \<and> depth (the (psecond s)) \<noteq> 1"
    and cs: "csessions s \<noteq> [] \<longrightarrow> map_of (csessions s) NOID \<noteq> None \<and> maxchildren s \<noteq> 0"
    and stat: "status s \<noteq> ATTESTING" and chk: "\<not> armed (calls s) Checkdelaymsg"
    and ack: "pfirst s \<noteq> NOID \<longrightarrow> \<not> armed (calls s) Cacktomsg"
  shows "ok (prover_inv C N n) (sendCommitReq C E t s)"
proof (cases "maxchildren s = 0")
  case True
  with cs have "csessions s = []" by blast
  then show ?thesis
    using True st rep log ch pf chk stat
    by (simp add: sendCommitReq_def Let_def)
       (rule sendUpReq_inv; simp add: log_inv_def chan_ok_def)
next
  case False
  have src: "valid_uid N (UId s)" using st by (simp add: static_inv_def)
  have len': "length (omap_put NOID x (csessions s)) \<le> maxchildren s + 1" for x
    using length_put_sentinel [OF wf, of NOID x] cs len False by auto
  obtain sess where "pfirst s \<noteq> NOID \<longrightarrow> psecond s = Some sess \<and> depth sess \<noteq> 1"
    using pf by (cases "psecond s") auto
  then show ?thesis
    using False st rep log ch pf stat chk ack src omap_wf_put [OF wf] len' keys
    by (cases "pfirst s = NOID")
       (auto simp: sendCommitReq_def Let_def prover_inv_def inv_parts chan_ok_def call_defs timer_msg_def
          sched_ok_def outgoing_def mk_timer_def child_ok_def session0_def)
qed

text \<open>Calls and updates that leave the invariant alone.\<close>

lemma prover_inv_call: "timerless c \<Longrightarrow> call_ok C N n c \<Longrightarrow> prover_inv C N n (emit_call c s) = prover_inv C N n s"
  by (simp add: prover_inv_def inv_parts chan_ok_call armed_timerless mk_timer_def)

lemma prover_inv_log [simp]:
  "prover_inv C N n (deleteMsg m s) = prover_inv C N n s"
  "prover_inv C N n (logError x s) = prover_inv C N n s"
  "prover_inv C N n (logWarn x s) = prover_inv C N n s"
  "prover_inv C N n (emit_call (Emit sg v) s) = prover_inv C N n s"
  by (simp_all add: deleteMsg_def logError_def logWarn_def prover_inv_call timerless_def)

lemma prover_inv_quiet:
  assumes "prover_inv C N n s" and "quiet C N n cs" and "e = None \<longleftrightarrow> energy s = None"
  shows "prover_inv C N n (s\<lparr>energy := e, macdelays := d, calls := cs @ calls s\<rparr>)"
  using assms quiet_call_ok [OF assms(2)]
  by (auto simp: prover_inv_def inv_parts static_inv_def chan_ok_def armed_quiet [OF assms(2)]
      clean_quiet [OF assms(2)] mk_timer_def)

lemma prover_inv_macdelays [simp]: "prover_inv C N n (s\<lparr>macdelays := d\<rparr>) = prover_inv C N n s"
  by (simp add: prover_inv_def inv_parts chan_ok_def)

text \<open>Receiving keeps the invariant and everything the protocol reads.\<close>

definition same_protocol :: "aprover \<Rightarrow> aprover \<Rightarrow> bool" where
  "same_protocol s s' \<longleftrightarrow> pfirst s' = pfirst s \<and> psecond s' = psecond s \<and> csessions s' = csessions s \<and>
     status s' = status s \<and> KeyRing s' = KeyRing s \<and> UId s' = UId s \<and> maxchildren s' = maxchildren s \<and>
     (\<forall>i. i \<noteq> Newmsg \<longrightarrow> armed (calls s') i = armed (calls s) i)"

lemma receive_inv:
  assumes "prover_inv C N n s"
  shows "ok (\<lambda>s'. prover_inv C N n s' \<and> same_protocol s s') (receive C E msg s)"
proof -
  from receive_ok [of C E msg s N n] obtain e cs where
    "receive C E msg s = Inr (s\<lparr>energy := e, calls := cs @ calls s\<rparr>)"
    and e: "e = None \<longleftrightarrow> energy s = None" and q: "quiet C N n cs" by (elim exE conjE)
  moreover from prover_inv_quiet [OF assms q e, of "macdelays s"]
  have "prover_inv C N n (s\<lparr>energy := e, calls := cs @ calls s\<rparr>)" by simp
  ultimately show ?thesis by (simp add: same_protocol_def armed_quiet [OF q])
qed


section \<open>The handlers\<close>

lemma sendCommitResp_inv:
  assumes inv: "prover_inv C N n s" and stat: "status s = READY" and tgt: "valid_uid N target"
  shows "ok (prover_inv C N n) (sendCommitResp C E target t
    (s\<lparr>pfirst := target, psecond := Some (mkSession t target k dep False)\<rparr>))"
proof -
  define s0 where "s0 = s\<lparr>pfirst := target, psecond := Some (mkSession t target k dep False), status := ATTESTING\<rparr>"
  define msg where "msg = newmsg CMRP CRP_SIZE (CommitResp (UId s) target k t 0)"
  from inv have "static_inv C N n s0" by (simp add: s0_def prover_inv_def)
  from macTime_ok [OF this, of msg] obtain d where d: "macTime C msg s0 = Inr (d, s0\<lparr>macdelays := []\<rparr>)" ..
  have out: "outgoing N n msg"
    using inv tgt by (simp add: outgoing_def msg_def newmsg_def prover_inv_def static_inv_def)
  have r: "sendCommitResp C E target t (s\<lparr>pfirst := target, psecond := Some (mkSession t target k dep False)\<rparr>) =
      Inr (scheduleAt (simTime E + TIMEOUT_ACK (SCENARIO C)) (timer_msg CMAKTO Cacktomsg (CommitTimeOut target t))
        (scheduleMac C E d msg (s0\<lparr>macdelays := []\<rparr>)))"
    using d by (simp add: sendCommitResp_def s0_def msg_def mkSession_def generateMAC_def)
  have "csessions s = []" "\<not> armed (calls s) Cresptomsg" "\<not> armed (calls s) Checkdelaymsg"
    using inv stat by (auto simp: prover_inv_def session_inv_def timer_inv_def)
  then show ?thesis
    using inv tgt out
    by (auto simp: r s0_def prover_inv_def inv_parts chan_ok_def call_defs scheduleMac_def timer_msg_def
        newmsg_def msg_def sched_ok_def mk_timer_def valid_uid_def)
qed

lemma handleCommitReq_inv:
  assumes inv: "prover_inv C N n s" and pkt: "mpacket msg = CommitReq src dep kids t" and src: "valid_uid N src"
  shows "ok (prover_inv C N n) (handleCommitReq C E msg s)"
proof (cases "status s = READY")
  case True
  from receive_inv [OF inv, of E msg] obtain s1 where
    s1: "receive C E msg s = Inr s1" "prover_inv C N n s1" "same_protocol s s1" by (elim okE) auto
  from s1(3) True have "status s1 = READY" by (simp add: same_protocol_def)
  with s1 True pkt src show ?thesis
    using sendCommitResp_inv [OF s1(2) _ src]
    by (auto simp: handleCommitReq_def split: option.split elim!: ok_mono)
qed (use inv pkt in \<open>simp add: handleCommitReq_def\<close>)

lemma handleCommitAck_inv:
  assumes inv: "prover_inv C N n s0" and pkt: "mpacket msg = CommitAck src dst t mac" and src: "valid_uid N src"
    and kernel: "isScheduled E = armed"
  shows "ok (prover_inv C N n) (handleCommitAck C E msg s0)"
proof -
  from receive_inv [OF inv, of E msg] obtain s where
    r: "receive C E msg s0 = Inr s" and s: "prover_inv C N n s" by (elim okE) auto
  show ?thesis
  proof (cases "pfirst s = src \<and> dst = UId s")
    case False
    with r s pkt show ?thesis by (auto simp: handleCommitAck_def)
  next
    case True
    with src have pf: "pfirst s \<noteq> NOID" by (simp add: valid_uid_def)
    with s obtain sess where sess: "psecond s = Some sess"
      by (auto simp: prover_inv_def session_inv_def)
    from s have "static_inv C N n s" by (simp add: prover_inv_def)
    from checkMAC_ok [OF this, of msg] obtain d where
      d: "checkMAC C msg s = Inr (pmac (mpacket msg) = 0, s\<lparr>macdelays := d\<rparr>)" ..
    define cs where "cs = (if armed (calls s) Cacktomsg then [CancelEvent Cacktomsg] else []) @
      (if armed (calls s) Mktreetimer then [CancelEvent Mktreetimer] else [])"
    define s4 where "s4 = s\<lparr>macdelays := d, calls := cs @ calls s, psecond := Some (sess\<lparr>valid := True\<rparr>)\<rparr>"
    have armed4: "armed (calls s4) i \<Longrightarrow> armed (calls s) i" "\<not> armed (calls s4) Cacktomsg" for i
      by (auto simp: s4_def cs_def split: if_splits)
    have base: "static_inv C N n s4" "report_ok n (aggreport s4)" "log_inv C N n s4" "chan_ok s4"
      "\<not> armed (calls s4) Checkdelaymsg"
      using s pf by (auto simp: s4_def cs_def prover_inv_def inv_parts chan_ok_def)
    have next4: "ok (prover_inv C N n) (if depth sess = 1 \<or> maxchildren s4 = 0
        then sendUpReq C E t (s4\<lparr>status := FINISHED\<rparr>) else sendCommitReq C E t (s4\<lparr>status := CREATING\<rparr>))"
    proof (cases "depth sess = 1 \<or> maxchildren s4 = 0")
      case True
      with s pf sess have "csessions s4 = []" by (auto simp: s4_def prover_inv_def session_inv_def)
      with True base s pf show ?thesis
        by (simp, intro sendUpReq_inv) (auto simp: s4_def prover_inv_def inv_parts chan_ok_def)
    next
      case False
      with base s pf sess armed4 show ?thesis
        by (simp, intro sendCommitReq_inv) (auto simp: s4_def prover_inv_def inv_parts chan_ok_def)
    qed
    have "handleCommitAck C E msg s0 =
      (if map_of (KeyRing s) (keyID sess) = None then
         Inr (deleteMsg msg (logError ''handleCommitAck: I dont have this key!!!'' s))
       else if pmac (mpacket msg) \<noteq> 0 then
         Inr (deleteMsg msg (logError ''handleCommitAck: Invalid MAC!!!'' (s\<lparr>macdelays := d\<rparr>)))
       else rbind (if depth sess = 1 \<or> maxchildren s4 = 0
          then sendUpReq C E t (s4\<lparr>status := FINISHED\<rparr>) else sendCommitReq C E t (s4\<lparr>status := CREATING\<rparr>))
          (\<lambda>s5. Inr (deleteMsg msg s5)))"
      using r True sess d pkt kernel
      by (simp add: handleCommitAck_def Let_def cancelEvent_def emit_call_def s4_def cs_def)
    with next4 s show ?thesis by simp
  qed
qed

lemma handleCommitAckTimeOut_inv:
  assumes inv: "prover_inv C N n s" and pkt: "mpacket msg = CommitTimeOut dev t" and dev: "dev \<noteq> NOID"
    and fresh: "pfirst s \<noteq> NOID \<longrightarrow> csessions s = [] \<and> \<not> armed (calls s) Cresptomsg"
  shows "ok (prover_inv C N n) (handleCommitAckTimeOut C E msg s)"
proof (cases "dev = pfirst s")
  case True
  with dev fresh have e: "csessions s = []" "\<not> armed (calls s) Cresptomsg" "pfirst s \<noteq> NOID" by auto
  with inv have c: "\<not> armed (calls s) Checkdelaymsg" by (auto simp: prover_inv_def timer_inv_def)
  show ?thesis
  proof (cases "status s = ATTESTING_CREATING")
    case att: True
    have "ok (prover_inv C N n) (sendCommitReq C E NOID (s\<lparr>psecond := None, pfirst := NOID, status := CREATING\<rparr>))"
      using inv e c by (intro sendCommitReq_inv) (auto simp: prover_inv_def inv_parts chan_ok_def)
    with True att pkt show ?thesis by (simp add: handleCommitAckTimeOut_def)
  next
    case False
    with inv e c True pkt show ?thesis
      by (auto simp: handleCommitAckTimeOut_def prover_inv_def inv_parts chan_ok_def)
  qed
qed (use inv pkt in \<open>simp add: handleCommitAckTimeOut_def\<close>)

lemma handleCommitRespTimeOut_inv:
  assumes inv: "prover_inv C N n s" and pkt: "is_CommitTimeOut (mpacket msg)"
    and "status s \<noteq> ATTESTING" and cresp: "\<not> armed (calls s) Cresptomsg"
  shows "ok (prover_inv C N n) (handleCommitRespTimeOut C E msg s)"
proof (cases "length (csessions s) = 1")
  case True
  from pkt obtain dev t where p: "mpacket msg = CommitTimeOut dev t" by (cases "mpacket msg") auto
  from True inv have "omap_erase NOID (csessions s) = []"
    by (cases "csessions s") (auto simp: prover_inv_def session_inv_def split: if_splits)
  with True inv cresp have "ok (prover_inv C N n) (sendUpReq C E t (s\<lparr>status := COLLECTING\<rparr>))"
    by (intro sendUpReq_inv) (auto simp: prover_inv_def inv_parts chan_ok_def)
  with True p show ?thesis by (simp add: handleCommitRespTimeOut_def)
next
  case False
  with inv assms(3) show ?thesis
    by (auto simp: handleCommitRespTimeOut_def prover_inv_def inv_parts chan_ok_def)
qed

text \<open>Closing the session of a child.\<close>

lemma length_omap_erase_le: "length (omap_erase k m) \<le> length m"
  by (induction k m rule: omap_erase.induct) auto

lemma erase_child_inv:
  assumes inv: "prover_inv C N n s" and "uid \<noteq> NOID"
  shows "prover_inv C N n (s\<lparr>csessions := omap_erase uid (csessions s)\<rparr>)"
    and "length (omap_erase uid (csessions s)) = 1 \<Longrightarrow>
      omap_erase NOID (omap_erase uid (csessions s)) = [] \<and> psecond s \<noteq> None"
proof -
  let ?cs = "omap_erase uid (csessions s)"
  have wf: "omap_wf (csessions s)" using inv by (simp add: prover_inv_def session_inv_def)
  have find: "map_of ?cs = (map_of (csessions s))(uid := None)" by (rule omap.find_erase [OF wf])
  have nil: "?cs = [] \<longleftrightarrow> csessions s = []"
  proof
    assume "?cs = []"
    with find assms(2) have "map_of (csessions s) NOID = None" by (metis fun_upd_other map_of.simps(1))
    with inv show "csessions s = []" by (auto simp: prover_inv_def session_inv_def)
  qed simp
  show inv1: "prover_inv C N n (s\<lparr>csessions := ?cs\<rparr>)"
    using inv find length_omap_erase_le [of uid "csessions s"] nil omap_wf_erase [OF wf] assms(2)
    by (auto simp: prover_inv_def inv_parts chan_ok_def)
  assume "length ?cs = 1"
  then obtain k v where "?cs = [(k, v)]" by (cases ?cs) auto
  with inv1 show "omap_erase NOID ?cs = [] \<and> psecond s \<noteq> None"
    by (auto simp: prover_inv_def session_inv_def split: if_splits)
qed

lemma sendUpReq_last:
  assumes inv: "prover_inv C N n s" and "uid \<noteq> NOID" and "length (omap_erase uid (csessions s)) = 1"
  shows "ok (prover_inv C N n) (sendUpReq C E t (s\<lparr>csessions := omap_erase uid (csessions s), status := x\<rparr>))"
  using erase_child_inv [OF assms(1,2)] assms
  by (intro sendUpReq_inv) (auto simp: prover_inv_def inv_parts chan_ok_def)

lemma handleUpdateTimeOut_inv:
  assumes inv: "prover_inv C N n s" and pkt: "mpacket msg = CommitTimeOut uid t" and uid: "uid \<noteq> NOID"
  shows "ok (prover_inv C N n) (handleUpdateTimeOut C E msg s)"
proof -
  let ?s = "logWarn ''handleUpdateTimeOut: update session of prover timed out'' s"
  from inv have "prover_inv C N n ?s" by simp
  from erase_child_inv(1) [OF this uid] sendUpReq_last [OF this uid, of E t FINISHED] pkt show ?thesis
    by (simp add: handleUpdateTimeOut_def Let_def)
qed

lemma closeChild_inv:
  assumes inv: "prover_inv C N n s" and uid: "uid \<noteq> NOID" and to: "child_ok N uid sess"
  shows "ok (prover_inv C N n) (closeChild C E uid t sess s)"
proof -
  define s1 where "s1 = (case tomsg sess of
    Some i \<Rightarrow> if isScheduled E (calls s) i then emit_call (CancelAndDelete i) s else s | None \<Rightarrow> s)"
  have "prover_inv C N n (emit_call (CancelAndDelete (Uptomsg u v)) s)" for u v
    using inv by (auto simp: prover_inv_def inv_parts chan_ok_def mk_timer_def)
  then have s1: "prover_inv C N n s1"
    using inv to by (auto simp: s1_def child_ok_def split: option.split)
  let ?s2 = "s1\<lparr>csessions := omap_erase uid (csessions s1)\<rparr>"
  have gat: "prover_inv C N n (a\<lparr>gatsz := g\<rparr>) = prover_inv C N n a" for a g
    by (simp add: prover_inv_def inv_parts chan_ok_def)
  from s1 have s1': "prover_inv C N n (s1\<lparr>gatsz := gatsz s1 - 1\<rparr>)" by (simp add: gat)
  have "ok (prover_inv C N n) (sendUpReq C E t ?s2)" if "length (csessions ?s2) = 1"
    using sendUpReq_last [OF s1 uid, of E t "status s1"] that by simp
  moreover have "ok (prover_inv C N n) (sendUpReq C E t (?s2\<lparr>gatsz := gatsz s1 - 1\<rparr>))" if "length (csessions ?s2) = 1"
  proof -
    have eq: "?s2\<lparr>gatsz := gatsz s1 - 1\<rparr> = s1\<lparr>gatsz := gatsz s1 - 1, csessions := omap_erase uid (csessions s1)\<rparr>"
      by (rule aprover.equality) simp_all
    show ?thesis unfolding eq using sendUpReq_last [OF s1' uid, of E t "status s1"] that by simp
  qed
  ultimately show ?thesis
    using erase_child_inv(1) [OF s1 uid]
    by (auto simp: closeChild_def s1_def [symmetric] Let_def gat)
qed

text \<open>Sending keeps the invariant.\<close>

lemma core_eqD:
  assumes "core s' = core (s :: aprover)"
  shows "status s' = status s" "maxchildren s' = maxchildren s" "device s' = device s" "aggsize s' = aggsize s"
    "UId s' = UId s" "pfirst s' = pfirst s" "psecond s' = psecond s" "csessions s' = csessions s"
    "aggreport s' = aggreport s" "KeyRing s' = KeyRing s" "procstat s' = procstat s" "crashed s' = crashed s"
  using arg_cong [OF assms, of status] arg_cong [OF assms, of maxchildren] arg_cong [OF assms, of device]
    arg_cong [OF assms, of aggsize] arg_cong [OF assms, of UId] arg_cong [OF assms, of pfirst]
    arg_cong [OF assms, of psecond] arg_cong [OF assms, of csessions] arg_cong [OF assms, of aggreport]
    arg_cong [OF assms, of KeyRing] arg_cong [OF assms, of procstat] arg_cong [OF assms, of crashed]
  by (simp_all add: core_def)

lemma io_call_ok: "queued_ok N n msg \<Longrightarrow> io_call msg c \<Longrightarrow> call_ok C N n c"
  by (cases c) (auto simp: queued_ok_def sched_ok_def timer_defs)

lemma send_inv:
  assumes inv: "prover_inv C N n s" and send: "send_ok msg s s'" and msg: "queued_ok N n msg"
  shows "prover_inv C N n s'"
proof -
  from send have io: "core s' = core s" "msgqueue s' \<in> {msgqueue s, msgqueue s @ [msg]}"
    "pupmsg s' \<in> {None, pupmsg s, Some msg}" "energy s' = None \<longleftrightarrow> energy s = None"
    "\<forall>i. i \<notin> io_timers \<longrightarrow> armed (calls s') i = armed (calls s) i"
    "\<forall>c \<in> set (calls s'). c \<in> set (calls s) \<or> io_call msg c" "chan_ok s \<longrightarrow> chan_ok s'"
    by (auto simp: send_ok_def io_step_def)
  have "list_all (call_ok C N n) (calls s')"
    using inv io(6) io_call_ok [OF msg] by (auto simp: prover_inv_def log_inv_def list_all_iff)
  have "armed (calls s') i = armed (calls s) i" if "i \<in> {Cacktomsg, Cresptomsg, Checkdelaymsg, mk_timer C}" for i
    using io(5) that by (auto simp: io_timers_def mk_timer_def split: if_splits)
  note eqs = core_eqD [OF io(1)] this
  have "timer_inv C s'"
    using inv by (simp add: prover_inv_def timer_inv_def eqs)
  moreover have "list_all (queued_ok N n) (msgqueue s')"
    using inv io(2) msg by (auto simp: prover_inv_def log_inv_def)
  moreover have "case pupmsg s' of None \<Rightarrow> True | Some m \<Rightarrow> queued_ok N n m"
    using inv io(3) msg by (auto simp: prover_inv_def log_inv_def)
  moreover have "static_inv C N n s'" "session_inv N n s'"
    using inv io(4) by (simp_all add: prover_inv_def static_inv_def session_inv_def eqs)
  ultimately show ?thesis
    using inv io(7) \<open>list_all (call_ok C N n) (calls s')\<close> by (simp add: prover_inv_def log_inv_def)
qed

lemma sendCollector_inv:
  assumes inv: "prover_inv C N n s" and msg: "queued_ok N n msg" "is_UpdateReq (mpacket msg)" "pdest (mpacket msg) = baseID"
    and "0 < numCollectors E"
  shows "ok (prover_inv C N n) (sendCollector C E is_UpdateReq msg s)"
proof -
  have "proverIndex baseID = 0" by (simp add: proverIndex_def)
  with inv msg assms(5) have "ok (send_ok msg s) (sendCollector C E is_UpdateReq msg s)"
    by (intro sendCollector_ok) (auto simp: prover_inv_def static_inv_def)
  then show ?thesis by (rule ok_mono) (rule send_inv [OF inv _ msg(1)])
qed

lemma prover_inv_report:
  "prover_inv C N n s \<Longrightarrow> report_ok n r \<Longrightarrow> prover_inv C N n (s\<lparr>aggreport := r\<rparr>)"
  by (simp add: prover_inv_def inv_parts chan_ok_def)

lemma acceptReport_inv:
  assumes inv: "prover_inv C N n s" and p: "mpacket msg = UpdateReq src dst us cs t mac ps"
    and w: "wire_ok n us cs ps" and src: "valid_uid N src"
  shows "ok (prover_inv C N n) (acceptReport C E msg s)"
proof (cases "map_of (csessions s) src")
  case (Some sess)
  with inv obtain psess where psess: "psecond s = Some psess" by (auto simp: prover_inv_def session_inv_def)
  have st: "static_inv C N n s" and n: "0 < n" "aggsize s = n" "report_ok n (aggreport s)"
    and c: "child_ok N src sess"
    using inv Some by (auto simp: prover_inv_def static_inv_def session_inv_def)
  from checkMAC_ok [OF st, of msg] obtain d where
    d: "checkMAC C msg s = Inr (pmac (mpacket msg) = 0, s\<lparr>macdelays := d\<rparr>)" ..
  from mergeReport_ok [OF n(3) w n(1)] obtain r where
    r: "mergeReport n us cs ps (aggreport s) = Inr r" "report_ok n r" by blast
  from inv r(2) have "prover_inv C N n (s\<lparr>macdelays := d, aggreport := r\<rparr>)" by (simp add: prover_inv_report)
  from closeChild_inv [OF this _ c] src have
    "ok (prover_inv C N n) (closeChild C E src t sess (s\<lparr>macdelays := d, aggreport := r\<rparr>))"
    by (simp add: valid_uid_def)
  with Some psess p d r n(2) inv show ?thesis by (auto simp: acceptReport_def)
qed (use p inv in \<open>simp add: acceptReport_def\<close>)

lemma handleUpReq_inv:
  assumes inv: "prover_inv C N n s" and out: "outgoing N n msg" and pkt: "is_UpdateReq (mpacket msg)"
    and col: "0 < numCollectors E"
  shows "ok (prover_inv C N n) (handleUpReq C E msg s)"
proof (cases "mkind msg = UPRQF")
  case True
  with out pkt have "queued_ok N n msg" "pdest (mpacket msg) = baseID"
    by (auto simp: queued_ok_def outgoing_def split: packet.splits)
  with True inv pkt col show ?thesis
    using sendCollector_inv by (simp add: handleUpReq_def)
next
  case False
  obtain src dst us cs t mac ps where p: "mpacket msg = UpdateReq src dst us cs t mac ps"
    using pkt by (cases "mpacket msg") auto
  with out have w: "wire_ok n us cs ps" and src: "valid_uid N src" by (auto simp: outgoing_def)
  let ?fwd = "msg\<lparr>mkind := UPRQF, mpacket := UpdateReq src findClosestCollector us cs t mac ps\<rparr>"
  have fwd: "queued_ok N n ?fwd" "is_UpdateReq (mpacket ?fwd)" "pdest (mpacket ?fwd) = baseID"
    using w src by (simp_all add: queued_ok_def outgoing_def findClosestCollector_def)
  from receive_inv [OF inv, of E msg] obtain a where
    a: "receive C E msg s = Inr a" "prover_inv C N n a" by (elim okE) auto
  then show ?thesis
    using False p inv acceptReport_inv [OF a(2) p w src, of E]
      sendCollector_inv [OF _ fwd col, of C "logWarn ''handleUpReq: session of child is already timedout!!! '' a"]
    by (simp add: handleUpReq_def)
qed

lemma scheduleMac_eq: "scheduleMac C E d msg s = s\<lparr>calls := (ScheduleAt (simTime E + d) msg #
    (if ENERGY_TEST C then [ScheduleAt (simTime E + d) (newmsg ENMAC 0 NoPacket)] else [])) @ calls s\<rparr>"
  by (simp add: scheduleMac_def call_defs)

lemma sendCommitAck_eq:
  assumes st: "static_inv C N n s" and sess: "map_of (csessions s) target = Some sess" and ps: "psecond s \<noteq> None"
    and tgt: "valid_uid N target"
  shows "\<exists>m cs. sendCommitAck C E target t s = Inr (s\<lparr>macdelays := [], csessions := m, calls := cs @ calls s\<rparr>) \<and>
    m \<in> {csessions s, omap_put target (sess\<lparr>tomsg := Some (Uptomsg target t)\<rparr>) (csessions s)} \<and>
    list_all (call_ok C N n) cs \<and> list_all (\<lambda>c. timerless c \<or> (\<exists>x y. c = ScheduleAt x y \<and> mid y = Uptomsg target t)) cs"
proof -
  obtain psess where psess: "psecond s = Some psess" using ps by blast
  define msg where "msg = newmsg CMAK CAK_SIZE (CommitAck (UId s) target t 0)"
  from macTime_ok [OF st, of msg] obtain d where d: "macTime C msg s = Inr (d, s\<lparr>macdelays := []\<rparr>)" ..
  let ?mac = "ScheduleAt (simTime E + d) msg #
    (if ENERGY_TEST C then [ScheduleAt (simTime E + d) (newmsg ENMAC 0 NoPacket)] else [])"
  let ?up = "\<lambda>x. ScheduleAt x (timer_msg UPTO (Uptomsg target t) (CommitTimeOut target t))"
  have "outgoing N n msg" using st tgt by (simp add: outgoing_def msg_def newmsg_def static_inv_def)
  then have mac: "list_all (call_ok C N n) ?mac" "list_all timerless ?mac"
    by (simp_all add: sched_ok_def msg_def newmsg_def timerless_def)
  have up: "call_ok C N n (?up x)" for x
    using tgt by (simp add: sched_ok_def timer_msg_def valid_uid_def)
  show ?thesis
  proof (cases "WIRELESS C")
    case True
    define x where "x = simTime E + ((TIMEOUT_ACK (SCENARIO C) + TIMEOUT_RSP (SCENARIO C)) *
      real (unat (depth psess - 1)) + TIMEOUT_UP (SCENARIO C))"
    from True have "sendCommitAck C E target t s = Inr (s\<lparr>macdelays := [],
        csessions := omap_put target (sess\<lparr>tomsg := Some (Uptomsg target t)\<rparr>) (csessions s), calls := (?up x # ?mac) @ calls s\<rparr>)"
      using sess psess d
      by (simp add: sendCommitAck_def generateMAC_def msg_def [symmetric] scheduleMac_eq x_def)
         (simp add: call_defs)
    moreover have "list_all (call_ok C N n) (?up x # ?mac)"
      "list_all (\<lambda>c. timerless c \<or> (\<exists>x y. c = ScheduleAt x y \<and> mid y = Uptomsg target t)) (?up x # ?mac)"
      using mac up [of x] by (auto simp: timer_msg_def)
    ultimately show ?thesis by blast
  next
    case False
    then have "sendCommitAck C E target t s = Inr (s\<lparr>macdelays := [], csessions := csessions s, calls := ?mac @ calls s\<rparr>)"
      using sess d
      by (simp add: sendCommitAck_def Let_def generateMAC_def msg_def [symmetric] scheduleMac_eq)
    moreover have "list_all (\<lambda>c. timerless c \<or> (\<exists>x y. c = ScheduleAt x y \<and> mid y = Uptomsg target t)) ?mac"
      using mac(2) by (auto simp: list_all_iff)
    ultimately show ?thesis using mac(1) by blast
  qed
qed

lemma armed_upto:
  "list_all (\<lambda>c. timerless c \<or> (\<exists>x y. c = ScheduleAt x y \<and> mid y = Uptomsg u t)) cs \<Longrightarrow>
    i \<noteq> Newmsg \<Longrightarrow> i \<noteq> Uptomsg u t \<Longrightarrow> armed (cs @ ds) i = armed ds i \<and> clean_of i (cs @ ds) = clean_of i ds"
proof (induction cs)
  case (Cons c cs)
  then show ?case by (auto simp: armed_timerless clean_timerless)
qed simp

lemma handleCommitResp_inv:
  assumes inv: "prover_inv C N n s0" and pkt: "mpacket msg = CommitResp src dst kid t mac" and src: "valid_uid N src"
  shows "ok (prover_inv C N n) (handleCommitResp C E msg s0)"
proof (cases "status s0 = CREATING \<and> length (csessions s0) - 1 < maxchildren s0")
  case False
  with inv pkt show ?thesis by (auto simp: handleCommitResp_def)
next
  case True
  from receive_inv [OF inv, of E msg] obtain s where
    r: "receive C E msg s0 = Inr s" "prover_inv C N n s" "same_protocol s0 s" by (elim okE) auto
  with True have stat: "status s = CREATING" "length (csessions s) - 1 < maxchildren s" "csessions s \<noteq> []"
    "csessions s0 \<noteq> []"
    by (auto simp: same_protocol_def prover_inv_def session_inv_def)
  have st: "static_inv C N n s" using r(2) by (simp add: prover_inv_def)
  from checkMAC_ok [OF st, of msg] obtain d where
    d: "checkMAC C msg s = Inr (pmac (mpacket msg) = 0, s\<lparr>macdelays := d\<rparr>)" ..
  define m where "m = omap_put src (mkSession t src kid 0 True) (csessions s)"
  let ?s2 = "s\<lparr>macdelays := d, csessions := m\<rparr>"
  have acc: "ok (prover_inv C N n) (rbind (sendCommitAck C E src t ?s2) (\<lambda>s3.
      Inr (deleteMsg msg (if length (csessions s3) = maxchildren s3 + 1
        then cancelEvent Cresptomsg (s3\<lparr>status := COLLECTING\<rparr>) else s3))))"
    if new: "map_of (csessions s) src = None"
  proof -
    have wf: "omap_wf (csessions s)" and ps: "psecond s \<noteq> None"
      using r(2) stat by (auto simp: prover_inv_def session_inv_def)
    have m: "omap_wf m" "length m = Suc (length (csessions s))" "map_of m = (map_of (csessions s))(src \<mapsto> mkSession t src kid 0 True)"
      using omap.size_put_new [OF wf new] omap_wf_put [OF wf] by (auto simp: m_def)
    have "static_inv C N n ?s2" "map_of (csessions ?s2) src = Some (mkSession t src kid 0 True)" "psecond ?s2 \<noteq> None"
      using st m(3) ps by simp_all
    from sendCommitAck_eq [OF this src, of E t] obtain m' cs where
      eq: "sendCommitAck C E src t ?s2 = Inr (?s2\<lparr>macdelays := [], csessions := m', calls := cs @ calls ?s2\<rparr>)"
      and "m' \<in> {csessions ?s2, omap_put src ((mkSession t src kid 0 True)\<lparr>tomsg := Some (Uptomsg src t)\<rparr>) (csessions ?s2)}"
      and cs: "list_all (call_ok C N n) cs"
        "list_all (\<lambda>c. timerless c \<or> (\<exists>x y. c = ScheduleAt x y \<and> mid y = Uptomsg src t)) cs"
      by (elim exE conjE)
    then have m': "m' \<in> {m, omap_put src ((mkSession t src kid 0 True)\<lparr>tomsg := Some (Uptomsg src t)\<rparr>) m}" by simp
    have len: "length m' = Suc (length (csessions s))" "omap_wf m'"
      using m' m omap.size_put_old [OF m(1), of src] omap_wf_put [OF m(1)] by auto
    have old: "map_of (csessions s) u = Some x \<Longrightarrow> child_ok N u x" for u x
      using r(2) by (simp add: prover_inv_def session_inv_def)
    have "child_ok N src (mkSession t src kid 0 True)"
      "child_ok N src ((mkSession t src kid 0 True)\<lparr>tomsg := Some (Uptomsg src t)\<rparr>)"
      using src by (simp_all add: child_ok_def mkSession_def)
    then have keys: "map_of m' u = Some x \<Longrightarrow> child_ok N u x" for u x
      using m' m(3) old by (auto split: if_splits)
    have noid: "map_of m' NOID \<noteq> None" "m' \<noteq> []"
    proof -
      have "map_of (csessions s) NOID \<noteq> None" using r(2) stat by (simp add: prover_inv_def session_inv_def)
      with m' m(3) show "map_of m' NOID \<noteq> None" by (auto split: if_splits)
      then show "m' \<noteq> []" by auto
    qed
    note arm = armed_upto [OF cs(2)]
    have "prover_inv C N n (s\<lparr>macdelays := [], csessions := m', calls := cs @ calls s\<rparr>)"
      "prover_inv C N n (cancelEvent Cresptomsg (s\<lparr>macdelays := [], csessions := m', calls := cs @ calls s, status := COLLECTING\<rparr>))"
      using r(2) stat len keys noid cs(1)
      by (auto simp: prover_inv_def inv_parts chan_ok_def arm mk_timer_def cancelEvent_def)
    then show ?thesis by (simp add: eq)
  qed
  show ?thesis
    using r True stat d pkt acc
    by (auto simp: handleCommitResp_def Let_def m_def)
qed

section \<open>Period, join and revocation\<close>

lemma energyShare_ok: "energy s \<noteq> None \<Longrightarrow> \<exists>p e. energyShare E s = Inr (p, s\<lparr>energy := Some e\<rparr>)"
  by (auto simp: energyShare_def)

lemma updateMaxChildren_ok:
  "energy s \<noteq> None \<Longrightarrow> \<exists>m e. updateMaxChildren E s = Inr (s\<lparr>energy := Some e, maxchildren := m\<rparr>)"
proof (cases "selfish s")
  case True
  moreover assume "energy s \<noteq> None"
  then obtain e where "energy s = Some e" by blast
  then have "s\<lparr>maxchildren := 0\<rparr> = s\<lparr>energy := Some e, maxchildren := 0\<rparr>" by simp
  ultimately show ?thesis by (auto simp: updateMaxChildren_def)
next
  case False
  moreover assume "energy s \<noteq> None"
  from energyShare_ok [OF this, of E] obtain p e where "energyShare E s = Inr (p, s\<lparr>energy := Some e\<rparr>)" by blast
  ultimately show ?thesis by (auto simp: updateMaxChildren_def Let_def)
qed

lemma chooseTreeDelay_ok:
  "energy s \<noteq> None \<Longrightarrow> \<exists>d e. chooseTreeDelay E s = Inr (d, s\<lparr>energy := Some e\<rparr>)"
proof (cases "selfish s")
  case True
  moreover assume "energy s \<noteq> None"
  then obtain e where "energy s = Some e" by blast
  then have "s = s\<lparr>energy := Some e\<rparr>" by simp
  ultimately show ?thesis by (auto simp: chooseTreeDelay_def)
next
  case False
  moreover assume "energy s \<noteq> None"
  from energyShare_ok [OF this, of E] obtain p e where "energyShare E s = Inr (p, s\<lparr>energy := Some e\<rparr>)" by blast
  ultimately show ?thesis by (auto simp: chooseTreeDelay_def Let_def)
qed

text \<open>The state after a new period was entered, up to the battery and the number of children.\<close>

definition cleared :: "energy_storage option \<Rightarrow> nat \<Rightarrow> 64 word \<Rightarrow> call list \<Rightarrow> aprover \<Rightarrow> aprover" where
  "cleared e m g cs s = (clearPeriod s)\<lparr>energy := e, maxchildren := m, gatsz := g, calls := cs\<rparr>"

lemma cleared_upd [simp]:
  "(cleared e m g cs s)\<lparr>energy := e'\<rparr> = cleared e' m g cs s"
  "(cleared e m g cs s)\<lparr>maxchildren := m'\<rparr> = cleared e m' g cs s"
  "(cleared e m g cs s)\<lparr>gatsz := g'\<rparr> = cleared e m g' cs s"
  "scheduleAt t msg (cleared e m g cs s) = cleared e m g (ScheduleAt t msg # cs) s"
  "energy (cleared e m g cs s) = e" "calls (cleared e m g cs s) = cs"
  by (simp_all add: cleared_def scheduleAt_def emit_call_def)

lemma cleared_eq [simp]: "cleared e m g cs s = cleared e' m g cs s \<longleftrightarrow> e = e'"
  by (metis cleared_upd(5))

lemma cleared_inv:
  assumes inv: "prover_inv C N n s" and e: "e = None \<longleftrightarrow> energy s = None"
    and cs: "list_all (call_ok C N n) cs" and cresp: "\<not> armed cs Cresptomsg"
    and io: "armed cs Txmsg = armed (calls s) Txmsg" "armed cs Cbusymsg = armed (calls s) Cbusymsg"
      "clean_of Txmsg cs = clean_of Txmsg (calls s)" "clean_of Cbusymsg cs = clean_of Cbusymsg (calls s)"
  shows "prover_inv C N n (cleared e m g cs s)"
proof -
  have "report_ok n ((aggreport s)\<lparr>uids := [], counters := [], proofs := []\<rparr>)"
    using inv by (auto simp: prover_inv_def static_inv_def report_ok_def wire_ok_def bounded_def)
  then show ?thesis
    using assms
    by (auto simp: cleared_def clearPeriod_def prover_inv_def static_inv_def inv_parts chan_ok_def)
qed

text \<open>The energy step of a new period: with the storage attached it always succeeds.\<close>

lemma listening_step:
  assumes en: "ENERGY_TEST C \<Longrightarrow> energy s \<noteq> None"
  shows "\<exists>e m. (if ENERGY_TEST C then
        rbind (if statadapt s then updateMaxChildren E (cleared (energy s) (maxchildren s) g cs s)
               else Inr (cleared (energy s) (maxchildren s) g cs s)) (setPower E LISTENING_CONSUMPTION)
      else Inr (cleared (energy s) (maxchildren s) g cs s)) = Inr (cleared e m g cs s) \<and>
      (e = None \<longleftrightarrow> energy s = None)"
proof (cases "ENERGY_TEST C")
  case True
  let ?c = "cleared (energy s) (maxchildren s) g cs s"
  have "\<exists>e m. (if statadapt s then updateMaxChildren E ?c else Inr ?c) = Inr (cleared (Some e) m g cs s)"
    using updateMaxChildren_ok [of ?c E] en [OF True] by (cases "statadapt s") (auto, metis)
  then obtain e m where "(if statadapt s then updateMaxChildren E ?c else Inr ?c) = Inr (cleared (Some e) m g cs s)"
    by blast
  moreover obtain e' where "setPower E LISTENING_CONSUMPTION (cleared (Some e) m g cs s) = Inr (cleared (Some e') m g cs s)"
    using setPower_ok [of "cleared (Some e) m g cs s" E LISTENING_CONSUMPTION] by auto
  ultimately show ?thesis using True en [OF True] by auto
qed auto

lemma startAttestation_inv:
  assumes inv: "prover_inv C N n s" and cresp: "\<not> armed (calls s) Cresptomsg" and comp: "compiles C"
  shows "ok (prover_inv C N n) (startAttestation C E s)"
proof -
  define w where "w = (if status s \<noteq> FINISHED \<and> status s \<noteq> JOINING then [LogWarn ''Device didn't attest last deltah!!!''] else [])"
  let ?c = "\<lambda>e m g cs. cleared e m g (cs @ w @ calls s) s"
  have start: "clearPeriod (if status s \<noteq> FINISHED \<and> status s \<noteq> JOINING
      then logWarn ''Device didn't attest last deltah!!!'' s else s) = ?c (energy s) (maxchildren s) (gatsz s) []"
    "statadapt (if status s \<noteq> FINISHED \<and> status s \<noteq> JOINING
      then logWarn ''Device didn't attest last deltah!!!'' s else s) = statadapt s"
    by (simp_all add: w_def cleared_def clearPeriod_def logWarn_def emit_call_def)
  have en: "ENERGY_TEST C \<Longrightarrow> energy s \<noteq> None" using inv by (simp add: prover_inv_def static_inv_def)
  have keep: "deltah (?c e m g cs) = deltah s" "statadapt (?c e m g cs) = statadapt s" "deltag (?c e m g cs) = deltag s"
    "moduleIndex (?c e m g cs) = moduleIndex s" for e m g cs
    by (simp_all add: cleared_def clearPeriod_def)
  have st: "static_inv C N n (?c e m g cs)" if "e = None \<longleftrightarrow> energy s = None" for e m g cs
    using that inv by (auto simp: cleared_def clearPeriod_def prover_inv_def static_inv_def)
  have "\<exists>e m. (if ENERGY_TEST C then
        rbind (if statadapt s then updateMaxChildren E (?c (energy s) (maxchildren s) (gatsz s) [])
               else Inr (?c (energy s) (maxchildren s) (gatsz s) [])) (setPower E LISTENING_CONSUMPTION)
      else Inr (?c (energy s) (maxchildren s) (gatsz s) [])) = Inr (?c e m (gatsz s) []) \<and> (e = None \<longleftrightarrow> energy s = None)"
    by (rule listening_step) (rule en)
  then obtain e m where step1: "(if ENERGY_TEST C then
        rbind (if statadapt s then updateMaxChildren E (?c (energy s) (maxchildren s) (gatsz s) [])
               else Inr (?c (energy s) (maxchildren s) (gatsz s) [])) (setPower E LISTENING_CONSUMPTION)
      else Inr (?c (energy s) (maxchildren s) (gatsz s) [])) = Inr (?c e m (gatsz s) [])"
    and e: "e = None \<longleftrightarrow> energy s = None" by (elim exE conjE)
  define s2 where "s2 = (if TREE C then
      let g = of_nat (connectedGates (wiring E) (moduleIndex s)) in
      if g = of_nat MINGSIZE then (?c e m (gatsz s) [])\<lparr>gatsz := g, maxchildren := 0\<rparr> else (?c e m (gatsz s) [])\<lparr>gatsz := g\<rparr>
    else ?c e m (gatsz s) [])"
  have "\<exists>m2 g2. s2 = ?c e m2 g2 []"
    unfolding s2_def Let_def cleared_upd by (simp split: if_split) blast
  then obtain m2 g2 where s2: "s2 = ?c e m2 g2 []" by (elim exE)
  have fw: "checkFirmwareDelay C (?c e' m' g' cs) = checkFirmwareDelay C s" for e' m' g' cs
    by (simp add: cleared_def clearPeriod_def checkFirmwareDelay_def)
  obtain d where d: "checkFirmwareDelay C s = Inr d"
    using checkFirmwareDelay_ok inv unfolding prover_inv_def by blast
  let ?a = "ScheduleAt (simTime E + deltah s) (timer_msg ATTEST Attesttimer NoPacket)"
  let ?k = "ScheduleAt (simTime E + d) (timer_msg CHECK Checkdelaymsg NoPacket)"
  let ?m = "\<lambda>x. ScheduleAt (simTime E + d + x) (timer_msg MKTREE Mktreetimer NoPacket)"
  have wq: "list_all (call_ok C N n) w" "armed (w @ ds) i = armed ds i" "clean_of i (w @ ds) = clean_of i ds" for i ds
    by (auto simp: w_def)
  have fin: "prover_inv C N n (?c e' m2 g2 cs)"
    if "e' = None \<longleftrightarrow> energy s = None" "cs = [?k, ?a] \<or> \<not> RUNTIME_TEST C \<and> (\<exists>x. cs = [?m x, ?k, ?a])" for e' cs
    using that inv cresp wq
    by (intro cleared_inv) (auto simp: timer_msg_def sched_ok_def mk_timer_def prover_inv_def log_inv_def)
  show ?thesis
  proof (cases "RUNTIME_TEST C")
    case True
    have "startAttestation C E s = Inr (?c e m2 g2 [?k, ?a])"
      using True unfolding startAttestation_def Let_def start step1 rbind_Inr keep s2_def [symmetric, unfolded Let_def] s2
      by (simp add: keep [of _ _ _ "[]", simplified] keep [of _ _ _ "[x]" for x, simplified] fw [of _ _ _ "[x]" for x, simplified]
          keep [of _ _ _ "[x, y]" for x y, simplified] d)
    then show ?thesis using fin [OF e, of "[?k, ?a]"] by simp
  next
    case False
    with comp have "ENERGY_TEST C" by (simp add: compiles_iff)
    with en e obtain e1 where e1: "e = Some e1" by auto
    have "\<exists>x e2. (if statadapt s then chooseTreeDelay E (?c e m2 g2 [?k, ?a]) else Inr (deltag s, ?c e m2 g2 [?k, ?a])) =
        Inr (x, ?c (Some e2) m2 g2 [?k, ?a])"
      using chooseTreeDelay_ok [of "?c e m2 g2 [?k, ?a]" E] e1 by auto
    then obtain x e2 where x: "(if statadapt s then chooseTreeDelay E (?c e m2 g2 [?k, ?a]) else Inr (deltag s, ?c e m2 g2 [?k, ?a])) =
        Inr (x, ?c (Some e2) m2 g2 [?k, ?a])" by blast
    have "startAttestation C E s = Inr (?c (Some e2) m2 g2 [?m x, ?k, ?a])"
      using False x unfolding startAttestation_def Let_def start step1 rbind_Inr keep s2_def [symmetric, unfolded Let_def] s2
      by (cases "statadapt s") (simp_all add: keep [of _ _ _ "[]", simplified] keep [of _ _ _ "[x]" for x, simplified] fw [of _ _ _ "[x]" for x, simplified]
          keep [of _ _ _ "[x, y]" for x y, simplified] d)
    moreover have "Some e2 = None \<longleftrightarrow> energy s = None" using e e1 by simp
    ultimately show ?thesis using fin [of "Some e2" "[?m x, ?k, ?a]"] False by simp
  qed
qed

lemma checkSoftConfig_inv:
  assumes inv: "prover_inv C N n s"
    and fresh: "csessions s = []" "pfirst s = NOID" "\<not> armed (calls s) Cresptomsg" "\<not> armed (calls s) Checkdelaymsg"
  shows "ok (prover_inv C N n) (checkSoftConfig C E s)"
  using assms
  by (auto simp: checkSoftConfig_def Let_def prover_inv_def inv_parts chan_ok_def call_defs timer_msg_def
      sched_ok_def mk_timer_def)

lemma handleJoinResp_inv:
  assumes inv: "prover_inv C N n s" and pkt: "is_JoinResp (mpacket msg)"
  shows "ok (prover_inv C N n) (handleJoinResp C E msg s)"
proof -
  obtain src dst dep dh mac where p: "mpacket msg = JoinResp src dst dep dh mac" using pkt by (cases "mpacket msg") auto
  define s2 where "s2 = (if isScheduled E (calls s) Jointomsg then cancelEvent Jointomsg s else s)\<lparr>maxdepth := unat dep,
    deltah := dh, deltag := dh - (TIMEOUT_RSP (SCENARIO C) + TIMEOUT_ACK (SCENARIO C)) * real (unat dep) - TIMEOUT_UP (SCENARIO C)\<rparr>"
  have inv2: "prover_inv C N n s2"
    using inv by (auto simp: s2_def prover_inv_def static_inv_def inv_parts chan_ok_def cancelEvent_def emit_call_def mk_timer_def)
  then have st: "static_inv C N n s2" by (simp add: prover_inv_def)
  from checkMAC_ok [OF st, of msg] obtain d where
    d: "checkMAC C msg s2 = Inr (pmac (mpacket msg) = 0, s2\<lparr>macdelays := d\<rparr>)" ..
  have "static_inv C N n (s2\<lparr>macdelays := d\<rparr>)" using st by simp
  from macTime_ok [OF this, of msg] obtain d2 where
    d2: "macTime C msg (s2\<lparr>macdelays := d\<rparr>) = Inr (d2, s2\<lparr>macdelays := []\<rparr>)" by auto
  have "prover_inv C N n (scheduleAt x (timer_msg ATTEST Attesttimer NoPacket) (s2\<lparr>macdelays := []\<rparr>))" for x
    using inv2 by (auto simp: prover_inv_def inv_parts chan_ok_def call_defs timer_msg_def sched_ok_def mk_timer_def)
  moreover have "handleJoinResp C E msg s =
    (if dst \<noteq> UId s \<or> src \<noteq> cid s then
       Inr (deleteMsg msg (logError ''handleJoinResp: received message with wrong src/dest'' s))
     else rbind (checkMAC C msg s2) (\<lambda>(good, s3). rbind (if good then rbind (macTime C msg s3) (\<lambda>(d, s4).
         Inr (scheduleAt (simTime E + d) (timer_msg ATTEST Attesttimer NoPacket) s4)) else Inr s3) (\<lambda>s5.
         Inr (deleteMsg msg s5))))"
    by (simp add: handleJoinResp_def p Let_def s2_def)
  ultimately show ?thesis using inv inv2 d d2 by simp
qed

lemma handleRevReq_inv:
  assumes inv: "prover_inv C N n s" and pkt: "is_RevokeReq (mpacket msg)"
  shows "ok (prover_inv C N n) (handleRevReq C msg s)"
proof -
  obtain dst kids mac where p: "mpacket msg = RevokeReq dst kids mac" using pkt by (cases "mpacket msg") auto
  have st: "static_inv C N n s" using inv by (simp add: prover_inv_def)
  from checkMAC_ok [OF st, of msg] obtain d where
    "checkMAC C msg s = Inr (pmac (mpacket msg) = 0, s\<lparr>macdelays := d\<rparr>)" ..
  then show ?thesis using p inv by (simp add: handleRevReq_def)
qed

lemma sendRevReq_inv:
  assumes inv: "prover_inv C N n s" and "status s \<noteq> ATTESTING"
  shows "ok (prover_inv C N n) (sendRevReq s)"
  using assms
  by (auto simp: sendRevReq_def prover_inv_def inv_parts chan_ok_def emit_call_def newmsg_def mk_timer_def)

lemma handleDoneEnMsg_inv:
  assumes inv: "prover_inv C N n s" and en: "ENERGY_TEST C"
  shows "ok (prover_inv C N n) (handleDoneEnMsg E msg s)"
proof -
  have upd: "prover_inv C N n (a\<lparr>energy := Some x\<rparr>)" if "prover_inv C N n a" "energy a \<noteq> None" for a x
    using that by (auto simp: prover_inv_def static_inv_def inv_parts chan_ok_def)
  have crash: "prover_inv C N n (a\<lparr>crashed := b\<rparr>) = prover_inv C N n a" "prover_inv C N n (a\<lparr>countcrash := k\<rparr>) = prover_inv C N n a" for a b k
    by (simp_all add: prover_inv_def static_inv_def inv_parts chan_ok_def)
  have fin: "prover_inv C N n (emit_call EndSimulation a) = prover_inv C N n a" for a
    by (simp add: prover_inv_call timerless_def)
  have e: "energy s \<noteq> None" using inv en by (simp add: prover_inv_def static_inv_def)
  from setPower_ok [OF this, of E "restPower s"] obtain e1 where
    e1: "setPower E (restPower s) s = Inr (s\<lparr>energy := Some e1\<rparr>)" ..
  define s2 where "s2 = (if mkind msg = ENRXDONE \<or> mkind msg = ENMAC then deleteMsg msg (s\<lparr>energy := Some e1\<rparr>) else s\<lparr>energy := Some e1\<rparr>)"
  have s2: "prover_inv C N n s2" "energy s2 = Some e1"
    using upd [OF inv e] by (simp_all add: s2_def) (simp add: deleteMsg_def)
  then have "prover_inv C N n (s2\<lparr>energy := Some x\<rparr>)" for x using upd by simp
  with s2(2) e1 show ?thesis
    by (auto simp: handleDoneEnMsg_def s2_def [symmetric] Let_def crash fin)
qed

end
