(* ===== verification/Prover_Loop.thy ===== *)
theory Prover_Loop
  imports Prover_Inv Dispatch
begin

text \<open>
  The prover in the simulation: its virtual methods, the events it can meet, and the proof
  that every event is handled without a fault.
\<close>

section \<open>The virtual methods of a prover\<close>

definition depreciated_prover :: "aprover \<Rightarrow> aprover result" where
  "depreciated_prover s = Inr (logError ''function is not implemented for the prover'' s)"

definition prover_vtable :: "config \<Rightarrow> env \<Rightarrow> aprover vtable" where
  "prover_vtable C E = \<lparr>
     v_sendJoinReq = sendJoinReq C E,
     v_handleJoinReq = (\<lambda>msg. depreciated_prover),
     v_handleJoinResp = handleJoinResp C E,
     v_handleJoinAck = (\<lambda>msg. depreciated_prover),
     v_handleJoinRespTimeOut = handleJoinRespTimeOut C E,
     v_handleJoinAckTimeOut = (\<lambda>msg. depreciated_prover),
     v_startAttestation = startAttestation C E,
     v_checkSoftConfig = checkSoftConfig C E,
     v_sendCommitReq = sendCommitReq C E,
     v_handleCommitReq = handleCommitReq C E,
     v_handleCommitResp = handleCommitResp C E,
     v_handleCommitAck = handleCommitAck C E,
     v_handleCommitRespTimeOut = handleCommitRespTimeOut C E,
     v_handleCommitAckTimeOut = handleCommitAckTimeOut C E,
     v_handleUpReq = handleUpReq C E,
     v_handleUpdateTimeOut = handleUpdateTimeOut C E,
     v_handleRevReq = handleRevReq C,
     v_sendRevReq = (\<lambda>target kids. sendRevReq),
     v_sendSyncReq = depreciated_prover,
     v_handleSyncReq = (\<lambda>msg. depreciated_prover),
     v_isChannelBusyServ = (\<lambda>s target. Inr False)\<rparr>"

section \<open>Packets\<close>

text \<open>What the rest of the simulation is: \<open>N\<close> provers, a collector, and the kernel's answer to \<open>isScheduled\<close>.\<close>

definition sim_ok :: "config \<Rightarrow> nat \<Rightarrow> env \<Rightarrow> bool" where
  "sim_ok C N E \<longleftrightarrow> compiles C \<and> isScheduled E = armed \<and> numProvers E = N \<and> 0 < numCollectors E"

definition keeps :: "config \<Rightarrow> nat \<Rightarrow> nat \<Rightarrow> aprover \<Rightarrow> aprover \<Rightarrow> bool" where
  "keeps C N n s s' \<longleftrightarrow> prover_inv C N n s' \<and> length (msgqueue s) \<le> length (msgqueue s')"

lemma send_keeps:
  assumes "prover_inv C N n s" and "queued_ok N n msg" and "ok (send_ok msg s) r"
  shows "ok (keeps C N n s) r"
  using assms(3)
proof (rule ok_mono)
  fix s' assume send: "send_ok msg s s'"
  then have "length (msgqueue s) \<le> length (msgqueue s')" by (auto simp: send_ok_def io_step_def)
  with send_inv [OF assms(1) send assms(2)] show "keeps C N n s s'" by (simp add: keeps_def)
qed

lemma sendCollector_keeps:
  assumes "prover_inv C N n s" and "queued_ok N n msg" and "sim_ok C N E" and "is_T (mpacket msg)"
    and "pdest (mpacket msg) = baseID"
  shows "ok (keeps C N n s) (sendCollector C E is_T msg s)"
  by (rule send_keeps [OF assms(1,2) sendCollector_ok])
     (use assms in \<open>auto simp: prover_inv_def static_inv_def sim_ok_def proverIndex_def\<close>)

lemma sendProver_keeps:
  assumes "prover_inv C N n s" and "queued_ok N n msg" and "sim_ok C N E" and "is_T (mpacket msg)"
    and "valid_uid N (pdest (mpacket msg))"
  shows "ok (keeps C N n s) (sendProver C E (\<lambda>target. Inr False) is_T msg s)"
  by (rule send_keeps [OF assms(1,2) sendProver_ok])
     (use assms in \<open>auto simp: prover_inv_def static_inv_def sim_ok_def valid_uid_def\<close>)

lemma sendProverBroadcast_keeps:
  assumes "prover_inv C N n s" and "queued_ok N n msg" and "sim_ok C N E"
  shows "ok (keeps C N n s) (sendProverBroadcast C E msg s)"
  by (rule send_keeps [OF assms(1,2) sendProverBroadcast_ok])
     (use assms in \<open>auto simp: prover_inv_def static_inv_def sim_ok_def valid_uid_def\<close>)

lemma sendUpdate_keeps:
  assumes inv: "prover_inv C N n s" and q: "queued_ok N n msg" and E: "sim_ok C N E" and k: "mkind msg = UPRQ"
  shows "ok (keeps C N n s) (sendUpdate C E (prover_vtable C E) msg s)"
proof -
  obtain src dst us cs t mac ps where p: "mpacket msg = UpdateReq src dst us cs t mac ps"
    and v: "valid_uid N src" "valid_uid N dst" "wire_ok n us cs ps" "mself msg"
    using q k by (auto simp: queued_ok_def outgoing_def split: packet.splits)
  let ?m = "msg\<lparr>mkind := UPRQF, mpacket := UpdateReq src baseID us cs t mac ps\<rparr>"
  have "queued_ok N n ?m" using v by (simp add: queued_ok_def outgoing_def)
  then have col: "ok (keeps C N n s) (sendCollector C E is_UpdateReq ?m s)"
    using inv E by (intro sendCollector_keeps) auto
  have "ok (keeps C N n s) (sendProver C E (\<lambda>target. Inr False) is_UpdateReq msg s)"
    using inv q E p v by (intro sendProver_keeps) auto
  moreover have "proverIndex dst < numProvers E" using v E by (simp add: valid_uid_def sim_ok_def)
  ultimately show ?thesis
    using p col by (auto simp: sendUpdate_def isWithinRange_def prover_vtable_def Let_def)
qed

text \<open>The gate table is not part of the invariant.\<close>

lemma prover_inv_deviceg [simp]: "prover_inv C N n (s\<lparr>deviceg := g\<rparr>) = prover_inv C N n s"
  by (simp add: prover_inv_def static_inv_def inv_parts chan_ok_def)

lemma updateGates_eq:
  assumes "is_T (mpacket msg)"
  shows "\<exists>g. updateGates C E is_T msg s = Inr (s\<lparr>deviceg := g\<rparr>)"
proof (cases "WIRELESS C \<or> device s = SERV \<or> map_of (deviceg s) (psource (mpacket msg)) \<noteq> None")
  case True
  with assms have "updateGates C E is_T msg s = Inr s" by (auto simp: updateGates_def)
  then show ?thesis by (intro exI [of _ "deviceg s"]) simp
next
  case False
  with assms show ?thesis by (auto simp: updateGates_def)
qed

lemma packet_keeps:
  assumes inv: "prover_inv C N n s" and q: "queued_ok N n msg" and E: "sim_ok C N E"
  shows "ok (keeps C N n s) (handleMessage C E (prover_vtable C E) 1 msg s)"
proof (cases "crashed s")
  case True
  with inv show ?thesis by (simp add: keeps_def)
next
  case alive: False
  show ?thesis
  proof (cases "mself msg")
    case True
    have V: "v_isChannelBusyServ (prover_vtable C E) s = (\<lambda>target. Inr False)" by (simp add: prover_vtable_def)
    show ?thesis
      using True alive q sendCollector_keeps [OF inv q E, of is_JoinReq] sendProverBroadcast_keeps [OF inv q E]
        sendProver_keeps [OF inv q E, of is_CommitResp] sendProver_keeps [OF inv q E, of is_CommitAck]
        sendUpdate_keeps [OF inv q E] sendCollector_keeps [OF inv q E, of is_UpdateReq]
      by (cases "mpacket msg") (auto simp: queued_ok_def outgoing_def handleSelf_def V)
  next
    case False
    with q have k: "mkind msg = UPRQF" "is_UpdateReq (mpacket msg)" "pdest (mpacket msg) = baseID"
      by (auto simp: queued_ok_def outgoing_def split: packet.splits)
    obtain g where g: "updateGates C E is_UpdateReq msg s = Inr (s\<lparr>deviceg := g\<rparr>)"
      using updateGates_eq k(2) by blast
    have "ok (keeps C N n (s\<lparr>deviceg := g\<rparr>)) (sendCollector C E is_UpdateReq msg (s\<lparr>deviceg := g\<rparr>))"
      using inv q E k by (intro sendCollector_keeps) auto
    then have "ok (keeps C N n s) (sendCollector C E is_UpdateReq msg (s\<lparr>deviceg := g\<rparr>))"
      by (rule ok_mono) (simp add: keeps_def)
    with False alive k g show ?thesis
      by (simp add: handleNetwork_def handleUpMsg_def prover_vtable_def handleUpReq_def)
  qed
qed

interpretation prover_queue: message_loop C E "prover_vtable C E" "\<lambda>s. sim_ok C N E \<and> prover_inv C N n s" "queued_ok N n"
  for C E N n
proof
  fix s :: aprover and m x t
  assume inv: "sim_ok C N E \<and> prover_inv C N n s"
  then show "list_all (queued_ok N n) (msgqueue s) \<and> (\<forall>m. pupmsg s = Some m \<longrightarrow> queued_ok N n m)"
    by (auto simp: prover_inv_def log_inv_def)
  show "sim_ok C N E \<and> prover_inv C N n (s\<lparr>msgqueue := tl (msgqueue s)\<rparr>)"
    using inv by (cases "msgqueue s") (auto simp: prover_inv_def static_inv_def inv_parts chan_ok_def)
  show "sim_ok C N E \<and> prover_inv C N n (logError t s)" using inv by simp
  show "ok (\<lambda>s. sim_ok C N E \<and> prover_inv C N n s) (setPower E x s)" if "ENERGY_TEST C"
  proof -
    have e: "energy s \<noteq> None" using inv that by (simp add: prover_inv_def static_inv_def)
    from setPower_ok [OF this, of E x] obtain y where "setPower E x s = Inr (s\<lparr>energy := Some y\<rparr>)" ..
    then show ?thesis
      using inv by (simp add: prover_inv_def static_inv_def inv_parts chan_ok_def)
  qed
  show "ok (\<lambda>s'. (sim_ok C N E \<and> prover_inv C N n s') \<and> length (msgqueue s) \<le> length (msgqueue s'))
      (handleMessage C E (prover_vtable C E) 1 m s)" if "queued_ok N n m"
    using packet_keeps [of C N n s m E] inv that by (auto simp: keeps_def ok_eq)
next
  fix m show "queued_ok N n m \<Longrightarrow> \<not> loops m"
    by (auto simp: queued_ok_def outgoing_def loops_def split: packet.splits)
qed

section \<open>Events\<close>

text \<open>
  The messages that reach a prover from the network, and the events of a run. A self message
  was scheduled and not cancelled. \<open>in_time\<close> collects what the code leaves to the choice of
  the time parameters: the tree is not started before the software check is over, a period
  does not end while the prover waits for responses, and no revocation comes while the prover
  waits for its parent's acknowledgement.
\<close>

definition incoming :: "nat \<Rightarrow> nat \<Rightarrow> cMessage \<Rightarrow> bool" where
  "incoming N n m \<longleftrightarrow> outgoing N n m \<or> mkind m = JNRP \<and> is_JoinResp (mpacket m) \<or>
     mkind m = RVKRQ \<and> is_RevokeReq (mpacket m)"

definition in_time :: "cMessage \<Rightarrow> aprover \<Rightarrow> bool" where
  "in_time m s \<longleftrightarrow>
     (mkind m = MKTREE \<longrightarrow> \<not> armed (calls s) Checkdelaymsg) \<and>
     (mkind m = ATTEST \<longrightarrow> \<not> armed (calls s) Cresptomsg) \<and>
     (mkind m = REVOKE \<longrightarrow> status s \<noteq> ATTESTING)"

definition pending :: "cMessage \<Rightarrow> 'a adevice_scheme \<Rightarrow> bool" where
  "pending m s \<longleftrightarrow> (\<exists>t. ScheduleAt t m \<in> set (calls s)) \<and> (mid m \<noteq> Newmsg \<longrightarrow> armed (calls s) (mid m))"

definition prover_event :: "nat \<Rightarrow> nat \<Rightarrow> cMessage \<Rightarrow> aprover \<Rightarrow> bool" where
  "prover_event N n m s \<longleftrightarrow> (if mself m then pending m s \<and> in_time m s else incoming N n m)"

lemma delivered_inv:
  assumes "prover_inv C N n s" and "i \<noteq> Txmsg" and "i \<noteq> Cbusymsg"
  shows "prover_inv C N n (emit_call (Delivered i) s)"
  using assms by (auto simp: prover_inv_def inv_parts chan_ok_def)

lemma delivered_tx_inv:
  assumes "prover_inv C N n s" and "armed (calls s) Txmsg"
  shows "prover_inv C N n ((emit_call (Delivered Txmsg) s)\<lparr>txrxstat := DIDLE\<rparr>)"
  using assms by (auto simp: prover_inv_def inv_parts static_inv_def chan_ok_def mk_timer_def emit_call_def)

lemma delivered_busy_inv:
  assumes "prover_inv C N n s" and "armed (calls s) Cbusymsg"
  shows "prover_inv C N n ((emit_call (Delivered Cbusymsg) s)\<lparr>chanstat := CIDLE\<rparr>)"
  using assms by (auto simp: prover_inv_def inv_parts static_inv_def chan_ok_def mk_timer_def emit_call_def)

lemma deliver_self:
  "mself m \<Longrightarrow> \<not> crashed s \<Longrightarrow> deliver C E V m s =
     handleSelf C E V (handleMessage C E V 1) m (emit_call (Delivered (mid m)) s)"
  by (simp add: deliver_def numeral_2_eq_2 emit_call_def)

lemma packet_inv:
  assumes inv: "prover_inv C N n s" and E: "sim_ok C N E" and out: "outgoing N n m" "mself m"
    and i: "mid m = Newmsg \<or> mid m = Creqmsg"
  shows "ok (prover_inv C N n) (deliver C E (prover_vtable C E) m s)"
proof -
  let ?s1 = "emit_call (Delivered (mid m)) s"
  have "prover_inv C N n ?s1" using inv i by (intro delivered_inv) auto
  moreover have "queued_ok N n m" using out by (simp add: queued_ok_def)
  ultimately have "ok (keeps C N n ?s1) (handleMessage C E (prover_vtable C E) 1 m ?s1)"
    by (intro packet_keeps) (simp_all add: E)
  moreover have "\<not> loops m" using out by (auto simp: outgoing_def loops_def split: packet.splits)
  ultimately have "ok (keeps C N n ?s1) (handleMessage C E (prover_vtable C E) 2 m ?s1)"
    using handleMessage_no_loop [of m C E "prover_vtable C E" 1 ?s1] by (simp add: numeral_2_eq_2 del: handleMessage.simps)
  then show ?thesis using out(2) by (auto simp: deliver_def keeps_def ok_eq simp del: handleMessage.simps)
qed

lemma attesting_inv:
  assumes "prover_inv C N n s" and "status s = ATTESTING" and "\<not> armed (calls s) (mk_timer C)"
  shows "prover_inv C N n (s\<lparr>status := ATTESTING_CREATING\<rparr>)"
proof -
  have "session_inv N n (s\<lparr>status := ATTESTING_CREATING\<rparr>)" using assms by (simp add: prover_inv_def session_inv_def)
  moreover have "timer_inv C (s\<lparr>status := ATTESTING_CREATING\<rparr>)" using assms by (simp add: prover_inv_def timer_inv_def)
  ultimately show ?thesis using assms by (simp add: prover_inv_def log_inv_def chan_ok_def)
qed

text \<open>The tree timer: joining below a parent, or waiting for the children while attesting.\<close>

lemma mktree_inv:
  assumes inv: "prover_inv C N n s" and arm: "armed (calls s) (mk_timer C)"
    and chk: "\<not> armed (calls s) Checkdelaymsg"
  shows "ok (prover_inv C N n) (sendCommitReq C E NOID (emit_call (Delivered (mk_timer C)) s))"
    (is "ok _ (sendCommitReq C E NOID ?s)")
proof -
  have inv1: "prover_inv C N n ?s" using inv by (rule delivered_inv) (simp_all add: mk_timer_def)
  have t: "timer_inv C s" "session_inv N n s" using inv by (simp_all add: prover_inv_def)
  have par: "pfirst s \<noteq> NOID \<longrightarrow> status s = ATTESTING \<or> csessions s \<noteq> []"
    using t arm by (simp add: timer_inv_def)
  show ?thesis
  proof (cases "status s = ATTESTING")
    case True
    with attesting_inv [OF inv1] show ?thesis by (simp add: sendCommitReq_def)
  next
    case False
    show ?thesis
    proof (rule sendCommitReq_inv)
      show "pfirst ?s \<noteq> NOID \<longrightarrow> valid_uid N (pfirst ?s) \<and> psecond ?s \<noteq> None \<and> depth (the (psecond ?s)) \<noteq> 1"
        using par False t by (auto simp: session_inv_def)
      show "pfirst ?s \<noteq> NOID \<longrightarrow> \<not> armed (calls ?s) Cacktomsg"
        using par False t by (auto simp: timer_inv_def)
    qed (use inv1 False chk in \<open>auto simp: prover_inv_def session_inv_def\<close>)
  qed
qed

text \<open>The two timers of the radio serve the queue after the device or the channel is idle again.\<close>

lemma radio_timer_inv:
  assumes inv: "prover_inv C N n s" and E: "sim_ok C N E" and arm: "armed (calls s) (mid m)"
    and k: "mkind m = TXDONE \<and> mid m = Txmsg \<or> mkind m = CBUSYMSG \<and> mid m = Cbusymsg"
  shows "ok (prover_inv C N n) (handleSelf C E (prover_vtable C E) (handleMessage C E (prover_vtable C E) 1) m
    (emit_call (Delivered (mid m)) s))"
  using k
proof
  assume "mkind m = TXDONE \<and> mid m = Txmsg"
  with prover_queue.serveQueue_inv [of C N E n "(emit_call (Delivered Txmsg) s)\<lparr>txrxstat := DIDLE\<rparr>"]
    delivered_tx_inv [OF inv] E arm
  show ?thesis by (auto simp: handleSelf_def handleTxDoneMsg_def ok_eq)
next
  assume "mkind m = CBUSYMSG \<and> mid m = Cbusymsg"
  with prover_queue.serveQueue_inv [of C N E n "(emit_call (Delivered Cbusymsg) s)\<lparr>chanstat := CIDLE\<rparr>"]
    delivered_busy_inv [OF inv] E arm
  show ?thesis by (auto simp: handleSelf_def handlePostponeDoneMsg_def ok_eq)
qed

lemma timer_inv_step:
  assumes inv: "prover_inv C N n s" and E: "sim_ok C N E" and ev: "pending m s" "in_time m s"
    and sched: "sched_ok C N n m" and nout: "\<not> outgoing N n m"
  shows "ok (prover_inv C N n) (handleSelf C E (prover_vtable C E) (handleMessage C E (prover_vtable C E) 1) m
    (emit_call (Delivered (mid m)) s))"
proof -
  let ?V = "prover_vtable C E" and ?s = "emit_call (Delivered (mid m)) s"
  have inv1: "prover_inv C N n ?s" if "mid m \<noteq> Txmsg" "mid m \<noteq> Cbusymsg"
    using inv that by (rule delivered_inv)
  have arm: "mid m \<noteq> Newmsg \<Longrightarrow> armed (calls s) (mid m)" using ev(1) by (simp add: pending_def)
  have comp: "compiles C" using E by (simp add: sim_ok_def)
  have t: "timer_inv C s" "session_inv N n s" using inv by (simp_all add: prover_inv_def)
  show ?thesis
  proof (cases "mkind m")
    case CHECK
    with sched have "mid m = Checkdelaymsg" by (simp add: sched_ok_def)
    with CHECK arm t inv1 show ?thesis
      by (auto simp: handleSelf_def prover_vtable_def timer_inv_def intro: checkSoftConfig_inv)
  next
    case ATTEST
    with sched have "mid m = Startmsg \<or> mid m = Attesttimer" by (simp add: sched_ok_def)
    with ATTEST inv1 ev(2) comp show ?thesis
      by (auto simp: handleSelf_def prover_vtable_def in_time_def intro!: startAttestation_inv)
  next
    case MKTREE
    with sched have i: "mid m = mk_timer C" by (simp add: sched_ok_def)
    have "\<not> armed (calls s) Checkdelaymsg" using MKTREE ev(2) by (simp add: in_time_def)
    moreover have "armed (calls s) (mk_timer C)" using arm i by (auto simp: mk_timer_def split: if_splits)
    ultimately have "ok (prover_inv C N n) (sendCommitReq C E NOID ?s)"
      using mktree_inv [OF inv] i by simp
    with MKTREE show ?thesis by (simp add: handleSelf_def prover_vtable_def)
  next
    case REVOKE
    with sched ev(2) inv1 have "ok (prover_inv C N n) (sendRevReq ?s)"
      by (intro sendRevReq_inv) (auto simp: sched_ok_def in_time_def)
    with REVOKE show ?thesis by (simp add: handleSelf_def prover_vtable_def)
  next
    case CMRPTO
    with sched have m: "mid m = Cresptomsg" "is_CommitTimeOut (mpacket m)" by (simp_all add: sched_ok_def)
    with arm t have "status s \<noteq> ATTESTING" by (auto simp: timer_inv_def)
    with m inv1 have "ok (prover_inv C N n) (handleCommitRespTimeOut C E m ?s)"
      by (intro handleCommitRespTimeOut_inv) auto
    with CMRPTO show ?thesis by (simp add: handleSelf_def prover_vtable_def)
  next
    case CMAKTO
    with sched obtain dev t' where m: "mid m = Cacktomsg" "mpacket m = CommitTimeOut dev t'" "dev \<noteq> NOID"
      by (cases "mpacket m") (auto simp: sched_ok_def)
    with arm t inv1 have "ok (prover_inv C N n) (handleCommitAckTimeOut C E m ?s)"
      by (intro handleCommitAckTimeOut_inv [OF _ m(2,3)]) (auto simp: timer_inv_def)
    with CMAKTO show ?thesis by (simp add: handleSelf_def prover_vtable_def)
  next
    case UPTO
    with sched obtain u t' where m: "mpacket m = CommitTimeOut u t'" "u \<noteq> NOID" "mid m = Uptomsg u t'"
      by (cases "mpacket m") (auto simp: sched_ok_def)
    with inv1 have "ok (prover_inv C N n) (handleUpdateTimeOut C E m ?s)"
      by (intro handleUpdateTimeOut_inv [OF _ m(1,2)]) auto
    with UPTO show ?thesis by (simp add: handleSelf_def prover_vtable_def)
  next
    case TXDONE
    with sched arm show ?thesis by (intro radio_timer_inv [OF inv E]) (auto simp: sched_ok_def)
  next
    case CBUSYMSG
    with sched arm show ?thesis by (intro radio_timer_inv [OF inv E]) (auto simp: sched_ok_def)
  next
    case COLLBSYMSG
    with sched have "mid m = Collbusymsg" by (simp add: sched_ok_def)
    with prover_queue.handlePostponeUpMsg_inv [of C N E n ?s] inv1 E COLLBSYMSG
    show ?thesis by (auto simp: handleSelf_def ok_eq)
  qed (use sched nout inv1 in \<open>auto simp: handleSelf_def sched_ok_def intro: handleDoneEnMsg_inv\<close>)
qed

lemma depreciated_inv: "prover_inv C N n s \<Longrightarrow> ok (prover_inv C N n) (depreciated_prover s)"
  by (simp add: depreciated_prover_def)

lemma incoming_inv:
  assumes inv: "prover_inv C N n s" and E: "sim_ok C N E" and m: "incoming N n m" and alive: "\<not> crashed s"
    and net: "\<not> mself m"
  shows "ok (prover_inv C N n) (deliver C E (prover_vtable C E) m s)"
proof -
  have d: "deliver C E (prover_vtable C E) m s = handleNetwork C E (prover_vtable C E) m s"
    using net alive by (simp add: deliver_def numeral_2_eq_2)
  have gate: "ok (prover_inv C N n) (rbind (updateGates C E is_T m s) f)"
    if "is_T (mpacket m)" "\<And>a. prover_inv C N n a \<Longrightarrow> ok (prover_inv C N n) (f a)" for is_T f
  proof -
    from updateGates_eq [of is_T m C E s, OF that(1)] obtain g where "updateGates C E is_T m s = Inr (s\<lparr>deviceg := g\<rparr>)" ..
    with that(2) inv show ?thesis by simp
  qed
  note V = handleNetwork_def handleJoinMsg_def handleCommitMsg_def handleUpMsg_def handleRevMsg_def prover_vtable_def
  have col: "0 < numCollectors E" and arm: "isScheduled E = armed" using E by (simp_all add: sim_ok_def)
  have up: "ok (prover_inv C N n) (handleUpReq C E m a)"
    if "prover_inv C N n a" "outgoing N n m" "is_UpdateReq (mpacket m)" for a
    using handleUpReq_inv [OF that col] .
  from m consider (out) "outgoing N n m" | (join) "mkind m = JNRP" "is_JoinResp (mpacket m)"
    | (revoke) "mkind m = RVKRQ" "is_RevokeReq (mpacket m)" by (auto simp: incoming_def)
  then have "ok (prover_inv C N n) (handleNetwork C E (prover_vtable C E) m s)"
  proof cases
    case out
    then show ?thesis
      using up arm
      by (cases "mpacket m")
         (auto simp: outgoing_def V simp del: ok_rbind intro!: gate depreciated_inv handleCommitReq_inv handleCommitResp_inv handleCommitAck_inv)
  next
    case join
    then show ?thesis by (auto simp: V simp del: ok_rbind intro!: gate handleJoinResp_inv)
  next
    case revoke
    with inv show ?thesis by (simp add: V handleRevReq_inv)
  qed
  with d show ?thesis by simp
qed

lemma alive_event_inv:
  assumes inv: "prover_inv C N n s" and alive: "\<not> crashed s" and E: "sim_ok C N E" and ev: "prover_event N n m s"
  shows "ok (prover_inv C N n) (deliver C E (prover_vtable C E) m s)"
proof (cases "mself m")
  case True
  with ev have ev: "pending m s" "in_time m s" by (simp_all add: prover_event_def)
  have sched: "sched_ok C N n m"
    using inv ev(1) by (auto simp: prover_inv_def log_inv_def pending_def list_all_iff)
  show ?thesis
  proof (cases "outgoing N n m")
    case out: True
    with sched have "mid m = Newmsg \<or> mid m = Creqmsg"
      by (auto simp: sched_ok_def outgoing_def split: packet.splits)
    with inv E out True show ?thesis by (intro packet_inv)
  next
    case False
    with timer_inv_step [OF inv E ev sched] alive True show ?thesis by (simp add: deliver_self)
  qed
next
  case False
  with ev have "incoming N n m" by (simp add: prover_event_def)
  with inv E alive False show ?thesis by (intro incoming_inv)
qed

lemma deliver_crashed: "crashed s \<Longrightarrow> deliver C E V m s = Inr (if mself m then emit_call (Delivered (mid m)) s else s)"
  by (simp add: deliver_def numeral_2_eq_2 emit_call_def)

lemma event_inv:
  assumes inv: "crashed s \<or> prover_inv C N n s" and E: "sim_ok C N E" and ev: "prover_event N n m s"
  shows "ok (\<lambda>s'. crashed s' \<or> prover_inv C N n s') (deliver C E (prover_vtable C E) m s)"
proof (cases "crashed s")
  case True
  then show ?thesis by (simp add: deliver_crashed emit_call_def)
next
  case False
  with inv have "prover_inv C N n s" by simp
  from alive_event_inv [OF this False E ev] show ?thesis by (rule ok_mono) simp
qed

section \<open>Runs\<close>

text \<open>Usable parameters: devices of a known type, a positive group size, and a battery in the energy build.\<close>

definition params_ok :: "config \<Rightarrow> nat \<Rightarrow> nat \<Rightarrow> params \<Rightarrow> bool" where
  "params_ok C N n P \<longleftrightarrow> compiles C \<and> N < 0x7FFFFFFF \<and> 0 < n \<and> aggsize_p P = n \<and>
     (SCENARIO C = FADIA \<longrightarrow> type_p P = SKY \<or> type_p P = PI2) \<and>
     (ENERGY_TEST C \<longrightarrow> energyStorage P \<noteq> None)"

text \<open>The states of prover \<open>index\<close>: after \<open>initialize\<close>, and after every event from then on.\<close>

inductive prover_run :: "'r intrand \<Rightarrow> config \<Rightarrow> nat \<Rightarrow> nat \<Rightarrow> aprover \<Rightarrow> bool"
  for intrand C N n where
  start: "params_ok C N n P \<Longrightarrow> index < N \<Longrightarrow>
    prover_initialize C E P intrand rng garbage (construct C index raw, g) = Some (Inr (s, g')) \<Longrightarrow>
    prover_run intrand C N n s"
| event: "prover_run intrand C N n s \<Longrightarrow> sim_ok C N E \<Longrightarrow> prover_event N n m s \<Longrightarrow>
    deliver C E (prover_vtable C E) m s = Inr s' \<Longrightarrow> prover_run intrand C N n s'"

lemma proverIndex_UId: "i < 0x7FFFFFFE \<Longrightarrow> proverIndex ((baseID + of_nat i) mod MAXUID) = i"
  and valid_uid_UId: "i < 0x7FFFFFFE \<Longrightarrow> i < N \<Longrightarrow> valid_uid N ((baseID + of_nat i) mod MAXUID)"
proof -
  have u: "unat ((baseID + of_nat i) mod MAXUID) = Suc i" if "i < 0x7FFFFFFE" for i
  proof -
    have "unat (baseID + of_nat i :: 32 word) = Suc i"
      using that by (simp add: baseID_def unat_word_ariths unat_of_nat)
    with that show ?thesis by (simp add: unat_mod MAXUID_def)
  qed
  have d: "unat ((baseID + of_nat i) mod MAXUID - baseID) = i" if "i < 0x7FFFFFFE" for i
    using u [OF that] by (simp add: unat_sub_if' baseID_def)
  show p: "i < 0x7FFFFFFE \<Longrightarrow> proverIndex ((baseID + of_nat i) mod MAXUID) = i"
    using d [of i] by (simp add: proverIndex_def unat_mod MAXUID_def)
  assume "i < 0x7FFFFFFE" "i < N"
  moreover from this u [of i] have "(baseID + of_nat i) mod MAXUID \<noteq> NOID"
    unfolding NOID_def by (metis Zero_not_Suc unat_0)
  ultimately show "valid_uid N ((baseID + of_nat i) mod MAXUID)"
    using p d [of i] by (simp add: valid_uid_def)
qed

text \<open>A prover before its first event.\<close>

definition blank :: "nat \<Rightarrow> aprover \<Rightarrow> bool" where
  "blank index s \<longleftrightarrow> moduleIndex s = index \<and> csessions s = [] \<and> pfirst s = NOID \<and> aggreport s = report0 \<and>
     txrxstat s = DIDLE \<and> chanstat s = CIDLE \<and> msgqueue s = [] \<and> pupmsg s = None \<and> calls s = []"

lemma initialize_parts:
  assumes "prover_initialize C E P intrand rng garbage (construct C index raw, g) = Some (Inr (s, g'))"
  shows "\<exists>s2 g2 s3 g3. blank index s2 \<and> UId s2 = (baseID + of_nat index) mod MAXUID \<and>
    (if ENERGY_TEST C then chooseSelfish E P (readParams C P s2, g2) = Inr (s3, g3) else s3 = readParams C P s2) \<and>
    (s, g') = scheduleStart C E P (s3, g3)"
proof -
  from assms obtain s1 g1 where 1: "initNO intrand rng garbage P (construct C index raw, g) = Some (s1, g1)"
    by (auto simp: prover_initialize_def Option.bind_eq_Some_conv)
  with assms obtain s2 g2 where 2: "initKeyRing intrand (initUID s1, g1) = Some (Inr (s2, g2))"
    by (auto simp: prover_initialize_def rbind_eq_Inr)
  with 1 assms obtain s3 g3 where 3: "(if ENERGY_TEST C then chooseSelfish E P (readParams C P s2, g2) else Inr (readParams C P s2, g2)) = Inr (s3, g3)"
    "(s, g') = scheduleStart C E P (s3, g3)"
    by (auto simp: prover_initialize_def rbind_eq_Inr)
  have "blank index s1" using 1 by (auto simp: initNO_def construct_def blank_def split: if_splits)
  moreover have "\<exists>ring. s2 = (initUID s1)\<lparr>KeyRing := ring\<rparr>"
    using 2 by (auto simp: initKeyRing_def rbind_eq_Inr)
  ultimately have "blank index s2" "UId s2 = (baseID + of_nat index) mod MAXUID"
    by (auto simp: initUID_def blank_def)
  with 3 show ?thesis by (auto split: if_splits)
qed

lemma chooseSelfish_frame:
  assumes "chooseSelfish E P (s, g) = Inr (s', g')"
  shows "blank index s' = blank index s \<and> UId s' = UId s \<and> aggsize s' = aggsize s \<and> device s' = device s \<and>
    energy s' \<noteq> None"
proof -
  obtain e0 where "energyStorage P = Some e0" using assms by (cases "energyStorage P") (auto simp: chooseSelfish_def)
  then show ?thesis
    using assms by (auto simp: chooseSelfish_def Let_def blank_def split: if_splits)
qed

lemma report0_ok: "0 < n \<Longrightarrow> report_ok n report0"
  by (simp add: report_ok_def report0_def wire_ok_def bounded_def)

lemma initialize_inv:
  assumes P: "params_ok C N n P" and idx: "index < N"
    and run: "prover_initialize C E P intrand rng garbage (construct C index raw, g) = Some (Inr (s, g'))"
  shows "prover_inv C N n s"
proof -
  from initialize_parts [OF run] obtain s2 g2 s3 g3 where
    b: "blank index s2" "UId s2 = (baseID + of_nat index) mod MAXUID"
    and c: "if ENERGY_TEST C then chooseSelfish E P (readParams C P s2, g2) = Inr (s3, g3) else s3 = readParams C P s2"
    and st: "(s, g') = scheduleStart C E P (s3, g3)" by blast
  have uid: "valid_uid N (UId s2)" using idx P unfolding b(2) by (intro valid_uid_UId) (auto simp: params_ok_def)
  let ?r = "readParams C P s2"
  have r: "blank index ?r" "UId ?r = UId s2" "aggsize ?r = n" "device ?r = (if SCENARIO C = FADIA then type_p P else NA)"
    using b P by (auto simp: blank_def readParams_def Let_def params_ok_def)
  have "blank index s3 \<and> UId s3 = UId s2 \<and> aggsize s3 = n \<and> device s3 = device ?r \<and> (ENERGY_TEST C \<longrightarrow> energy s3 \<noteq> None)"
  proof (cases "ENERGY_TEST C")
    case True
    with c chooseSelfish_frame [of E P ?r g2 s3 g3 index] r show ?thesis by simp
  next
    case False
    with c r show ?thesis by simp
  qed
  then have s3: "blank index s3" "static_inv C N n s3"
    using uid r P by (auto simp: static_inv_def params_ok_def)
  have "0 < n" using P by (simp add: params_ok_def)
  then show ?thesis
    using st s3 report0_ok [of n]
    by (auto simp: scheduleStart_def Let_def blank_def prover_inv_def inv_parts chan_ok_def scheduleAt_def timer_msg_def
        newmsg_def sched_ok_def mk_timer_def split: if_splits)
qed

lemma run_inv: "prover_run intrand C N n s \<Longrightarrow> crashed s \<or> prover_inv C N n s"
proof (induction rule: prover_run.induct)
  case (start P index E rng garbage raw g s g')
  from initialize_inv [OF start] show ?case ..
next
  case (event s E m s')
  then show ?case using event_inv [OF event.IH event.hyps(2,3)] by simp
qed

section \<open>No event makes a prover fault\<close>

lemma run_fuel:
  assumes "prover_run intrand C N n s" and "msgqueue a = msgqueue s" "pupmsg a = pupmsg s" "crashed a = crashed s"
  shows "handleMessage C E V (Suc (Suc k)) m a = handleMessage C E V 2 m a"
proof (cases "crashed s")
  case False
  have no: "\<not> loops m" if "queued_ok N n m" for m using that prover_queue.no_loop by blast
  from False run_inv [OF assms(1)] have "prover_inv C N n s" by simp
  then show ?thesis
    using no assms(2,3) by (intro fuel_two) (auto simp: prover_inv_def log_inv_def list_all_iff)
qed (simp add: assms numeral_2_eq_2)

text \<open>A small wired network and the values the constructors find in memory, for examples.\<close>

definition wired_build :: config where
  "wired_build = \<lparr>RUNTIME_TEST = True, ENERGY_TEST = False, WIRELESS = False, REVOKE_TEST = False, TREE = False,
     SCENARIO = FADIA\<rparr>"

definition demo_env :: env where
  "demo_env = \<lparr>simTime = 0, isScheduled = armed, arrivalGate = 0, numProvers = 3, numCollectors = 1,
     position = (\<lambda>i. mkCoord 0 0 0), transmitting = (\<lambda>i. False), collectorProcessing = False, wiring = ring3,
     drawTree = 7, drawStart = 0, drawRevoke = 0\<rparr>"

definition demo_params :: params where
  "demo_params = \<lparr>htime = 1000, range_p = 50, root = 0, aggsize_p = 1, maxdepth_p = 3, drop_p = 0, type_p = SKY,
     numself = 0, numProvers_p = 3, statadapt_p = False, keyRingSize = 1, keyPoolSize = 1, energyStorage = None\<rparr>"

definition demo_raw :: aprover where
  "demo_raw = \<lparr>moduleIndex = 0, device = NA, maxdepth = 0, maxchildren = 0, deltah = 0, deltag = 0, aggsize = 0,
     crashed = False, gatsz = 0, statadapt = False, range_m = 0, selfish = False, status = OFFLINE, energy = None,
     drange = 0, rootidx = 0, countcrash = 0, KRsize = 0, KPsize = 0, macdelays = [], deviceg = [], txrxstat = DIDLE,
     chanstat = CIDLE, procstat = PIDLE, msgqueue = [], pupmsg = None, calls = [], UId = 0, KeyRing = [], pfirst = 0,
     psecond = None, csessions = [], cid = 0, attestcount = 0, aggreport = report0\<rparr>"

definition demo_statics :: "unit statics" where
  "demo_statics = \<lparr>NO = \<lparr>no_rng = (), no_KPsize = 1, no_KRsize = 1, keyPool = [(1, 5)], initialized = True\<rparr>,
     selfcount = 0, rvkd = 0\<rparr>"

definition demo_prover :: aprover where
  "demo_prover = (readParams wired_build demo_params ((initUID (construct wired_build 0 demo_raw))\<lparr>KeyRing := [(1, 5)]\<rparr>))
     \<lparr>status := JOINING, calls := [ScheduleAt 0 (timer_msg ATTEST Startmsg NoPacket)]\<rparr>"

lemma demo_initialize:
  "prover_initialize wired_build demo_env demo_params (\<lambda>r n. (0, r)) () False (construct wired_build 0 demo_raw, demo_statics)
     = Some (Inr (demo_prover, demo_statics))"
  by (simp add: prover_initialize_def initNO_def demo_statics_def initKeyRing_def getKeyRing_def ringstep_def
      omap_insert_def while_option_unfold wired_build_def scheduleStart_def demo_prover_def demo_env_def
      scheduleAt_def emit_call_def readParams_def Let_def initUID_def construct_def demo_raw_def)

lemma demo_run: "prover_run (\<lambda>r n. (0 :: nat, r :: unit)) wired_build 3 1 demo_prover"
  using prover_run.start [OF _ _ demo_initialize, of 3 1]
  by (simp add: params_ok_def demo_params_def wired_build_def compiles_def)



text \<open>
  C10. The sender of a live prover: it is never transmitting and backing off at once, it is
  transmitting exactly while its end-of-transmission timer is pending and backing off
  exactly while its back-off timer is, and neither timer is ever scheduled while it is
  already scheduled (the kernel would stop the simulation).
\<close>
theorem prover_channel_state:
  assumes "prover_run intrand C N n s" and "\<not> crashed s"
  shows "\<not> (txrxstat s = TRANSMITING \<and> chanstat s = BUSY) \<and>
    (txrxstat s = TRANSMITING \<longleftrightarrow> armed (calls s) Txmsg) \<and> (chanstat s = BUSY \<longleftrightarrow> armed (calls s) Cbusymsg) \<and>
    clean_of Txmsg (calls s) \<and> clean_of Cbusymsg (calls s)"
  using run_inv [OF assms(1)] assms(2) by (simp add: prover_inv_def chan_ok_def)

lemma demo_alive: "\<not> crashed demo_prover"
  by (simp add: demo_prover_def construct_def readParams_def initUID_def Let_def)

theorem prover_channel_state_witness:
  "\<not> (txrxstat demo_prover = TRANSMITING \<and> chanstat demo_prover = BUSY) \<and>
   (txrxstat demo_prover = TRANSMITING \<longleftrightarrow> armed (calls demo_prover) Txmsg)"
  using prover_channel_state [OF demo_run demo_alive] by blast



end
