(* ===== verification/Collector.thy ===== *)
theory Collector
  imports Prover_Loop
begin

text \<open>
  The collector: the members of \<open>ACollector.h\<close> and the handlers of \<open>ACollector.cpp\<close>.

  A collector follows pointers to the provers (\<open>handleRevReq\<close> asks each of them for the keys
  it shares with a list, \<open>isChannelBusyServ\<close> asks one of them for its channel), so their
  states are an argument, \<open>provers\<close>. The members \<open>maxdepth\<close>, \<open>deltah\<close> and \<open>energy\<close> of a collector
  are never set by its code.
\<close>

section \<open>State\<close>

record acollector = adevice +
  CId :: cid_t
  jsessions :: "uid_t list"
  proverKeys :: "(uid_t, keyv_t) omap"
  proverKeyIds :: "(uid_t, keyid_t list) omap"
  statusTable :: "(uid_t, bool \<times> real) omap"
  csum :: "64 word"

definition MAXCID :: "32 word" where
  "MAXCID = 0x7FFFFFFF"

section \<open>Start\<close>

text \<open>The loop of \<open>initUID\<close> computes the same id again: it ends at once or never.\<close>

definition collector_initUID :: "acollector \<Rightarrow> acollector option" where
  "collector_initUID s =
     (let c = (baseID + of_nat (moduleIndex s)) mod MAXCID
      in if c = 0 then None else Some (s\<lparr>CId := c\<rparr>))"

definition collector_construct :: "config \<Rightarrow> nat \<Rightarrow> acollector \<Rightarrow> acollector" where
  "collector_construct C index raw = raw\<lparr>moduleIndex := index, device := NA, maxchildren := MAXCHILDREN,
     crashed := False, gatsz := 0, selfish := False, status := OFFLINE, energy := None, drange := initial_drange C,
     rootidx := 0, macdelays := [], deviceg := [], txrxstat := DIDLE, chanstat := CIDLE, procstat := PIDLE,
     msgqueue := [], pupmsg := None, calls := [], jsessions := [], proverKeys := [], proverKeyIds := [],
     statusTable := [], csum := 0\<rparr>"

definition collector_initialize :: "acollector \<Rightarrow> acollector option" where
  "collector_initialize s = map_option (\<lambda>s'. s'\<lparr>device := SERV\<rparr>) (collector_initUID s)"

definition collector_finish :: "acollector \<Rightarrow> acollector" where
  "collector_finish = fold (\<lambda>i. emit_call (CancelAndDelete i)) [Txmsg, Entxmsg, Procendmsg, Cbusymsg]"

section \<open>Join\<close>

definition updateProverKey :: "uid_t \<Rightarrow> acollector \<Rightarrow> acollector" where
  "updateProverKey uid s = s\<lparr>proverKeys := omap_put uid 0xCAFED00D (proverKeys s)\<rparr>"

definition sendJoinResp :: "env \<Rightarrow> uid_t \<Rightarrow> acollector \<Rightarrow> acollector" where
  "sendJoinResp E target s0 =
     (let s = s0\<lparr>proverKeys := omap_insert target 0 (proverKeys s0)\<rparr>;
          p = JoinResp (CId s) target (word_of_nat (maxdepth s)) (deltah s) 0
      in scheduleAt (simTime E)
           (newmsg JNRP JRP_SIZE (JoinResp (CId s) target (word_of_nat (maxdepth s)) (deltah s)
              (generateMAC p (the (map_of (proverKeys s) target))))) s)"

text \<open>\<open>proverKeyIds[senderid].push_back(kid)\<close> for every key id of the request.\<close>

definition pushKeyId :: "uid_t \<Rightarrow> keyid_t \<Rightarrow> acollector \<Rightarrow> acollector" where
  "pushKeyId uid k s =
     s\<lparr>proverKeyIds := omap_put uid ((case map_of (proverKeyIds s) uid of None \<Rightarrow> [] | Some ks \<Rightarrow> ks) @ [k])
         (proverKeyIds s)\<rparr>"

definition handleJoinReq :: "config \<Rightarrow> env \<Rightarrow> cMessage \<Rightarrow> acollector \<Rightarrow> acollector result" where
  "handleJoinReq C E msg s =
     (case mpacket msg of
        JoinReq senderid dst kids mac \<Rightarrow>
          if dst \<noteq> CId s then
            Inr (deleteMsg msg (logError ''handleJoinReq: received message with wrong dest'' s))
          else rbind (checkMAC C msg (s\<lparr>proverKeys := omap_insert senderid 0 (proverKeys s)\<rparr>)) (\<lambda>(good, s1).
            if \<not> good then Inr (deleteMsg msg (logError ''handleJoinReq: Invalid MAC'' s1))
            else
              let s2 = updateProverKey senderid (fold (pushKeyId senderid) kids s1);
                  s3 = s2\<lparr>jsessions := jsessions s2 @ [senderid],
                          statusTable := omap_put senderid (True, 0) (statusTable s2)\<rparr>
              in Inr (deleteMsg msg (sendJoinResp E senderid s3)))
      | _ \<Rightarrow> Inl BadCast)"

section \<open>Update\<close>

text \<open>\<open>while(size--) if(umsg->getReport1(size) != NOID) s++;\<close>\<close>

fun countRecords :: "uid_t list \<Rightarrow> nat \<Rightarrow> nat \<Rightarrow> nat" where
  "countRecords report 0 s = s"
| "countRecords report (Suc i) s = countRecords report i (if report ! i \<noteq> NOID then Suc s else s)"

definition collectUpReq :: "config \<Rightarrow> env \<Rightarrow> cMessage \<Rightarrow> acollector \<Rightarrow> acollector result" where
  "collectUpReq C E msg s0 =
     (let s = scheduleAt (simTime E + PROCDELAY (SCENARIO C)) procendmsg s0 in
      case mpacket msg of
        UpdateReq senderid dst rep1 rep2 t mac prf \<Rightarrow>
          let n = countRecords rep1 (length rep1) 0;
              s1 = deleteMsg msg (s\<lparr>csum := csum s + of_nat n\<rparr>);
              s2 = (if checkRecordTime E s1 then emit_call (Emit Reportsizesig (real n)) s1 else s1)
          in Inr (if RUNTIME_TEST C
                  then emit_call EndSimulation (emit_call (Emit Elapsedtimesig (simTime E)) s2) else s2)
      | _ \<Rightarrow> Inl BadCast)"

section \<open>Revocation\<close>

definition sendRevokeReq :: "config \<Rightarrow> env \<Rightarrow> uid_t \<Rightarrow> keyid_t list \<Rightarrow> acollector \<Rightarrow> acollector result" where
  "sendRevokeReq C E target kids s =
     (let p = RevokeReq target kids 0;
          msg = newmsg RVKRQ (RVK_SIZE (length kids)) (RevokeReq target kids (generateMAC p 0))
      in rbind (macDelay C (mbytes msg) s) (\<lambda>macd. Inr (scheduleAt (simTime E + macd) msg s)))"

fun revokeAll :: "config \<Rightarrow> env \<Rightarrow> (nat \<Rightarrow> aprover) \<Rightarrow> keyid_t list \<Rightarrow> nat list \<Rightarrow> acollector \<Rightarrow> acollector result" where
  "revokeAll C E provers keyids [] s = Inr s"
| "revokeAll C E provers keyids (i # is) s =
     (let revkids = sharedKeys keyids (provers i) in
      rbind (if revkids \<noteq> [] then sendRevokeReq C E (UId (provers i)) revkids s else Inr s)
        (revokeAll C E provers keyids is))"

definition handleRevokeReq :: "config \<Rightarrow> env \<Rightarrow> (nat \<Rightarrow> aprover) \<Rightarrow> cMessage \<Rightarrow> acollector \<Rightarrow> acollector result" where
  "handleRevokeReq C E provers msg s0 =
     (let s = emit_call (Emit Revokesig (-1)) s0 in
      case mpacket msg of
        RevokeReq dst kids mac \<Rightarrow>
          if numProvers E = 0 then Inl NullPointer
          else rbind (revokeAll C E provers (rev kids) [0..<numProvers E] s) (\<lambda>s'. Inr (deleteMsg msg s'))
      | _ \<Rightarrow> Inl BadCast)"

section \<open>Utilities and virtual methods\<close>

definition chooseProve :: "real \<Rightarrow> int" where
  "chooseProve p = 1"

definition chooseVerify :: "real \<Rightarrow> int" where
  "chooseVerify p = 2"

text \<open>\<open>isChannelBusyServ(drange, -1, target)\<close> senses the channel at the target.\<close>

definition isChannelBusyServ :: "env \<Rightarrow> (nat \<Rightarrow> aprover) \<Rightarrow> acollector \<Rightarrow> uid_t \<Rightarrow> bool result" where
  "isChannelBusyServ E provers s target =
     (let i = unat (target - baseID) in
      if numProvers E \<le> i then Inl NullPointer
      else if drange s = -1
      then Inr (isChannelBusyRadio (position E) (range_m (provers i)) (transmitting E) (numProvers E) i)
      else Inr (isChannelBusyFar (wiring E) (transmitting E) (nat (drange s)) None i))"

definition depreciated_collector :: "acollector \<Rightarrow> acollector result" where
  "depreciated_collector s = Inr (logError ''function is not implemented for a collector'' s)"

definition ignored :: "cMessage \<Rightarrow> acollector \<Rightarrow> acollector result" where
  "ignored msg s = Inr (deleteMsg msg s)"

definition collector_vtable :: "config \<Rightarrow> env \<Rightarrow> (nat \<Rightarrow> aprover) \<Rightarrow> acollector vtable" where
  "collector_vtable C E provers = \<lparr>
     v_sendJoinReq = depreciated_collector,
     v_handleJoinReq = handleJoinReq C E,
     v_handleJoinResp = ignored,
     v_handleJoinAck = ignored,
     v_handleJoinRespTimeOut = (\<lambda>msg. depreciated_collector),
     v_handleJoinAckTimeOut = (\<lambda>msg. depreciated_collector),
     v_startAttestation = depreciated_collector,
     v_checkSoftConfig = depreciated_collector,
     v_sendCommitReq = (\<lambda>t. depreciated_collector),
     v_handleCommitReq = ignored,
     v_handleCommitResp = ignored,
     v_handleCommitAck = ignored,
     v_handleCommitRespTimeOut = (\<lambda>msg. depreciated_collector),
     v_handleCommitAckTimeOut = (\<lambda>msg. depreciated_collector),
     v_handleUpReq = collectUpReq C E,
     v_handleUpdateTimeOut = (\<lambda>msg. depreciated_collector),
     v_handleRevReq = handleRevokeReq C E provers,
     v_sendRevReq = sendRevokeReq C E,
     v_sendSyncReq = Inr,
     v_handleSyncReq = (\<lambda>msg. Inr),
     v_isChannelBusyServ = isChannelBusyServ E provers\<rparr>"

section \<open>Counting\<close>

lemma countRecords_eq: "i \<le> length xs \<Longrightarrow> countRecords xs i k = k + length (filter (\<lambda>u. u \<noteq> NOID) (take i xs))"
  by (induction xs i k rule: countRecords.induct) (auto simp: take_Suc_conv_app_nth)

lemma emit_call_collector [simp]: "csum (emit_call c s) = csum s" "crashed (emit_call c t) = crashed t"
  by (simp_all add: emit_call_def)

text \<open>
  Every update a collector receives raises its total by the number of records of the
  report, separators not counted (modulo the width of \<open>size_t\<close>), and keeps the collector
  busy for the processing delay; in the runtime test it ends the simulation.
\<close>
theorem collector_counts_records:
  assumes "mpacket msg = UpdateReq src dst us cs t mac ps"
  shows "\<exists>s'. collectUpReq C E msg s = Inr s' \<and> csum s' = csum s + of_nat (length (filter (\<lambda>u. u \<noteq> NOID) us)) \<and>
    ScheduleAt (simTime E + PROCDELAY (SCENARIO C)) procendmsg \<in> set (calls s') \<and>
    (RUNTIME_TEST C \<longleftrightarrow> hd (calls s') = EndSimulation)"
  using assms by (simp add: collectUpReq_def Let_def countRecords_eq call_defs)

theorem collector_counts_records_witness:
  "\<forall>C E s. \<exists>s'. collectUpReq C E (newmsg UPRQC 0 (UpdateReq 4 1 [4, 0, 5] [1, 0, 1] 7 0 [])) s = Inr s' \<and>
     csum s' = csum s + 2"
  using collector_counts_records [of "newmsg UPRQC 0 (UpdateReq 4 1 [4, 0, 5] [1, 0, 1] 7 0 [])" 4 1 "[4, 0, 5]" "[1, 0, 1]" 7 0 "[]"]
  by (fastforce simp: newmsg_def NOID_def)

section \<open>Joining\<close>

lemma omap_put_put [simp]: "omap_put k v (omap_put k w m) = omap_put k v m"
  by (induction k w m rule: omap_put.induct) auto

definition keyIdsOf :: "uid_t \<Rightarrow> acollector \<Rightarrow> keyid_t list" where
  "keyIdsOf u s = (case map_of (proverKeyIds s) u of None \<Rightarrow> [] | Some ks \<Rightarrow> ks)"

lemma fold_pushKeyId:
  "fold (pushKeyId u) ks s =
     (if ks = [] then s else s\<lparr>proverKeyIds := omap_put u (keyIdsOf u s @ ks) (proverKeyIds s)\<rparr>)"
proof (induction ks arbitrary: s)
  case (Cons k ks)
  then show ?case by (auto simp: pushKeyId_def keyIdsOf_def)
qed simp

lemma serv_macDelay:
  assumes "device s = SERV" and "SCENARIO C \<in> {FADIA, PASTA}"
  shows "\<exists>d. macDelay C b s = Inr d"
proof -
  have "ok (\<lambda>_. True) (macDelay C b s)"
    using assms by (cases "SCENARIO C") (auto simp: macDelay_def)
  then show ?thesis by (simp add: ok_eq)
qed

text \<open>
  A join request for this collector is answered: the prover is recorded as alive, gets
  the collector key, its key ids are added to those known of it, the key ids of other provers
  stay, and a response to it is scheduled at once.
\<close>
theorem join_registers_prover:
  assumes "mpacket msg = JoinReq src (CId s) kids 0" and "device s = SERV" and "SCENARIO C \<in> {FADIA, PASTA}"
  shows "\<exists>s' m. handleJoinReq C E msg s = Inr s' \<and>
    map_of (proverKeys s') = (map_of (proverKeys s))(src \<mapsto> 0xCAFED00D) \<and>
    keyIdsOf src s' = keyIdsOf src s @ kids \<and> (\<forall>u. u \<noteq> src \<longrightarrow> keyIdsOf u s' = keyIdsOf u s) \<and>
    map_of (statusTable s') = (map_of (statusTable s))(src \<mapsto> (True, 0)) \<and> jsessions s' = jsessions s @ [src] \<and>
    calls s' = DeleteMsg msg # ScheduleAt (simTime E) m # calls s \<and> mkind m = JNRP \<and>
    mpacket m = JoinResp (CId s) src (word_of_nat (maxdepth s)) (deltah s) 0"
proof -
  from serv_macDelay [OF assms(2,3)] obtain d where d: "macDelay C (mbytes msg) s = Inr d" ..
  then have "macDelay C (mbytes msg) (s\<lparr>proverKeys := x\<rparr>) = Inr d" for x by (simp add: macDelay_def)
  moreover have "map_of (omap_insert src 0 (omap_put src v (omap_insert src 0 m))) = (map_of m)(src \<mapsto> v)"
    for v :: keyv_t and m
    by (auto simp: map_of_omap_insert fun_eq_iff split: option.split)
  ultimately show ?thesis
    using assms(1)
    by (simp add: handleJoinReq_def checkMAC_def fold_pushKeyId Let_def updateProverKey_def sendJoinResp_def call_defs
        generateMAC_def newmsg_def keyIdsOf_def)
qed

definition demo_collector :: acollector where
  "demo_collector = \<lparr>moduleIndex = 0, device = SERV, maxdepth = 3, maxchildren = MAXCHILDREN, deltah = 1000, deltag = 0, aggsize = 0,
     crashed = False, gatsz = 0, statadapt = False, range_m = 0, selfish = False, status = OFFLINE, energy = None,
     drange = -1, rootidx = 0, countcrash = 0, KRsize = 0, KPsize = 0, macdelays = [], deviceg = [], txrxstat = DIDLE,
     chanstat = CIDLE, procstat = PIDLE, msgqueue = [], pupmsg = None, calls = [], CId = 1, jsessions = [],
     proverKeys = [], proverKeyIds = [], statusTable = [], csum = 0\<rparr>"

theorem join_registers_prover_witness:
  "\<exists>s'. handleJoinReq wired_build demo_env (newmsg JNRQ 48 (JoinReq 4 1 [8, 9] 0)) demo_collector = Inr s' \<and>
     keyIdsOf 4 s' = [8, 9]"
proof -
  let ?m = "newmsg JNRQ 48 (JoinReq 4 1 [8, 9] 0)"
  have "mpacket ?m = JoinReq 4 (CId demo_collector) [8, 9] 0" "device demo_collector = SERV" "SCENARIO wired_build \<in> {FADIA, PASTA}"
    by (simp_all add: newmsg_def demo_collector_def wired_build_def)
  from join_registers_prover [OF this, of demo_env] show ?thesis
    by (auto simp: keyIdsOf_def demo_collector_def)
qed

section \<open>Revocation\<close>

text \<open>The requests a list of scheduled messages carries.\<close>

definition revocations :: "call list \<Rightarrow> (uid_t \<times> keyid_t list) list" where
  "revocations cs = concat (map (\<lambda>c. case c of
       ScheduleAt t m \<Rightarrow> (case mpacket m of RevokeReq u ks mac \<Rightarrow> [(u, ks)] | _ \<Rightarrow> []) | _ \<Rightarrow> []) cs)"

lemma revocations_Cons [simp]: "revocations (c # cs) = revocations [c] @ revocations cs"
  by (simp add: revocations_def)

lemma revocations_Nil [simp]: "revocations [] = []"
  by (simp add: revocations_def)

lemma revokeAll_eq:
  assumes "device s = SERV" and "SCENARIO C \<in> {FADIA, PASTA}"
  shows "\<exists>cs. revokeAll C E provers keyids is s = Inr (s\<lparr>calls := cs @ calls s\<rparr>) \<and>
    rev (revocations cs) = map (\<lambda>i. (UId (provers i), sharedKeys keyids (provers i)))
      (filter (\<lambda>i. sharedKeys keyids (provers i) \<noteq> []) is)"
  using assms(1)
proof (induction "is" arbitrary: s)
  case (Cons i "is")
  show ?case
  proof (cases "sharedKeys keyids (provers i) = []")
    case True
    with Cons show ?thesis by simp
  next
    case False
    let ?ks = "sharedKeys keyids (provers i)"
    let ?m = "newmsg RVKRQ (RVK_SIZE (length ?ks)) (RevokeReq (UId (provers i)) ?ks 0)"
    from serv_macDelay [OF Cons.prems assms(2)] obtain d where d: "macDelay C (mbytes ?m) s = Inr d" ..
    let ?c = "ScheduleAt (simTime E + d) ?m"
    have "device (s\<lparr>calls := ?c # calls s\<rparr>) = SERV" using Cons.prems by simp
    from Cons.IH [OF this] obtain cs where
      cs: "revokeAll C E provers keyids is (s\<lparr>calls := ?c # calls s\<rparr>) = Inr (s\<lparr>calls := (cs @ [?c]) @ calls s\<rparr>)"
        "rev (revocations cs) = map (\<lambda>i. (UId (provers i), sharedKeys keyids (provers i)))
          (filter (\<lambda>i. sharedKeys keyids (provers i) \<noteq> []) is)" by auto
    have "revocations (cs @ [?c]) = revocations cs @ [(UId (provers i), ?ks)]"
      by (simp add: revocations_def newmsg_def)
    with cs False d show ?thesis
      by (intro exI [of _ "cs @ [?c]"]) (simp add: sendRevokeReq_def Let_def generateMAC_def call_defs)
  qed
next
  case Nil
  then show ?case by (intro exI [of _ "[]"]) simp
qed



section \<open>The collector in the simulation\<close>

lemma isChannelBusyServ_call [simp]: "isChannelBusyServ E provers (emit_call c s) = isChannelBusyServ E provers s"
  by (simp add: isChannelBusyServ_def emit_call_def Let_def fun_eq_iff)

text \<open>
  In the energy build the first message a collector sends to a prover follows the pointer
  \<open>energy\<close>, which no code of the collector sets: whatever the collector's state, a response or
  a revocation for an existing prover faults as soon as the channel is free.
\<close>
theorem collector_send_faults_in_energy_build:
  assumes "ENERGY_TEST C" and "WIRELESS C" and "energy s = None" and "device s = SERV" and "\<not> crashed s"
    and "txrxstat s = DIDLE" and "chanstat s = CIDLE" and "mself m"
    and "mkind m = JNRP \<and> is_JoinResp (mpacket m) \<or> mkind m = RVKRQ \<and> is_RevokeReq (mpacket m)"
    and "isChannelBusyServ E provers s (pdest (mpacket m)) = Inr False"
    and "proverIndex (pdest (mpacket m)) < numProvers E"
  shows "deliver C E (collector_vtable C E provers) m s = Inl NullPointer"
proof -
  let ?V = "collector_vtable C E provers" and ?s = "emit_call (Delivered (mid m)) s"
  have "v_isChannelBusyServ ?V ?s (pdest (mpacket m)) = Inr False"
    using assms(10) by (simp add: collector_vtable_def)
  moreover have "startTx C E bl d a = Inl NullPointer" if "energy a = None" for bl d and a :: acollector
    using that assms(1) by (simp add: startTx_def setPower_def)
  ultimately have send: "sendProver C E (v_isChannelBusyServ ?V ?s) is_T m ?s = Inl NullPointer" if "is_T (mpacket m)" for is_T
    using that assms(2,3,4,6,7,11) by (simp add: sendProver_def Let_def not_le)
  show ?thesis
    using assms(9) send [of is_JoinResp] send [of is_RevokeReq] deliver_self [OF assms(8,5)]
    by (elim disjE conjE) (simp_all add: handleSelf_def)
qed

definition energy_build :: config where
  "energy_build = \<lparr>RUNTIME_TEST = False, ENERGY_TEST = True, WIRELESS = True, REVOKE_TEST = True, TREE = False,
     SCENARIO = FADIA\<rparr>"

theorem collector_send_faults_in_energy_build_witness:
  "deliver energy_build demo_env (collector_vtable energy_build demo_env (\<lambda>i. demo_prover))
     (newmsg RVKRQ 0 (RevokeReq 1 [1] 0)) demo_collector = Inl NullPointer"
proof (rule collector_send_faults_in_energy_build)
  let ?m = "newmsg RVKRQ 0 (RevokeReq 1 [1] 0)"
  show "isChannelBusyServ demo_env (\<lambda>i. demo_prover) demo_collector (pdest (mpacket ?m)) = Inr False"
    by (simp add: isChannelBusyServ_def newmsg_def demo_env_def demo_collector_def baseID_def isChannelBusyRadio_def list_ex_iff)
  show "proverIndex (pdest (mpacket ?m)) < numProvers demo_env"
    by (simp add: newmsg_def demo_env_def proverIndex_def baseID_def)
qed (simp_all add: energy_build_def demo_collector_def newmsg_def)

text \<open>Events of a collector in the runtime test.\<close>

definition collector_packet :: "nat \<Rightarrow> cMessage \<Rightarrow> bool" where
  "collector_packet N m \<longleftrightarrow> mself m \<and> mid m = Newmsg \<and> unat (pdest (mpacket m) - baseID) < N \<and>
     (mkind m = JNRP \<and> is_JoinResp (mpacket m) \<or> mkind m = RVKRQ \<and> is_RevokeReq (mpacket m))"

definition collector_sched :: "nat \<Rightarrow> cMessage \<Rightarrow> bool" where
  "collector_sched N m \<longleftrightarrow> collector_packet N m \<or> m \<in> {txmsg, cbusymsg, collbusymsg, entxmsg, procendmsg}"

text \<open>What a collector schedules, and what it sends.\<close>

fun collector_call :: "nat \<Rightarrow> call \<Rightarrow> bool" where
  "collector_call N (ScheduleAt t m) = collector_sched N m"
| "collector_call N (SendProver i t m) = collector_packet N m"
| "collector_call N (SendCollector i t m) = collector_packet N m"
| "collector_call N (SendGate g m) = collector_packet N m"
| "collector_call N _ = True"

definition collector_inv :: "config \<Rightarrow> nat \<Rightarrow> acollector \<Rightarrow> bool" where
  "collector_inv C N s \<longleftrightarrow> device s = SERV \<and> \<not> crashed s \<and> list_all (collector_packet N) (msgqueue s) \<and>
     (\<forall>m. pupmsg s = Some m \<longrightarrow> collector_packet N m) \<and>
     chan_ok s \<and> (\<forall>c \<in> set (calls s). collector_call N c)"

definition runtime_ok :: "config \<Rightarrow> nat \<Rightarrow> env \<Rightarrow> (nat \<Rightarrow> aprover) \<Rightarrow> bool" where
  "runtime_ok C N E provers \<longleftrightarrow> compiles C \<and> RUNTIME_TEST C \<and> SCENARIO C \<in> {FADIA, PASTA} \<and> numProvers E = N \<and> 0 < N \<and>
     (\<forall>i < N. unat (UId (provers i) - baseID) < N)"

lemma collector_send:
  assumes inv: "collector_inv C N s" and R: "runtime_ok C N E provers" and m: "collector_packet N m" and T: "is_T (mpacket m)"
  shows "ok (\<lambda>s'. collector_inv C N s' \<and> length (msgqueue s) \<le> length (msgqueue s'))
    (sendProver C E (isChannelBusyServ E provers s) is_T m s)"
proof -
  have C: "\<not> ENERGY_TEST C" "\<not> WIRELESS C" using R by (auto simp: runtime_ok_def compiles_def)
  have "ok (\<lambda>_. True) (isChannelBusyServ E provers s (pdest (mpacket m)))"
    using m R by (simp add: isChannelBusyServ_def Let_def collector_packet_def runtime_ok_def not_le)
  with C T have "ok (send_ok m s) (sendProver C E (isChannelBusyServ E provers s) is_T m s)"
    by (intro sendProver_ok) auto
  then show ?thesis
  proof (rule ok_mono)
    fix s' assume "send_ok m s s'"
    then have io: "core s' = core s" "msgqueue s' \<in> {msgqueue s, msgqueue s @ [m]}" "pupmsg s' \<in> {None, pupmsg s, Some m}"
      "\<forall>c \<in> set (calls s'). c \<in> set (calls s) \<or> io_call m c" "chan_ok s \<longrightarrow> chan_ok s'"
      by (auto simp: send_ok_def io_step_def)
    have "device s' = device s" "crashed s' = crashed s"
      using arg_cong [OF io(1), of device] arg_cong [OF io(1), of crashed] by (simp_all add: core_def)
    moreover have "io_call m c \<Longrightarrow> collector_call N c" for c
      using m by (cases c) (auto simp: collector_sched_def)
    then have "\<forall>c \<in> set (calls s'). collector_call N c"
      using inv io(4) by (auto simp: collector_inv_def)
    ultimately show "collector_inv C N s' \<and> length (msgqueue s) \<le> length (msgqueue s')"
      using inv io(2,3,5) m by (auto simp: collector_inv_def)
  qed
qed

lemma collector_handles:
  assumes inv: "collector_inv C N s" and R: "runtime_ok C N E provers" and m: "collector_packet N m"
  shows "ok (\<lambda>s'. collector_inv C N s' \<and> length (msgqueue s) \<le> length (msgqueue s'))
    (handleMessage C E (collector_vtable C E provers) 1 m s)"
proof -
  have V: "v_isChannelBusyServ (collector_vtable C E provers) s = isChannelBusyServ E provers s"
    by (simp add: collector_vtable_def)
  have "\<not> crashed s" "mself m" using inv m by (simp_all add: collector_inv_def collector_packet_def)
  with m show ?thesis
    using collector_send [OF inv R m, of is_JoinResp] collector_send [OF inv R m, of is_RevokeReq]
    by (auto simp: collector_packet_def handleSelf_def V)
qed

lemma collector_inv_call:
  assumes "collector_inv C N s" and "timerless c" and "collector_call N c"
  shows "collector_inv C N (emit_call c s)"
  using assms by (auto simp: collector_inv_def chan_ok_call)

interpretation collector_queue: message_loop C E "collector_vtable C E provers"
  "\<lambda>s. runtime_ok C N E provers \<and> collector_inv C N s" "collector_packet N" for C E provers N
proof
  fix s :: acollector and m x t
  assume inv: "runtime_ok C N E provers \<and> collector_inv C N s"
  then show "list_all (collector_packet N) (msgqueue s) \<and> (\<forall>m. pupmsg s = Some m \<longrightarrow> collector_packet N m)"
    by (simp add: collector_inv_def)
  show "runtime_ok C N E provers \<and> collector_inv C N (s\<lparr>msgqueue := tl (msgqueue s)\<rparr>)"
    using inv by (cases "msgqueue s") (auto simp: collector_inv_def chan_ok_def)
  show "runtime_ok C N E provers \<and> collector_inv C N (logError t s)"
    using inv unfolding logError_def by (auto intro!: collector_inv_call simp: timerless_def)
  show "ok (\<lambda>s. runtime_ok C N E provers \<and> collector_inv C N s) (setPower E x s)" if "ENERGY_TEST C"
    using inv that by (auto simp: runtime_ok_def compiles_def)
  show "ok (\<lambda>s'. (runtime_ok C N E provers \<and> collector_inv C N s') \<and> length (msgqueue s) \<le> length (msgqueue s'))
      (handleMessage C E (collector_vtable C E provers) 1 m s)" if "collector_packet N m"
    using collector_handles [of C N s E provers m] inv that by (auto simp: ok_eq)
next
  fix m show "collector_packet N m \<Longrightarrow> \<not> loops m"
    by (auto simp: collector_packet_def loops_def)
qed

text \<open>The messages that reach a collector: requests of provers, of the class their kind names.\<close>

definition collector_event :: "nat \<Rightarrow> cMessage \<Rightarrow> acollector \<Rightarrow> bool" where
  "collector_event N m s \<longleftrightarrow>
     (if mself m then pending m s
      else mkind m = JNRQ \<and> is_JoinReq (mpacket m) \<and> unat (psource (mpacket m) - baseID) < N \<or>
        mkind m \<in> {UPRQ, UPRQC, UPRQF} \<and> is_UpdateReq (mpacket m) \<or> mkind m = RVKRQ \<and> is_RevokeReq (mpacket m) \<or>
        mkind m \<in> {JNRP, JNAK, CMRQ, CMRP, CMAK})"

lemma collector_inv_upd [simp]:
  "collector_inv C N (s\<lparr>csum := a\<rparr>) = collector_inv C N s"
  "collector_inv C N (s\<lparr>proverKeys := b\<rparr>) = collector_inv C N s"
  "collector_inv C N (s\<lparr>proverKeyIds := c\<rparr>) = collector_inv C N s"
  "collector_inv C N (s\<lparr>jsessions := d\<rparr>) = collector_inv C N s"
  "collector_inv C N (s\<lparr>statusTable := e\<rparr>) = collector_inv C N s"
  "collector_inv C N (s\<lparr>macdelays := f\<rparr>) = collector_inv C N s"
  "collector_inv C N (s\<lparr>procstat := g\<rparr>) = collector_inv C N s"
  by (simp_all add: collector_inv_def chan_ok_def)

lemma collector_inv_plain [simp]:
  assumes "collector_inv C N s"
  shows "collector_inv C N (logError x s)" "collector_inv C N (deleteMsg m s)" "collector_inv C N (emit_call (Emit y v) s)"
    "collector_inv C N (emit_call EndSimulation s)"
  using assms unfolding logError_def deleteMsg_def by (auto intro!: collector_inv_call simp: timerless_def)

lemma collector_inv_packet:
  "collector_inv C N s \<Longrightarrow> collector_packet N m \<Longrightarrow> collector_inv C N (scheduleAt t m s)"
  unfolding scheduleAt_def by (rule collector_inv_call) (auto simp: timerless_def collector_packet_def collector_sched_def)

lemma collectUpReq_inv:
  assumes inv: "collector_inv C N s" and "is_UpdateReq (mpacket m)"
  shows "ok (collector_inv C N) (collectUpReq C E m s)"
proof -
  have "collector_inv C N (scheduleAt t procendmsg s)" for t
    using inv by (auto simp: collector_inv_def chan_ok_def scheduleAt_def collector_sched_def)
  with assms(2) show ?thesis by (cases "mpacket m") (auto simp: collectUpReq_def Let_def)
qed

lemma handleJoinReq_inv:
  assumes inv: "collector_inv C N s" and "is_JoinReq (mpacket m)" and src: "unat (psource (mpacket m) - baseID) < N"
    and sc: "SCENARIO C \<in> {FADIA, PASTA}"
  shows "ok (collector_inv C N) (handleJoinReq C E m s)"
proof -
  obtain u dst kids mac where p: "mpacket m = JoinReq u dst kids mac" using assms(2) by (cases "mpacket m") auto
  have "device s = SERV" using inv by (simp add: collector_inv_def)
  from serv_macDelay [OF this sc] obtain d where "macDelay C (mbytes m) s = Inr d" ..
  then have d: "macDelay C (mbytes m) (s\<lparr>proverKeys := x\<rparr>) = Inr d" for x by (simp add: macDelay_def)
  have pkt: "collector_packet N (newmsg JNRP JRP_SIZE (JoinResp c u dp dh mc))" for c dp dh mc
    using src p by (simp add: collector_packet_def newmsg_def)
  have fold: "collector_inv C N (fold (pushKeyId u) kids a) = collector_inv C N a" for a
    by (simp add: fold_pushKeyId)
  show ?thesis
    using inv p by (auto simp: handleJoinReq_def checkMAC_def d Let_def updateProverKey_def fold sendJoinResp_def
        intro!: collector_inv_plain collector_inv_packet pkt)
qed

lemma handleRevokeReq_inv:
  assumes inv: "collector_inv C N s" and "is_RevokeReq (mpacket m)" and R: "runtime_ok C N E provers"
  shows "ok (collector_inv C N) (handleRevokeReq C E provers m s)"
proof -
  obtain dst kids mac where p: "mpacket m = RevokeReq dst kids mac" using assms(2) by (cases "mpacket m") auto
  have all: "ok (collector_inv C N) (revokeAll C E provers ks is a)"
    if "collector_inv C N a" "\<forall>i \<in> set is. i < N" for ks "is" a
    using that
  proof (induction "is" arbitrary: a)
    case (Cons i "is")
    let ?ks = "sharedKeys ks (provers i)"
    have "device a = SERV" "SCENARIO C \<in> {FADIA, PASTA}" using Cons.prems R by (simp_all add: collector_inv_def runtime_ok_def)
    from serv_macDelay [OF this] obtain d where
      "macDelay C (mbytes (newmsg RVKRQ (RVK_SIZE (length ?ks)) (RevokeReq (UId (provers i)) ?ks 0))) a = Inr d" ..
    moreover have "collector_packet N (newmsg RVKRQ (RVK_SIZE (length ?ks)) (RevokeReq (UId (provers i)) ?ks 0))"
      using Cons.prems R by (simp add: collector_packet_def newmsg_def runtime_ok_def)
    ultimately show ?case
      using Cons by (auto simp: sendRevokeReq_def Let_def generateMAC_def intro: collector_inv_packet)
  qed simp
  have "numProvers E = N" "0 < N" using R by (simp_all add: runtime_ok_def)
  then show ?thesis
    using p all [of "emit_call (Emit Revokesig (-1)) s" "[0..<N]" "rev kids"] inv
    by (auto simp: handleRevokeReq_def Let_def ok_eq)
qed

lemma collector_delivered:
  assumes "collector_inv C N s" and "i \<noteq> Txmsg" and "i \<noteq> Cbusymsg"
  shows "collector_inv C N (emit_call (Delivered i) s)"
  using assms by (auto simp: collector_inv_def chan_ok_def)

lemma collector_event_inv:
  assumes inv: "collector_inv C N s" and R: "runtime_ok C N E provers" and ev: "collector_event N m s"
  shows "ok (collector_inv C N) (deliver C E (collector_vtable C E provers) m s)"
proof (cases "mself m")
  case False
  have alive: "\<not> crashed s" "device s = SERV" using inv by (simp_all add: collector_inv_def)
  have sc: "SCENARIO C \<in> {FADIA, PASTA}" using R by (simp add: runtime_ok_def)
  have gate: "updateGates C E is_T m s = Inr s" for is_T using alive by (simp add: updateGates_def)
  have "deliver C E (collector_vtable C E provers) m s = handleNetwork C E (collector_vtable C E provers) m s"
    using False alive by (simp add: deliver_def numeral_2_eq_2)
  with False ev show ?thesis
    using collectUpReq_inv [OF inv, of m E] handleJoinReq_inv [OF inv _ _ sc, of m E] handleRevokeReq_inv [OF inv _ R, of m] inv
    by (auto simp: collector_event_def handleNetwork_def gate handleJoinMsg_def handleCommitMsg_def handleUpMsg_def
        handleRevMsg_def collector_vtable_def ignored_def)
next
  case True
  let ?V = "collector_vtable C E provers" and ?s = "emit_call (Delivered (mid m)) s"
  have alive: "\<not> crashed s" using inv by (simp add: collector_inv_def)
  from True ev have p: "pending m s" by (simp add: collector_event_def)
  with inv have "collector_sched N m" by (auto simp: pending_def collector_inv_def)
  then consider (packet) "collector_packet N m" | (tx) "m = txmsg" | (busy) "m = cbusymsg"
    | (other) "m = collbusymsg \<or> m = entxmsg \<or> m = procendmsg" by (auto simp: collector_sched_def)
  then show ?thesis
  proof cases
    case packet
    then have "collector_inv C N ?s" using inv by (intro collector_delivered) (auto simp: collector_packet_def)
    from collector_handles [OF this R packet] have "ok (collector_inv C N) (handleMessage C E ?V 1 m ?s)"
      by (rule ok_mono) simp
    moreover have "handleMessage C E ?V 2 m ?s = handleMessage C E ?V 1 m ?s"
      using handleMessage_no_loop [of m C E ?V 1 ?s] collector_queue.no_loop [OF packet]
      by (simp add: numeral_2_eq_2 del: handleMessage.simps)
    ultimately show ?thesis using True by (simp add: deliver_def del: handleMessage.simps)
  next
    case tx
    with p have a: "armed (calls s) Txmsg" by (simp add: pending_def)
    with inv tx have "collector_inv C N (?s\<lparr>txrxstat := DIDLE\<rparr>)"
      by (auto simp: collector_inv_def chan_ok_def emit_call_def)
    with R collector_queue.serveQueue_inv [of C N E provers "?s\<lparr>txrxstat := DIDLE\<rparr>"] tx True alive show ?thesis
      by (auto simp: deliver_self handleSelf_def handleTxDoneMsg_def timer_defs ok_eq)
  next
    case busy
    with p have a: "armed (calls s) Cbusymsg" by (simp add: pending_def)
    with inv busy have "collector_inv C N (?s\<lparr>chanstat := CIDLE\<rparr>)"
      by (auto simp: collector_inv_def chan_ok_def emit_call_def)
    with R collector_queue.serveQueue_inv [of C N E provers "?s\<lparr>chanstat := CIDLE\<rparr>"] busy True alive show ?thesis
      by (auto simp: deliver_self handleSelf_def handlePostponeDoneMsg_def timer_defs ok_eq)
  next
    case other
    then have i: "collector_inv C N ?s" using inv by (intro collector_delivered) auto
    with other R collector_queue.handlePostponeUpMsg_inv [of C N E provers ?s] True alive show ?thesis
      by (auto simp: deliver_self handleSelf_def handleProcDoneMsg_def timer_defs ok_eq runtime_ok_def compiles_def)
  qed
qed

text \<open>The states of a collector in the runtime test.\<close>

inductive collector_run :: "config \<Rightarrow> nat \<Rightarrow> acollector \<Rightarrow> bool" for C N where
  start: "collector_initialize (collector_construct C index raw) = Some s \<Longrightarrow> collector_run C N s"
| event: "collector_run C N s \<Longrightarrow> runtime_ok C N E provers \<Longrightarrow> collector_event N m s \<Longrightarrow>
    deliver C E (collector_vtable C E provers) m s = Inr s' \<Longrightarrow> collector_run C N s'"

lemma collector_run_inv: "collector_run C N s \<Longrightarrow> collector_inv C N s"
proof (induction rule: collector_run.induct)
  case (start index raw s)
  then show ?case
    by (auto simp: collector_initialize_def collector_initUID_def collector_construct_def Let_def collector_inv_def chan_ok_def
        split: if_splits)
next
  case (event s E provers m s')
  then show ?case using collector_event_inv [OF event.IH event.hyps(2,3)] by simp
qed



text \<open>
  A MAC check of a collector divides by zero in the PADS and SALADS scenarios: the delay of
  a server is that of a Raspberry Pi, which these scenarios define as \<open>1 / 0\<close>. Every join
  request with the collector's id faults.
\<close>
theorem collector_join_divides_by_zero:
  assumes "device s = SERV" and "SCENARIO C = PADS \<or> SCENARIO C = SALADS" and "mpacket msg = JoinReq src (CId s) kids mac"
  shows "handleJoinReq C E msg s = Inl DivisionByZero"
  using assms by (auto simp: handleJoinReq_def checkMAC_def macDelay_def)

theorem collector_join_divides_by_zero_witness:
  "\<forall>E. handleJoinReq (wired_build\<lparr>SCENARIO := PADS\<rparr>) E (newmsg JNRQ 48 (JoinReq 4 1 [8, 9] 0)) demo_collector = Inl DivisionByZero"
  by (intro allI collector_join_divides_by_zero) (simp_all add: demo_collector_def newmsg_def)

end

