(* ===== verification/Attestation.thy ===== *)
theory Attestation
  imports Collector
begin

text \<open>
  One attestation round, from the leaves of a spanning tree to the collector.

  A node of the tree is a prover with an open commitment: it handles the updates of its
  children in the order they arrive and schedules its own update when the last one is in
  (\<open>handleUpReq\<close>); a leaf schedules its update at once (\<open>sendUpReq\<close>). The theorems say what is in
  the scheduled update, and what the collector counts when the root's update reaches it.
\<close>

section \<open>The updates a device scheduled\<close>

definition updates :: "call list \<Rightarrow> cMessage list" where
  "updates cs = concat (map (\<lambda>c. case c of ScheduleAt t m \<Rightarrow> if is_UpdateReq (mpacket m) then [m] else [] | _ \<Rightarrow> []) cs)"

lemma updates_simps [simp]:
  "updates [] = []"
  "updates (ScheduleAt t m # cs) = (if is_UpdateReq (mpacket m) then m # updates cs else updates cs)"
  "updates (CancelAndDelete i # cs) = updates cs"
  "updates (DeleteMsg m # cs) = updates cs"
  "updates (Emit x v # cs) = updates cs"
  by (simp_all add: updates_def)

text \<open>The update of a prover with report \<open>r\<close> for the tree \<open>t\<close>.\<close>

definition update_of :: "aprover \<Rightarrow> treeid_t \<Rightarrow> report_t \<Rightarrow> cMessage" where
  "update_of s t r = newmsg (if pfirst s \<noteq> NOID then UPRQ else UPRQC) (URQ_SIZE (unat (rsize r)) (length (proofs r)))
     (UpdateReq (UId s) (if pfirst s \<noteq> NOID then pfirst s else baseID) (uids r) (counters r) t 0 (proofs r))"

lemma sendUpReq_update:
  assumes st: "static_inv C N n s" and rep: "report_ok n (aggreport s)" and "psecond s \<noteq> None"
  shows "\<exists>r s'. addOwnReport n (UId s) (attestcount s) ((aggreport s)\<lparr>tid := t\<rparr>) = Inr (r, attestcount s + 1) \<and>
    report_ok n r \<and> sendUpReq C E t s = Inr s' \<and> status s' = FINISHED \<and>
    updates (calls s') = update_of s t r # updates (calls s)"
proof -
  let ?r0 = "(aggreport s)\<lparr>tid := t\<rparr>"
  have r0: "report_ok n ?r0" using rep by (simp add: report_ok_def)
  have n: "0 < n" "aggsize s = n" "UId s \<noteq> NOID" using st by (auto simp: static_inv_def valid_uid_def)
  from addOwnReport_ok [OF r0 n(1,3), of "attestcount s"] obtain r where
    r: "addOwnReport n (UId s) (attestcount s) ?r0 = Inr (r, attestcount s + 1)" "report_ok n r" by blast
  have len: "length (counters r) = length (uids r)" using r(2) by (simp add: report_ok_def wire_ok_def)
  obtain sess where sess: "psecond s = Some sess" using assms(3) by blast
  define s1 where "s1 = s\<lparr>aggreport := r, attestcount := attestcount s + 1\<rparr>"
  have "static_inv C N n s1" using st by (simp add: s1_def)
  from macTime_ok [OF this, of "update_of s t r"] obtain d where
    d: "macTime C (update_of s t r) s1 = Inr (d, s1\<lparr>macdelays := []\<rparr>)" ..
  have "sendUpReq C E t s = Inr ((scheduleMac C E d (update_of s t r) (s1\<lparr>macdelays := []\<rparr>))\<lparr>csessions :=
      omap_erase NOID (csessions s), psecond := None, pfirst := NOID, status := FINISHED\<rparr>)"
    using r(1) n(2) len sess d
    by (cases "pfirst s = NOID")
       (simp_all add: sendUpReq_def Let_def generateMAC_def s1_def update_of_def findClosestCollector_def scheduleMac_eq)
  moreover have "is_UpdateReq (mpacket (update_of s t r))" by (simp add: update_of_def newmsg_def)
  ultimately show ?thesis using r by (auto simp: scheduleMac_eq s1_def newmsg_def)
qed

section \<open>A collecting prover\<close>

text \<open>
  A prover that waits for the reports of the children \<open>U\<close> of the tree \<open>t\<close>, with what it has
  collected so far.
\<close>

definition collecting :: "config \<Rightarrow> nat \<Rightarrow> nat \<Rightarrow> treeid_t \<Rightarrow> uid_t set \<Rightarrow> aprover \<Rightarrow> bool" where
  "collecting C N n t U s \<longleftrightarrow> static_inv C N n s \<and> (status s = COLLECTING \<or> status s = CREATING) \<and>
     (\<exists>x. psecond s = Some x \<and> treeID x = t) \<and> omap_wf (csessions s) \<and>
     dom (map_of (csessions s)) = insert NOID U \<and> NOID \<notin> U \<and> report_ok n (aggreport s)"

text \<open>What the tree and the report of the prover are addressed with.\<close>

definition same_node :: "aprover \<Rightarrow> aprover \<Rightarrow> bool" where
  "same_node s s' \<longleftrightarrow> UId s' = UId s \<and> pfirst s' = pfirst s \<and> attestcount s' = attestcount s \<and>
     updates (calls s') = updates (calls s)"

lemma receive_node:
  assumes "collecting C N n t U s"
  shows "ok (\<lambda>s'. collecting C N n t U s' \<and> same_node s s' \<and> aggreport s' = aggreport s) (receive C E msg s)"
proof -
  from receive_ok [of C E msg s N n] obtain e cs where
    eq: "receive C E msg s = Inr (s\<lparr>energy := e, calls := cs @ calls s\<rparr>)"
    and e: "e = None \<longleftrightarrow> energy s = None" by (elim exE conjE)
  have "ok (\<lambda>s'. updates (calls s') = updates (calls s)) (receive C E msg s)"
    unfolding receive_def Let_def
    by (cases "energy s") (auto simp: call_defs newmsg_def setPower_def)
  with eq have "updates (cs @ calls s) = updates (calls s)" by simp
  then show ?thesis
    using assms e by (simp add: eq collecting_def same_node_def static_inv_def del: not_None_eq)
qed

text \<open>An update of child \<open>u\<close> for this prover and tree.\<close>

definition child_update :: "nat \<Rightarrow> aprover \<Rightarrow> treeid_t \<Rightarrow> uid_t \<Rightarrow> wire \<Rightarrow> cMessage \<Rightarrow> bool" where
  "child_update n s t u w m \<longleftrightarrow> mkind m \<noteq> UPRQF \<and> mpacket m = UpdateReq u (UId s) (fst w) (fst (snd w)) t 0 (snd (snd w)) \<and>
     wire_ok n (fst w) (fst (snd w)) (snd (snd w))"

lemma closeChild_eq:
  assumes "\<not> TREE C"
  shows "\<exists>s1. closeChild C E u t sess s =
      (if length (omap_erase u (csessions s)) = 1 then sendUpReq C E t s1 else Inr s1) \<and>
    (\<exists>cs. s1 = s\<lparr>calls := cs @ calls s, csessions := omap_erase u (csessions s)\<rparr> \<and> updates (cs @ calls s) = updates (calls s))"
proof -
  have *: "\<exists>cs. (case tomsg sess of
      Some i \<Rightarrow> if isScheduled E (calls s) i then emit_call (CancelAndDelete i) s else s | None \<Rightarrow> s) = s\<lparr>calls := cs @ calls s\<rparr> \<and>
      updates (cs @ calls s) = updates (calls s)"
  proof (cases "\<exists>i. tomsg sess = Some i \<and> isScheduled E (calls s) i")
    case True
    then obtain i where "tomsg sess = Some i" "isScheduled E (calls s) i" by blast
    then show ?thesis by (intro exI [of _ "[CancelAndDelete i]"]) (simp add: emit_call_def)
  next
    case False
    then show ?thesis by (intro exI [of _ "[]"]) (auto split: option.split)
  qed
  then obtain cs where cs: "(case tomsg sess of
      Some i \<Rightarrow> if isScheduled E (calls s) i then emit_call (CancelAndDelete i) s else s | None \<Rightarrow> s) = s\<lparr>calls := cs @ calls s\<rparr>"
    "updates (cs @ calls s) = updates (calls s)" by blast
  show ?thesis
    using assms cs(2)
    by (intro exI [of _ "s\<lparr>calls := cs @ calls s, csessions := omap_erase u (csessions s)\<rparr>"]) (auto simp: closeChild_def cs(1) Let_def)
qed

text \<open>
  One update: it is merged and the child's session closed; with the last one the prover
  schedules its own update.
\<close>

lemma handleUpReq_step:
  assumes s: "collecting C N n t U s" and u: "u \<in> U" and m: "child_update n s t u w m" and C: "\<not> TREE C"
  shows "\<exists>a r. merge_wire n w (aggreport s) = Inr r \<and> report_ok n r \<and> aggreport a = r \<and> collecting C N n t (U - {u}) a \<and>
    same_node s a \<and> handleUpReq C E m s =
      rbind (if U = {u} then sendUpReq C E t a else Inr a) (\<lambda>s'. Inr (deleteMsg m s'))"
proof -
  from receive_node [OF s, of E m] obtain b where
    b: "receive C E m s = Inr b" "collecting C N n t U b" "same_node s b" "aggreport b = aggreport s"
    by (elim okE) auto
  obtain us cs ps where w: "w = (us, cs, ps)" by (cases w)
  with m have p: "mkind m \<noteq> UPRQF" "mpacket m = UpdateReq u (UId s) us cs t 0 ps" "wire_ok n us cs ps"
    by (simp_all add: child_update_def)
  have st: "static_inv C N n b" and n: "0 < n" "aggsize b = n" "report_ok n (aggreport b)"
    using b(2) by (auto simp: collecting_def static_inv_def)
  obtain x where x: "psecond b = Some x" "treeID x = t" using b(2) by (auto simp: collecting_def)
  obtain sess where sess: "map_of (csessions b) u = Some sess" using b(2) u by (auto simp: collecting_def)
  from checkMAC_ok [OF st, of m] p(2) obtain d where d: "checkMAC C m b = Inr (True, b\<lparr>macdelays := d\<rparr>)" by auto
  from mergeReport_ok [OF n(3) p(3) n(1)] obtain r where
    r: "mergeReport n us cs ps (aggreport b) = Inr r" "report_ok n r" by blast
  from closeChild_eq [OF C, of E u t sess "b\<lparr>macdelays := d, aggreport := r\<rparr>"] obtain ds where
    close: "closeChild C E u t sess (b\<lparr>macdelays := d, aggreport := r\<rparr>) =
      (let a = b\<lparr>macdelays := d, aggreport := r, calls := ds @ calls b, csessions := omap_erase u (csessions b)\<rparr>
       in if length (omap_erase u (csessions b)) = 1 then sendUpReq C E t a else Inr a)"
      "updates (ds @ calls b) = updates (calls b)" by (auto simp: Let_def)
  define a where "a = b\<lparr>macdelays := d, aggreport := r, calls := ds @ calls b, csessions := omap_erase u (csessions b)\<rparr>"
  have wf: "omap_wf (csessions b)" and dom: "dom (map_of (csessions b)) = insert NOID U" "NOID \<notin> U" "u \<noteq> NOID"
    using b(2) u by (auto simp: collecting_def)
  have dom': "dom (map_of (omap_erase u (csessions b))) = insert NOID (U - {u})"
    using dom by (simp add: map_of_omap_erase [OF wf] insert_Diff_if)
  have fin: "finite U" using dom(1) finite_dom_map_of [of "csessions b"] by simp
  have "length (omap_erase u (csessions b)) = Suc (card (U - {u}))"
    using length_omap_card [OF omap_wf_erase [OF wf], of u] dom' fin dom by simp
  moreover have "card (U - {u}) = 0 \<longleftrightarrow> U = {u}" unfolding card_0_eq [OF finite_Diff [OF fin]] using u by auto
  ultimately have last: "length (omap_erase u (csessions b)) = Suc 0 \<longleftrightarrow> U = {u}" by linarith
  have "collecting C N n t (U - {u}) a"
    using b(2) r(2) dom' omap_wf_erase [OF wf] by (simp add: collecting_def a_def)
  moreover have "same_node s a" using b(3) close(2) by (simp add: same_node_def a_def)
  moreover have "handleUpReq C E m s = rbind (if U = {u} then sendUpReq C E t a else Inr a) (\<lambda>s'. Inr (deleteMsg m s'))"
  proof -
    have stat: "status b \<noteq> FINISHED" "status b = COLLECTING \<or> status b = CREATING" using b(2) by (auto simp: collecting_def)
    have "handleUpReq C E m s = acceptReport C E m b"
      using p b(1) stat by (auto simp: handleUpReq_def)
    also have "\<dots> = rbind (closeChild C E u t sess (b\<lparr>macdelays := d, aggreport := r\<rparr>)) (\<lambda>s'. Inr (deleteMsg m s'))"
      using p sess x d n r(1) by (simp add: acceptReport_def)
    finally show ?thesis by (simp add: close(1) a_def [symmetric] last)
  qed
  moreover have "merge_wire n w (aggreport s) = Inr r" "aggreport a = r" using r(1) w b(4) by (simp_all add: merge_wire_def a_def)
  ultimately show ?thesis using r(2) by blast
qed

section \<open>All updates of a prover\<close>

fun handle_all :: "config \<Rightarrow> (env \<times> cMessage) list \<Rightarrow> aprover \<Rightarrow> aprover result" where
  "handle_all C [] s = Inr s"
| "handle_all C ((E, m) # ms) s = rbind (handleUpReq C E m s) (handle_all C ms)"

lemma same_node_trans: "same_node s a \<Longrightarrow> same_node a b \<Longrightarrow> same_node s b"
  by (simp add: same_node_def)

lemma update_of_node: "same_node s a \<Longrightarrow> update_of a t r = update_of s t r"
  by (simp add: update_of_def same_node_def)

text \<open>The updates \<open>ms\<close> come from the children \<open>us\<close> with the contents \<open>ws\<close>.\<close>

definition child_updates :: "nat \<Rightarrow> aprover \<Rightarrow> treeid_t \<Rightarrow> uid_t list \<Rightarrow> wire list \<Rightarrow> (env \<times> cMessage) list \<Rightarrow> bool" where
  "child_updates n s t us ws ms \<longleftrightarrow> list_all2 (\<lambda>(u, w) (E, m). child_update n s t u w m) (zip us ws) ms \<and> length us = length ws"

lemma handle_all_collects:
  assumes "collecting C N n t (set us) s" and "distinct us" and "us \<noteq> []" and "child_updates n s t us ws ms" and "\<not> TREE C"
  shows "\<exists>r r' s'. merge_all (merge_wire n) ws (aggreport s) = Inr r \<and> report_ok n r \<and>
    addOwnReport n (UId s) (attestcount s) (r\<lparr>tid := t\<rparr>) = Inr (r', attestcount s + 1) \<and> report_ok n r' \<and>
    handle_all C ms s = Inr s' \<and> status s' = FINISHED \<and> updates (calls s') = update_of s t r' # updates (calls s)"
  using assms(1-4)
proof (induction us arbitrary: s ws ms)
  case (Cons u us)
  obtain w ws' E m ms' where ws: "ws = w # ws'" and ms: "ms = (E, m) # ms'"
    and m: "child_update n s t u w m" and rest: "child_updates n s t us ws' ms'"
    using Cons.prems(4) by (cases ws) (auto simp: child_updates_def list_all2_Cons1)
  from handleUpReq_step [OF Cons.prems(1) _ m assms(5), of E] obtain a r where
    a: "merge_wire n w (aggreport s) = Inr r" "report_ok n r" "aggreport a = r" "same_node s a"
      "collecting C N n t (set (u # us) - {u}) a"
      "handleUpReq C E m s = rbind (if set (u # us) = {u} then sendUpReq C E t a else Inr a) (\<lambda>s'. Inr (deleteMsg m s'))"
    by auto
  have set: "set (u # us) - {u} = set us" using Cons.prems(2) by auto
  have nd: "UId a = UId s" "attestcount a = attestcount s" "updates (calls a) = updates (calls s)"
    using a(4) by (simp_all add: same_node_def)
  show ?case
  proof (cases "us = []")
    case True
    with a(5) have "static_inv C N n a" "report_ok n (aggreport a)" "psecond a \<noteq> None" by (auto simp: collecting_def)
    from sendUpReq_update [OF this, of t E] obtain r' s' where
      "addOwnReport n (UId s) (attestcount s) (r\<lparr>tid := t\<rparr>) = Inr (r', attestcount s + 1)" "report_ok n r'"
      "sendUpReq C E t a = Inr s'" "status s' = FINISHED" "updates (calls s') = update_of s t r' # updates (calls s)"
      using nd a(3) update_of_node [OF a(4)] by auto
    moreover have "ws' = []" "ms' = []" using rest True by (auto simp: child_updates_def)
    ultimately show ?thesis using True a ws ms by (simp add: deleteMsg_def)
  next
    case False
    define b where "b = deleteMsg m a"
    have b: "collecting C N n t (set us) b" "same_node a b" "aggreport b = r"
      using a(3,5) unfolding set by (auto simp: b_def deleteMsg_def collecting_def same_node_def)
    have "child_updates n b t us ws' ms'"
      using rest nd b(2) by (simp add: child_updates_def child_update_def same_node_def)
    from Cons.IH [OF b(1) _ False this] Cons.prems(2) obtain r1 r' s' where
      "merge_all (merge_wire n) ws' r = Inr r1" "report_ok n r1"
      "addOwnReport n (UId s) (attestcount s) (r1\<lparr>tid := t\<rparr>) = Inr (r', attestcount s + 1)" "report_ok n r'"
      "handle_all C ms' b = Inr s'" "status s' = FINISHED" "updates (calls s') = update_of s t r' # updates (calls s)"
      using nd b(2,3) update_of_node [OF same_node_trans [OF a(4) b(2)]] by (auto simp: same_node_def)
    moreover have "set (u # us) \<noteq> {u}" using False Cons.prems(2) by (cases us) auto
    ultimately show ?thesis using a(1,6) ws ms by (simp add: b_def [symmetric])
  qed
qed simp

section \<open>A spanning tree\<close>

text \<open>
  A node of the tree: the prover when its update is due, the surroundings in which it
  acts as a leaf and those in which its parent handles its update, and its children in
  the order their updates arrive.
\<close>

datatype attest_tree = Node (nprover: aprover) (nsend: env) (nrecv: env) (nchildren: "attest_tree list")

definition last_update :: "aprover \<Rightarrow> cMessage result" where
  "last_update s = (case updates (calls s) of [] \<Rightarrow> Inl NullPointer | m # ms \<Rightarrow> Inr m)"

fun mapM :: "('a \<Rightarrow> 'b result) \<Rightarrow> 'a list \<Rightarrow> 'b list result" where
  "mapM f [] = Inr []"
| "mapM f (x # xs) = rbind (f x) (\<lambda>y. rbind (mapM f xs) (\<lambda>ys. Inr (y # ys)))"

lemma mapM_cong [fundef_cong]: "xs = ys \<Longrightarrow> (\<And>x. x \<in> set ys \<Longrightarrow> f x = g x) \<Longrightarrow> mapM f xs = mapM g ys"
  by (induction xs arbitrary: ys) auto

text \<open>The update the root of a tree schedules, computed bottom up by the handlers.\<close>

fun round_update :: "config \<Rightarrow> treeid_t \<Rightarrow> attest_tree \<Rightarrow> cMessage result" where
  "round_update C t (Node s E E' ts) =
     (if ts = [] then rbind (sendUpReq C E t s) last_update
      else rbind (mapM (round_update C t) ts) (\<lambda>ms.
        rbind (handle_all C (zip (map nrecv ts) ms) s) last_update))"

fun members :: "attest_tree \<Rightarrow> aprover list" where
  "members (Node s E E' ts) = s # concat (map members ts)"

text \<open>
  A tree as the commit phase leaves it: every prover knows its parent and has the open
  commitment of the tree and a session per child, and an empty report.
\<close>

fun tree_ok :: "config \<Rightarrow> nat \<Rightarrow> nat \<Rightarrow> treeid_t \<Rightarrow> uid_t \<Rightarrow> attest_tree \<Rightarrow> bool" where
  "tree_ok C N n t p (Node s E E' ts) \<longleftrightarrow>
     pfirst s = p \<and> uids (aggreport s) = [] \<and> counters (aggreport s) = [] \<and> proofs (aggreport s) = [] \<and>
     (if ts = [] then static_inv C N n s \<and> psecond s \<noteq> None
      else collecting C N n t (set (map (\<lambda>k. UId (nprover k)) ts)) s \<and> distinct (map (\<lambda>k. UId (nprover k)) ts) \<and>
        (\<forall>k \<in> set ts. tree_ok C N n t (UId s) k))"

definition record_of :: "aprover \<Rightarrow> uid_t \<times> nat" where
  "record_of s = (UId s, attestcount s + 1)"

text \<open>What the update of a tree must carry.\<close>

definition carries :: "nat \<Rightarrow> treeid_t \<Rightarrow> uid_t \<Rightarrow> attest_tree \<Rightarrow> wire \<Rightarrow> cMessage \<Rightarrow> bool" where
  "carries n t p T w m \<longleftrightarrow> mkind m = (if p = NOID then UPRQC else UPRQ) \<and>
     mpacket m = UpdateReq (UId (nprover T)) (if p = NOID then baseID else p) (fst w) (fst (snd w)) t 0 (snd (snd w)) \<and>
     wire_ok n (fst w) (fst (snd w)) (snd (snd w)) \<and>
     mset (records (fst w) (fst (snd w))) = mset (map record_of (members T))"

lemma carries_update_of:
  assumes "report_ok n r" and "mset (records (uids r) (counters r)) = mset (map record_of (members T))"
    and "nprover T = s" and "pfirst s = p"
  shows "carries n t p T (uids r, counters r, proofs r) (update_of s t r)"
  using assms by (simp add: carries_def update_of_def newmsg_def report_ok_def)

lemma empty_report: "uids r = [] \<Longrightarrow> counters r = [] \<Longrightarrow> proofs r = [] \<Longrightarrow> 0 < n \<Longrightarrow> report_ok n r"
  by (simp add: report_ok_def wire_ok_def)

lemma leaf_update:
  assumes "tree_ok C N n t p (Node s E E' [])"
  shows "\<exists>m w. round_update C t (Node s E E' []) = Inr m \<and> carries n t p (Node s E E' []) w m"
proof -
  have st: "static_inv C N n s" "psecond s \<noteq> None" "pfirst s = p" and emp: "uids (aggreport s) = []" "counters (aggreport s) = []"
      "proofs (aggreport s) = []" using assms by auto
  have n: "0 < n" "UId s \<noteq> NOID" using st by (auto simp: static_inv_def valid_uid_def)
  have rep: "report_ok n (aggreport s)" using empty_report [OF emp n(1)] .
  from sendUpReq_update [OF st(1) rep st(2), of t E] obtain r s' where
    r: "addOwnReport n (UId s) (attestcount s) ((aggreport s)\<lparr>tid := t\<rparr>) = Inr (r, attestcount s + 1)" "report_ok n r"
      "sendUpReq C E t s = Inr s'" "updates (calls s') = update_of s t r # updates (calls s)" by blast
  have "report_ok n ((aggreport s)\<lparr>tid := t\<rparr>)" using rep by (simp add: report_ok_def)
  from addOwnReport_ok [OF this n, of "attestcount s"] r(1) emp
  have "records (uids r) (counters r) = [record_of s]" by (auto simp: record_of_def)
  then have "carries n t p (Node s E E' []) (uids r, counters r, proofs r) (update_of s t r)"
    using carries_update_of [OF r(2), of "Node s E E' []" s p t] st(3) by simp
  moreover have "round_update C t (Node s E E' []) = Inr (update_of s t r)"
    using r(3,4) by (simp add: last_update_def)
  ultimately show ?thesis by blast
qed

lemma mapM_list_all2:
  "(\<forall>x \<in> set xs. \<exists>y w. f x = Inr y \<and> P x w y) \<Longrightarrow>
    \<exists>ys ws. mapM f xs = Inr ys \<and> length ws = length xs \<and> list_all2 (\<lambda>(x, w) y. P x w y) (zip xs ws) ys"
proof (induction xs)
  case (Cons x xs)
  then obtain y w ys ws where "f x = Inr y" "P x w y" "mapM f xs = Inr ys" "length ws = length xs"
    "list_all2 (\<lambda>(x, w) y. P x w y) (zip xs ws) ys" by auto
  then show ?case by (intro exI [of _ "y # ys"] exI [of _ "w # ws"]) simp
qed simp

lemma carried_updates:
  assumes "list_all2 (\<lambda>(k, w) m. carries n t (UId s) k w m) (zip ts ws) ms" and "length ws = length ts" and "UId s \<noteq> NOID"
  shows "child_updates n s t (map (\<lambda>k. UId (nprover k)) ts) ws (zip (map nrecv ts) ms) \<and>
    (\<forall>(u, c, p) \<in> set ws. wire_ok n u c p) \<and>
    (\<Sum>w \<leftarrow> ws. mset (records (fst w) (fst (snd w)))) = mset (map record_of (concat (map members ts)))"
  using assms(2,1)
proof (induction ws ts arbitrary: ms rule: list_induct2)
  case (Cons w ws k ts)
  then obtain m ms' where m: "ms = m # ms'" "carries n t (UId s) k w m"
    and rest: "list_all2 (\<lambda>(k, w) m. carries n t (UId s) k w m) (zip ts ws) ms'"
    by (auto simp: list_all2_Cons1)
  then have "child_update n s t (UId (nprover k)) w m" using assms(3) by (simp add: carries_def child_update_def)
  then show ?case using Cons.IH [OF rest] m by (auto simp: child_updates_def carries_def)
qed (simp add: child_updates_def)

lemma inner_update:
  assumes T: "tree_ok C N n t p (Node s E E' ts)" and "ts \<noteq> []" and C: "\<not> TREE C"
    and IH: "\<forall>k \<in> set ts. \<exists>m w. round_update C t k = Inr m \<and> carries n t (UId s) k w m"
  shows "\<exists>m w. round_update C t (Node s E E' ts) = Inr m \<and> carries n t p (Node s E E' ts) w m"
proof -
  let ?us = "map (\<lambda>k. UId (nprover k)) ts"
  have col: "collecting C N n t (set ?us) s" and "distinct ?us" and p: "pfirst s = p"
    and emp: "uids (aggreport s) = []" "counters (aggreport s) = []" "proofs (aggreport s) = []"
    using T assms(2) by auto
  have n: "0 < n" "UId s \<noteq> NOID" using col by (auto simp: collecting_def static_inv_def valid_uid_def)
  from mapM_list_all2 [of ts "round_update C t" "carries n t (UId s)"] IH obtain ms ws where
    ms: "mapM (round_update C t) ts = Inr ms" "length ws = length ts"
      "list_all2 (\<lambda>(k, w) m. carries n t (UId s) k w m) (zip ts ws) ms" by auto
  from carried_updates [OF ms(3,2) n(2)] have
    upd: "child_updates n s t ?us ws (zip (map nrecv ts) ms)" "\<forall>(u, c, p) \<in> set ws. wire_ok n u c p"
    and sum: "(\<Sum>w \<leftarrow> ws. mset (records (fst w) (fst (snd w)))) = mset (map record_of (concat (map members ts)))" by auto
  from handle_all_collects [OF col \<open>distinct ?us\<close> _ upd(1) C] assms(2) obtain r r' s' where
    r: "merge_all (merge_wire n) ws (aggreport s) = Inr r" "report_ok n r"
      "addOwnReport n (UId s) (attestcount s) (r\<lparr>tid := t\<rparr>) = Inr (r', attestcount s + 1)" "report_ok n r'"
      "handle_all C (zip (map nrecv ts) ms) s = Inr s'" "updates (calls s') = update_of s t r' # updates (calls s)" by auto
  obtain k where k: "n = Suc k" using n(1) by (cases n) auto
  from reports.merge_all_ok [of k "aggreport s" ws] empty_report [OF emp n(1)] upd(2) r(1)
  have "rview r = foldl view_add (rview (aggreport s)) (map wire_view ws)" by (auto simp: k)
  then have "mset (records (uids r) (counters r)) = mset (map record_of (concat (map members ts)))"
    using emp sum by (simp add: foldl_view_add report_view_def)
  moreover have "report_ok n (r\<lparr>tid := t\<rparr>)" using r(2) by (simp add: report_ok_def)
  from addOwnReport_ok [OF this n, of "attestcount s"] r(3)
  have "records (uids r') (counters r') = records (uids r) (counters r) @ [record_of s]" by (auto simp: record_of_def)
  ultimately have "carries n t p (Node s E E' ts) (uids r', counters r', proofs r') (update_of s t r')"
    using carries_update_of [OF r(4), of "Node s E E' ts" s p t] p by simp
  moreover have "round_update C t (Node s E E' ts) = Inr (update_of s t r')"
    using assms(2) ms(1) r(5,6) by (simp add: last_update_def)
  ultimately show ?thesis by blast
qed

lemma round_carries:
  assumes "\<not> TREE C"
  shows "tree_ok C N n t p T \<Longrightarrow> \<exists>m w. round_update C t T = Inr m \<and> carries n t p T w m"
proof (induction T arbitrary: p)
  case (Node s E E' ts)
  show ?case
  proof (cases "ts = []")
    case True
    with Node.prems show ?thesis using leaf_update by blast
  next
    case False
    with Node show ?thesis by (intro inner_update [OF Node.prems False assms]) auto
  qed
qed

text \<open>
  C1. A whole attestation round: when every prover of a spanning tree handles the updates of
  its children, in any order of arrival, the root schedules an update for the collector
  whose records are exactly those of the provers of the tree, each once with its next
  attestation counter, and the collector's total grows by the number of provers.
\<close>
theorem round_counts_every_prover:
  assumes "\<not> TREE C" and "tree_ok C N n t NOID T"
  shows "\<exists>m src us cs ps c'. round_update C t T = Inr m \<and> mkind m = UPRQC \<and>
    mpacket m = UpdateReq src baseID us cs t 0 ps \<and>
    mset (records us cs) = mset (map (\<lambda>s. (UId s, attestcount s + 1)) (members T)) \<and>
    collectUpReq C E m c = Inr c' \<and> csum c' = csum c + of_nat (length (members T))"
proof -
  from round_carries [OF assms] obtain m w where m: "round_update C t T = Inr m" "carries n t NOID T w m" by blast
  obtain us cs ps where w: "w = (us, cs, ps)" by (cases w)
  with m have p: "mkind m = UPRQC" "mpacket m = UpdateReq (UId (nprover T)) baseID us cs t 0 ps" "length cs = length us"
    "mset (records us cs) = mset (map record_of (members T))" by (simp_all add: carries_def wire_ok_def)
  have "length (filter (\<lambda>u. u \<noteq> NOID) us) = length (records us cs)"
    unfolding records_def using p(3) by (induction us cs rule: list_induct2') auto
  also have "\<dots> = length (members T)" using p(4) by (metis length_map size_mset)
  finally have "\<exists>c'. collectUpReq C E m c = Inr c' \<and> csum c' = csum c + of_nat (length (members T))"
    using p(2) by (simp add: collectUpReq_def Let_def countRecords_eq call_defs)
  moreover have "record_of = (\<lambda>s. (UId s, attestcount s + 1))" by (simp add: fun_eq_iff record_of_def)
  ultimately show ?thesis using m(1) p by auto
qed

text \<open>Three provers of the ring: the root \<open>1\<close> with the children \<open>2\<close> and \<open>3\<close>.\<close>

definition demo_leaf :: "uid_t \<Rightarrow> aprover" where
  "demo_leaf u = demo_prover\<lparr>UId := u, pfirst := 1, psecond := Some (mkSession 7 1 1 2 True), status := COLLECTING\<rparr>"

definition demo_root :: aprover where
  "demo_root = demo_prover\<lparr>UId := 1, pfirst := NOID, psecond := Some (mkSession 7 NOID ckey 3 True), status := COLLECTING,
     csessions := [(NOID, session0), (2, mkSession 7 2 1 2 True), (3, mkSession 7 3 1 2 True)]\<rparr>"

definition demo_tree :: attest_tree where
  "demo_tree = Node demo_root demo_env demo_env
     [Node (demo_leaf 3) demo_env demo_env [], Node (demo_leaf 2) demo_env demo_env []]"

lemmas demo_defs = demo_prover_def demo_params_def demo_raw_def wired_build_def readParams_def construct_def initUID_def

lemma demo_tree_ok: "tree_ok wired_build 3 1 7 NOID demo_tree"
  by (auto simp: demo_tree_def demo_leaf_def demo_root_def demo_defs collecting_def static_inv_def valid_uid_def proverIndex_def
      mkSession_def NOID_def baseID_def report0_def report_ok_def wire_ok_def word_le_nat_alt dom_def MAXUID_def
      split: if_splits)

theorem round_counts_every_prover_witness:
  "\<forall>E c. \<exists>m src us cs ps c'. round_update wired_build 7 demo_tree = Inr m \<and> mkind m = UPRQC \<and>
    mpacket m = UpdateReq src baseID us cs 7 0 ps \<and> mset (records us cs) = {#(1, 1), (2, 1), (3, 1)#} \<and>
    collectUpReq wired_build E m c = Inr c' \<and> csum c' = csum c + 3"
proof (intro allI)
  fix E c
  have C: "\<not> TREE wired_build" by (simp add: wired_build_def)
  have m: "members demo_tree = [demo_root, demo_leaf 3, demo_leaf 2]" by (simp add: demo_tree_def)
  have r: "mset (map (\<lambda>s. (UId s, attestcount s + 1)) (members demo_tree)) = {#(1, 1), (2, 1), (3, 1)#}"
    by (simp add: m demo_root_def demo_leaf_def demo_defs add_mset_commute)
  show "\<exists>m src us cs ps c'. round_update wired_build 7 demo_tree = Inr m \<and> mkind m = UPRQC \<and>
    mpacket m = UpdateReq src baseID us cs 7 0 ps \<and> mset (records us cs) = {#(1, 1), (2, 1), (3, 1)#} \<and>
    collectUpReq wired_build E m c = Inr c' \<and> csum c' = csum c + 3"
    using round_counts_every_prover [OF C demo_tree_ok, of E c] unfolding r by (simp add: m)
qed

end
