(* ===== verification/Handshake.thy ===== *)
theory Handshake
  imports Attestation
begin

text \<open>
  The commit handshake that builds the spanning tree: \<open>sendCommitReq\<close> at the parent,
  \<open>handleCommitReq\<close> at the child, \<open>handleCommitResp\<close> at the parent and
  \<open>handleCommitAck\<close> at the child, each on the message the step before scheduled.
\<close>

section \<open>The steps\<close>

text \<open>A message as the receiver gets it.\<close>

definition arrived :: "cMessage \<Rightarrow> cMessage" where
  "arrived m = m\<lparr>mself := False\<rparr>"

definition scheduled :: "cMessage \<Rightarrow> aprover \<Rightarrow> bool" where
  "scheduled m s \<longleftrightarrow> (\<exists>t. ScheduleAt t m \<in> set (calls s))"

lemma arrived_sel [simp]: "mpacket (arrived m) = mpacket m" "mbytes (arrived m) = mbytes m" "mkind (arrived m) = mkind m"
  by (simp_all add: arrived_def)

lemma mpacket_newmsg [simp]: "mpacket (newmsg k b p) = p" "mkind (newmsg k b p) = k"
  by (simp_all add: newmsg_def)

definition commit_req :: "aprover \<Rightarrow> 32 word \<Rightarrow> treeid_t \<Rightarrow> cMessage" where
  "commit_req p d t = \<lparr>mkind = CMRQ, mid = Creqmsg, mself = True, mbytes = CRQ_SIZE (length (KeyRing p)),
     mpacket = CommitReq (UId p) d (getKeyRingIds p) t\<rparr>"

definition commit_resp :: "uid_t \<Rightarrow> uid_t \<Rightarrow> keyid_t \<Rightarrow> treeid_t \<Rightarrow> cMessage" where
  "commit_resp src dst k t = newmsg CMRP CRP_SIZE (CommitResp src dst k t 0)"

definition commit_ack :: "uid_t \<Rightarrow> uid_t \<Rightarrow> treeid_t \<Rightarrow> cMessage" where
  "commit_ack src dst t = newmsg CMAK CAK_SIZE (CommitAck src dst t 0)"

text \<open>The tree and the depth of a prover that asks for children.\<close>

definition own_tree :: "env \<Rightarrow> treeid_t \<Rightarrow> aprover \<Rightarrow> treeid_t \<times> 32 word" where
  "own_tree E t p = (if pfirst p = NOID then (drawTree E, word_of_nat (maxdepth p)) else (t, depth (the (psecond p)) - 1))"

lemma sendCommitReq_eq:
  assumes "status p \<noteq> ATTESTING" and "maxchildren p \<noteq> 0" and "pfirst p \<noteq> NOID \<Longrightarrow> psecond p \<noteq> None"
    and "own_tree E t p = (u, d)"
  shows "\<exists>x cs. sendCommitReq C E t p = Inr (p\<lparr>psecond := Some x, status := CREATING,
      csessions := omap_put NOID (session0\<lparr>treeID := u\<rparr>) (csessions p), calls := cs @ calls p\<rparr>) \<and>
    (pfirst p \<noteq> NOID \<longrightarrow> psecond p = Some x) \<and> ScheduleAt (simTime E) (commit_req p d u) \<in> set cs"
proof (cases "pfirst p = NOID")
  case True
  with assms show ?thesis
    by (intro exI [of _ "mkSession (drawTree E) NOID ckey (word_of_nat (maxdepth p)) True"]
        exI [of _ "[ScheduleAt (simTime E + TIMEOUT_RSP (SCENARIO C)) (timer_msg CMRPTO Cresptomsg (CommitTimeOut 0 u)),
          CancelEvent Cresptomsg, ScheduleAt (simTime E) (commit_req p d u)]"])
       (auto simp: sendCommitReq_def Let_def own_tree_def commit_req_def call_defs getKeyRingIds_def)
next
  case False
  with assms(3) obtain x where x: "psecond p = Some x" by auto
  with False assms(1,2,4) show ?thesis
    by (intro exI [of _ x]
        exI [of _ "[ScheduleAt (simTime E + TIMEOUT_RSP (SCENARIO C)) (timer_msg CMRPTO Cresptomsg (CommitTimeOut 0 u)),
          CancelEvent Cresptomsg, ScheduleAt (simTime E) (commit_req p d u)]"])
       (auto simp: sendCommitReq_def Let_def own_tree_def commit_req_def call_defs getKeyRingIds_def)
qed

lemma find_kid_Some: "find_kid ks ring = Some k \<Longrightarrow> k \<in> set ks \<and> map_of ring k \<noteq> None"
  by (induction ks) (auto split: if_splits)

lemma find_kid_None: "find_kid ks ring = None \<longleftrightarrow> (\<forall>k \<in> set ks. map_of ring k = None)"
  by (induction ks) auto

text \<open>The child answers with the first key of the parent's list that it has.\<close>

lemma handleCommitReq_answers:
  assumes q: "static_inv C N n q" "status q = READY" and m: "mpacket m = CommitReq src d ks t"
    and k: "find_kid ks (KeyRing q) = Some k"
  shows "\<exists>e cs. handleCommitReq C E m q = Inr (q\<lparr>energy := e, macdelays := [], pfirst := src,
      psecond := Some (mkSession t src k d False), status := ATTESTING, calls := cs @ calls q\<rparr>) \<and>
    (e = None \<longleftrightarrow> energy q = None) \<and> updates (cs @ calls q) = updates (calls q) \<and>
    (\<exists>x. ScheduleAt x (commit_resp (UId q) src k t) \<in> set cs)"
proof -
  from receive_ok [of C E m q N n] obtain e cs where
    eq: "receive C E m q = Inr (q\<lparr>energy := e, calls := cs @ calls q\<rparr>)"
    and e: "e = None \<longleftrightarrow> energy q = None" by (elim exE conjE)
  have "ok (\<lambda>s'. updates (calls s') = updates (calls q)) (receive C E m q)"
    unfolding receive_def Let_def
    by (cases "energy q") (auto simp: call_defs newmsg_def setPower_def)
  with eq have u: "updates (cs @ calls q) = updates (calls q)" by simp
  let ?q = "q\<lparr>energy := e, calls := cs @ calls q, pfirst := src, psecond := Some (mkSession t src k d False), status := ATTESTING\<rparr>"
  have "static_inv C N n ?q" using q(1) e by (auto simp: static_inv_def)
  from macTime_ok [OF this, of "commit_resp (UId q) src k t"] obtain dl where
    dl: "macTime C (commit_resp (UId q) src k t) ?q = Inr (dl, ?q\<lparr>macdelays := []\<rparr>)" ..
  let ?cs = "DeleteMsg m # ScheduleAt (simTime E + TIMEOUT_ACK (SCENARIO C)) (timer_msg CMAKTO Cacktomsg (CommitTimeOut src t)) #
    ScheduleAt (simTime E + dl) (commit_resp (UId q) src k t) #
    (if ENERGY_TEST C then [ScheduleAt (simTime E + dl) (newmsg ENMAC 0 NoPacket)] else []) @ cs"
  have "handleCommitReq C E m q = Inr (q\<lparr>energy := e, macdelays := [], pfirst := src,
      psecond := Some (mkSession t src k d False), status := ATTESTING, calls := ?cs @ calls q\<rparr>)"
    using q m k eq dl
    by (simp add: handleCommitReq_def sendCommitResp_def Let_def generateMAC_def mkSession_def scheduleMac_eq call_defs commit_resp_def)
  moreover have "updates (?cs @ calls q) = updates (calls q)"
    using u by (simp add: timer_msg_def commit_resp_def)
  ultimately show ?thesis using e by (intro exI [of _ e] exI [of _ ?cs]) auto
qed

text \<open>The parent opens a session for the child and acknowledges.\<close>

lemma handleCommitResp_accepts:
  assumes p: "static_inv C N n p" "status p = CREATING" "csessions p \<noteq> []" "length (csessions p) \<le> maxchildren p"
      "psecond p \<noteq> None"
    and m: "mpacket m = CommitResp src (UId p) k t 0"
    and new: "map_of (csessions p) src = None" and key: "map_of (KeyRing p) k \<noteq> None"
  shows "\<exists>p' x. handleCommitResp C E m p = Inr p' \<and> map_of (csessions p') src = Some x \<and>
    treeID x = t \<and> deviceID x = src \<and> keyID x = k \<and> valid x \<and> scheduled (commit_ack (UId p) src t) p'"
proof -
  from receive_ok [of C E m p N n] obtain e cs where
    eq: "receive C E m p = Inr (p\<lparr>energy := e, calls := cs @ calls p\<rparr>)"
    and e: "e = None \<longleftrightarrow> energy p = None" by (elim exE conjE)
  let ?p = "p\<lparr>energy := e, calls := cs @ calls p\<rparr>"
  have st: "static_inv C N n ?p" using p(1) e by (auto simp: static_inv_def)
  from checkMAC_ok [OF st, of m] m obtain ds where ds: "checkMAC C m ?p = Inr (True, ?p\<lparr>macdelays := ds\<rparr>)" by auto
  let ?p1 = "?p\<lparr>macdelays := ds, csessions := omap_put src (mkSession t src k 0 True) (csessions p)\<rparr>"
  have "static_inv C N n ?p1" using st by simp
  from macTime_ok [OF this, of "commit_ack (UId p) src t"] obtain dl where
    dl: "macTime C (commit_ack (UId p) src t) ?p1 = Inr (dl, ?p1\<lparr>macdelays := []\<rparr>)" ..
  obtain x where x: "psecond p = Some x" using p(5) by auto
  have "csessions p \<noteq> []" "\<not> maxchildren p \<le> length (csessions p) - Suc 0"
    using p(3,4) by (cases "csessions p"; simp)+
  then show ?thesis
    using p m new key x eq ds dl
    by (auto simp: handleCommitResp_def sendCommitAck_def Let_def generateMAC_def scheduleMac_eq call_defs commit_ack_def
        mkSession_def scheduled_def)
qed

lemma updates_other [simp]: "updates (CancelEvent i # cs) = updates cs"
  by (simp add: updates_def)

text \<open>
  The state in which the child acts on an acknowledgement: the session is valid, the timers
  are cancelled.
\<close>

lemma handleCommitAck_eq:
  assumes q: "static_inv C N n q" "pfirst q = src" "psecond q = Some sess" "map_of (KeyRing q) (keyID sess) \<noteq> None"
    and m: "mpacket m = CommitAck src (UId q) t 0"
  shows "\<exists>e ds cs. (e = None \<longleftrightarrow> energy q = None) \<and> updates (cs @ calls q) = updates (calls q) \<and>
    (let a = q\<lparr>energy := e, macdelays := ds, calls := cs @ calls q, psecond := Some (sess\<lparr>valid := True\<rparr>)\<rparr> in
     handleCommitAck C E m q = rbind (if depth sess = 1 \<or> maxchildren q = 0
       then sendUpReq C E t (a\<lparr>status := FINISHED\<rparr>) else sendCommitReq C E t (a\<lparr>status := CREATING\<rparr>))
       (\<lambda>s. Inr (deleteMsg m s)))"
proof -
  from receive_ok [of C E m q N n] obtain e cs where
    eq: "receive C E m q = Inr (q\<lparr>energy := e, calls := cs @ calls q\<rparr>)"
    and e: "e = None \<longleftrightarrow> energy q = None" by (elim exE conjE)
  have "ok (\<lambda>s'. updates (calls s') = updates (calls q)) (receive C E m q)"
    unfolding receive_def Let_def
    by (cases "energy q") (auto simp: call_defs newmsg_def setPower_def)
  with eq have u: "updates (cs @ calls q) = updates (calls q)" by simp
  let ?q = "q\<lparr>energy := e, calls := cs @ calls q\<rparr>"
  have st: "static_inv C N n ?q" using q(1) e by (auto simp: static_inv_def)
  from checkMAC_ok [OF st, of m] obtain ds where "checkMAC C m ?q = Inr (pmac (mpacket m) = 0, ?q\<lparr>macdelays := ds\<rparr>)" ..
  moreover have "?q\<lparr>macdelays := ds\<rparr> = q\<lparr>energy := e, macdelays := ds, calls := cs @ calls q\<rparr>" by simp
  ultimately have ds: "checkMAC C m ?q = Inr (True, q\<lparr>energy := e, macdelays := ds, calls := cs @ calls q\<rparr>)"
    using m by simp
  define c1 where "c1 = (if isScheduled E (cs @ calls q) Mktreetimer then [CancelEvent Mktreetimer] else []) @ cs"
  define c2 where "c2 = (if isScheduled E (c1 @ calls q) Cacktomsg then [CancelEvent Cacktomsg] else []) @ c1"
  have "updates (c2 @ calls q) = updates (calls q)" using u by (simp add: c1_def c2_def)
  then show ?thesis
    using q m eq ds e
    by (intro exI [of _ e] exI [of _ ds] exI [of _ c2])
       (auto simp: handleCommitAck_def Let_def call_defs c1_def c2_def)
qed

text \<open>A child that may not have children reports at once.\<close>

lemma handleCommitAck_leaf:
  assumes "static_inv C N n q" "pfirst q = src" "psecond q = Some sess" "map_of (KeyRing q) (keyID sess) \<noteq> None"
    "mpacket m = CommitAck src (UId q) t 0" and "depth sess = 1 \<or> maxchildren q = 0" and rep: "report_ok n (aggreport q)"
  shows "\<exists>q' r. handleCommitAck C E m q = Inr q' \<and> status q' = FINISHED \<and> updates (calls q') = update_of q t r # updates (calls q) \<and>
    records (uids r) (counters r) = records (uids (aggreport q)) (counters (aggreport q)) @ [record_of q]"
proof -
  from handleCommitAck_eq [OF assms(1-5), of E] assms(6) obtain e ds cs where
    e: "e = None \<longleftrightarrow> energy q = None" and u: "updates (cs @ calls q) = updates (calls q)"
    and h: "handleCommitAck C E m q = rbind (sendUpReq C E t (q\<lparr>energy := e, macdelays := ds, calls := cs @ calls q,
        psecond := Some (sess\<lparr>valid := True\<rparr>), status := FINISHED\<rparr>)) (\<lambda>s. Inr (deleteMsg m s))"
    by (elim exE conjE) (simp add: Let_def)
  let ?a = "q\<lparr>energy := e, macdelays := ds, calls := cs @ calls q, psecond := Some (sess\<lparr>valid := True\<rparr>), status := FINISHED\<rparr>"
  have st: "static_inv C N n ?a" using assms(1) e by (auto simp: static_inv_def)
  from sendUpReq_update [OF st, of t E] rep obtain r s' where
    r: "addOwnReport n (UId q) (attestcount q) ((aggreport q)\<lparr>tid := t\<rparr>) = Inr (r, attestcount q + 1)"
      "sendUpReq C E t ?a = Inr s'" "status s' = FINISHED" "updates (calls s') = update_of ?a t r # updates (calls q)"
    using u by auto
  have "report_ok n ((aggreport q)\<lparr>tid := t\<rparr>)" "0 < n" "UId q \<noteq> NOID"
    using rep assms(1) by (auto simp: report_ok_def static_inv_def valid_uid_def)
  from addOwnReport_ok [OF this, of "attestcount q"] r(1)
  have "records (uids r) (counters r) = records (uids (aggreport q)) (counters (aggreport q)) @ [record_of q]"
    by (auto simp: record_of_def)
  moreover have "update_of ?a t r = update_of q t r" by (simp add: update_of_def)
  ultimately show ?thesis using h r by (auto simp: deleteMsg_def)
qed

text \<open>A child that may have children asks for them in the same tree, one level lower.\<close>

lemma handleCommitAck_inner:
  assumes "static_inv C N n q" "pfirst q = src" "psecond q = Some sess" "map_of (KeyRing q) (keyID sess) \<noteq> None"
    "mpacket m = CommitAck src (UId q) t 0" and "depth sess \<noteq> 1" and "maxchildren q \<noteq> 0" and "src \<noteq> NOID"
  shows "\<exists>q'. handleCommitAck C E m q = Inr q' \<and> status q' = CREATING \<and> pfirst q' = src \<and>
    psecond q' = Some (sess\<lparr>valid := True\<rparr>) \<and> scheduled (commit_req q (depth sess - 1) t) q'"
proof -
  from handleCommitAck_eq [OF assms(1-5), of E] assms(6,7) obtain e ds cs where
    h: "handleCommitAck C E m q = rbind (sendCommitReq C E t (q\<lparr>energy := e, macdelays := ds, calls := cs @ calls q,
        psecond := Some (sess\<lparr>valid := True\<rparr>), status := CREATING\<rparr>)) (\<lambda>s. Inr (deleteMsg m s))"
    by (elim exE conjE) (simp add: Let_def)
  let ?a = "q\<lparr>energy := e, macdelays := ds, calls := cs @ calls q, psecond := Some (sess\<lparr>valid := True\<rparr>), status := CREATING\<rparr>"
  have "own_tree E t ?a = (t, depth sess - 1)" using assms(2,8) by (simp add: own_tree_def)
  from sendCommitReq_eq [OF _ _ _ this, of C] assms(2,7,8) obtain cs' where
    "sendCommitReq C E t ?a = Inr (?a\<lparr>csessions := omap_put NOID (session0\<lparr>treeID := t\<rparr>) (csessions q), calls := cs' @ cs @ calls q\<rparr>)"
    "ScheduleAt (simTime E) (commit_req ?a (depth sess - 1) t) \<in> set cs'" by auto
  moreover have "commit_req ?a (depth sess - 1) t = commit_req q (depth sess - 1) t"
    by (simp add: commit_req_def getKeyRingIds_def)
  ultimately show ?thesis using h assms(2) by (auto simp: deleteMsg_def scheduled_def)
qed

text \<open>
  What the child \<open>q\<close> of \<open>u\<close> is after the handshake: a leaf that has scheduled its report for
  \<open>u\<close>, or an inner node that has a valid session and asks for children of its own.
\<close>

definition joins :: "aprover \<Rightarrow> uid_t \<Rightarrow> 32 word \<Rightarrow> treeid_t \<Rightarrow> keyid_t \<Rightarrow> aprover \<Rightarrow> bool" where
  "joins q u d t k q' \<longleftrightarrow>
     (if d = 1 \<or> maxchildren q = 0
      then status q' = FINISHED \<and> (\<exists>r. hd (updates (calls q')) = update_of (q\<lparr>pfirst := u\<rparr>) t r \<and>
        records (uids r) (counters r) = records (uids (aggreport q)) (counters (aggreport q)) @ [record_of q])
      else status q' = CREATING \<and> pfirst q' = u \<and> scheduled (commit_req q (d - 1) t) q' \<and>
        psecond q' = Some \<lparr>treeID = t, deviceID = u, keyID = k, depth = d, valid = True, tomsg = None\<rparr>)"

lemma handleCommitAck_joins:
  fixes d :: "32 word" and t :: treeid_t and cs :: "call list"
  assumes "static_inv C N n q" and "e = None \<longleftrightarrow> energy q = None" and "map_of (KeyRing q) k \<noteq> None"
    and "u \<noteq> NOID" and "report_ok n (aggreport q)"
  defines "q1 \<equiv> q\<lparr>energy := e, macdelays := [], pfirst := u, psecond := Some (mkSession t u k d False), status := ATTESTING,
    calls := cs @ calls q\<rparr>"
  shows "ok (joins q u d t k) (handleCommitAck C E (arrived (commit_ack u (UId q) t)) q1)"
proof -
  let ?m = "arrived (commit_ack u (UId q) t)"
  have st: "static_inv C N n q1" using assms(1,2) by (auto simp: q1_def static_inv_def)
  have p: "pfirst q1 = u" "psecond q1 = Some (mkSession t u k d False)" "report_ok n (aggreport q1)"
      "map_of (KeyRing q1) (keyID (mkSession t u k d False)) \<noteq> None"
    using assms(3,5) by (simp_all add: q1_def mkSession_def)
  have m: "mpacket ?m = CommitAck u (UId q1) t 0" by (simp add: commit_ack_def q1_def)
  show ?thesis
  proof (cases "d = 1 \<or> maxchildren q = 0")
    case True
    then have "depth (mkSession t u k d False) = 1 \<or> maxchildren q1 = 0" by (simp add: mkSession_def q1_def)
    from handleCommitAck_leaf [OF st p(1,2,4) m this p(3), of E] obtain q2 r where
      "handleCommitAck C E ?m q1 = Inr q2" "status q2 = FINISHED" "hd (updates (calls q2)) = update_of q1 t r"
      "records (uids r) (counters r) = records (uids (aggreport q)) (counters (aggreport q)) @ [record_of q]"
      by (auto simp: q1_def record_of_def)
    moreover have "update_of q1 t r = update_of (q\<lparr>pfirst := u\<rparr>) t r" by (simp add: q1_def update_of_def)
    ultimately show ?thesis using True by (auto simp: joins_def)
  next
    case False
    then have "depth (mkSession t u k d False) \<noteq> 1" "maxchildren q1 \<noteq> 0" by (simp_all add: mkSession_def q1_def)
    from handleCommitAck_inner [OF st p(1,2,4) m this assms(4), of E] False show ?thesis
      by (auto simp: joins_def mkSession_def commit_req_def getKeyRingIds_def q1_def)
  qed
qed

lemma shared_key:
  assumes "set (getKeyRingIds p) \<inter> set (getKeyRingIds q) \<noteq> {}"
  shows "\<exists>k. find_kid (getKeyRingIds p) (KeyRing q) = Some k \<and> k \<in> set (getKeyRingIds p) \<and> k \<in> set (getKeyRingIds q) \<and>
    map_of (KeyRing p) k \<noteq> None \<and> map_of (KeyRing q) k \<noteq> None"
proof (cases "find_kid (getKeyRingIds p) (KeyRing q)")
  case None
  with assms show ?thesis by (auto simp: find_kid_None getKeyRingIds_def map_of_eq_None_iff)
next
  case (Some k)
  with find_kid_Some [OF Some] show ?thesis
    by (auto simp: getKeyRingIds_def map_of_eq_None_iff image_iff dest: map_of_SomeD)
qed

text \<open>
  C6. The commit handshake ends in agreement. A prover that asks for children and a ready
  prover that shares a key with it run the four steps without a fault: they choose a key
  both of them hold, the parent has a session for the child and the child one for the
  parent with that key and the same tree; a child at the last level (or without room for
  children) answers with its report, any other child asks for children in the same tree
  one level lower.
\<close>
theorem commit_handshake_agrees:
  assumes p: "static_inv C N n p" "status p \<noteq> ATTESTING" "maxchildren p \<noteq> 0" "csessions p = []"
      "pfirst p \<noteq> NOID \<Longrightarrow> psecond p \<noteq> None"
    and q: "static_inv C N n q" "status q = READY" "report_ok n (aggreport q)"
    and share: "set (getKeyRingIds p) \<inter> set (getKeyRingIds q) \<noteq> {}"
  shows "\<exists>d t k p1 q1 p2 q2 x. sendCommitReq C E0 t0 p = Inr p1 \<and> scheduled (commit_req p d t) p1 \<and>
    handleCommitReq C E1 (arrived (commit_req p d t)) q = Inr q1 \<and> scheduled (commit_resp (UId q) (UId p) k t) q1 \<and>
    handleCommitResp C E2 (arrived (commit_resp (UId q) (UId p) k t)) p1 = Inr p2 \<and> scheduled (commit_ack (UId p) (UId q) t) p2 \<and>
    handleCommitAck C E3 (arrived (commit_ack (UId p) (UId q) t)) q1 = Inr q2 \<and>
    k \<in> set (getKeyRingIds p) \<and> k \<in> set (getKeyRingIds q) \<and>
    map_of (csessions p2) (UId q) = Some x \<and> treeID x = t \<and> deviceID x = UId q \<and> keyID x = k \<and> valid x \<and>
    joins q (UId p) d t k q2"
proof -
  obtain t d where td: "own_tree E0 t0 p = (t, d)" by (cases "own_tree E0 t0 p")
  from sendCommitReq_eq [OF p(2,3,5) td, of C] obtain x cs where
    p1: "sendCommitReq C E0 t0 p = Inr (p\<lparr>psecond := Some x, status := CREATING,
      csessions := omap_put NOID (session0\<lparr>treeID := t\<rparr>) (csessions p), calls := cs @ calls p\<rparr>)"
      "ScheduleAt (simTime E0) (commit_req p d t) \<in> set cs" by blast
  let ?p1 = "p\<lparr>psecond := Some x, status := CREATING, csessions := omap_put NOID (session0\<lparr>treeID := t\<rparr>) (csessions p), calls := cs @ calls p\<rparr>"
  have uid: "UId p \<noteq> NOID" "UId q \<noteq> NOID" using p(1) q(1) by (auto simp: static_inv_def valid_uid_def)
  from shared_key [OF share] obtain k where k: "find_kid (getKeyRingIds p) (KeyRing q) = Some k"
    and kk: "k \<in> set (getKeyRingIds p)" "k \<in> set (getKeyRingIds q)" "map_of (KeyRing p) k \<noteq> None" "map_of (KeyRing q) k \<noteq> None"
    by (elim exE conjE)
  have "mpacket (arrived (commit_req p d t)) = CommitReq (UId p) d (getKeyRingIds p) t" by (simp add: commit_req_def)
  from handleCommitReq_answers [OF q(1,2) this k, of E1] obtain e cs1 z where
    q1: "handleCommitReq C E1 (arrived (commit_req p d t)) q = Inr (q\<lparr>energy := e, macdelays := [], pfirst := UId p,
      psecond := Some (mkSession t (UId p) k d False), status := ATTESTING, calls := cs1 @ calls q\<rparr>)"
    and e: "e = None \<longleftrightarrow> energy q = None" and s1: "ScheduleAt z (commit_resp (UId q) (UId p) k t) \<in> set cs1"
    by (elim exE conjE)
  let ?q1 = "q\<lparr>energy := e, macdelays := [], pfirst := UId p, psecond := Some (mkSession t (UId p) k d False), status := ATTESTING, calls := cs1 @ calls q\<rparr>"
  have st: "static_inv C N n ?p1" using p(1) by simp
  from handleCommitResp_accepts [OF st, of "arrived (commit_resp (UId q) (UId p) k t)" "UId q" k t E2] p(3,4) uid(2) kk(3)
  obtain p2 y where p2: "handleCommitResp C E2 (arrived (commit_resp (UId q) (UId p) k t)) ?p1 = Inr p2"
    "map_of (csessions p2) (UId q) = Some y" "treeID y = t" "deviceID y = UId q" "keyID y = k" "valid y"
    "scheduled (commit_ack (UId p) (UId q) t) p2" by (auto simp: commit_resp_def)
  from handleCommitAck_joins [OF q(1) e kk(4) uid(1) q(3), where d=d and t=t and cs=cs1 and E=E3] obtain q2 where
    q2: "handleCommitAck C E3 (arrived (commit_ack (UId p) (UId q) t)) ?q1 = Inr q2" "joins q (UId p) d t k q2"
    by (elim okE) auto
  have steps: "scheduled (commit_req p d t) ?p1" "scheduled (commit_resp (UId q) (UId p) k t) ?q1"
    using p1 s1 by (auto simp: scheduled_def)
  show ?thesis
    by (intro exI [of _ d] exI [of _ t] exI [of _ k] exI [of _ ?p1] exI [of _ ?q1] exI [of _ p2] exI [of _ q2] exI [of _ y]
          conjI p1 q1 p2 q2 steps kk)
qed

definition demo_ready :: "uid_t \<Rightarrow> aprover" where
  "demo_ready u = demo_prover\<lparr>UId := u, status := READY\<rparr>"

lemma demo_ready_ok: "static_inv wired_build 3 1 (demo_ready 1)" "static_inv wired_build 3 1 (demo_ready 2)"
  by (simp_all add: demo_ready_def demo_defs static_inv_def valid_uid_def proverIndex_def baseID_def NOID_def MAXUID_def)

theorem commit_handshake_agrees_witness:
  "\<exists>d t k p1 q1 p2 q2 x. sendCommitReq wired_build demo_env NOID (demo_ready 1) = Inr p1 \<and>
    handleCommitReq wired_build demo_env (arrived (commit_req (demo_ready 1) d t)) (demo_ready 2) = Inr q1 \<and>
    handleCommitResp wired_build demo_env (arrived (commit_resp 2 1 k t)) p1 = Inr p2 \<and>
    handleCommitAck wired_build demo_env (arrived (commit_ack 1 2 t)) q1 = Inr q2 \<and>
    k = 1 \<and> map_of (csessions p2) 2 = Some x \<and> keyID x = 1 \<and> joins (demo_ready 2) 1 d t k q2"
proof -
  have p: "status (demo_ready u) \<noteq> ATTESTING" "maxchildren (demo_ready u) \<noteq> 0" "csessions (demo_ready u) = []"
    "pfirst (demo_ready u) = NOID" "status (demo_ready u) = READY" "report_ok 1 (aggreport (demo_ready u))" "UId (demo_ready u) = u"
    "getKeyRingIds (demo_ready u) = [1]" for u
    by (simp_all add: demo_ready_def demo_defs MAXCHILDREN_def NOID_def report0_def report_ok_def wire_ok_def getKeyRingIds_def)
  show ?thesis
    using commit_handshake_agrees [OF demo_ready_ok(1) p(1-3) _ demo_ready_ok(2) p(5,6), of demo_env NOID demo_env demo_env demo_env]
    by (simp add: p(4,7,8)) blast
qed

end
