(* ===== verification/Prover_Rules.thy ===== *)
theory Prover_Rules
  imports Attestation
begin

text \<open>
  Rules of single operations of the prover and the device: the keys two provers share, the
  identifiers of provers, the adaptation to the battery, what becomes of a message that is
  sent, and two sequences of events that end badly (a prover that runs out of energy while it
  transmits, and one that is revoked while it waits for an acknowledgement).
\<close>

section \<open>Shared keys\<close>

lemma set_intersection_subset: "set (set_intersection xs ys) \<subseteq> set xs"
  by (induction xs ys rule: set_intersection.induct) auto

lemma set_intersection_sorted: "sorted xs \<Longrightarrow> sorted (set_intersection xs ys)"
proof (induction xs ys rule: set_intersection.induct)
  case (1 x xs y ys)
  then show ?case using set_intersection_subset [of xs ys] by (auto simp: subset_iff)
qed auto

lemma set_intersection_mset:
  "sorted xs \<Longrightarrow> sorted ys \<Longrightarrow> mset (set_intersection xs ys) = mset xs \<inter># mset ys"
proof (induction xs ys rule: set_intersection.induct)
  case (1 x xs y ys)
  consider "x < y" | "y < x" | "x = y" by fastforce
  then show ?case
  proof cases
    case 1
    with "1.prems" have "x \<notin># mset (y # ys)" by auto
    with 1 "1.IH"(1) "1.prems" show ?thesis by (simp add: inter_add_left1)
  next
    case 2
    then have n: "\<not> x < y" by simp
    from 2 "1.prems" have "y \<notin># mset (x # xs)" by auto
    with 2 n "1.IH"(2) "1.prems" show ?thesis by (simp add: inter_add_right1)
  next
    case 3
    with "1.IH"(3) "1.prems" show ?thesis by simp
  qed
qed auto

text \<open>
  \<open>sharedKeys\<close> is the intersection: it returns, in ascending order, exactly the key ids that
  the ring of the prover and the given list have in common, each as often as both have it.
\<close>
theorem sharedKeys_intersection:
  "mset (sharedKeys kids s) = mset (getKeyRingIds s) \<inter># mset kids \<and> sorted (sharedKeys kids s)"
  by (simp add: sharedKeys_def set_intersection_mset set_intersection_sorted)

section \<open>Identifiers\<close>

text \<open>
  C34. The identifier of a prover and its index determine each other: \<open>initUID\<close> gives distinct
  identifiers different from \<open>NOID\<close> to distinct indices, and the index that the send
  operations compute from an identifier is the index of the prover that owns it.
\<close>
theorem uid_roundtrip:
  assumes "moduleIndex s < 0x7FFFFFFE" and "moduleIndex s' < 0x7FFFFFFE"
  shows "proverIndex (UId (initUID s)) = moduleIndex s \<and> UId (initUID s) \<noteq> NOID \<and>
    (UId (initUID s) = UId (initUID s') \<longleftrightarrow> moduleIndex s = moduleIndex s')"
proof -
  have "valid_uid (Suc (moduleIndex s)) (UId (initUID s))"
    using valid_uid_UId [OF assms(1), of "Suc (moduleIndex s)"] by (simp add: initUID_def)
  then have "UId (initUID s) \<noteq> NOID" by (simp add: valid_uid_def)
  moreover have "proverIndex (UId (initUID x)) = moduleIndex x" if "moduleIndex x < 0x7FFFFFFE" for x
    using proverIndex_UId [OF that] by (simp add: initUID_def)
  moreover have "UId (initUID s) = UId (initUID s')" if "moduleIndex s = moduleIndex s'"
    using that by (simp add: initUID_def)
  ultimately show ?thesis using assms by metis
qed

theorem uid_roundtrip_witness:
  "proverIndex (UId (initUID demo_prover)) = 0 \<and> UId (initUID demo_prover) \<noteq> NOID \<and>
    UId (initUID demo_prover) \<noteq> UId (initUID (demo_prover\<lparr>moduleIndex := 2\<rparr>))"
proof -
  have i: "moduleIndex demo_prover = 0" by (simp add: demo_defs)
  have "moduleIndex demo_prover < 0x7FFFFFFE" "moduleIndex (demo_prover\<lparr>moduleIndex := 2\<rparr>) < 0x7FFFFFFE" by (simp_all add: i)
  from uid_roundtrip [OF this] show ?thesis by (simp add: i)
qed

section \<open>Adaptation to the battery\<close>

text \<open>The share of the energy that is left after the accounting up to now.\<close>

definition share :: "env \<Rightarrow> energy_storage \<Rightarrow> real" where
  "share E e = residualCapacity (refresh (simTime E) e) / nominalCapacity e"

lemma share_range: "storage_ok e \<Longrightarrow> 0 < nominalCapacity e \<Longrightarrow> 0 \<le> share E e \<and> share E e \<le> 1"
  using storage_okD [OF storage_ok_refresh [of e "simTime E"]] by (simp add: share_def)

lemma energyShare_eq: "energy s = Some e \<Longrightarrow> energyShare E s = Inr (share E e, s\<lparr>energy := Some (refresh (simTime E) e)\<rparr>)"
  by (simp add: energyShare_def share_def)

text \<open>
  With a working battery \<open>updateMaxChildren\<close> gives no children to a selfish prover or below
  14 percent, at least one above, never more than 23, and more than \<open>MAXCHILDREN\<close> exactly above
  90 percent, the share the constants call full.
\<close>
theorem max_children_bounds:
  assumes "energy s = Some e" and "storage_ok e" and "0 < nominalCapacity e"
  shows "\<exists>s'. updateMaxChildren E s = Inr s' \<and> maxchildren s' \<le> 23 \<and>
    (maxchildren s' = 0 \<longleftrightarrow> selfish s \<or> share E e < 0.14) \<and>
    (MAXCHILDREN < maxchildren s' \<longleftrightarrow> \<not> selfish s \<and> FULL_ENERGY < share E e)"
proof (cases "selfish s")
  case True
  then show ?thesis by (simp add: updateMaxChildren_def)
next
  case False
  let ?x = "share E e" let ?v = "25 * ?x - 2.5"
  have r: "0 \<le> ?x" "?x \<le> 1" using share_range [OF assms(2,3)] by auto
  let ?s = "s\<lparr>energy := Some (refresh (simTime E) e), maxchildren := nat \<lceil>if ?v < 1 then 0 else ?v\<rceil>\<rparr>"
  have eq: "updateMaxChildren E s = Inr ?s"
    using False by (simp add: updateMaxChildren_def energyShare_eq [OF assms(1)] Let_def CHILDREN_eq)
  show ?thesis
  proof (cases "?v < 1")
    case True
    then show ?thesis using False eq by (simp add: FULL_ENERGY_def)
  next
    case v: False
    have "\<lceil>?v\<rceil> \<le> 23" using r by (simp add: ceiling_le_iff)
    moreover have "0 < \<lceil>?v\<rceil>" using v by linarith
    moreover have "20 < \<lceil>?v\<rceil> \<longleftrightarrow> 0.9 < ?x" by (simp add: less_ceiling_iff) linarith
    ultimately show ?thesis using False eq v by (auto simp: FULL_ENERGY_def MAXCHILDREN_def nat_less_iff zless_nat_eq_int_zless)
  qed
qed

definition demo_battery :: "real \<Rightarrow> energy_storage" where
  "demo_battery r = \<lparr>energyConsumers = [], energyGenerators = [], totalPowerConsumption = 0, totalPowerGeneration = 0,
     nominalCapacity = 10, residualCapacity = r, printCapacityStep = None, lastResidualCapacityUpdate = 0,
     timerAt = None, targetCapacity = 0, nodeState = None\<rparr>"

theorem max_children_bounds_witness:
  "\<exists>s'. updateMaxChildren demo_env (demo_prover\<lparr>energy := Some (demo_battery 10)\<rparr>) = Inr s' \<and>
     maxchildren s' \<le> 23 \<and> MAXCHILDREN < maxchildren s'"
proof -
  let ?s = "demo_prover\<lparr>energy := Some (demo_battery 10)\<rparr>"
  have "energy ?s = Some (demo_battery 10)" "storage_ok (demo_battery 10)" "0 < nominalCapacity (demo_battery 10)"
    by (simp_all add: demo_battery_def storage_ok_def)
  from max_children_bounds [OF this, of demo_env] show ?thesis
    by (auto simp: demo_defs share_def refresh_def demo_battery_def demo_env_def FULL_ENERGY_def)
qed

text \<open>
  The delay until a prover starts a tree of its own grows with the battery and stays between
  zero and the period \<open>deltag\<close>; a selfish prover starts at once.
\<close>
theorem tree_delay_range:
  assumes "energy s = Some e" and "storage_ok e" and "0 < nominalCapacity e"
  shows "\<exists>d s'. chooseTreeDelay E s = Inr (d, s') \<and> 0 \<le> d \<and> d \<le> max 0 (deltag s) \<and>
    (selfish s \<or> deltag s < 0 \<longrightarrow> d = 0) \<and> (\<not> selfish s \<and> 0 \<le> deltag s \<longrightarrow> d = deltag s * share E e)"
proof -
  have "0 \<le> share E e" "share E e \<le> 1" using share_range [OF assms(2,3)] by auto
  then have "0 \<le> deltag s \<Longrightarrow> 0 \<le> deltag s * share E e \<and> deltag s * share E e \<le> deltag s"
    "deltag s < 0 \<Longrightarrow> deltag s * share E e \<le> 0"
    by (auto simp: mult_left_le mult_nonpos_nonneg)
  then show ?thesis
    by (cases "deltag s < 0") (auto simp: chooseTreeDelay_def energyShare_eq [OF assms(1)] Let_def DELTAG_eq)
qed

theorem tree_delay_range_witness:
  "\<exists>d s'. chooseTreeDelay demo_env (demo_prover\<lparr>deltag := 8, energy := Some (demo_battery 5)\<rparr>) = Inr (d, s') \<and> d = 4"
proof -
  let ?s = "demo_prover\<lparr>deltag := 8, energy := Some (demo_battery 5)\<rparr>"
  have "energy ?s = Some (demo_battery 5)" "storage_ok (demo_battery 5)" "0 < nominalCapacity (demo_battery 5)"
    by (simp_all add: demo_battery_def storage_ok_def)
  from tree_delay_range [OF this, of demo_env] show ?thesis
    by (auto simp: demo_defs share_def refresh_def demo_battery_def demo_env_def)
qed

section \<open>What becomes of a message\<close>

text \<open>The places a message can be: on its way, in the queue, or waiting for the collector.\<close>

definition on_way :: "cMessage \<Rightarrow> call list \<Rightarrow> nat" where
  "on_way m cs = length (filter (\<lambda>c. (\<exists>i d. c = SendProver i d m \<or> c = SendCollector i d m) \<or> (\<exists>g. c = SendGate g m)) cs)"

definition places :: "cMessage \<Rightarrow> 'a adevice_scheme \<Rightarrow> nat" where
  "places m s = on_way m (calls s) + count_list (msgqueue s) m + (if pupmsg s = Some m then 1 else 0)"

lemma on_way_simps [simp]:
  "on_way m [] = 0"
  "on_way m (SendProver i d m' # cs) = (if m = m' then 1 else 0) + on_way m cs"
  "on_way m (SendCollector i d m' # cs) = (if m = m' then 1 else 0) + on_way m cs"
  "on_way m (SendGate g m' # cs) = (if m = m' then 1 else 0) + on_way m cs"
  "on_way m (ScheduleAt t x # cs) = on_way m cs"
  "on_way m (Emit y v # cs) = on_way m cs"
  "on_way m (SetProcessing # cs) = on_way m cs"
  by (simp_all add: on_way_def)

lemma places_startTx:
  assumes "startTx C E bl d s = Inr s'"
  shows "places m s' = places m s"
  using assms unfolding startTx_def Let_def
  by (cases "energy s"; auto simp: call_defs setPower_def places_def rbind_eq_Inr split: if_splits)+

lemma places_step [simp]:
  "places m (enqueue m' s) = places m s + (if m = m' then 1 else 0)"
  "places m (channelBusy C E m' s) = places m s + (if m = m' then 1 else 0)"
  "places m (emit_call (SendProver i d m') s) = places m s + (if m = m' then 1 else 0)"
  "places m (emit_call (SendCollector i d m') s) = places m s + (if m = m' then 1 else 0)"
  "places m (emit_call (Emit y v) s) = places m s"
  "places m (emit_call SetProcessing s) = places m s"
  "places m (emit_call (ScheduleAt t x) s) = places m s"
  "places m (sendGate u m' s) = places m s + (if m = m' then 1 else 0)"
  by (simp_all add: places_def enqueue_def channelBusy_def scheduleAt_def sendGate_def Let_def emit_call_def)

text \<open>
  \<open>sendProver\<close> neither loses nor duplicates a message: when it returns, the message it was
  given is on its way to its destination or at the end of the queue, in exactly one
  place more than before, and every other message is where it was.
\<close>
theorem sendProver_conserves:
  assumes "sendProver C E serv is_T msg s = Inr s'"
  shows "places m s' = places m s + (if m = msg then 1 else 0)"
  using assms unfolding sendProver_def Let_def
  by (auto split: if_splits simp: rbind_eq_Inr dest!: places_startTx [where m=m])

theorem sendProver_conserves_witness:
  "\<exists>s'. sendProver wired_build demo_env (\<lambda>u. Inr False) is_RevokeReq (newmsg RVKRQ 0 (RevokeReq 2 [1] 0))
      (demo_prover\<lparr>txrxstat := TRANSMITING\<rparr>) = Inr s' \<and>
    (\<forall>m. places m s' = places m (demo_prover\<lparr>txrxstat := TRANSMITING\<rparr>) + (if m = newmsg RVKRQ 0 (RevokeReq 2 [1] 0) then 1 else 0))"
proof -
  let ?m = "newmsg RVKRQ 0 (RevokeReq 2 [1] 0)" let ?s = "demo_prover\<lparr>txrxstat := TRANSMITING\<rparr>"
  have "sendProver wired_build demo_env (\<lambda>u. Inr False) is_RevokeReq ?m ?s = Inr (enqueue ?m ?s)" by (simp add: sendProver_def)
  with sendProver_conserves [OF this] show ?thesis by blast
qed

lemma places_waiting:
  "places m (s\<lparr>pupmsg := Some msg\<rparr>) = places m (s\<lparr>pupmsg := None\<rparr>) + (if m = msg then 1 else 0)"
  "places m s = places m (s\<lparr>pupmsg := None\<rparr>) + (if pupmsg s = Some m then 1 else 0)"
  by (simp_all add: places_def)

text \<open>
  \<open>sendCollector\<close> keeps its message in the same way but forgets an update that was waiting
  for the collector: whatever it was, it is afterwards in one place less.
\<close>
theorem sendCollector_forgets_waiting:
  assumes "sendCollector C E is_T msg s = Inr s'"
  shows "places m s' + (if pupmsg s = Some m then 1 else 0) = places m s + (if m = msg then 1 else 0)"
proof -
  have "places m s' = places m (s\<lparr>pupmsg := None\<rparr>) + (if m = msg then 1 else 0)"
    using assms unfolding sendCollector_def Let_def
    by (auto split: if_splits simp: rbind_eq_Inr scheduleAt_def places_waiting(1) dest!: places_startTx [where m=m])
  then show ?thesis using places_waiting(2) [of m s] by simp
qed

theorem sendCollector_forgets_waiting_witness:
  "\<exists>s'. sendCollector wired_build demo_env is_UpdateReq (newmsg UPRQF 0 (UpdateReq 5 1 [5] [1] 7 0 [0]))
      (demo_prover\<lparr>txrxstat := TRANSMITING, pupmsg := Some (newmsg UPRQC 0 (UpdateReq 1 1 [1] [1] 7 0 [0]))\<rparr>) = Inr s' \<and>
    places (newmsg UPRQC 0 (UpdateReq 1 1 [1] [1] 7 0 [0])) s' = 0"
proof -
  let ?m = "newmsg UPRQF 0 (UpdateReq 5 1 [5] [1] 7 0 [0])" let ?w = "newmsg UPRQC 0 (UpdateReq 1 1 [1] [1] 7 0 [0])"
  let ?s = "demo_prover\<lparr>txrxstat := TRANSMITING, pupmsg := Some ?w\<rparr>"
  have "sendCollector wired_build demo_env is_UpdateReq ?m ?s = Inr (enqueue ?m (?s\<lparr>pupmsg := None\<rparr>))"
    by (simp add: sendCollector_def)
  moreover have "places ?w ?s = 1" by (simp add: places_def demo_defs)
  ultimately show ?thesis using sendCollector_forgets_waiting [of wired_build demo_env is_UpdateReq ?m ?s _ ?w] by (simp add: newmsg_def)
qed

section \<open>Types of messages\<close>

text \<open>The packet class that goes with a kind of message between provers.\<close>

fun class_fits :: "MSG \<Rightarrow> packet \<Rightarrow> bool" where
  "class_fits JNRQ p = is_JoinReq p"
| "class_fits CMRQ p = is_CommitReq p"
| "class_fits CMRP p = is_CommitResp p"
| "class_fits CMAK p = is_CommitAck p"
| "class_fits UPRQ p = is_UpdateReq p"
| "class_fits UPRQC p = is_UpdateReq p"
| "class_fits UPRQF p = is_UpdateReq p"
| "class_fits _ p = False"

lemma outgoing_class: "outgoing N n m \<Longrightarrow> class_fits (mkind m) (mpacket m)"
  by (cases "mpacket m") (auto simp: outgoing_def)

text \<open>
  C25. Messages are well-typed: whatever a live prover has sent to another prover, or holds in
  its queue or back for the collector, carries a packet of the class that its kind
  announces (no \<open>check_and_cast\<close> of a receiver fails on it), and is one of the messages
  \<open>incoming\<close> that the runs of provers take from the network.
\<close>
theorem messages_well_typed:
  assumes "prover_run intrand C N n s" and "\<not> crashed s"
    and "(\<exists>i t. SendProver i t m \<in> set (calls s)) \<or> (\<exists>g. SendGate g m \<in> set (calls s)) \<or> m \<in> set (msgqueue s) \<or> pupmsg s = Some m"
  shows "class_fits (mkind m) (mpacket m) \<and> incoming N n m"
proof -
  have "log_inv C N n s" using run_inv [OF assms(1)] assms(2) by (simp add: prover_inv_def)
  then have call: "c \<in> set (calls s) \<Longrightarrow> call_ok C N n c" and "m \<in> set (msgqueue s) \<Longrightarrow> outgoing N n m"
    and "pupmsg s = Some m \<Longrightarrow> outgoing N n m" for c by (auto simp: log_inv_def list_all_iff queued_ok_def)
  moreover have "outgoing N n m" if "SendProver i t m \<in> set (calls s)" for i t using call [OF that] by simp
  moreover have "outgoing N n m" if "SendGate g m \<in> set (calls s)" for g using call [OF that] by simp
  ultimately have "outgoing N n m" using assms(3) by blast
  then show ?thesis using outgoing_class by (simp add: incoming_def)
qed

text \<open>A run of prover \<open>0\<close> of three up to its first request for children.\<close>

abbreviation start_event :: cMessage where
  "start_event \<equiv> timer_msg ATTEST Startmsg NoPacket"

abbreviation check_event :: cMessage where
  "check_event \<equiv> timer_msg CHECK Checkdelaymsg NoPacket"

abbreviation tree_event :: cMessage where
  "tree_event \<equiv> timer_msg MKTREE Startmsg NoPacket"

definition demo_req :: cMessage where
  "demo_req = \<lparr>mkind = CMRQ, mid = Creqmsg, mself = True, mbytes = 16, mpacket = CommitReq 1 3 [1] 7\<rparr>"

definition demo_at :: "status_e \<Rightarrow> call list \<Rightarrow> aprover \<Rightarrow> bool" where
  "demo_at st cs s \<longleftrightarrow> \<not> crashed s \<and> status s = st \<and> calls s = cs \<and> pfirst s = NOID \<and> moduleIndex s = 0 \<and>
     rootidx s = 0 \<and> device s = SKY \<and> deltah s = 1000 \<and> maxchildren s = MAXCHILDREN \<and> maxdepth s = 3 \<and> KeyRing s = [(1, 5)] \<and> UId s = 1 \<and>
     txrxstat s = DIDLE \<and> chanstat s = CIDLE \<and> drange s = 2"

abbreviation demo_deliver :: "cMessage \<Rightarrow> aprover \<Rightarrow> aprover result" where
  "demo_deliver \<equiv> deliver wired_build demo_env (prover_vtable wired_build demo_env)"

definition calls1 :: "call list" where
  "calls1 = [ScheduleAt (1960 * 0.001) check_event, ScheduleAt 1000 (timer_msg ATTEST Attesttimer NoPacket), Delivered Startmsg,
     ScheduleAt 0 start_event]"

definition calls2 :: "call list" where
  "calls2 = ScheduleAt 0 tree_event # Delivered Checkdelaymsg # calls1"

definition calls3 :: "call list" where
  "calls3 = ScheduleAt (TIMEOUT_RSP FADIA) (timer_msg CMRPTO Cresptomsg (CommitTimeOut 0 7)) # CancelEvent Cresptomsg #
     ScheduleAt 0 demo_req # Delivered Startmsg # calls2"

lemmas demo_sel = wired_build_def demo_env_def

lemma demo_at0: "demo_at JOINING [ScheduleAt 0 start_event] demo_prover"
  by (simp add: demo_at_def demo_defs Let_def NOID_def baseID_def MAXUID_def initial_drange_def NEIGHBOR_DISTANCE_def)

lemma demo_at1: "demo_at JOINING [ScheduleAt 0 start_event] s \<Longrightarrow> ok (demo_at CHECKING calls1) (demo_deliver start_event s)"
  by (simp add: demo_at_def deliver_self timer_msg_def handleSelf_def prover_vtable_def startAttestation_def Let_def clearPeriod_def
     call_defs checkFirmwareDelay_def demo_sel calls1_def)

lemma demo_at2: "demo_at CHECKING calls1 s \<Longrightarrow> ok (demo_at READY calls2) (demo_deliver check_event s)"
  by (simp add: demo_at_def deliver_self timer_msg_def handleSelf_def prover_vtable_def checkSoftConfig_def Let_def
     call_defs demo_sel calls1_def calls2_def)

lemma demo_at3: "demo_at READY calls2 s \<Longrightarrow> ok (demo_at CREATING calls3) (demo_deliver tree_event s)"
  by (simp add: demo_at_def deliver_self timer_msg_def handleSelf_def prover_vtable_def sendCommitReq_def Let_def demo_req_def
     call_defs demo_sel calls3_def getKeyRingIds_def CRQ_SIZE_def MAXCHILDREN_def)

lemma demo_at4: "demo_at CREATING calls3 s \<Longrightarrow> ok (\<lambda>s'. \<not> crashed s' \<and> SendGate 0 demo_req \<in> set (calls s')) (demo_deliver demo_req s)"
  by (simp add: demo_at_def deliver_self timer_msg_def handleSelf_def prover_vtable_def sendProverBroadcast_def Let_def demo_req_def
     call_defs demo_sel isChannelBusy_def isTransmiting_def isChannelBusyFar_walk connected_def ring3_def upt_rec numeral_2_eq_2 all_bool_eq)

lemma demo_event:
  assumes "prover_run (\<lambda>r n. (0 :: nat, r :: unit)) wired_build 3 1 s" and "demo_at st cs s" and "mself m"
    and "ScheduleAt t m \<in> set cs" and "armed cs (mid m)" and "mkind m = MKTREE \<Longrightarrow> \<not> armed cs Checkdelaymsg"
    and "mkind m = ATTEST \<Longrightarrow> \<not> armed cs Cresptomsg" and "mkind m \<noteq> REVOKE" and "ok P (demo_deliver m s)"
  shows "\<exists>s'. prover_run (\<lambda>r n. (0 :: nat, r :: unit)) wired_build 3 1 s' \<and> P s'"
proof -
  obtain s' where s': "demo_deliver m s = Inr s'" "P s'" using assms(9) by (auto simp: ok_eq)
  have "sim_ok wired_build 3 demo_env" by (simp add: sim_ok_def compiles_def wired_build_def demo_env_def)
  moreover have "prover_event 3 1 m s"
    using assms(2-8) by (auto simp: prover_event_def pending_def in_time_def demo_at_def)
  ultimately show ?thesis using prover_run.event [OF assms(1) _ _ s'(1)] s'(2) by blast
qed

lemma demo_sent: "\<exists>s. prover_run (\<lambda>r n. (0 :: nat, r :: unit)) wired_build 3 1 s \<and> \<not> crashed s \<and> SendGate 0 demo_req \<in> set (calls s)"
proof -
  obtain s1 where s1: "prover_run (\<lambda>r n. (0 :: nat, r :: unit)) wired_build 3 1 s1" "demo_at CHECKING calls1 s1"
    using demo_event [OF demo_run demo_at0 _ _ _ _ _ _ demo_at1 [OF demo_at0]] by (auto simp: timer_msg_def)
  obtain s2 where s2: "prover_run (\<lambda>r n. (0 :: nat, r :: unit)) wired_build 3 1 s2" "demo_at READY calls2 s2"
    using demo_event [OF s1 _ _ _ _ _ _ demo_at2 [OF s1(2)], of "1960 * 0.001"] by (auto simp: timer_msg_def calls1_def)
  obtain s3 where s3: "prover_run (\<lambda>r n. (0 :: nat, r :: unit)) wired_build 3 1 s3" "demo_at CREATING calls3 s3"
    using demo_event [OF s2 _ _ _ _ _ _ demo_at3 [OF s2(2)], of 0] by (auto simp: timer_msg_def calls2_def calls1_def)
  show ?thesis
    using demo_event [OF s3 _ _ _ _ _ _ demo_at4 [OF s3(2)], of 0] by (auto simp: timer_msg_def calls3_def calls2_def demo_req_def)
qed

theorem messages_well_typed_witness:
  "\<exists>s. prover_run (\<lambda>r n. (0 :: nat, r :: unit)) wired_build 3 1 s \<and> SendGate 0 demo_req \<in> set (calls s) \<and>
    class_fits (mkind demo_req) (mpacket demo_req) \<and> incoming 3 1 demo_req"
  using demo_sent messages_well_typed [where m=demo_req] by blast

section \<open>Sequences of events\<close>

fun deliveries :: "config \<Rightarrow> (env \<Rightarrow> 'a dev vtable) \<Rightarrow> (env \<times> cMessage) list \<Rightarrow> 'a dev \<Rightarrow> 'a dev result" where
  "deliveries C V [] s = Inr s"
| "deliveries C V ((E, m) # ms) s = rbind (deliver C E (V E) m s) (deliveries C V ms)"

lemma deliver_only_logs: "crashed s \<Longrightarrow> \<exists>cs. deliver C E V m s = Inr (s\<lparr>calls := cs\<rparr>)"
  by (intro exI [of _ "if mself m then Delivered (mid m) # calls s else calls s"])
     (simp add: deliver_crashed emit_call_def)

lemma deliveries_crashed: "crashed s \<Longrightarrow> \<exists>cs. deliveries C V ms s = Inr (s\<lparr>calls := cs\<rparr>)"
proof (induction ms arbitrary: s)
  case Nil
  then show ?case by (intro exI [of _ "calls s"]) simp
next
  case (Cons x ms)
  obtain E m where x: "x = (E, m)" by (cases x)
  from deliver_only_logs [OF Cons.prems, of C E "V E" m] obtain cs where cs: "deliver C E (V E) m s = Inr (s\<lparr>calls := cs\<rparr>)" ..
  with Cons.IH [of "s\<lparr>calls := cs\<rparr>"] Cons.prems x show ?case by simp
qed

lemma refresh_twice: "refresh now ((refresh now e)\<lparr>totalPowerConsumption := w\<rparr>) = (refresh now e)\<lparr>totalPowerConsumption := w\<rparr>"
  by (simp add: refresh_def put_residual_def)

lemma empty_battery_crashes:
  assumes "ENERGY_TEST C" and "\<not> crashed s" and "energy s = Some e" and "residualCapacity (refresh (simTime E) e) \<le> 0"
  shows "\<exists>s'. deliver C E V entxmsg s = Inr s' \<and> crashed s' \<and> txrxstat s' = txrxstat s \<and> moduleIndex s' = moduleIndex s"
proof -
  have "deliver C E V entxmsg s = handleDoneEnMsg E entxmsg (emit_call (Delivered Entxmsg) s)"
    using assms(1,2) by (simp add: deliver_self handleSelf_def timer_defs)
  then show ?thesis
    using assms(3,4) by (simp add: handleDoneEnMsg_def setPower_def timer_defs emit_call_def Let_def refresh_twice logWarn_def)
qed

text \<open>
  C35. A prover whose battery is empty when the energy of a transmission is accounted for
  crashes in the state \<open>TRANSMITING\<close>: the end-of-transmission timer comes later and a crashed
  device ignores it, like every other event. From then on, whatever is delivered to the
  crashed prover, every device that has it in radio range finds its channel busy.
\<close>
theorem crash_blocks_neighbours:
  assumes "ENERGY_TEST C" and "\<not> crashed s" and "txrxstat s = TRANSMITING" and "energy s = Some e"
    and "residualCapacity (refresh (simTime E) e) \<le> 0"
  shows "\<exists>s1. deliver C E (V E) entxmsg s = Inr s1 \<and> crashed s1 \<and>
    (\<forall>ms. \<exists>s2. deliveries C V ms s1 = Inr s2 \<and> txrxstat s2 = TRANSMITING \<and>
      (\<forall>E' d. drange d = -1 \<and> transmitting E' (moduleIndex s2) = (txrxstat s2 = TRANSMITING) \<and>
        moduleIndex s2 < numProvers E' \<and> moduleIndex d \<noteq> moduleIndex s2 \<and>
        sqrdist (position E' (moduleIndex d)) (position E' (moduleIndex s2)) \<le> range_m d * range_m d
        \<longrightarrow> isChannelBusy E' d))"
proof -
  from empty_battery_crashes [OF assms(1,2,4,5), of "V E"] assms(3) obtain s1 where
    s1: "deliver C E (V E) entxmsg s = Inr s1" "crashed s1" "txrxstat s1 = TRANSMITING" by auto
  have "\<exists>s2. deliveries C V ms s1 = Inr s2 \<and> txrxstat s2 = TRANSMITING" for ms
    using deliveries_crashed [OF s1(2), of C V ms] s1(3) by auto
  moreover have "isChannelBusy E' d"
    if "drange d = -1" "transmitting E' i" "i < numProvers E'" "moduleIndex d \<noteq> i"
      "sqrdist (position E' (moduleIndex d)) (position E' i) \<le> range_m d * range_m d" for E' d i
    using that by (auto simp: isChannelBusy_def isChannelBusyRadio_def isTransmiting_def list_ex_iff intro!: bexI [of _ i])
  ultimately show ?thesis using s1 by (intro exI [of _ s1]) fastforce
qed

theorem crash_blocks_neighbours_witness:
  "\<exists>s1. deliver energy_build demo_env (prover_vtable energy_build demo_env) entxmsg
      (demo_prover\<lparr>energy := Some (demo_battery 0), txrxstat := TRANSMITING\<rparr>) = Inr s1 \<and> crashed s1 \<and>
    (\<forall>ms. \<exists>s2. deliveries energy_build (prover_vtable energy_build) ms s1 = Inr s2 \<and> txrxstat s2 = TRANSMITING)"
proof -
  let ?s = "demo_prover\<lparr>energy := Some (demo_battery 0), txrxstat := TRANSMITING\<rparr>"
  have "ENERGY_TEST energy_build" "\<not> crashed ?s" "txrxstat ?s = TRANSMITING" "energy ?s = Some (demo_battery 0)"
    "residualCapacity (refresh (simTime demo_env) (demo_battery 0)) \<le> 0"
    by (simp_all add: energy_build_def demo_defs refresh_def demo_battery_def demo_env_def)
  from crash_blocks_neighbours [OF this, of "prover_vtable energy_build"] show ?thesis by blast
qed

text \<open>The timers of a prover that waits for the acknowledgement of its parent.\<close>

abbreviation mktree_event :: cMessage where
  "mktree_event \<equiv> timer_msg MKTREE Mktreetimer NoPacket"

abbreviation ack_timeout :: "uid_t \<Rightarrow> treeid_t \<Rightarrow> cMessage" where
  "ack_timeout u t \<equiv> timer_msg CMAKTO Cacktomsg (CommitTimeOut u t)"

abbreviation resp_timeout :: "treeid_t \<Rightarrow> cMessage" where
  "resp_timeout t \<equiv> timer_msg CMRPTO Cresptomsg (CommitTimeOut 0 t)"

abbreviation revoke_event :: cMessage where
  "revoke_event \<equiv> newmsg REVOKE 0 NoPacket"

text \<open>The single events, up to the call log.\<close>

lemma deliver_revoke:
  "\<not> crashed s \<Longrightarrow> \<exists>s'. deliver C E (prover_vtable C E) revoke_event s = Inr s' \<and> s' = s\<lparr>status := OFFLINE, calls := calls s'\<rparr>"
  by (simp add: deliver_self newmsg_def handleSelf_def prover_vtable_def sendRevReq_def call_defs)

lemma deliver_mktree_waiting:
  "\<not> crashed s \<Longrightarrow> status s = ATTESTING \<Longrightarrow>
    \<exists>s'. deliver C E (prover_vtable C E) mktree_event s = Inr s' \<and> s' = s\<lparr>status := ATTESTING_CREATING, calls := calls s'\<rparr>"
  by (simp add: deliver_self timer_msg_def handleSelf_def prover_vtable_def sendCommitReq_def emit_call_def)

lemma deliver_mktree:
  assumes "\<not> crashed s" and "status s = OFFLINE" and "pfirst s \<noteq> NOID" and "psecond s \<noteq> None" and "maxchildren s \<noteq> 0"
    and "csessions s = []"
  shows "\<exists>s'. deliver C E (prover_vtable C E) mktree_event s = Inr s' \<and>
    s' = s\<lparr>status := CREATING, csessions := csessions s', calls := calls s'\<rparr> \<and> length (csessions s') = 1"
proof -
  obtain y where "psecond s = Some y" using assms(4) by auto
  with assms show ?thesis
    by (simp add: deliver_self timer_msg_def handleSelf_def prover_vtable_def sendCommitReq_def call_defs Let_def)
qed

lemma deliver_ack_timeout:
  "\<not> crashed s \<Longrightarrow> status s = CREATING \<Longrightarrow> \<exists>s'. deliver C E (prover_vtable C E) (ack_timeout (pfirst s) t) s = Inr s' \<and>
    s' = s\<lparr>psecond := None, pfirst := NOID, status := READY, calls := calls s'\<rparr>"
  by (simp add: deliver_self timer_msg_def handleSelf_def prover_vtable_def handleCommitAckTimeOut_def emit_call_def)

lemma deliver_ack_timeout_creating:
  assumes "\<not> crashed s" and "status s = ATTESTING_CREATING" and "maxchildren s \<noteq> 0" and "csessions s = []"
  shows "\<exists>s'. deliver C E (prover_vtable C E) (ack_timeout (pfirst s) t) s = Inr s' \<and>
    s' = s\<lparr>psecond := psecond s', pfirst := NOID, status := CREATING, csessions := csessions s', calls := calls s'\<rparr> \<and>
    length (csessions s') = 1 \<and> psecond s' \<noteq> None"
  using assms
  by (simp add: deliver_self timer_msg_def handleSelf_def prover_vtable_def handleCommitAckTimeOut_def sendCommitReq_def
      call_defs Let_def)

lemma deliver_resp_timeout:
  assumes "\<not> crashed s" and "length (csessions s) = 1"
  shows "\<exists>s'. deliver C E (prover_vtable C E) (resp_timeout t) s = sendUpReq C E t s' \<and>
    s' = s\<lparr>status := COLLECTING, calls := calls s'\<rparr>"
  using assms
  by (intro exI [of _ "s\<lparr>calls := Delivered Cresptomsg # calls s, status := COLLECTING\<rparr>"])
     (simp add: deliver_self timer_msg_def handleSelf_def prover_vtable_def handleCommitRespTimeOut_def emit_call_def)

lemma sendUpReq_null:
  assumes st: "static_inv C N n s" and rep: "report_ok n (aggreport s)" and "psecond s = None"
  shows "sendUpReq C E t s = Inl NullPointer"
proof -
  have "report_ok n ((aggreport s)\<lparr>tid := t\<rparr>)" "0 < n" "UId s \<noteq> NOID" "aggsize s = n"
    using rep st by (auto simp: report_ok_def static_inv_def valid_uid_def)
  from addOwnReport_ok [OF this(1-3), of "attestcount s"] this(4) assms(3) show ?thesis
    by (auto simp: sendUpReq_def report_ok_def wire_ok_def)
qed

text \<open>The timers with and without the revocation.\<close>

lemma revoked_timers:
  assumes "static_inv C N n s" and "report_ok n (aggreport s)" and "\<not> crashed s" and "status s = ATTESTING"
    and "pfirst s \<noteq> NOID" and "psecond s \<noteq> None" and "csessions s = []" and "maxchildren s \<noteq> 0"
  shows "deliveries C (prover_vtable C) [(E1, revoke_event), (E2, mktree_event), (E3, ack_timeout (pfirst s) t), (E4, resp_timeout t')] s
      = Inl NullPointer"
proof -
  let ?V = "prover_vtable C"
  from deliver_revoke [OF assms(3), of C E1] obtain a where
    a: "deliver C E1 (?V E1) revoke_event s = Inr a" and a': "a = s\<lparr>status := OFFLINE, calls := calls a\<rparr>" by (elim exE conjE)
  have "\<not> crashed a" "status a = OFFLINE" "pfirst a \<noteq> NOID" "psecond a \<noteq> None" "maxchildren a \<noteq> 0" "csessions a = []"
    by (subst a', use assms in simp)+
  from deliver_mktree [OF this, of C E2] obtain b where
    b: "deliver C E2 (?V E2) mktree_event a = Inr b"
    and b': "b = a\<lparr>status := CREATING, csessions := csessions b, calls := calls b\<rparr>" "length (csessions b) = 1" by (elim exE conjE)
  have "\<not> crashed b" "status b = CREATING" "pfirst b = pfirst s" by (subst b', subst a', use assms in simp)+
  with deliver_ack_timeout [of b C E3 t] obtain c where
    c: "deliver C E3 (?V E3) (ack_timeout (pfirst s) t) b = Inr c"
    and c': "c = b\<lparr>psecond := None, pfirst := NOID, status := READY, calls := calls c\<rparr>" by (auto simp only: )
  have "\<not> crashed c" "length (csessions c) = 1" by (subst c', subst b', subst a', use assms b'(2) in simp)+
  from deliver_resp_timeout [OF this, of C E4 t'] obtain d where
    d: "deliver C E4 (?V E4) (resp_timeout t') c = sendUpReq C E4 t' d"
    and d': "d = c\<lparr>status := COLLECTING, calls := calls d\<rparr>" by (elim exE conjE)
  have "static_inv C N n d" "report_ok n (aggreport d)" "psecond d = None"
    by (subst d', subst c', subst b', subst a', use assms in simp)+
  from sendUpReq_null [OF this, of E4 t'] a b c d
  show "deliveries C ?V [(E1, revoke_event), (E2, mktree_event), (E3, ack_timeout (pfirst s) t), (E4, resp_timeout t')] s
      = Inl NullPointer" by simp
qed

lemma tree_timers:
  assumes "static_inv C N n s" and "report_ok n (aggreport s)" and "\<not> crashed s" and "status s = ATTESTING"
    and "pfirst s \<noteq> NOID" and "psecond s \<noteq> None" and "csessions s = []" and "maxchildren s \<noteq> 0"
  shows "\<exists>s'. deliveries C (prover_vtable C) [(E2, mktree_event), (E3, ack_timeout (pfirst s) t), (E4, resp_timeout t')] s = Inr s' \<and>
      status s' = FINISHED"
proof -
  let ?V = "prover_vtable C"
  from deliver_mktree_waiting [OF assms(3,4), of C E2] obtain a where
    a: "deliver C E2 (?V E2) mktree_event s = Inr a" and a': "a = s\<lparr>status := ATTESTING_CREATING, calls := calls a\<rparr>" by (elim exE conjE)
  have "\<not> crashed a" "status a = ATTESTING_CREATING" "maxchildren a \<noteq> 0" "csessions a = []" and p: "pfirst a = pfirst s"
    by (subst a', use assms in simp)+
  from deliver_ack_timeout_creating [OF this(1-4), of C E3 t, unfolded p] obtain b where
    b: "deliver C E3 (?V E3) (ack_timeout (pfirst s) t) a = Inr b"
    and b': "b = a\<lparr>psecond := psecond b, pfirst := NOID, status := CREATING, csessions := csessions b, calls := calls b\<rparr>"
      "length (csessions b) = 1" "psecond b \<noteq> None" by (elim exE conjE)
  have "\<not> crashed b" by (subst b', subst a', use assms in simp)
  from deliver_resp_timeout [OF this b'(2), of C E4 t'] obtain c where
    c: "deliver C E4 (?V E4) (resp_timeout t') b = sendUpReq C E4 t' c"
    and c': "c = b\<lparr>status := COLLECTING, calls := calls c\<rparr>" by (elim exE conjE)
  have "static_inv C N n c" "report_ok n (aggreport c)" by (subst c', subst b', subst a', use assms in simp)+
  moreover have "psecond c \<noteq> None" by (subst c', use b'(3) in simp)
  ultimately obtain d where "sendUpReq C E4 t' c = Inr d" "status d = FINISHED" using sendUpReq_update by blast
  with a b c show "\<exists>s'. deliveries C ?V [(E2, mktree_event), (E3, ack_timeout (pfirst s) t), (E4, resp_timeout t')] s = Inr s' \<and>
      status s' = FINISHED" by simp
qed

text \<open>
  C36. A revocation that comes while the prover waits for its parent's acknowledgement is
  overtaken by the timers of the tree: the prover leaves \<open>OFFLINE\<close> again when it starts a tree
  on the session of its parent, the acknowledgement timeout deletes that session, and the
  response timeout follows the null pointer. Without the revocation the same timers end
  in a report.
\<close>
theorem revocation_while_attesting_faults:
  assumes "static_inv C N n s" and "report_ok n (aggreport s)" and "\<not> crashed s" and "status s = ATTESTING"
    and "pfirst s \<noteq> NOID" and "psecond s \<noteq> None" and "csessions s = []" and "maxchildren s \<noteq> 0"
  shows "deliveries C (prover_vtable C) [(E1, revoke_event), (E2, mktree_event), (E3, ack_timeout (pfirst s) t), (E4, resp_timeout t')] s
      = Inl NullPointer \<and>
    (\<exists>s'. deliveries C (prover_vtable C) [(E2, mktree_event), (E3, ack_timeout (pfirst s) t), (E4, resp_timeout t')] s = Inr s' \<and>
      status s' = FINISHED)"
  using revoked_timers [OF assms] tree_timers [OF assms] by blast

theorem revocation_while_attesting_faults_witness:
  "deliveries energy_build (prover_vtable energy_build)
     [(demo_env, revoke_event), (demo_env, mktree_event), (demo_env, ack_timeout 2 7), (demo_env, resp_timeout 7)]
     (demo_prover\<lparr>energy := Some (demo_battery 10), status := ATTESTING, pfirst := 2, psecond := Some (mkSession 7 2 1 2 False)\<rparr>)
   = Inl NullPointer"
proof -
  let ?s = "demo_prover\<lparr>energy := Some (demo_battery 10), status := ATTESTING, pfirst := 2, psecond := Some (mkSession 7 2 1 2 False)\<rparr>"
  have "static_inv energy_build 3 1 ?s" "report_ok 1 (aggreport ?s)" "\<not> crashed ?s" "status ?s = ATTESTING" "pfirst ?s \<noteq> NOID"
    "psecond ?s \<noteq> None" "csessions ?s = []" "maxchildren ?s \<noteq> 0"
    by (simp_all add: demo_defs energy_build_def static_inv_def valid_uid_def proverIndex_def NOID_def baseID_def MAXUID_def
        report_ok_def wire_ok_def report0_def MAXCHILDREN_def)
  from revocation_while_attesting_faults [OF this, of demo_env demo_env demo_env 7 demo_env 7] show ?thesis by simp
qed

end
