(* ===== verification/Outbox.thy ===== *)
theory Outbox
  imports Prover_Rules Handshake
begin

text \<open>
  The sending side of a device as an outbox: on a wired channel without collisions the
  transmission state, the queue and the messages that left implement a first-in first-out
  sender. \<open>fifo_sender\<close> is the interface, interpreted on \<open>deliver\<close>.
\<close>

section \<open>Specification\<close>

record outbox =
  sending :: bool
  waiting :: "cMessage list"
  gone :: "cMessage list"

datatype sender_event = Submit env cMessage | TxDone env

fun outbox_step :: "sender_event \<Rightarrow> outbox \<Rightarrow> outbox" where
  "outbox_step (Submit E m) b = (if sending b then b\<lparr>waiting := waiting b @ [m]\<rparr> else b\<lparr>sending := True, gone := gone b @ [m]\<rparr>)"
| "outbox_step (TxDone E) b = (case waiting b of [] \<Rightarrow> b\<lparr>sending := False\<rparr> | m # q \<Rightarrow> b\<lparr>sending := True, waiting := q, gone := gone b @ [m]\<rparr>)"

text \<open>The messages that are submitted, in order.\<close>

fun submitted :: "sender_event list \<Rightarrow> cMessage list" where
  "submitted [] = []"
| "submitted (Submit E m # es) = m # submitted es"
| "submitted (TxDone E # es) = submitted es"

definition outbox_ok :: "outbox \<Rightarrow> bool" where
  "outbox_ok b \<longleftrightarrow> (sending b \<or> waiting b = [])"

lemma outbox_step_fifo:
  "outbox_ok b \<Longrightarrow> outbox_ok (outbox_step e b) \<and>
    gone (outbox_step e b) @ waiting (outbox_step e b) = gone b @ waiting b @ submitted [e]"
  by (cases e) (auto simp: outbox_ok_def split: list.split)

section \<open>Interface\<close>

fun steps :: "('e \<Rightarrow> 's \<Rightarrow> 's result) \<Rightarrow> 'e list \<Rightarrow> 's \<Rightarrow> 's result" where
  "steps f [] s = Inr s"
| "steps f (e # es) s = rbind (f e s) (steps f es)"

locale fifo_sender =
  fixes step :: "sender_event \<Rightarrow> 's \<Rightarrow> 's result" and inv :: "'s \<Rightarrow> bool" and ev :: "sender_event \<Rightarrow> bool"
    and abs :: "'s \<Rightarrow> outbox"
  assumes refines: "inv s \<Longrightarrow> ev e \<Longrightarrow> \<exists>s'. step e s = Inr s' \<and> inv s' \<and> abs s' = outbox_step e (abs s)"
    and idle_empty: "inv s \<Longrightarrow> outbox_ok (abs s)"
begin

lemma steps_refine:
  "inv s \<Longrightarrow> \<forall>e \<in> set es. ev e \<Longrightarrow> \<exists>s'. steps step es s = Inr s' \<and> inv s' \<and> abs s' = fold outbox_step es (abs s)"
proof (induction es arbitrary: s)
  case (Cons e es)
  then obtain a where "step e s = Inr a" "inv a" "abs a = outbox_step e (abs s)" using refines by (metis list.set_intros(1))
  with Cons.IH [of a] Cons.prems(2) show ?case by auto
qed simp

lemma submitted_Cons: "submitted (e # es) = submitted [e] @ submitted es"
  by (cases e) simp_all

lemma fold_fifo:
  "outbox_ok b \<Longrightarrow> gone (fold outbox_step es b) @ waiting (fold outbox_step es b) = gone b @ waiting b @ submitted es"
proof (induction es arbitrary: b)
  case (Cons e es)
  then show ?case using outbox_step_fifo [of b e] submitted_Cons [of e es] by simp
qed simp

lemma in_order:
  assumes "inv s" and "\<forall>e \<in> set es. ev e"
  shows "\<exists>s'. steps step es s = Inr s' \<and> abs s' = fold outbox_step es (abs s) \<and>
    gone (abs s') @ waiting (abs s') = gone (abs s) @ waiting (abs s) @ submitted es"
  using steps_refine [OF assms] fold_fifo [OF idle_empty [OF assms(1)], of es] by auto

end

section \<open>Implementation\<close>

definition packet_class :: "MSG \<Rightarrow> packet \<Rightarrow> bool" where
  "packet_class k = (case k of CMRP \<Rightarrow> is_CommitResp | CMAK \<Rightarrow> is_CommitAck | UPRQ \<Rightarrow> is_UpdateReq | _ \<Rightarrow> is_RevokeReq)"

definition unicast :: "cMessage \<Rightarrow> bool" where
  "unicast m \<longleftrightarrow> mself m \<and> mkind m \<in> {CMRP, CMAK, UPRQ, RVKRQ} \<and> packet_class (mkind m) (mpacket m)"

text \<open>The messages that left through a gate, the first one first.\<close>

definition left_gate :: "call list \<Rightarrow> cMessage list" where
  "left_gate cs = rev (concat (map (\<lambda>c. case c of SendGate g m \<Rightarrow> [m] | _ \<Rightarrow> []) cs))"

definition outbox_of :: "'a adevice_scheme \<Rightarrow> outbox" where
  "outbox_of s = \<lparr>sending = (txrxstat s = TRANSMITING), waiting = msgqueue s, gone = left_gate (calls s)\<rparr>"

text \<open>No other device within sensing distance of device \<open>i\<close> transmits.\<close>

definition free_channel :: "nat \<Rightarrow> int \<Rightarrow> env \<Rightarrow> bool" where
  "free_channel i r E \<longleftrightarrow> \<not> isChannelBusyFar (wiring E) (\<lambda>j. j \<noteq> i \<and> transmitting E j) (nat r) None i"

definition sender_inv :: "nat \<Rightarrow> int \<Rightarrow> 'a adevice_scheme \<Rightarrow> bool" where
  "sender_inv i r s \<longleftrightarrow> \<not> crashed s \<and> moduleIndex s = i \<and> drange s = r \<and> device s \<noteq> SERV \<and> chanstat s = CIDLE \<and>
     (txrxstat s = TRANSMITING \<or> msgqueue s = []) \<and> list_all unicast (msgqueue s)"

definition sender_event_ok :: "nat \<Rightarrow> int \<Rightarrow> sender_event \<Rightarrow> bool" where
  "sender_event_ok i r e = (case e of Submit E m \<Rightarrow> unicast m \<and> free_channel i r E | TxDone E \<Rightarrow> free_channel i r E)"

definition sender_step :: "config \<Rightarrow> (env \<Rightarrow> 'a dev vtable) \<Rightarrow> sender_event \<Rightarrow> 'a dev \<Rightarrow> 'a dev result" where
  "sender_step C V e s = (case e of Submit E m \<Rightarrow> deliver C E (V E) m s | TxDone E \<Rightarrow> deliver C E (V E) txmsg s)"

lemma left_gate_simps [simp]:
  "left_gate [] = []" "left_gate (SendGate g m # cs) = left_gate cs @ [m]"
  "left_gate (ScheduleAt t m # cs) = left_gate cs" "left_gate (Delivered j # cs) = left_gate cs"
  by (simp_all add: left_gate_def)

text \<open>A unicast message on a wired channel is handed to \<open>sendProver\<close>.\<close>

lemma handleMessage_unicast:
  assumes "unicast m" and "\<not> crashed s" and "\<not> WIRELESS C"
  shows "handleMessage C E V (Suc k) m s = sendProver C E (v_isChannelBusyServ V s) (packet_class (mkind m)) m s"
  using assms by (auto simp: unicast_def handleSelf_def sendUpdate_def packet_class_def)

lemma isChannelBusy_free:
  assumes "free_channel (moduleIndex s) (drange s) E" and "drange s \<noteq> -1" and "txrxstat s = DIDLE"
  shows "\<not> isChannelBusy E s"
proof -
  have "isTransmiting E s = (\<lambda>j. j \<noteq> moduleIndex s \<and> transmitting E j)"
    using assms(3) by (auto simp: isTransmiting_def fun_eq_iff)
  with assms show ?thesis by (simp add: isChannelBusy_def free_channel_def)
qed

text \<open>What sending does not change.\<close>

definition same_sender :: "'a adevice_scheme \<Rightarrow> 'a adevice_scheme \<Rightarrow> bool" where
  "same_sender s s' \<longleftrightarrow> crashed s' = crashed s \<and> moduleIndex s' = moduleIndex s \<and> drange s' = drange s \<and>
     device s' = device s \<and> chanstat s' = chanstat s"

lemma send_idle:
  assumes "unicast m" and "txrxstat s = DIDLE" and "chanstat s = CIDLE" and "device s \<noteq> SERV"
    and "free_channel (moduleIndex s) (drange s) E" and "drange s \<noteq> -1" and "\<not> WIRELESS C" and "\<not> ENERGY_TEST C"
  shows "\<exists>s'. sendProver C E serv (packet_class (mkind m)) m s = Inr s' \<and> same_sender s s' \<and>
    outbox_of s' = \<lparr>sending = True, waiting = msgqueue s, gone = left_gate (calls s) @ [m]\<rparr>"
proof -
  have "\<not> isChannelBusy E s" using isChannelBusy_free assms by blast
  with assms show ?thesis
    by (simp add: unicast_def sendProver_def Let_def startTx_def sendGate_def call_defs same_sender_def outbox_of_def)
qed

lemma submit_refines:
  assumes inv: "sender_inv i r s" and m: "unicast m" "free_channel i r E" and C: "\<not> WIRELESS C" "\<not> ENERGY_TEST C" "r \<noteq> -1"
  shows "\<exists>s'. deliver C E V m s = Inr s' \<and> sender_inv i r s' \<and> outbox_of s' = outbox_step (Submit E m) (outbox_of s)"
proof -
  let ?s = "emit_call (Delivered (mid m)) s"
  have d: "deliver C E V m s = sendProver C E (v_isChannelBusyServ V ?s) (packet_class (mkind m)) m ?s"
    using m(1) handleMessage_unicast [OF m(1) _ C(1), of ?s E V "Suc 0"] inv
    by (simp add: deliver_def unicast_def sender_inv_def emit_call_def numeral_2_eq_2 del: handleMessage.simps)
  show ?thesis
  proof (cases "txrxstat s = TRANSMITING")
    case True
    then show ?thesis using d inv m(1)
      by (simp add: sendProver_def enqueue_def sender_inv_def outbox_of_def emit_call_def)
  next
    case False
    then have "txrxstat ?s = DIDLE" "chanstat ?s = CIDLE" "device ?s \<noteq> SERV" "free_channel (moduleIndex ?s) (drange ?s) E" "drange ?s \<noteq> -1"
      using inv m(2) C(3) by (auto simp: sender_inv_def emit_call_def)
    from send_idle [OF m(1) this C(1,2)] d obtain s' where
      "deliver C E V m s = Inr s'" "same_sender ?s s'" "outbox_of s' = \<lparr>sending = True, waiting = msgqueue s, gone = left_gate (calls s) @ [m]\<rparr>"
      by (auto simp: emit_call_def)
    then show ?thesis using inv False by (auto simp: same_sender_def sender_inv_def outbox_of_def emit_call_def)
  qed
qed

lemma done_refines:
  assumes inv: "sender_inv i r s" and E: "free_channel i r E" and C: "\<not> WIRELESS C" "\<not> ENERGY_TEST C" "r \<noteq> -1"
  shows "\<exists>s'. deliver C E V txmsg s = Inr s' \<and> sender_inv i r s' \<and> outbox_of s' = outbox_step (TxDone E) (outbox_of s)"
proof -
  let ?s = "(emit_call (Delivered Txmsg) s)\<lparr>txrxstat := DIDLE\<rparr>"
  have d: "deliver C E V txmsg s = serveQueue (handleMessage C E V 1) ?s"
    using inv by (simp add: deliver_self timer_defs handleSelf_def handleTxDoneMsg_def sender_inv_def del: handleMessage.simps)
  show ?thesis
  proof (cases "msgqueue s")
    case Nil
    then show ?thesis using d inv by (simp add: serveQueue_def sender_inv_def outbox_of_def emit_call_def)
  next
    case (Cons m q)
    with inv have m: "unicast m" "\<not> crashed ?s" "list_all unicast q" by (auto simp: sender_inv_def emit_call_def)
    have "txrxstat ?s = DIDLE" "chanstat ?s = CIDLE" "device ?s \<noteq> SERV" "free_channel (moduleIndex ?s) (drange ?s) E" "drange ?s \<noteq> -1"
      using inv E C(3) by (auto simp: sender_inv_def emit_call_def)
    from send_idle [OF m(1) this C(1,2)] handleMessage_unicast [OF m(1,2) C(1), of E V 0] obtain s' where
      s': "handleMessage C E V 1 m ?s = Inr s'" "same_sender ?s s'"
        "outbox_of s' = \<lparr>sending = True, waiting = m # q, gone = left_gate (calls s) @ [m]\<rparr>"
      using Cons by (auto simp: emit_call_def simp del: handleMessage.simps)
    from s'(3) have q: "msgqueue s' = m # q" "txrxstat s' = TRANSMITING" "left_gate (calls s') = left_gate (calls s) @ [m]"
      by (simp_all add: outbox_of_def)
    then have "deliver C E V txmsg s = Inr (s'\<lparr>msgqueue := q\<rparr>)"
      using d s'(1) Cons by (simp add: serveQueue_def emit_call_def del: handleMessage.simps)
    then show ?thesis using inv s'(2) q m Cons
      by (simp add: sender_inv_def same_sender_def outbox_of_def emit_call_def)
  qed
qed

text \<open>A device of a wired build without the energy test is a first-in first-out sender.\<close>

definition wired_sender :: "config \<Rightarrow> nat \<Rightarrow> int \<Rightarrow> 'a adevice_scheme \<Rightarrow> bool" where
  "wired_sender C i r s \<longleftrightarrow> \<not> WIRELESS C \<and> \<not> ENERGY_TEST C \<and> r \<noteq> -1 \<and> sender_inv i r s"

interpretation wired: fifo_sender "sender_step C V" "wired_sender C i r" "sender_event_ok i r" outbox_of
  for C and V :: "env \<Rightarrow> 'a dev vtable" and i r
proof unfold_locales
  fix s :: "'a dev" and e
  assume "wired_sender C i r s" and e: "sender_event_ok i r e"
  then have C: "\<not> WIRELESS C" "\<not> ENERGY_TEST C" "r \<noteq> -1" and inv: "sender_inv i r s" by (simp_all add: wired_sender_def)
  show "\<exists>s'. sender_step C V e s = Inr s' \<and> wired_sender C i r s' \<and> outbox_of s' = outbox_step e (outbox_of s)"
  proof (cases e)
    case (Submit E m)
    with e submit_refines [OF inv _ _ C, of m E "V E"] C show ?thesis
      by (auto simp: sender_event_ok_def sender_step_def wired_sender_def simp del: outbox_step.simps)
  next
    case (TxDone E)
    with e done_refines [OF inv _ C, of E "V E"] C show ?thesis
      by (auto simp: sender_event_ok_def sender_step_def wired_sender_def simp del: outbox_step.simps)
  qed
qed (auto simp: wired_sender_def sender_inv_def outbox_ok_def outbox_of_def)



end
