(* ===== verification/Steady.thy ===== *)
theory Steady
  imports Collector
begin

text \<open>
  What an event leaves unchanged, for the composition of devices into a network.

  \<open>steady\<close> relates the states of a device before and after an event: its place in the network
  stays, its call log only grows, it starts to transmit only when it senses a free channel,
  and it sends only through connected gates. The locale \<open>stable_device\<close> lifts such a
  relation from the virtual methods of a device to \<open>handleMessage\<close>; it is interpreted for
  provers, whose identifier and keys stay as well, and for collectors.
\<close>

section \<open>The relation\<close>

definition fixed :: "'a adevice_scheme \<Rightarrow> nat \<times> device_t \<times> int \<times> real" where
  "fixed s = (moduleIndex s, device s, drange s, range_m s)"

text \<open>The channel is free of other senders, as the device itself senses it.\<close>

definition clear :: "env \<Rightarrow> 'a adevice_scheme \<Rightarrow> bool" where
  "clear E s \<longleftrightarrow> \<not> isChannelBusy E (s\<lparr>txrxstat := DIDLE\<rparr>)"

text \<open>
  A usable gate. Gate 0 is where a device sends what it has no gate for, so the wiring has
  to connect it.
\<close>

definition gate_ok :: "topology \<Rightarrow> nat \<Rightarrow> int \<Rightarrow> bool" where
  "gate_ok T i g \<longleftrightarrow> 0 \<le> g \<and> link T i (nat g) \<noteq> None"

definition gates_ok :: "env \<Rightarrow> 'a adevice_scheme \<Rightarrow> bool" where
  "gates_ok E s \<longleftrightarrow> gate_ok (wiring E) (moduleIndex s) 0 \<and> gate_ok (wiring E) (moduleIndex s) (arrivalGate E) \<and>
     (\<forall>u g. map_of (deviceg s) u = Some g \<longrightarrow> gate_ok (wiring E) (moduleIndex s) g)"

fun gate_call :: "topology \<Rightarrow> nat \<Rightarrow> call \<Rightarrow> bool" where
  "gate_call T i (SendGate g m) = gate_ok T i g"
| "gate_call T i _ = True"

definition steady :: "env \<Rightarrow> 'a adevice_scheme \<Rightarrow> 'a adevice_scheme \<Rightarrow> bool" where
  "steady E s s' \<longleftrightarrow> fixed s' = fixed s \<and>
     (txrxstat s' = TRANSMITING \<longrightarrow> txrxstat s = TRANSMITING \<or> device s = SERV \<or> clear E s) \<and>
     (gates_ok E s \<longrightarrow> gates_ok E s') \<and>
     (\<exists>cs. calls s' = cs @ calls s \<and> (gates_ok E s \<longrightarrow> list_all (gate_call (wiring E) (moduleIndex s)) cs))"

lemma clear_fixed: "fixed s' = fixed s \<Longrightarrow> clear E s' = clear E s"
  by (simp add: fixed_def clear_def isChannelBusy_def isTransmiting_def [abs_def])

lemma steady_refl [simp]: "steady E s s"
  by (simp add: steady_def)

lemma steady_trans: "steady E s t \<Longrightarrow> steady E t u \<Longrightarrow> steady E s u"
  unfolding steady_def using clear_fixed [of t s E] by (auto simp: fixed_def)

text \<open>The frequent case: no transmission starts, no gate is used.\<close>

definition silent :: "'a adevice_scheme \<Rightarrow> 'a adevice_scheme \<Rightarrow> bool" where
  "silent s s' \<longleftrightarrow> fixed s' = fixed s \<and> txrxstat s' = txrxstat s \<and> deviceg s' = deviceg s \<and>
     (\<exists>cs. calls s' = cs @ calls s \<and> (\<forall>T i. list_all (gate_call T i) cs))"

lemma silent_steady: "silent s s' \<Longrightarrow> steady E s s'"
  by (auto simp: silent_def steady_def gates_ok_def fixed_def)

lemma silent_refl [simp]: "silent s s"
  by (simp add: silent_def)

lemma silent_trans: "silent s t \<Longrightarrow> silent t u \<Longrightarrow> silent s u"
  unfolding silent_def by (auto intro: exI [of _ "x @ y" for x y])

lemma silentI:
  assumes "fixed s' = fixed s" and "txrxstat s' = txrxstat s" and "deviceg s' = deviceg s" and "calls s' = calls s"
  shows "silent s s'"
  using assms by (simp add: silent_def)

lemma silent_call: "silent s t \<Longrightarrow> (\<And>T i. gate_call T i c) \<Longrightarrow> silent s (emit_call c t)"
  by (auto simp: silent_def fixed_def emit_call_def intro: exI [of _ "c # x" for x])

lemma silent_bind:
  assumes "yields (silent s) r" and "\<And>t. silent s t \<Longrightarrow> yields (silent s) (f t)"
  shows "yields (silent s) (rbind r f)"
  using assms by (cases r) auto

lemma silent_from: "yields (silent t) r \<Longrightarrow> silent s t \<Longrightarrow> yields (silent s) r"
  by (erule yields_mono) (rule silent_trans)

text \<open>Updates of members that the relation does not look at.\<close>

lemma silent_upd [simp]:
  "silent s (t\<lparr>chanstat := a1\<rparr>) = silent s t" "silent s (t\<lparr>msgqueue := a2\<rparr>) = silent s t"
  "silent s (t\<lparr>pupmsg := a3\<rparr>) = silent s t" "silent s (t\<lparr>energy := a4\<rparr>) = silent s t"
  "silent s (t\<lparr>status := a5\<rparr>) = silent s t" "silent s (t\<lparr>macdelays := a6\<rparr>) = silent s t"
  "silent s (t\<lparr>maxchildren := a7\<rparr>) = silent s t" "silent s (t\<lparr>crashed := a8\<rparr>) = silent s t"
  "silent s (t\<lparr>countcrash := a9\<rparr>) = silent s t" "silent s (t\<lparr>procstat := b1\<rparr>) = silent s t"
  "silent s (t\<lparr>maxdepth := b2\<rparr>) = silent s t" "silent s (t\<lparr>deltah := b3\<rparr>) = silent s t"
  "silent s (t\<lparr>deltag := b4\<rparr>) = silent s t" "silent s (t\<lparr>gatsz := b5\<rparr>) = silent s t"
  by (simp_all add: silent_def fixed_def)

lemma silent_calls [simp]:
  "silent s (scheduleAt x m t) = silent s (emit_call (ScheduleAt x m) t)"
  "silent s (deleteMsg m t) = silent s (emit_call (DeleteMsg m) t)"
  "silent s (cancelEvent i t) = silent s (emit_call (CancelEvent i) t)"
  "silent s (logError l t) = silent s (emit_call (LogError l) t)"
  "silent s (logWarn l t) = silent s (emit_call (LogWarn l) t)"
  by (simp_all add: call_defs)

section \<open>The operations of a device\<close>

text \<open>Sending also keeps the members of the subclass.\<close>

definition carried :: "env \<Rightarrow> 'a adevice_scheme \<Rightarrow> 'a adevice_scheme \<Rightarrow> bool" where
  "carried E s s' \<longleftrightarrow> steady E s s' \<and> adevice.more s' = adevice.more s"

lemma carriedI: "silent s s' \<Longrightarrow> adevice.more s' = adevice.more s \<Longrightarrow> carried E s s'"
  by (simp add: carried_def silent_steady)

lemma carried_trans: "carried E s t \<Longrightarrow> carried E t u \<Longrightarrow> carried E s u"
  unfolding carried_def by (auto intro: steady_trans)

lemma more_call [simp]: "adevice.more (emit_call c s) = adevice.more s"
  by (simp add: emit_call_def)

lemma carried_call: "carried E s t \<Longrightarrow> (\<And>T i. gate_call T i c) \<Longrightarrow> carried E s (emit_call c t)"
  by (erule carried_trans) (simp add: carriedI silent_call)

lemma carried_refl [simp]: "carried E s s"
  by (simp add: carried_def)

lemma setPower_carried: "yields (carried E s) (setPower E' x s)"
  by (auto simp: setPower_def intro!: carriedI split: option.split)

lemma enqueue_carried: "carried E s (enqueue m s)"
  by (intro carriedI) (simp_all add: enqueue_def)

lemma channelBusy_carried: "carried E s (channelBusy C E' m s)"
  by (intro carriedI) (simp_all add: channelBusy_def enqueue_def call_defs silent_def fixed_def)

lemma handleDoneEnMsg_carried: "yields (carried E s) (handleDoneEnMsg E' m s)"
  by (auto simp: handleDoneEnMsg_def setPower_def Let_def call_defs intro!: carriedI split: option.split prod.split)
     (auto simp: silent_def fixed_def)

lemma updateGates_carried: "yields (carried E s) (updateGates C E T m s)"
  by (auto simp: updateGates_def Let_def carried_def steady_def fixed_def clear_def gates_ok_def)

lemma startTx_carried:
  assumes "clear E s \<or> device s = SERV"
  shows "yields (carried E s) (startTx C E b d s)"
  using assms
  by (auto simp: startTx_def setPower_def Let_def call_defs carried_def steady_def fixed_def gates_ok_def split: option.split)

lemma sendGate_carried: "carried E s (sendGate u m s)"
proof -
  let ?g = "omap_insert u 0 (deviceg s)"
  have eq: "sendGate u m s = s\<lparr>deviceg := ?g, calls := SendGate (the (map_of ?g u)) m # calls s\<rparr>"
    by (simp add: sendGate_def Let_def emit_call_def)
  have "gate_ok (wiring E) (moduleIndex s) (the (map_of ?g u))" if "gates_ok E s"
    using that by (auto simp: gates_ok_def map_of_omap_insert split: option.split)
  moreover have "gates_ok E (sendGate u m s)" if "gates_ok E s"
    using that unfolding eq by (simp add: gates_ok_def map_of_omap_insert split: option.splits)
  ultimately show ?thesis
    unfolding carried_def steady_def by (simp add: eq fixed_def)
qed

text \<open>The start of a transmission after the channel was sensed.\<close>

lemma startTx_after:
  assumes "carried E s t" and "clear E s \<or> device s = SERV"
  shows "yields (carried E s) (startTx C E b d t)"
proof -
  have "fixed t = fixed s" using assms(1) by (simp add: carried_def steady_def)
  then have "clear E t \<or> device t = SERV" using assms(2) clear_fixed [of t s E] by (simp add: fixed_def)
  from yields_mono [OF startTx_carried [OF this] carried_trans [OF assms(1)]] show ?thesis .
qed

lemma clearI: "\<not> isChannelBusy E s \<Longrightarrow> txrxstat s = DIDLE \<Longrightarrow> clear E s"
  by (cases s) (simp add: clear_def)

lemma sendProver_carried: "yields (carried E s) (sendProver C E busy T m s)"
  by (cases "busy (pdest (mpacket m))")
     (auto simp: sendProver_def Let_def yields_if enqueue_carried channelBusy_carried sendGate_carried clearI
      intro!: startTx_after carried_call)

lemma sendCollector_carried: "yields (carried E s) (sendCollector C E T m s)"
proof -
  let ?s = "s\<lparr>pupmsg := None\<rparr>"
  have 1: "carried E s ?s" by (simp add: carriedI)
  have c: "\<not> isChannelBusy E ?s \<Longrightarrow> txrxstat s = DIDLE \<Longrightarrow> clear E ?s" by (simp add: clearI)
  have w: "carried E ?s (s\<lparr>pupmsg := Some m\<rparr>)" "carried E ?s (scheduleAt x collbusymsg (s\<lparr>pupmsg := Some m\<rparr>))" for x
    unfolding call_defs by (intro carriedI carried_call, simp_all add: silent_def fixed_def)+
  have "yields (carried E ?s) (sendCollector C E T m s)"
    by (auto simp: sendCollector_def Let_def yields_if enqueue_carried channelBusy_carried sendGate_carried c w
        intro!: startTx_after carried_call)
  then show ?thesis by (rule yields_mono) (rule carried_trans [OF 1])
qed

lemma sends_carried:
  "(\<And>x T i. x \<in> set xs \<Longrightarrow> gate_call (wiring E) (moduleIndex s) (c x)) \<Longrightarrow>
    carried E s (fold (\<lambda>x. emit_call (c x)) xs s)"
proof (induction xs arbitrary: s)
  case (Cons x xs)
  have "carried E s (emit_call (c x) s)"
    using Cons.prems [of x] by (auto simp: carried_def steady_def emit_call_def fixed_def gates_ok_def)
  moreover have "carried E (emit_call (c x) s) (fold (\<lambda>x. emit_call (c x)) xs (emit_call (c x) s))"
    using Cons.prems by (intro Cons.IH) (simp add: emit_call_def)
  ultimately show ?case by (auto intro: carried_trans)
qed simp

lemma sendProverBroadcast_carried: "yields (carried E s) (sendProverBroadcast C E m s)"
proof -
  let ?w = "fold (\<lambda>i. emit_call (SendProver i (txTime C (real (mbytes m))) m)) (inRadioRange E s) s"
  let ?g = "fold (\<lambda>g. emit_call (SendGate (int g) m)) (connected E s) s"
  have w: "carried E s ?w" by (rule sends_carried) simp
  have g: "carried E s ?g" by (rule sends_carried) (simp add: connected_def gate_ok_def)
  have tx: "carried E s (scheduleAt x txmsg (?g\<lparr>txrxstat := TRANSMITING\<rparr>))" if "clear E s" for x
  proof -
    have "clear E ?g" using g that clear_fixed [of ?g s E] by (simp add: carried_def steady_def)
    then have "carried E ?g (scheduleAt x txmsg (?g\<lparr>txrxstat := TRANSMITING\<rparr>))"
      by (auto simp: carried_def steady_def call_defs fixed_def gates_ok_def)
    with g show ?thesis by (rule carried_trans)
  qed
  show ?thesis
    using w g tx clearI [of E s]
    by (auto simp: sendProverBroadcast_def Let_def yields_if enqueue_carried channelBusy_carried
        intro!: startTx_after carried_call)
qed

section \<open>From the virtual methods to handleMessage\<close>

definition vtable_all :: "(('s \<Rightarrow> 's result) \<Rightarrow> bool) \<Rightarrow> 's vtable \<Rightarrow> bool" where
  "vtable_all Q V \<longleftrightarrow> Q (v_sendJoinReq V) \<and> Q (v_startAttestation V) \<and> Q (v_checkSoftConfig V) \<and> Q (v_sendSyncReq V) \<and>
     (\<forall>t. Q (v_sendCommitReq V t)) \<and> (\<forall>u ks. Q (v_sendRevReq V u ks)) \<and>
     (\<forall>m. Q (v_handleJoinReq V m) \<and> Q (v_handleJoinResp V m) \<and> Q (v_handleJoinAck V m) \<and>
       Q (v_handleJoinRespTimeOut V m) \<and> Q (v_handleJoinAckTimeOut V m) \<and>
       Q (v_handleCommitReq V m) \<and> Q (v_handleCommitResp V m) \<and> Q (v_handleCommitAck V m) \<and>
       Q (v_handleCommitRespTimeOut V m) \<and> Q (v_handleCommitAckTimeOut V m) \<and>
       Q (v_handleUpReq V m) \<and> Q (v_handleUpdateTimeOut V m) \<and> Q (v_handleRevReq V m) \<and> Q (v_handleSyncReq V m))"

locale stable_device =
  fixes C :: config and E :: env and V :: "'a dev vtable" and R :: "'a dev \<Rightarrow> 'a dev \<Rightarrow> bool"
  assumes carries: "carried E s t \<Longrightarrow> R s t"
    and follows: "R s t \<Longrightarrow> R t u \<Longrightarrow> R s u"
    and virtual: "vtable_all (\<lambda>f. \<forall>s. yields (R s) (f s)) V"
begin

lemma keeps_refl: "R s s"
  by (rule carries) simp

lemma keeps_carried: "yields (carried E s) r \<Longrightarrow> yields (R s) r"
  by (erule yields_mono) (rule carries)

lemma keeps_after: "yields (R t) r \<Longrightarrow> R s t \<Longrightarrow> yields (R s) r"
  by (erule yields_mono) (rule follows)

lemma keeps_call: "(\<And>T i. gate_call T i c) \<Longrightarrow> R s t \<Longrightarrow> R s (emit_call c t)"
  by (erule follows) (simp add: carries carried_call)

lemma serveQueue_keeps:
  assumes "\<And>m s. yields (R s) (handle m s)"
  shows "yields (R s) (serveQueue handle s)"
proof -
  have "R s (t\<lparr>msgqueue := q\<rparr>)" if "R s t" for t q
    by (rule follows [OF that]) (simp add: carries carriedI)
  with assms show ?thesis
    by (auto simp: serveQueue_def keeps_refl split: list.split intro!: yields_mono [OF assms])
qed

lemma flag_keeps: "R s (s\<lparr>txrxstat := DIDLE\<rparr>)" "R s (s\<lparr>chanstat := x\<rparr>)" "R s (s\<lparr>procstat := y\<rparr>)"
  by (rule carries, simp add: carried_def steady_def fixed_def gates_ok_def)+

lemma virtual_simps:
  "yields (R s) (v_sendJoinReq V s)" "yields (R s) (v_startAttestation V s)" "yields (R s) (v_checkSoftConfig V s)"
  "yields (R s) (v_sendSyncReq V s)" "yields (R s) (v_sendCommitReq V t s)" "yields (R s) (v_sendRevReq V u ks s)"
  "yields (R s) (v_handleJoinReq V m s)" "yields (R s) (v_handleJoinResp V m s)" "yields (R s) (v_handleJoinAck V m s)"
  "yields (R s) (v_handleJoinRespTimeOut V m s)" "yields (R s) (v_handleJoinAckTimeOut V m s)"
  "yields (R s) (v_handleCommitReq V m s)" "yields (R s) (v_handleCommitResp V m s)" "yields (R s) (v_handleCommitAck V m s)"
  "yields (R s) (v_handleCommitRespTimeOut V m s)" "yields (R s) (v_handleCommitAckTimeOut V m s)"
  "yields (R s) (v_handleUpReq V m s)" "yields (R s) (v_handleUpdateTimeOut V m s)"
  "yields (R s) (v_handleRevReq V m s)" "yields (R s) (v_handleSyncReq V m s)"
  using virtual by (simp_all add: vtable_all_def)

lemmas send_keeps = sendProver_carried [THEN keeps_carried] sendCollector_carried [THEN keeps_carried]
  sendProverBroadcast_carried [THEN keeps_carried]

lemma update_keeps: "yields (R s) (sendUpdate C E V m s)"
proof -
  have "yields (R s) (rbind r (\<lambda>near. if near then sendProver C E b T m s
      else case mpacket m of UpdateReq src dst us cs t mac ps \<Rightarrow> sendCollector C E T (f src us cs t mac ps) s | _ \<Rightarrow> Inl BadCast))"
    for r b T f
    by (cases r) (auto simp: send_keeps split: packet.split)
  then show ?thesis by (simp add: sendUpdate_def send_keeps)
qed

lemma handleSelf_keeps:
  assumes "\<And>m s. yields (R s) (handle m s)"
  shows "yields (R s) (handleSelf C E V handle m s)"
proof -
  have tx: "yields (R s) (handleTxDoneMsg handle s)" "yields (R s) (handlePostponeDoneMsg handle s)"
    unfolding handleTxDoneMsg_def handlePostponeDoneMsg_def
    by (rule keeps_after [OF serveQueue_keeps [OF assms]], rule flag_keeps)+
  have up: "yields (R s) (handlePostponeUpMsg C E handle s)"
    by (auto simp: handlePostponeUpMsg_def keeps_refl logError_def intro!: keeps_call split: option.split
        intro!: yields_mono [OF assms] keeps_after [OF keeps_carried [OF setPower_carried]])
  have rev: "yields (R s) (rbind (v_sendRevReq V 0 [] s) (\<lambda>s'. Inr (deleteMsg m s')))"
    unfolding yields_rbind
    by (rule yields_mono [OF virtual_simps(6)]) (simp add: deleteMsg_def keeps_call)
  have sync: "yields (R s) (rbind (v_sendSyncReq V s) (sendCollector C E is_JoinReq m))"
    unfolding yields_rbind
    by (rule yields_mono [OF virtual_simps(4)]) (rule keeps_after [OF send_keeps(2)])
  show ?thesis
    by (cases "mkind m")
       (simp_all add: handleSelf_def virtual_simps send_keeps update_keeps tx up rev sync flag_keeps handleProcDoneMsg_def
         keeps_carried handleDoneEnMsg_carried keeps_call keeps_refl logError_def del: yields_rbind)
qed

lemma handleNetwork_keeps: "yields (R s) (handleNetwork C E V m s)"
proof -
  have gate: "yields (R s) (rbind (updateGates C E T m s) f)" if "\<And>t. yields (R t) (f t)" for T f
    unfolding yields_rbind
    by (rule yields_mono [OF updateGates_carried [THEN keeps_carried]]) (rule keeps_after [OF that])
  have "yields (R t) (handleJoinMsg V m t)" "yields (R t) (handleCommitMsg V m t)" "yields (R t) (handleUpMsg V m t)"
    "yields (R t) (handleRevMsg V m t)" for t
    by (cases "mkind m"; simp add: handleJoinMsg_def handleCommitMsg_def handleUpMsg_def handleRevMsg_def virtual_simps keeps_refl)+
  then show ?thesis
    by (cases "mkind m") (simp_all add: handleNetwork_def gate keeps_call keeps_refl logError_def del: yields_rbind)
qed

lemma handleMessage_keeps: "yields (R s) (handleMessage C E V k m s)"
  by (induction k arbitrary: m s) (simp_all add: keeps_refl handleSelf_keeps handleNetwork_keeps)

lemma deliver_keeps: "yields (R s) (deliver C E V m s)"
  unfolding deliver_def by (rule keeps_after [OF handleMessage_keeps]) (simp add: keeps_call keeps_refl)

end

section \<open>Provers\<close>

text \<open>A prover keeps its identifier and its keys.\<close>

definition prover_keeps :: "env \<Rightarrow> aprover \<Rightarrow> aprover \<Rightarrow> bool" where
  "prover_keeps E s s' \<longleftrightarrow> steady E s s' \<and> UId s' = UId s \<and> KeyRing s' = KeyRing s"

text \<open>Every handler but the one for updates is silent.\<close>

definition still :: "aprover \<Rightarrow> aprover \<Rightarrow> bool" where
  "still s s' \<longleftrightarrow> silent s s' \<and> UId s' = UId s \<and> KeyRing s' = KeyRing s"

lemma still_refl [simp]: "still s s"
  by (simp add: still_def)

lemma still_trans: "still s t \<Longrightarrow> still t u \<Longrightarrow> still s u"
  by (auto simp: still_def intro: silent_trans)

lemma still_after: "yields (still t) r \<Longrightarrow> still s t \<Longrightarrow> yields (still s) r"
  by (erule yields_mono) (rule still_trans)

lemma still_call [simp]: "(\<And>T i. gate_call T i c) \<Longrightarrow> still s t \<Longrightarrow> still s (emit_call c t)"
  by (simp add: still_def silent_call)

lemma still_keeps: "still s s' \<Longrightarrow> prover_keeps E s s'"
  by (simp add: still_def prover_keeps_def silent_steady)

lemma still_upd [simp]:
  "still s (t\<lparr>chanstat := a1\<rparr>) = still s t" "still s (t\<lparr>msgqueue := a2\<rparr>) = still s t"
  "still s (t\<lparr>pupmsg := a3\<rparr>) = still s t" "still s (t\<lparr>energy := a4\<rparr>) = still s t"
  "still s (t\<lparr>status := a5\<rparr>) = still s t" "still s (t\<lparr>macdelays := a6\<rparr>) = still s t"
  "still s (t\<lparr>maxchildren := a7\<rparr>) = still s t" "still s (t\<lparr>maxdepth := b2\<rparr>) = still s t"
  "still s (t\<lparr>deltah := b3\<rparr>) = still s t" "still s (t\<lparr>deltag := b4\<rparr>) = still s t"
  "still s (t\<lparr>gatsz := b5\<rparr>) = still s t" "still s (t\<lparr>pfirst := c1\<rparr>) = still s t"
  "still s (t\<lparr>psecond := c2\<rparr>) = still s t" "still s (t\<lparr>csessions := c3\<rparr>) = still s t"
  "still s (t\<lparr>cid := c4\<rparr>) = still s t" "still s (t\<lparr>attestcount := c5\<rparr>) = still s t"
  "still s (t\<lparr>aggreport := c6\<rparr>) = still s t"
  by (simp_all add: still_def silent_def fixed_def)

lemma still_calls [simp]:
  "still s (scheduleAt x m t) = still s (emit_call (ScheduleAt x m) t)"
  "still s (deleteMsg m t) = still s (emit_call (DeleteMsg m) t)"
  "still s (cancelEvent i t) = still s (emit_call (CancelEvent i) t)"
  "still s (logError l t) = still s (emit_call (LogError l) t)"
  "still s (logWarn l t) = still s (emit_call (LogWarn l) t)"
  by (simp_all add: call_defs)

lemma setPower_still: "yields (still s) (setPower E x s)"
  by (auto simp: setPower_def split: option.split)

lemma macDelay_yields: "yields P (rbind (macDelay C b s) f) \<longleftrightarrow> (\<forall>d. macDelay C b s = Inr d \<longrightarrow> yields P (f d))"
  by (cases "macDelay C b s") simp_all

lemma macTime_still: "yields (\<lambda>(d, t). still s t) (macTime C m s)"
  by (auto simp: macTime_def getMacDelays_def Let_def yields_def rbind_def split: sum.split)

lemma checkMAC_still: "yields (\<lambda>(good, t). still s t) (checkMAC C m s)"
  by (auto simp: checkMAC_def yields_def rbind_def split: sum.split)

lemma energyShare_still: "yields (\<lambda>(x, t). still s t) (energyShare E s)"
  by (auto simp: energyShare_def yields_def rbind_def split: sum.split option.split)

lemma receive_still: "yields (still s) (receive C E m s)"
  by (auto simp: receive_def setPower_def Let_def split: option.split)

text \<open>Sequencing: the first part is silent, and so is the rest from its state.\<close>

lemma still_bind:
  assumes "yields (still s) r" and "\<And>t. still s t \<Longrightarrow> yields (still s) (f t)"
  shows "yields (still s) (rbind r f)"
  using assms by (cases r) simp_all

lemma still_bind2:
  assumes "yields (\<lambda>(x, t). still s t) r" and "\<And>x t. still s t \<Longrightarrow> yields (still s) (f (x, t))"
  shows "yields (still s) (rbind r f)"
  using assms by (cases r) auto

lemma updateMaxChildren_still: "yields (still s) (updateMaxChildren E s)"
  by (auto simp: updateMaxChildren_def yields_if Let_def simp del: yields_rbind intro!: still_bind2 energyShare_still)

lemma chooseTreeDelay_still: "yields (\<lambda>(x, t). still s t) (chooseTreeDelay E s)"
  by (auto simp: chooseTreeDelay_def Let_def intro!: yields_mono [OF energyShare_still])

lemma macTime_bind:
  assumes "still s t" and "\<And>d u. still s u \<Longrightarrow> yields (still s) (f (d, u))"
  shows "yields (still s) (rbind (macTime C m t) f)"
  by (rule still_bind2 [OF yields_mono [OF macTime_still]]) (use assms in \<open>auto intro: still_trans\<close>)

lemma checkMAC_bind:
  assumes "still s t" and "\<And>d u. still s u \<Longrightarrow> yields (still s) (f (d, u))"
  shows "yields (still s) (rbind (checkMAC C m t) f)"
  by (rule still_bind2 [OF yields_mono [OF checkMAC_still]]) (use assms in \<open>auto intro: still_trans\<close>)

lemma receive_bind:
  assumes "still s t" and "\<And>u. still s u \<Longrightarrow> yields (still s) (f u)"
  shows "yields (still s) (rbind (receive C E m t) f)"
  by (rule still_bind [OF still_after [OF receive_still]]) (use assms in auto)

lemma scheduleMac_still [simp]: "still s t \<Longrightarrow> still s (scheduleMac C E d m t)"
  by (simp add: scheduleMac_def)

lemma report_bind:
  assumes "\<And>r. yields (still s) (f r)"
  shows "yields (still s) (rbind (addOwnReport n u c rep) f)"
  using assms by (cases "addOwnReport n u c rep") simp_all

lemma merge_bind:
  assumes "\<And>r. yields (still s) (f r)"
  shows "yields (still s) (rbind (mergeReport n u c p rep) f)"
  using assms by (cases "mergeReport n u c p rep") simp_all

lemmas still_intros = macTime_bind checkMAC_bind receive_bind report_bind merge_bind

lemma sendUpReq_still: "still s t \<Longrightarrow> yields (still s) (sendUpReq C E x t)"
  unfolding sendUpReq_def
  by (auto simp: Let_def yields_if simp del: yields_rbind split: option.split intro!: still_intros)

lemma sendUpReq_bind:
  assumes "still s t" and "\<And>u. still s u \<Longrightarrow> yields (still s) (f u)"
  shows "yields (still s) (rbind (sendUpReq C E x t) f)"
  by (rule still_bind [OF sendUpReq_still]) (use assms in auto)

lemma sendCommitReq_still: "still s t \<Longrightarrow> yields (still s) (sendCommitReq C E x t)"
  by (auto simp: sendCommitReq_def Let_def intro!: sendUpReq_still split: option.split)

lemma sendCommitReq_bind:
  assumes "still s t" and "\<And>u. still s u \<Longrightarrow> yields (still s) (f u)"
  shows "yields (still s) (rbind (sendCommitReq C E x t) f)"
  by (rule still_bind [OF sendCommitReq_still]) (use assms in auto)

lemma sendCommitResp_still: "still s t \<Longrightarrow> yields (still s) (sendCommitResp C E u x t)"
  by (auto simp: sendCommitResp_def Let_def simp del: yields_rbind split: option.split intro!: still_intros)

lemma sendCommitAck_still: "still s t \<Longrightarrow> yields (still s) (sendCommitAck C E u x t)"
  by (auto simp: sendCommitAck_def Let_def simp del: yields_rbind split: option.split intro!: still_intros)

lemma closeChild_still: "still s t \<Longrightarrow> yields (still s) (closeChild C E u x sess t)"
  by (auto simp: closeChild_def Let_def intro!: sendUpReq_still split: option.split)

lemma sendJoinReq_still: "yields (still s) (sendJoinReq C E s)"
  by (auto simp: sendJoinReq_def Let_def simp del: yields_rbind intro!: still_intros)

lemma handleJoinResp_still: "yields (still s) (handleJoinResp C E m s)"
  by (auto simp: handleJoinResp_def Let_def rbind_assoc simp del: yields_rbind split: packet.split intro!: still_intros)

lemma setPower_still_after: "still s t \<Longrightarrow> yields (still s) (setPower E x t)"
  by (rule still_after [OF setPower_still])

lemma firmware_bind:
  assumes "\<And>d. yields (still s) (f d)"
  shows "yields (still s) (rbind (checkFirmwareDelay C t) f)"
  using assms by (cases "checkFirmwareDelay C t") simp_all

lemma period_still: "still s t \<Longrightarrow> still s (clearPeriod t)"
  by (simp add: clearPeriod_def)

lemma chooseTreeDelay_bind:
  assumes "still s t" and "\<And>d u. still s u \<Longrightarrow> yields (still s) (f (d, u))"
  shows "yields (still s) (rbind (chooseTreeDelay E t) f)"
  by (rule still_bind2 [OF yields_mono [OF chooseTreeDelay_still]]) (use assms in \<open>auto intro: still_trans\<close>)

lemma startAttestation_still: "yields (still s) (startAttestation C E s)"
proof -
  have power: "yields (still s) (if b then rbind (if b' then updateMaxChildren E t else Inr t) (setPower E x) else Inr t)"
    if "still s t" for b b' x t
    using that by (auto simp del: yields_rbind intro!: still_bind [OF still_after [OF updateMaxChildren_still]] setPower_still_after)
  show ?thesis
    unfolding startAttestation_def Let_def
    by (rule still_bind [OF power])
       (auto simp: yields_if period_still simp del: yields_rbind intro!: firmware_bind chooseTreeDelay_bind)
qed

lemma checkSoftConfig_still: "yields (still s) (checkSoftConfig C E s)"
  by (auto simp: checkSoftConfig_def Let_def)

lemma handleCommitReq_still: "yields (still s) (handleCommitReq C E m s)"
  by (auto simp: handleCommitReq_def simp del: yields_rbind split: packet.split option.split
      intro!: still_intros still_bind [OF sendCommitResp_still])

lemma handleCommitAck_still: "yields (still s) (handleCommitAck C E m s)"
  by (auto simp: handleCommitAck_def Let_def rbind_assoc simp del: yields_rbind split: packet.split option.split
      intro!: still_intros sendUpReq_bind sendCommitReq_bind)

lemma handleCommitAckTimeOut_still: "yields (still s) (handleCommitAckTimeOut C E m s)"
  by (auto simp: handleCommitAckTimeOut_def Let_def split: packet.split intro!: sendCommitReq_still)

lemma handleCommitRespTimeOut_still: "yields (still s) (handleCommitRespTimeOut C E m s)"
  by (auto simp: handleCommitRespTimeOut_def Let_def split: packet.split intro!: sendUpReq_still)

lemma handleCommitResp_still: "yields (still s) (handleCommitResp C E m s)"
  by (auto simp: handleCommitResp_def Let_def simp del: yields_rbind split: packet.split option.split
      intro!: still_intros still_bind [OF sendCommitAck_still])

lemma handleUpdateTimeOut_still: "yields (still s) (handleUpdateTimeOut C E m s)"
  by (auto simp: handleUpdateTimeOut_def Let_def simp del: yields_rbind split: packet.split intro!: sendUpReq_bind)

lemma acceptReport_still: "still s t \<Longrightarrow> yields (still s) (acceptReport C E m t)"
  by (auto simp: acceptReport_def simp del: yields_rbind split: option.split
      intro!: still_intros still_bind [OF closeChild_still])

lemma handleRevReq_still: "yields (still s) (handleRevReq C m s)"
  by (auto simp: handleRevReq_def simp del: yields_rbind split: packet.split intro!: still_intros)

lemma handleUpReq_keeps: "yields (prover_keeps E s) (handleUpReq C E m s)"
proof -
  have carry: "prover_keeps E s u" if "still s t" "carried E t u" for t u
    using that still_keeps [of s t E]
    by (cases t; cases u) (auto simp: prover_keeps_def carried_def intro: steady_trans)
  have send: "yields (prover_keeps E s) (sendCollector C E T x t)" if "still s t" for T x t
    using sendCollector_carried by (rule yields_mono) (rule carry [OF that])
  have quiet: "yields (still s) r \<Longrightarrow> yields (prover_keeps E s) r" for r
    by (erule yields_mono) (rule still_keeps)
  show ?thesis
    by (auto simp: handleUpReq_def split: packet.split
        intro!: send yields_mono [OF receive_still] quiet [OF acceptReport_still] still_keeps)
qed

interpretation prover_stable: stable_device C E "prover_vtable C E" "prover_keeps E" for C E
proof
  fix s t u :: aprover
  show "carried E s t \<Longrightarrow> prover_keeps E s t"
    by (cases s; cases t) (auto simp: prover_keeps_def carried_def)
  show "prover_keeps E s t \<Longrightarrow> prover_keeps E t u \<Longrightarrow> prover_keeps E s u"
    by (auto simp: prover_keeps_def intro: steady_trans)
next
  have quiet: "yields (still s) r \<Longrightarrow> yields (prover_keeps E s) r" for s r
    by (erule yields_mono) (rule still_keeps)
  have join: "yields (still s) (handleJoinRespTimeOut C E m s)" for m s
    using sendJoinReq_still [of s C E] by (auto simp: handleJoinRespTimeOut_def intro!: yields_mono [OF sendJoinReq_still])
  show "vtable_all (\<lambda>f. \<forall>s. yields (prover_keeps E s) (f s)) (prover_vtable C E)"
    by (simp add: vtable_all_def prover_vtable_def handleUpReq_keeps quiet join sendJoinReq_still handleJoinResp_still
        startAttestation_still checkSoftConfig_still sendCommitReq_still handleCommitReq_still handleCommitResp_still
        handleCommitAck_still handleCommitRespTimeOut_still handleCommitAckTimeOut_still handleUpdateTimeOut_still
        handleRevReq_still depreciated_prover_def still_keeps sendRevReq_def)
qed

section \<open>Collectors\<close>

lemma silent_upd_collector [simp]:
  "silent s (t\<lparr>csum := a1\<rparr>) = silent s t" "silent s (t\<lparr>proverKeys := a2\<rparr>) = silent s t"
  "silent s (t\<lparr>proverKeyIds := a3\<rparr>) = silent s t" "silent s (t\<lparr>jsessions := a4\<rparr>) = silent s t"
  "silent s (t\<lparr>statusTable := a5\<rparr>) = silent s t"
  by (simp_all add: silent_def fixed_def)

lemma macDelay_silent:
  assumes "\<And>d. yields (silent s) (f d)"
  shows "yields (silent s) (rbind (macDelay C b t) f)"
  using assms by (cases "macDelay C b t") simp_all

lemma sendRevokeReq_silent: "silent s t \<Longrightarrow> yields (silent s) (sendRevokeReq C E u ks t)"
  by (auto simp: sendRevokeReq_def Let_def simp del: yields_rbind intro!: macDelay_silent silent_call)

lemma revokeAll_silent: "silent s t \<Longrightarrow> yields (silent s) (revokeAll C E provers ks is t)"
  by (induction "is" arbitrary: t)
     (auto simp: Let_def simp del: yields_rbind intro!: silent_bind [OF sendRevokeReq_silent])

lemma handleRevokeReq_silent: "yields (silent s) (handleRevokeReq C E provers m s)"
  by (auto simp: handleRevokeReq_def Let_def simp del: yields_rbind split: packet.split
      intro!: silent_bind [OF revokeAll_silent] silent_call)

lemma handleJoinReq_silent: "yields (silent s) (handleJoinReq C E m s)"
  by (auto simp: handleJoinReq_def checkMAC_def rbind_assoc Let_def updateProverKey_def sendJoinResp_def fold_pushKeyId
      simp del: yields_rbind split: packet.split intro!: macDelay_silent silent_call)

lemma collectUpReq_silent: "yields (silent s) (collectUpReq C E m s)"
  by (auto simp: collectUpReq_def Let_def split: packet.split intro!: silent_call)

interpretation collector_stable: stable_device C E "collector_vtable C E provers" "steady E" for C E provers
proof
  fix s t u :: acollector
  show "carried E s t \<Longrightarrow> steady E s t" by (simp add: carried_def)
  show "steady E s t \<Longrightarrow> steady E t u \<Longrightarrow> steady E s u" by (rule steady_trans)
next
  have quiet: "yields (silent s) r \<Longrightarrow> yields (steady E s) r" for s :: acollector and r
    by (erule yields_mono) (rule silent_steady)
  have log: "silent s (logError l s)" "silent s (deleteMsg m s)" for s :: acollector and l m
    by (simp_all add: silent_call)
  show "vtable_all (\<lambda>f. \<forall>s. yields (steady E s) (f s)) (collector_vtable C E provers)"
    by (simp add: vtable_all_def collector_vtable_def quiet handleRevokeReq_silent handleJoinReq_silent collectUpReq_silent
        sendRevokeReq_silent depreciated_collector_def ignored_def silent_steady log del: silent_calls)
qed

end
