(* ===== verification/Network.thy ===== *)
theory Network
  imports Steady
begin

text \<open>
  The whole wired simulation: provers and a collector, the cables between them and the
  messages under way. Nothing is left open: what a device reads of the others (\<open>env\<close>) is
  computed from their states, and what arrives at a device is what another one sent.

  Devices have numbers, the collector the number \<open>N\<close>. A message that leaves through a gate
  is under way to the device at the other end of the cable. Events happen in any order; the
  kernel, which orders them by time, takes one of these orders.
\<close>

section \<open>State and events\<close>

record network =
  pnode :: "nat \<Rightarrow> aprover"
  cnode :: acollector
  air :: "(nat \<times> int \<times> cMessage) list"

text \<open>What a device sees of the others. The clock, positions and random draws are those of \<open>E\<close>.\<close>

definition net_env :: "nat \<Rightarrow> topology \<Rightarrow> network \<Rightarrow> env \<Rightarrow> env" where
  "net_env N W w E = E\<lparr>isScheduled := armed, arrivalGate := 0, numProvers := N, numCollectors := 1, wiring := W,
     transmitting := (\<lambda>i. if i < N then txrxstat (pnode w i) = TRANSMITING else txrxstat (cnode w) = TRANSMITING),
     collectorProcessing := (procstat (cnode w) = PBUSY)\<rparr>"

text \<open>Where a call of device \<open>i\<close> brings a message: the device and the gate it arrives at.\<close>

fun route :: "nat \<Rightarrow> topology \<Rightarrow> nat \<Rightarrow> call \<Rightarrow> (nat \<times> int \<times> cMessage) list" where
  "route N W i (SendProver j t m) = (if j < N then [(j, 0, m\<lparr>mself := False\<rparr>)] else [])"
| "route N W i (SendCollector j t m) = (if j = 0 then [(N, 0, m\<lparr>mself := False\<rparr>)] else [])"
| "route N W i (SendGate g m) =
     (case link W i (nat g) of None \<Rightarrow> [] | Some (d, g', _) \<Rightarrow> [(d, int g', m\<lparr>mself := False\<rparr>)])"
| "route N W i _ = []"

text \<open>The calls an event added to a log, oldest first.\<close>

definition new_calls :: "'a adevice_scheme \<Rightarrow> 'a adevice_scheme \<Rightarrow> call list" where
  "new_calls s s' = rev (take (length (calls s') - length (calls s)) (calls s'))"

definition departures :: "nat \<Rightarrow> topology \<Rightarrow> nat \<Rightarrow> 'a adevice_scheme \<Rightarrow> 'a adevice_scheme \<Rightarrow> (nat \<times> int \<times> cMessage) list" where
  "departures N W i s s' = concat (map (route N W i) (new_calls s s'))"

text \<open>
  A message is delivered to device \<open>d\<close>. \<open>setProcessing\<close> of the collector is called by the
  device that sends to it.
\<close>

definition at_device :: "config \<Rightarrow> nat \<Rightarrow> topology \<Rightarrow> env \<Rightarrow> nat \<Rightarrow> cMessage \<Rightarrow> network \<Rightarrow> network result" where
  "at_device C N W E d m w =
     (if d < N then
        rbind (deliver C E (prover_vtable C E) m (pnode w d)) (\<lambda>s.
        Inr (w\<lparr>pnode := (pnode w)(d := s), air := air w @ departures N W d (pnode w d) s,
               cnode := (if SetProcessing \<in> set (new_calls (pnode w d) s) then setProcessing (cnode w) else cnode w)\<rparr>))
      else
        rbind (deliver C E (collector_vtable C E (pnode w)) m (cnode w)) (\<lambda>s.
        Inr (w\<lparr>cnode := s, air := air w @ departures N W N (cnode w) s\<rparr>)))"

datatype net_event = Timer nat cMessage | Arrival nat

fun network_event :: "config \<Rightarrow> nat \<Rightarrow> topology \<Rightarrow> env \<Rightarrow> net_event \<Rightarrow> network \<Rightarrow> network result" where
  "network_event C N W E (Timer d m) w = at_device C N W (net_env N W w E) d m w"
| "network_event C N W E (Arrival k) w =
     (case air w ! k of (d, g, m) \<Rightarrow>
        at_device C N W ((net_env N W w E)\<lparr>arrivalGate := g\<rparr>) d m (w\<lparr>air := take k (air w) @ drop (Suc k) (air w)\<rparr>))"

text \<open>The events that can happen: a pending timer of a device, in time, or the arrival of a message.\<close>

fun enabled :: "nat \<Rightarrow> net_event \<Rightarrow> network \<Rightarrow> bool" where
  "enabled N (Timer d m) w \<longleftrightarrow> mself m \<and>
     (if d < N then pending m (pnode w d) \<and> in_time m (pnode w d) else d = N \<and> pending m (cnode w))"
| "enabled N (Arrival k) w \<longleftrightarrow> k < length (air w)"

section \<open>Start\<close>

text \<open>The provers are initialised one after the other and share the network owner.\<close>

fun boot :: "config \<Rightarrow> env \<Rightarrow> (nat \<Rightarrow> params) \<Rightarrow> 'r intrand \<Rightarrow> 'r \<Rightarrow> bool \<Rightarrow> (nat \<Rightarrow> aprover) \<Rightarrow> nat list \<Rightarrow> 'r statics \<Rightarrow>
    (aprover list \<times> 'r statics) result option" where
  "boot C E P intrand rng garbage raw [] g = Some (Inr ([], g))"
| "boot C E P intrand rng garbage raw (i # is) g =
     Option.bind (prover_initialize C E (P i) intrand rng garbage (construct C i (raw i), g)) (\<lambda>r.
     case r of
       Inl e \<Rightarrow> Some (Inl e)
     | Inr (s, g') \<Rightarrow> map_option (\<lambda>r'. rbind r' (\<lambda>(ss, g''). Inr (s # ss, g''))) (boot C E P intrand rng garbage raw is g'))"

text \<open>
  The cables: those among provers have two ends, every cable ends at a device, and gate 0 of
  every device is connected.
\<close>

definition wiring_ok :: "nat \<Rightarrow> topology \<Rightarrow> bool" where
  "wiring_ok N W \<longleftrightarrow> symmetric_on {..<N} W \<and>
     (\<forall>d g d' g' b. d \<le> N \<longrightarrow> link W d g = Some (d', g', b) \<longrightarrow> d' \<le> N \<and> link W d' g' \<noteq> None) \<and>
     (\<forall>d \<le> N. link W d 0 \<noteq> None)"

definition network_ok :: "'r intrand \<Rightarrow> config \<Rightarrow> nat \<Rightarrow> nat \<Rightarrow> topology \<Rightarrow> bool" where
  "network_ok intrand C N n W \<longleftrightarrow> compiles C \<and> RUNTIME_TEST C \<and> SCENARIO C \<in> {FADIA, PASTA} \<and> 0 < N \<and> N < 0x7FFFFFFE \<and>
     wiring_ok N W \<and> intrand_range intrand"

inductive network_run :: "'r intrand \<Rightarrow> config \<Rightarrow> nat \<Rightarrow> nat \<Rightarrow> topology \<Rightarrow> network \<Rightarrow> bool"
  for intrand C N n W where
  start: "network_ok intrand C N n W \<Longrightarrow> \<forall>i < N. params_ok C N n (P i) \<Longrightarrow>
    boot C E P intrand rng garbage raw [0..<N] \<lparr>NO = NetworkOwner0 rng, selfcount = 0, rvkd = r0\<rparr> = Some (Inr (ss, g)) \<Longrightarrow>
    collector_initialize (collector_construct C 0 craw) = Some c \<Longrightarrow>
    network_run intrand C N n W \<lparr>pnode = (\<lambda>i. ss ! i), cnode = c, air = []\<rparr>"
| event: "network_run intrand C N n W w \<Longrightarrow> enabled N ev w \<Longrightarrow> network_event C N W E ev w = Inr w' \<Longrightarrow>
    network_run intrand C N n W w'"

section \<open>Invariants\<close>

definition arrival_ok :: "nat \<Rightarrow> nat \<Rightarrow> cMessage \<Rightarrow> bool" where
  "arrival_ok N n m \<longleftrightarrow> \<not> mself m \<and>
     (outgoing N n m \<or> mkind m = JNRP \<and> is_JoinResp (mpacket m) \<or> mkind m = RVKRQ \<and> is_RevokeReq (mpacket m))"

text \<open>One prover in the network, and the messages under way.\<close>

definition node_inv :: "config \<Rightarrow> nat \<Rightarrow> nat \<Rightarrow> topology \<Rightarrow> nat \<Rightarrow> aprover \<Rightarrow> bool" where
  "node_inv C N n W i s \<longleftrightarrow> (crashed s \<or> prover_inv C N n s) \<and> list_all (call_ok C N n) (calls s) \<and>
     moduleIndex s = i \<and> UId s = (baseID + of_nat i) mod MAXUID \<and> drange s = NEIGHBOR_DISTANCE \<and> device s \<noteq> SERV \<and>
     (\<forall>u g. map_of (deviceg s) u = Some g \<longrightarrow> gate_ok W i g)"

definition air_inv :: "nat \<Rightarrow> nat \<Rightarrow> topology \<Rightarrow> (nat \<times> int \<times> cMessage) list \<Rightarrow> bool" where
  "air_inv N n W xs \<longleftrightarrow> list_all (\<lambda>(d, g, m). arrival_ok N n m \<and> d \<le> N \<and> gate_ok W d g) xs"

definition net_inv :: "config \<Rightarrow> nat \<Rightarrow> nat \<Rightarrow> topology \<Rightarrow> network \<Rightarrow> bool" where
  "net_inv C N n W w \<longleftrightarrow> (\<forall>i < N. node_inv C N n W i (pnode w i)) \<and> collector_inv C N (cnode w) \<and> air_inv N n W (air w)"

lemma UId_index:
  assumes "i < 0x7FFFFFFE" and "i < N"
  shows "unat ((baseID + of_nat i) mod MAXUID - baseID) < N"
  using valid_uid_UId [OF assms] by (simp add: valid_uid_def)

lemma new_calls_append: "calls s' = cs @ calls s \<Longrightarrow> new_calls s s' = rev cs"
  by (simp add: new_calls_def)

lemma air_inv_append: "air_inv N n W (xs @ ys) \<longleftrightarrow> air_inv N n W xs \<and> air_inv N n W ys"
  by (simp add: air_inv_def)

lemma air_inv_cut: "air_inv N n W xs \<Longrightarrow> air_inv N n W (take k xs @ drop (Suc k) xs)"
  unfolding air_inv_def list_all_iff by (auto dest: in_set_takeD in_set_dropD)

fun sends_ok :: "nat \<Rightarrow> nat \<Rightarrow> call \<Rightarrow> bool" where
  "sends_ok N n (SendProver j t m) = arrival_ok N n (m\<lparr>mself := False\<rparr>)"
| "sends_ok N n (SendCollector j t m) = arrival_ok N n (m\<lparr>mself := False\<rparr>)"
| "sends_ok N n (SendGate g m) = arrival_ok N n (m\<lparr>mself := False\<rparr>)"
| "sends_ok N n _ = True"

lemma outgoing_mself [simp]: "outgoing N n (m\<lparr>mself := b\<rparr>) = outgoing N n m"
  by (simp add: outgoing_def cong: packet.case_cong)

lemma call_ok_sends: "call_ok C N n c \<Longrightarrow> sends_ok N n c"
  by (cases c) (auto simp: arrival_ok_def)

lemma collector_call_sends: "collector_call N c \<Longrightarrow> sends_ok N n c"
  by (cases c) (auto simp: arrival_ok_def collector_packet_def)

lemma route_air:
  assumes "wiring_ok N W" and "i \<le> N" and "sends_ok N n c"
  shows "air_inv N n W (route N W i c)"
proof -
  have zero: "gate_ok W d 0" if "d \<le> N" for d using that assms(1) by (simp add: wiring_ok_def gate_ok_def)
  have gate: "d \<le> N" "gate_ok W d (int g')" if "link W i (nat g) = Some (d, g', b)" for g d g' b
  proof -
    from assms(1) have "i \<le> N \<longrightarrow> link W i (nat g) = Some (d, g', b) \<longrightarrow> d \<le> N \<and> link W d g' \<noteq> None"
      unfolding wiring_ok_def by blast
    with that assms(2) show "d \<le> N" "gate_ok W d (int g')" by (simp_all add: gate_ok_def)
  qed
  show ?thesis
  proof (cases c)
    case (SendGate g m)
    show ?thesis
    proof (cases "link W i (nat g)")
      case (Some x)
      moreover obtain d g' b where "x = (d, g', b)" by (cases x)
      ultimately show ?thesis using SendGate assms(3) gate [of g d g' b] by (simp add: air_inv_def)
    qed (simp add: SendGate air_inv_def)
  qed (use assms(3) zero in \<open>simp_all add: air_inv_def\<close>)
qed

lemma departures_air:
  assumes "wiring_ok N W" and "i \<le> N" and "list_all (sends_ok N n) (calls s')"
  shows "air_inv N n W (departures N W i s s')"
proof -
  have "\<forall>c \<in> set (new_calls s s'). sends_ok N n c"
    using assms(3) by (auto simp: new_calls_def list_all_iff dest: in_set_takeD)
  then have "\<forall>c \<in> set (new_calls s s'). air_inv N n W (route N W i c)"
    using route_air [OF assms(1,2)] by blast
  then show ?thesis by (auto simp: departures_def air_inv_def list_all_iff)
qed

text \<open>An event at a prover: it returns, keeps its invariant, and sends well-formed messages through connected gates.\<close>

lemma node_event:
  assumes inv: "node_inv C N n W i s" and i: "i < N" and W: "wiring_ok N W" "wiring E = W" and E: "sim_ok C N E"
    and g: "gate_ok W i (arrivalGate E)" and ev: "prover_event N n m s"
  shows "ok (\<lambda>s'. node_inv C N n W i s' \<and> air_inv N n W (departures N W i s s') \<and> prover_keeps E s s' \<and>
    list_all (gate_call W i) (new_calls s s')) (deliver C E (prover_vtable C E) m s)"
proof -
  have idx: "moduleIndex s = i" using inv by (simp add: node_inv_def)
  have "ok (\<lambda>s'. (crashed s' \<or> prover_inv C N n s') \<and> list_all (call_ok C N n) (calls s')) (deliver C E (prover_vtable C E) m s)"
  proof (cases "crashed s")
    case True
    then show ?thesis using inv by (simp add: deliver_crashed node_inv_def)
  next
    case False
    then have "prover_inv C N n s" using inv by (simp add: node_inv_def)
    from alive_event_inv [OF this False E ev] show ?thesis
      by (rule ok_mono) (simp add: prover_inv_def log_inv_def)
  qed
  then obtain s' where s': "deliver C E (prover_vtable C E) m s = Inr s'" "crashed s' \<or> prover_inv C N n s'"
    "list_all (call_ok C N n) (calls s')" by (auto simp: ok_eq)
  have keeps: "prover_keeps E s s'" using prover_stable.deliver_keeps [of E s C m] s'(1) by simp
  then have st: "steady E s s'" "UId s' = UId s" by (simp_all add: prover_keeps_def)
  have fx: "moduleIndex s' = i" "device s' = device s" "drange s' = drange s"
    using st(1) idx by (simp_all add: steady_def fixed_def)
  have zero: "gate_ok W i 0" using W(1) i by (simp add: wiring_ok_def gate_ok_def)
  then have gs: "gates_ok E s" using inv g idx W(2) by (simp add: gates_ok_def node_inv_def)
  then have gs': "gates_ok E s'" using st(1) by (simp add: steady_def)
  from st(1) gs obtain cs where "calls s' = cs @ calls s" "list_all (gate_call W i) cs"
    using idx W(2) by (auto simp: steady_def)
  then have "list_all (gate_call W i) (new_calls s s')" by (simp add: new_calls_append list_all_iff)
  moreover have "node_inv C N n W i s'"
    using inv s'(2,3) fx st(2) gs' W(2) by (simp add: node_inv_def gates_ok_def)
  moreover have "air_inv N n W (departures N W i s s')"
    using i s'(3) call_ok_sends by (intro departures_air [OF W(1)]) (auto simp: list_all_iff)
  ultimately show ?thesis using s'(1) keeps by simp
qed

lemma collector_event_at:
  assumes inv: "collector_inv C N s" and W: "wiring_ok N W" and R: "runtime_ok C N E ps" and ev: "collector_event N m s"
  shows "ok (\<lambda>s'. collector_inv C N s' \<and> air_inv N n W (departures N W N s s')) (deliver C E (collector_vtable C E ps) m s)"
  using collector_event_inv [OF inv R ev]
proof (rule ok_mono)
  fix s' assume s': "collector_inv C N s'"
  then have "list_all (sends_ok N n) (calls s')"
    by (simp add: collector_inv_def list_all_iff collector_call_sends)
  from departures_air [OF W order_refl this] s' show "collector_inv C N s' \<and> air_inv N n W (departures N W N s s')" by simp
qed

section \<open>One event\<close>

text \<open>What an event does to the provers: one of them makes a step that keeps its identity and senses before it sends.\<close>

definition one_moves :: "nat \<Rightarrow> topology \<Rightarrow> network \<Rightarrow> network \<Rightarrow> bool" where
  "one_moves N W w w' \<longleftrightarrow> (\<exists>d E g. (\<forall>i. i \<noteq> d \<longrightarrow> pnode w' i = pnode w i) \<and>
     prover_keeps ((net_env N W w E)\<lparr>arrivalGate := g\<rparr>) (pnode w d) (pnode w' d) \<and>
     list_all (gate_call W d) (new_calls (pnode w d) (pnode w' d)))"

lemma incoming_arrival: "arrival_ok N n m \<Longrightarrow> prover_event N n m s"
  by (auto simp: arrival_ok_def prover_event_def incoming_def)

lemma collector_arrival: "arrival_ok N n m \<Longrightarrow> collector_event N m s"
  by (auto simp: arrival_ok_def collector_event_def outgoing_def valid_uid_def split: packet.splits)

lemma net_env_ok:
  assumes "network_ok intrand C N n W" and "net_inv C N n W w"
  shows "sim_ok C N ((net_env N W w E)\<lparr>arrivalGate := g\<rparr>)"
    and "runtime_ok C N ((net_env N W w E)\<lparr>arrivalGate := g\<rparr>) (pnode w)"
  using assms UId_index [of _ N]
  by (auto simp: sim_ok_def net_env_def network_ok_def runtime_ok_def net_inv_def node_inv_def)

lemma at_device_ok:
  assumes net: "network_ok intrand C N n W" and inv: "net_inv C N n W w" and d: "d \<le> N"
    and g: "gate_ok W d g" and E: "E' = (net_env N W w0 E)\<lparr>arrivalGate := g\<rparr>" "pnode w0 = pnode w" "cnode w0 = cnode w"
    and ev: "if d < N then prover_event N n m (pnode w d) else collector_event N m (cnode w)"
  shows "ok (\<lambda>w'. net_inv C N n W w' \<and> one_moves N W w w') (at_device C N W E' d m w)"
proof -
  have W: "wiring_ok N W" using net by (simp add: network_ok_def)
  have "net_env N W w0 E = net_env N W w E" using E(2,3) by (simp add: net_env_def)
  with E(1) have E': "E' = (net_env N W w E)\<lparr>arrivalGate := g\<rparr>" by simp
  have env: "sim_ok C N E'" "runtime_ok C N E' (pnode w)" "wiring E' = W" "arrivalGate E' = g"
    using net_env_ok [OF net inv] E' by (simp_all add: net_env_def)
  show ?thesis
  proof (cases "d < N")
    case True
    with inv have "node_inv C N n W d (pnode w d)" by (simp add: net_inv_def)
    from node_event [OF this True W env(3,1)] g ev True env(4) obtain s where
      s: "deliver C E' (prover_vtable C E') m (pnode w d) = Inr s" "node_inv C N n W d s"
        "air_inv N n W (departures N W d (pnode w d) s)" "prover_keeps E' (pnode w d) s"
        "list_all (gate_call W d) (new_calls (pnode w d) s)" by (auto simp: ok_eq)
    have "collector_inv C N (setProcessing (cnode w))" using inv by (simp add: net_inv_def setProcessing_def)
    moreover have "one_moves N W w (w\<lparr>pnode := (pnode w)(d := s), air := a, cnode := c\<rparr>)" for a c
      using s(4,5) E' unfolding one_moves_def by (intro exI [of _ d] exI [of _ E] exI [of _ g]) simp
    ultimately show ?thesis
      using True s inv by (simp add: at_device_def net_inv_def air_inv_append)
  next
    case False
    with inv ev have "collector_inv C N (cnode w)" "collector_event N m (cnode w)" by (simp_all add: net_inv_def)
    from collector_event_at [OF this(1) W env(2) this(2), of n] obtain c where
      c: "deliver C E' (collector_vtable C E' (pnode w)) m (cnode w) = Inr c" "collector_inv C N c"
        "air_inv N n W (departures N W N (cnode w) c)" by (auto simp: ok_eq)
    have "one_moves N W w (w\<lparr>cnode := c, air := a\<rparr>)" for a
      unfolding one_moves_def by (auto simp: prover_keeps_def new_calls_def)
    with False c inv show ?thesis by (simp add: at_device_def net_inv_def air_inv_append)
  qed
qed

lemma network_event_ok:
  assumes net: "network_ok intrand C N n W" and inv: "net_inv C N n W w" and en: "enabled N ev w"
  shows "ok (\<lambda>w'. net_inv C N n W w' \<and> one_moves N W w w') (network_event C N W E ev w)"
proof (cases ev)
  case (Timer d m)
  with en have d: "d \<le> N" by (auto split: if_splits)
  have "gate_ok W d 0" using net d by (simp add: network_ok_def wiring_ok_def gate_ok_def)
  from at_device_ok [OF net inv d this _ refl refl, of "net_env N W w E" E m] en Timer show ?thesis
    by (auto simp: net_env_def prover_event_def collector_event_def split: if_splits)
next
  case (Arrival k)
  obtain d g m where x: "air w ! k = (d, g, m)" by (cases "air w ! k")
  let ?w = "w\<lparr>air := take k (air w) @ drop (Suc k) (air w)\<rparr>"
  have "(d, g, m) \<in> set (air w)" using Arrival en x by (metis enabled.simps(2) nth_mem)
  with inv have m: "arrival_ok N n m" "d \<le> N" "gate_ok W d g" by (auto simp: net_inv_def air_inv_def list_all_iff)
  have inv': "net_inv C N n W ?w" using inv by (simp add: net_inv_def air_inv_cut)
  have "ok (\<lambda>w'. net_inv C N n W w' \<and> one_moves N W ?w w') (at_device C N W ((net_env N W w E)\<lparr>arrivalGate := g\<rparr>) d m ?w)"
    by (rule at_device_ok [OF net inv' m(2,3) refl]) (use m(1) in \<open>auto simp: incoming_arrival collector_arrival\<close>)
  moreover have "one_moves N W ?w w' = one_moves N W w w'" for w'
    by (simp add: one_moves_def net_env_def)
  ultimately show ?thesis using Arrival x by simp
qed

section \<open>The first state\<close>

lemma initialize_frame:
  assumes "prover_initialize C E P intrand rng garbage (construct C i raw, g) = Some (Inr (s, g'))"
  shows "moduleIndex s = i \<and> UId s = (baseID + of_nat i) mod MAXUID \<and> drange s = initial_drange C \<and> deviceg s = [] \<and>
    txrxstat s = DIDLE \<and> (\<exists>s1 g1. initNO intrand rng garbage P (construct C i raw, g) = Some (s1, g1) \<and>
      getKeyRing intrand (NO g1) = Some (Inr (KeyRing s, NO g')))"
proof -
  from assms obtain s1 g1 where 1: "initNO intrand rng garbage P (construct C i raw, g) = Some (s1, g1)"
    by (auto simp: prover_initialize_def Option.bind_eq_Some_conv)
  with assms obtain s2 g2 where 2: "initKeyRing intrand (initUID s1, g1) = Some (Inr (s2, g2))"
    by (auto simp: prover_initialize_def rbind_eq_Inr)
  with 1 assms obtain s3 g3 where 3: "(if ENERGY_TEST C then chooseSelfish E P (readParams C P s2, g2) else Inr (readParams C P s2, g2)) = Inr (s3, g3)"
    "(s, g') = scheduleStart C E P (s3, g3)"
    by (auto simp: prover_initialize_def rbind_eq_Inr)
  obtain ring no where ring: "getKeyRing intrand (NO g1) = Some (Inr (ring, no))" "s2 = (initUID s1)\<lparr>KeyRing := ring\<rparr>" "NO g2 = no"
    using 2 by (auto simp: initKeyRing_def rbind_eq_Inr)
  let ?same = "\<lambda>a b. moduleIndex a = moduleIndex b \<and> UId a = UId b \<and> drange a = drange b \<and> deviceg a = deviceg b \<and>
    txrxstat a = txrxstat b \<and> KeyRing a = KeyRing b"
  have "?same s1 (construct C i raw) \<or> moduleIndex s1 = i \<and> drange s1 = initial_drange C \<and> deviceg s1 = [] \<and> txrxstat s1 = DIDLE"
    using 1 by (auto simp: initNO_def construct_def split: if_splits)
  then have s1: "moduleIndex s1 = i" "drange s1 = initial_drange C" "deviceg s1 = []" "txrxstat s1 = DIDLE"
    by (auto simp: construct_def)
  have "?same s3 (readParams C P s2) \<and> NO g3 = NO g2"
    using 3(1) by (auto simp: chooseSelfish_def Let_def rbind_eq_Inr split: if_splits option.splits)
  moreover have "?same (readParams C P s2) s2" by (simp add: readParams_def Let_def)
  moreover have "?same s s3 \<and> NO g' = NO g3"
    using 3(2) by (auto simp: scheduleStart_def Let_def scheduleAt_def emit_call_def split: if_splits)
  ultimately show ?thesis using s1 ring 1 by (simp add: initUID_def)
qed

text \<open>The static network owner once it is initialised.\<close>

definition owner_ok :: "keyrng_t \<Rightarrow> 'r statics \<Rightarrow> bool" where
  "owner_ok pool g \<longleftrightarrow> initialized (NO g) \<and> keyPool (NO g) = pool \<and> omap_wf pool"

definition booted :: "config \<Rightarrow> nat \<Rightarrow> nat \<Rightarrow> keyrng_t \<Rightarrow> nat \<Rightarrow> aprover \<Rightarrow> bool" where
  "booted C N n pool i s \<longleftrightarrow> prover_inv C N n s \<and> moduleIndex s = i \<and> UId s = (baseID + of_nat i) mod MAXUID \<and>
     drange s = initial_drange C \<and> deviceg s = [] \<and> txrxstat s = DIDLE \<and> map_of (KeyRing s) \<subseteq>\<^sub>m map_of pool"

lemma NetworkOwner_pool_ok:
  assumes "intrand_range intrand" and "NetworkOwner intrand r ps rs garbage = Some s"
  shows "pool_ok (keyPool s)"
proof (cases "ps = 0")
  case True
  then show ?thesis using assms(2) by (auto simp: NetworkOwner_def generateKeyPool_def pool_ok_def)
next
  case False
  with assms(2) obtain u where
    u: "while_option (\<lambda>s'. length (fst s') \<noteq> ps) (poolstep intrand) ([], r) = Some u" "keyPool s = fst u"
    by (auto simp: NetworkOwner_def generateKeyPool_from_empty)
  from while_option_stop2 [OF u(1)] obtain k where "u = (poolstep intrand ^^ k) ([], r)" by blast
  moreover have "pool_ok (fst (([], r) :: keyrng_t \<times> 'a))" by (simp add: pool_ok_def)
  ultimately show ?thesis using poolstep_pow_ok [OF assms(1), of "([], r)" k] u(2) by simp
qed

lemma initNO_owner:
  assumes "initNO intrand rng garbage P (s, g) = Some (s1, g1)" and "intrand_range intrand"
  shows "owner_ok pool g \<Longrightarrow> owner_ok pool g1" and "\<not> initialized (NO g) \<Longrightarrow> \<exists>pool. owner_ok pool g1"
  using assms NetworkOwner_pool_ok [OF assms(2), of rng "keyPoolSize P" "keyRingSize P" garbage]
  by (auto simp: initNO_def owner_ok_def pool_ok_def split: if_splits)

lemma initialize_booted:
  assumes P: "params_ok C N n P" and i: "i < N" and rng: "intrand_range intrand"
    and run: "prover_initialize C E P intrand rng garbage (construct C i raw, g) = Some (Inr (s, g'))"
    and own: "owner_ok pool g1" "initNO intrand rng garbage P (construct C i raw, g) = Some (s1, g1)"
  shows "booted C N n pool i s \<and> owner_ok pool g'"
proof -
  from initialize_frame [OF run] own(2) have f: "moduleIndex s = i \<and> UId s = (baseID + of_nat i) mod MAXUID \<and>
    drange s = initial_drange C \<and> deviceg s = [] \<and> txrxstat s = DIDLE"
    "getKeyRing intrand (NO g1) = Some (Inr (KeyRing s, NO g'))" by auto
  have "omap_wf (keyPool (NO g1))" using own(1) by (simp add: owner_ok_def)
  from getKeyRing_ring_of [OF f(2) rng this] own(1)
  have "keyPool (NO g') = pool" "map_of (KeyRing s) \<subseteq>\<^sub>m map_of pool"
    by (auto simp: owner_ok_def ring_of_def)
  moreover have "initialized (NO g')"
    using f(2) own(1) by (auto simp: getKeyRing_def owner_ok_def split: if_splits dest: arg_cong [of _ _ initialized])
  ultimately show ?thesis
    using initialize_inv [OF P i run] f(1) own(1) by (simp add: booted_def owner_ok_def)
qed

lemma boot_Cons:
  assumes "boot C E P intrand rng garbage raw (i # is) g = Some (Inr (ss, g'))"
  obtains s g1 ss' where
    "prover_initialize C E (P i) intrand rng garbage (construct C i (raw i), g) = Some (Inr (s, g1))"
    "boot C E P intrand rng garbage raw is g1 = Some (Inr (ss', g'))" "ss = s # ss'"
proof -
  from assms obtain r where r: "prover_initialize C E (P i) intrand rng garbage (construct C i (raw i), g) = Some r"
    by (auto simp: bind_eq_Some_conv)
  show thesis
  proof (cases r)
    case (Inr x)
    obtain s g1 where "x = (s, g1)" by (cases x)
    with assms r Inr that show thesis by (auto simp: rbind_eq_Inr)
  qed (use assms r in simp)
qed

lemma boot_rest:
  assumes "\<forall>i < N. params_ok C N n (P i)" and "intrand_range intrand"
  shows "boot C E P intrand rng garbage raw is g = Some (Inr (ss, g')) \<Longrightarrow> \<forall>i \<in> set is. i < N \<Longrightarrow> owner_ok pool g \<Longrightarrow>
    list_all2 (booted C N n pool) is ss"
proof (induction "is" arbitrary: g ss g')
  case (Cons i "is")
  from Cons.prems(1) obtain s g1 ss' where
    s: "prover_initialize C E (P i) intrand rng garbage (construct C i (raw i), g) = Some (Inr (s, g1))"
      "boot C E P intrand rng garbage raw is g1 = Some (Inr (ss', g'))" "ss = s # ss'"
    by (rule boot_Cons)
  from initialize_frame [OF s(1)] obtain s1 g0 where
    o1: "initNO intrand rng garbage (P i) (construct C i (raw i), g) = Some (s1, g0)" by blast
  from initNO_owner(1) [OF o1 assms(2) Cons.prems(3)] have "owner_ok pool g0" .
  from initialize_booted [OF _ _ assms(2) s(1) this o1] Cons.prems(2) assms(1)
  have b: "booted C N n pool i s" "owner_ok pool g1" by auto
  with Cons.IH [OF s(2)] Cons.prems(2) s(3) show ?case by simp
qed simp

lemma boot_booted:
  assumes P: "\<forall>i < N. params_ok C N n (P i)" and rng: "intrand_range intrand" and N: "0 < N"
    and boot: "boot C E P intrand r garbage raw [0..<N] g = Some (Inr (ss, g'))" and new: "\<not> initialized (NO g)"
  shows "\<exists>pool. \<forall>i < N. booted C N n pool i (ss ! i)"
proof -
  have up: "[0..<N] = 0 # [1..<N]" using N by (simp add: upt_conv_Cons)
  from boot [unfolded up] obtain s g1 ss' where
    s: "prover_initialize C E (P 0) intrand r garbage (construct C 0 (raw 0), g) = Some (Inr (s, g1))"
      "boot C E P intrand r garbage raw [1..<N] g1 = Some (Inr (ss', g'))" "ss = s # ss'"
    by (rule boot_Cons)
  from initialize_frame [OF s(1)] obtain s1 g0 where
    o1: "initNO intrand r garbage (P 0) (construct C 0 (raw 0), g) = Some (s1, g0)" by blast
  from initNO_owner(2) [OF o1 rng new] obtain pool where pool: "owner_ok pool g0" ..
  from initialize_booted [OF _ N rng s(1) this o1] P N
  have b: "booted C N n pool 0 s" "owner_ok pool g1" by auto
  have "list_all2 (booted C N n pool) [0..<N] ss"
    using boot_rest [OF P rng s(2) _ b(2)] b(1) s(3) up by simp
  then show ?thesis by (intro exI [of _ pool]) (auto simp: list_all2_conv_all_nth)
qed

section \<open>All states of a run\<close>

definition sends :: "aprover \<Rightarrow> bool" where
  "sends s \<longleftrightarrow> txrxstat s = TRANSMITING"

definition collision_free :: "nat \<Rightarrow> topology \<Rightarrow> network \<Rightarrow> bool" where
  "collision_free N W w \<longleftrightarrow> (\<forall>i < N. \<forall>j < N. i \<noteq> j \<longrightarrow> near W (nat NEIGHBOR_DISTANCE) i j \<longrightarrow>
     \<not> (sends (pnode w i) \<and> sends (pnode w j)))"

definition keys_from :: "nat \<Rightarrow> keyrng_t \<Rightarrow> network \<Rightarrow> bool" where
  "keys_from N pool w \<longleftrightarrow> (\<forall>i < N. map_of (KeyRing (pnode w i)) \<subseteq>\<^sub>m map_of pool)"

text \<open>A prover that starts to send has no sending neighbour.\<close>

lemma clear_no_neighbour:
  assumes W: "symmetric_on {..<N} W" and d: "d < N" "j < N" "d \<noteq> j" and s: "moduleIndex s = d" "drange s = NEIGHBOR_DISTANCE"
    and cl: "clear ((net_env N W w E)\<lparr>arrivalGate := g\<rparr>) s" and near: "near W (nat NEIGHBOR_DISTANCE) d j"
  shows "\<not> sends (pnode w j)"
proof
  assume j: "sends (pnode w j)"
  let ?E = "(net_env N W w E)\<lparr>arrivalGate := g\<rparr>"
  have "isTransmiting ?E (s\<lparr>txrxstat := DIDLE\<rparr>) j"
    using d s j by (simp add: isTransmiting_def net_env_def sends_def)
  with busy_when_near [OF W _ near] d(1)
  have "isChannelBusyFar W (isTransmiting ?E (s\<lparr>txrxstat := DIDLE\<rparr>)) (nat NEIGHBOR_DISTANCE) None d" by simp
  with cl s show False by (simp add: clear_def isChannelBusy_def net_env_def NEIGHBOR_DISTANCE_def)
qed

lemma collision_free_step:
  assumes W: "wiring_ok N W" and inv: "net_inv C N n W w" and free: "collision_free N W w" and move: "one_moves N W w w'"
  shows "collision_free N W w'"
proof -
  have sym: "symmetric_on {..<N} W" using W by (simp add: wiring_ok_def)
  from move obtain d E g where others: "\<forall>i. i \<noteq> d \<longrightarrow> pnode w' i = pnode w i"
    and st: "steady ((net_env N W w E)\<lparr>arrivalGate := g\<rparr>) (pnode w d) (pnode w' d)"
    by (auto simp: one_moves_def prover_keeps_def)
  have quiet: "\<not> sends (pnode w j)"
    if "d < N" "j < N" "d \<noteq> j" "near W (nat NEIGHBOR_DISTANCE) d j" "sends (pnode w' d)" for j
  proof (cases "sends (pnode w d)")
    case True
    with free that show ?thesis by (auto simp: collision_free_def)
  next
    case False
    have nd: "node_inv C N n W d (pnode w d)" using inv that(1) by (simp add: net_inv_def)
    with False st that(5) have "clear ((net_env N W w E)\<lparr>arrivalGate := g\<rparr>) (pnode w d)"
      by (auto simp: steady_def sends_def node_inv_def)
    from clear_no_neighbour [OF sym that(1,2,3) _ _ this that(4)] nd show ?thesis by (simp add: node_inv_def)
  qed
  show ?thesis
    unfolding collision_free_def
  proof (intro allI impI notI)
    fix i j assume ij: "i < N" "j < N" "i \<noteq> j" "near W (nat NEIGHBOR_DISTANCE) i j"
      and both: "sends (pnode w' i) \<and> sends (pnode w' j)"
    have "near W (nat NEIGHBOR_DISTANCE) j i" using near_sym [OF sym ij(4)] ij(1) by simp
    consider "i = d" | "j = d" | "i \<noteq> d" "j \<noteq> d" by blast
    then show False
    proof cases
      case 1
      with quiet [of j] ij both others show ?thesis by simp
    next
      case 2
      with quiet [of i] \<open>near W (nat NEIGHBOR_DISTANCE) j i\<close> ij both others show ?thesis by simp
    next
      case 3
      with free ij both others show ?thesis by (auto simp: collision_free_def)
    qed
  qed
qed

lemma keys_from_step: "keys_from N pool w \<Longrightarrow> one_moves N W w w' \<Longrightarrow> keys_from N pool w'"
  unfolding keys_from_def one_moves_def prover_keeps_def by metis

lemma start_inv:
  assumes net: "network_ok intrand C N n W" and P: "\<forall>i < N. params_ok C N n (P i)"
    and boot: "boot C E P intrand rng garbage raw [0..<N] \<lparr>NO = NetworkOwner0 rng, selfcount = 0, rvkd = r0\<rparr> = Some (Inr (ss, g))"
    and c: "collector_initialize (collector_construct C 0 craw) = Some c"
  shows "net_inv C N n W \<lparr>pnode = (\<lambda>i. ss ! i), cnode = c, air = []\<rparr> \<and>
    collision_free N W \<lparr>pnode = (\<lambda>i. ss ! i), cnode = c, air = []\<rparr> \<and>
    (\<exists>pool. keys_from N pool \<lparr>pnode = (\<lambda>i. ss ! i), cnode = c, air = []\<rparr>)"
proof -
  have rt: "\<not> WIRELESS C" "intrand_range intrand" "0 < N" using net by (auto simp: network_ok_def compiles_def)
  from boot_booted [OF P rt(2,3) boot] obtain pool where b: "\<forall>i < N. booted C N n pool i (ss ! i)"
    by (auto simp: NetworkOwner0_def)
  have "device s \<noteq> SERV" if "prover_inv C N n s" for s
    using that by (auto simp: prover_inv_def static_inv_def split: if_splits)
  then have "node_inv C N n W i (ss ! i)" if "i < N" for i
    using b that rt(1) by (auto simp: booted_def node_inv_def initial_drange_def prover_inv_def log_inv_def)
  moreover have "collector_inv C N c" using c by (intro collector_run_inv collector_run.start)
  ultimately show ?thesis
    using b by (auto simp: net_inv_def air_inv_def collision_free_def sends_def keys_from_def booted_def)
qed

lemma network_run_inv:
  "network_run intrand C N n W w \<Longrightarrow> network_ok intrand C N n W \<and> net_inv C N n W w \<and> collision_free N W w \<and>
     (\<exists>pool. keys_from N pool w)"
proof (induction rule: network_run.induct)
  case (start P E rng garbage raw r0 ss g craw c)
  from start(1) start_inv [OF start] show ?case by simp
next
  case (event w ev E w')
  then have net: "network_ok intrand C N n W" and inv: "net_inv C N n W w" by simp_all
  from network_event_ok [OF net inv event.hyps(2), of E] event.hyps(3)
  have "net_inv C N n W w'" "one_moves N W w w'" by simp_all
  moreover have "wiring_ok N W" using net by (simp add: network_ok_def)
  ultimately show ?case using event.IH collision_free_step keys_from_step net inv by blast
qed

section \<open>Two provers in a row\<close>

text \<open>Two provers in a row behind a collector, for examples.\<close>

definition pair_wiring :: topology where
  "pair_wiring = \<lparr>gateSize = (\<lambda>d. if d = 0 then 2 else 1),
     link = (\<lambda>d g. if d = 0 \<and> g = 0 then Some (2, 0, False) else if d = 0 \<and> g = 1 then Some (1, 0, True)
       else if d = 1 \<and> g = 0 then Some (0, 1, True) else if d = 2 \<and> g = 0 then Some (0, 0, True) else None)\<rparr>"

definition pair_draw :: "unit intrand" where
  "pair_draw r n = (1 mod n, r)"

lemma pair_ok: "network_ok pair_draw wired_build 2 1 pair_wiring"
proof -
  have "symmetric_on {..<2} pair_wiring"
    unfolding symmetric_on_def by (auto simp: pair_wiring_def split: if_splits)
  then have "wiring_ok 2 pair_wiring"
    unfolding wiring_ok_def by (auto simp: pair_wiring_def split: if_splits)
  then show ?thesis
    by (simp add: network_ok_def compiles_def wired_build_def intrand_range_def pair_draw_def)
qed

lemma pair_boot:
  "\<exists>ss g. boot wired_build demo_env (\<lambda>i. demo_params) pair_draw () False (\<lambda>i. demo_raw) [0..<2]
     \<lparr>NO = NetworkOwner0 (), selfcount = 0, rvkd = 0\<rparr> = Some (Inr (ss, g)) \<and>
     calls (ss ! 1) = [ScheduleAt 0 (timer_msg ATTEST Startmsg NoPacket)]"
proof -
  have "[0..<2] = [0, 1 :: nat]" by (simp add: upt_rec)
  then show ?thesis
    by (simp add: prover_initialize_def initNO_def NetworkOwner0_def NetworkOwner_def generateKeyPool_def poolstep_def
        pair_draw_def initKeyRing_def getKeyRing_def ringstep_def omap_insert_def while_option_unfold wired_build_def
        scheduleStart_def demo_env_def demo_params_def NOID_def MAXUID_def
        scheduleAt_def emit_call_def readParams_def Let_def initUID_def construct_def demo_raw_def)
qed

lemma pair_run:
  "\<exists>w. network_run pair_draw wired_build 2 1 pair_wiring w \<and>
     calls (pnode w 1) = [ScheduleAt 0 (timer_msg ATTEST Startmsg NoPacket)]"
proof -
  from pair_boot obtain ss g where
    boot: "boot wired_build demo_env (\<lambda>i. demo_params) pair_draw () False (\<lambda>i. demo_raw) [0..<2]
      \<lparr>NO = NetworkOwner0 (), selfcount = 0, rvkd = 0\<rparr> = Some (Inr (ss, g))"
    and calls: "calls (ss ! 1) = [ScheduleAt 0 (timer_msg ATTEST Startmsg NoPacket)]" by blast
  obtain c where c: "collector_initialize (collector_construct wired_build 0 demo_collector) = Some c"
    by (simp add: collector_initialize_def collector_initUID_def collector_construct_def baseID_def MAXCID_def)
  have "\<forall>i < 2. params_ok wired_build 2 1 demo_params"
    by (simp add: params_ok_def demo_params_def wired_build_def compiles_def)
  from network_run.start [OF pair_ok this boot c] calls show ?thesis by (intro exI) auto
qed

section \<open>Properties\<close>



text \<open>
  C4. Carrier sensing keeps the channel free of collisions: in every state of the network two
  different provers at distance at most two in the wiring (the distance of the sensing)
  never transmit at the same time.
\<close>
theorem network_no_collision:
  assumes "network_run intrand C N n W w" and "i < N" and "j < N" and "i \<noteq> j"
    and "near W (nat NEIGHBOR_DISTANCE) i j"
  shows "\<not> (txrxstat (pnode w i) = TRANSMITING \<and> txrxstat (pnode w j) = TRANSMITING)"
  using network_run_inv [OF assms(1)] assms(2-) unfolding collision_free_def sends_def by blast

theorem network_no_collision_witness:
  "\<exists>w. network_run pair_draw wired_build 2 1 pair_wiring w \<and>
     \<not> (txrxstat (pnode w 0) = TRANSMITING \<and> txrxstat (pnode w 1) = TRANSMITING)"
proof -
  from pair_run obtain w where w: "network_run pair_draw wired_build 2 1 pair_wiring w" by blast
  have "near pair_wiring (nat NEIGHBOR_DISTANCE) 0 1"
    by (auto simp: pair_wiring_def NEIGHBOR_DISTANCE_def numeral_2_eq_2 intro!: near.go [of 1 _ 0 1 0] near.here)
  from network_no_collision [OF w _ _ _ this] w show ?thesis by auto
qed

text \<open>
  C26. The provers of a network can tell each other apart and authenticate each other: in every
  state different provers have different identifiers, and a key id that two of them hold
  stands for the same key.
\<close>
theorem network_identities:
  assumes "network_run intrand C N n W w" and "i < N" and "j < N"
  shows "(UId (pnode w i) = UId (pnode w j) \<longleftrightarrow> i = j) \<and>
    (map_of (KeyRing (pnode w i)) k = Some v \<longrightarrow> map_of (KeyRing (pnode w j)) k = Some v' \<longrightarrow> v = v')"
proof -
  from network_run_inv [OF assms(1)] obtain pool where
    net: "network_ok intrand C N n W" "net_inv C N n W w" "keys_from N pool w" by blast
  have "proverIndex (UId (pnode w d)) = d" if "d < N" for d
    using net(1,2) that proverIndex_UId [of d] by (simp add: net_inv_def node_inv_def network_ok_def)
  then have "UId (pnode w i) = UId (pnode w j) \<longleftrightarrow> i = j" using assms(2,3) by metis
  moreover have "v = v'" if "map_of (KeyRing (pnode w i)) k = Some v" "map_of (KeyRing (pnode w j)) k = Some v'"
    using net(3) assms(2,3) that unfolding keys_from_def map_le_def by (metis domI option.inject)
  ultimately show ?thesis by blast
qed

theorem network_identities_witness:
  "\<exists>w. network_run pair_draw wired_build 2 1 pair_wiring w \<and> UId (pnode w 0) \<noteq> UId (pnode w 1)"
proof -
  from pair_run obtain w where w: "network_run pair_draw wired_build 2 1 pair_wiring w" by blast
  from network_identities [OF w, of 0 1] w show ?thesis by auto
qed

end
