(* ===== verification/Energy_Management.thy ===== *)
theory Energy_Management
  imports Energy_Storage
begin

text \<open>
  INET's \<open>SimpleEpEnergyManagement\<close>: it stops a node when the energy of its storage falls to a
  threshold and starts it when the energy rises to another, with a timer for the time the
  threshold will be reached.

  The management and the storage of \<open>Energy_Storage\<close> share the status of the node, the field
  \<open>nodeState\<close>. The management listens to the power signals of the storage, which
  \<open>updateTotalPowerConsumption\<close> and \<open>updateTotalPowerGeneration\<close> emit between the new total and
  the timer of the storage. A threshold of NaN is \<open>None\<close>. \<open>simtime\<close> converts a number of seconds
  to the simulation time, whose least step is \<open>resolution\<close>.
\<close>

section \<open>The management\<close>

record energy_management =
  nodeShutdownCapacity :: "real option"
  nodeStartCapacity :: "real option"
  energyStorage :: energy_storage
  lifecycleOperationTimer :: "real option"
  targetEnergy :: "real option"

definition management_initialize :: "real option \<Rightarrow> real option \<Rightarrow> energy_storage option \<Rightarrow> energy_management result" where
  "management_initialize shutdown start submodule =
     (case submodule of
        None \<Rightarrow> Inl BadCast
      | Some e \<Rightarrow>
          if nodeState e = None then Inl (RuntimeError ''Cannot find node status'')
          else Inr \<lparr>nodeShutdownCapacity = shutdown, nodeStartCapacity = start, energyStorage = e,
                    lifecycleOperationTimer = None, targetEnergy = None\<rparr>)"

definition getEstimatedEnergyCapacity :: "real \<Rightarrow> energy_management \<Rightarrow> (real \<times> energy_management) result" where
  "getEstimatedEnergyCapacity now a =
     rbind (getResidualEnergyCapacity now (energyStorage a)) (\<lambda>(r, e). Inr (r, a\<lparr>energyStorage := e\<rparr>))"

definition operate :: "operation \<Rightarrow> node_state \<Rightarrow> energy_management \<Rightarrow> energy_management result" where
  "operate k st a =
     rbind (initiateOperation (status_only 1) (prover_operation k) False st)
       (\<lambda>(d, invoked, p, st'). Inr (a\<lparr>energyStorage := (energyStorage a)\<lparr>nodeState := Some st'\<rparr>\<rparr>))"

definition manageNodeOperation :: "real \<Rightarrow> energy_management \<Rightarrow> energy_management result" where
  "manageNodeOperation estimated a =
     (case nodeState (energyStorage a) of
        None \<Rightarrow> Inl NullPointer
      | Some st \<Rightarrow>
          if (\<exists>x \<in> set_option (nodeShutdownCapacity a). estimated \<le> x) \<and> st = UP then operate ModuleStopOperation st a
          else if (\<exists>x \<in> set_option (nodeStartCapacity a). x \<le> estimated) \<and> st = DOWN then operate ModuleStartOperation st a
          else Inr a)"

text \<open>The threshold the timer waits for.\<close>

definition lifecycleTarget :: "real \<Rightarrow> energy_management \<Rightarrow> real option" where
  "lifecycleTarget estimated a =
     (let e = energyStorage a; totalPower = totalPowerGeneration e - totalPowerConsumption e in
      if totalPower > 0 then
        (case nodeStartCapacity a of
           None \<Rightarrow> None
         | Some x \<Rightarrow> if nodeState e = Some DOWN \<and> estimated < x then Some x else None)
      else if totalPower < 0 then
        (case nodeShutdownCapacity a of
           None \<Rightarrow> None
         | Some x \<Rightarrow> if nodeState e = Some UP \<and> estimated > x then Some x else None)
      else None)"

definition scheduleLifecycleOperationTimer ::
  "(real \<Rightarrow> real) \<Rightarrow> real \<Rightarrow> real \<Rightarrow> energy_management \<Rightarrow> energy_management result" where
  "scheduleLifecycleOperationTimer simtime resolution now a0 =
     rbind (getEstimatedEnergyCapacity now a0) (\<lambda>(estimated, a).
     let totalPower = totalPowerGeneration (energyStorage a) - totalPowerConsumption (energyStorage a);
         target = lifecycleTarget estimated a
     in Inr (a\<lparr>targetEnergy := target,
          lifecycleOperationTimer :=
            (case target of
               None \<Rightarrow> None
             | Some x \<Rightarrow>
                 let remainingTime = simtime ((x - estimated) / totalPower) + resolution
                 in if totalPower \<noteq> 0 \<and> remainingTime > 0 then Some (now + remainingTime) else None)\<rparr>))"

definition manage :: "(real \<Rightarrow> real) \<Rightarrow> real \<Rightarrow> real \<Rightarrow> energy_management \<Rightarrow> energy_management result" where
  "manage simtime resolution now a =
     rbind (getEstimatedEnergyCapacity now a) (\<lambda>(estimated, a1).
     rbind (manageNodeOperation estimated a1) (\<lambda>a2. scheduleLifecycleOperationTimer simtime resolution now a2))"

text \<open>\<open>handleMessage\<close> for the timer, which the kernel has removed from its events, and \<open>receiveSignal\<close>.\<close>

definition handleLifecycleTimer :: "(real \<Rightarrow> real) \<Rightarrow> real \<Rightarrow> real \<Rightarrow> energy_management \<Rightarrow> energy_management result" where
  "handleLifecycleTimer simtime resolution now a = manage simtime resolution now (a\<lparr>lifecycleOperationTimer := None\<rparr>)"

datatype power_signal = powerConsumptionChangedSignal | powerGenerationChangedSignal | residualEnergyCapacityChangedSignal

definition receiveSignal :: "(real \<Rightarrow> real) \<Rightarrow> real \<Rightarrow> real \<Rightarrow> power_signal \<Rightarrow> energy_management \<Rightarrow> energy_management result" where
  "receiveSignal simtime resolution now x a =
     (if x = powerConsumptionChangedSignal \<or> x = powerGenerationChangedSignal
      then manage simtime resolution now a else Inr a)"

section \<open>The storage with its listener\<close>

definition managedConsumption ::
  "(real \<Rightarrow> real) \<Rightarrow> real \<Rightarrow> (nat \<Rightarrow> real) \<Rightarrow> real \<Rightarrow> energy_management \<Rightarrow> energy_management result" where
  "managedConsumption simtime resolution watts now a =
     rbind (updateResidualCapacity now (energyStorage a)) (\<lambda>e.
     rbind (receiveSignal simtime resolution now powerConsumptionChangedSignal
       (a\<lparr>energyStorage := newConsumption watts e\<rparr>)) (\<lambda>a'.
     Inr (a'\<lparr>energyStorage := scheduleTimer now (energyStorage a')\<rparr>)))"

definition managedGeneration ::
  "(real \<Rightarrow> real) \<Rightarrow> real \<Rightarrow> (nat \<Rightarrow> real) \<Rightarrow> real \<Rightarrow> energy_management \<Rightarrow> energy_management result" where
  "managedGeneration simtime resolution watts now a =
     rbind (updateResidualCapacity now (energyStorage a)) (\<lambda>e.
     rbind (receiveSignal simtime resolution now powerGenerationChangedSignal
       (a\<lparr>energyStorage := newGeneration watts e\<rparr>)) (\<lambda>a'.
     Inr (a'\<lparr>energyStorage := scheduleTimer now (energyStorage a')\<rparr>)))"

section \<open>Runs\<close>

datatype managed_event =
    Look
  | StorageTimer
  | LifecycleTimer
  | ConsumptionSignal
  | GenerationSignal
  | Consumers "nat list"
  | Generators "nat list"

text \<open>
  What happens to the pair: someone reads the storage, one of the two timers fires, a consumer
  or generator signals a new power, or the list of consumers or generators changes.
\<close>

fun managed_step ::
  "(real \<Rightarrow> real) \<Rightarrow> real \<Rightarrow> (nat \<Rightarrow> real) \<Rightarrow> real \<Rightarrow> managed_event \<Rightarrow> energy_management \<Rightarrow> energy_management result" where
  "managed_step simtime resolution watts now Look a = rbind (getEstimatedEnergyCapacity now a) (\<lambda>(r, a'). Inr a')"
| "managed_step simtime resolution watts now StorageTimer a =
     rbind (handleTimer now (energyStorage a)) (\<lambda>e. Inr (a\<lparr>energyStorage := e\<rparr>))"
| "managed_step simtime resolution watts now LifecycleTimer a = handleLifecycleTimer simtime resolution now a"
| "managed_step simtime resolution watts now ConsumptionSignal a = managedConsumption simtime resolution watts now a"
| "managed_step simtime resolution watts now GenerationSignal a = managedGeneration simtime resolution watts now a"
| "managed_step simtime resolution watts now (Consumers cs) a =
     managedConsumption simtime resolution watts now (a\<lparr>energyStorage := (energyStorage a)\<lparr>energyConsumers := cs\<rparr>\<rparr>)"
| "managed_step simtime resolution watts now (Generators gs) a =
     managedGeneration simtime resolution watts now (a\<lparr>energyStorage := (energyStorage a)\<lparr>energyGenerators := gs\<rparr>\<rparr>)"

text \<open>The kernel fires timers on time and passes none of them.\<close>

definition on_time :: "real \<Rightarrow> managed_event \<Rightarrow> energy_management \<Rightarrow> bool" where
  "on_time t x a \<longleftrightarrow>
     (\<forall>u \<in> set_option (timerAt (energyStorage a)). t \<le> u) \<and> (\<forall>u \<in> set_option (lifecycleOperationTimer a). t \<le> u) \<and>
     (x = StorageTimer \<longrightarrow> timerAt (energyStorage a) = Some t) \<and> (x = LifecycleTimer \<longrightarrow> lifecycleOperationTimer a = Some t)"

definition thresholds_ok :: "energy_management \<Rightarrow> bool" where
  "thresholds_ok a \<longleftrightarrow>
     (\<forall>x \<in> set_option (nodeShutdownCapacity a). 0 \<le> x \<and> x \<le> nominalCapacity (energyStorage a)) \<and>
     (\<forall>y \<in> set_option (nodeStartCapacity a). 0 < y \<and> y \<le> nominalCapacity (energyStorage a) \<and>
        (\<forall>x \<in> set_option (nodeShutdownCapacity a). x < y))"

text \<open>\<open>SimTime(double)\<close> drops the part of a step.\<close>

definition simtime_drops :: "(real \<Rightarrow> real) \<Rightarrow> real \<Rightarrow> bool" where
  "simtime_drops simtime resolution \<longleftrightarrow> 0 < resolution \<and> (\<forall>x. 0 \<le> x \<longrightarrow> 0 \<le> simtime x \<and> simtime x \<le> x \<and> x < simtime x + resolution)"

text \<open>
  A run starts with the initialised storage of a node that is up or down and the first power
  signal, the registration of the consumers.
\<close>

inductive managed_run :: "(real \<Rightarrow> real) \<Rightarrow> real \<Rightarrow> real \<Rightarrow> energy_management \<Rightarrow> bool"
  for simtime resolution where
  start: "simtime_drops simtime resolution \<Longrightarrow> energy_initialize watts nominal initial step (Some st) t0 cs gs = Inr e \<Longrightarrow>
    0 \<le> initial \<Longrightarrow> initial \<le> nominal \<Longrightarrow> st = UP \<or> st = DOWN \<Longrightarrow>
    management_initialize shutdown start (Some e) = Inr a \<Longrightarrow> thresholds_ok a \<Longrightarrow>
    managed_step simtime resolution watts t0 (Consumers cs') a = Inr a' \<Longrightarrow> managed_run simtime resolution t0 a'"
| event: "managed_run simtime resolution now a \<Longrightarrow> now \<le> t \<Longrightarrow> on_time t x a \<Longrightarrow>
    managed_step simtime resolution watts t x a = Inr a' \<Longrightarrow> managed_run simtime resolution t a'"

section \<open>What one event does\<close>

text \<open>The storage brought up to date; a node that is up and has no energy left crashes.\<close>

definition brought_to :: "real \<Rightarrow> energy_storage \<Rightarrow> energy_storage \<Rightarrow> bool" where
  "brought_to t e e' \<longleftrightarrow> residualCapacity e' = ep.forecast e t \<and> lastResidualCapacityUpdate e' = t \<and>
     net_power e' = net_power e \<and> nominalCapacity e' = nominalCapacity e \<and>
     nodeState e' = (if ep.forecast e t \<le> 0 \<and> nodeState e = Some UP then Some DOWN else nodeState e)"

text \<open>A storage between two events, and the timers that are armed.\<close>

definition store_inv :: "real \<Rightarrow> energy_storage \<Rightarrow> bool" where
  "store_inv now e \<longleftrightarrow> storage_ok e \<and> lastResidualCapacityUpdate e \<le> now \<and>
     (nodeState e = Some UP \<or> nodeState e = Some DOWN) \<and> (nodeState e = Some UP \<longrightarrow> 0 < residualCapacity e)"

definition timer_inv :: "real \<Rightarrow> energy_storage \<Rightarrow> bool" where
  "timer_inv now e \<longleftrightarrow> (\<forall>u \<in> set_option (timerAt e). now \<le> u \<and> ep.forecast e u = targetCapacity e)"

text \<open>
  The timer of the management comes at most one step after the energy reaches a threshold the
  node has to follow, and it does not come before.
\<close>

definition follow_inv :: "real \<Rightarrow> real \<Rightarrow> energy_management \<Rightarrow> bool" where
  "follow_inv resolution now a \<longleftrightarrow> (let e = energyStorage a; timer = set_option (lifecycleOperationTimer a) in
     (\<forall>x \<in> set_option (nodeShutdownCapacity a). \<forall>t \<ge> lastResidualCapacityUpdate e.
        nodeState e = Some UP \<longrightarrow> ep.forecast e t \<le> x \<longrightarrow> (\<exists>u \<in> timer. u \<le> t + resolution)) \<and>
     (\<forall>y \<in> set_option (nodeStartCapacity a). \<forall>t \<ge> lastResidualCapacityUpdate e.
        nodeState e = Some DOWN \<longrightarrow> y \<le> ep.forecast e t \<longrightarrow> (\<exists>u \<in> timer. u \<le> t + resolution)) \<and>
     (\<forall>u \<in> timer. now \<le> u \<and>
        (nodeState e = Some UP \<longrightarrow> (\<exists>x \<in> set_option (nodeShutdownCapacity a). ep.forecast e u \<le> x)) \<and>
        (nodeState e = Some DOWN \<longrightarrow> 0 < net_power e \<longrightarrow> (\<exists>y \<in> set_option (nodeStartCapacity a). y \<le> ep.forecast e u))))"

lemma store_inv_filled: "store_inv now e \<Longrightarrow> ep.filled e"
  by (simp add: store_inv_def storage_ok_filled)

lemma store_inv_later: "store_inv now e \<Longrightarrow> now \<le> t \<Longrightarrow> store_inv t e"
  by (simp add: store_inv_def)

lemma moved_forecast:
  assumes "brought_to t e e'" and "store_inv now e" and "now \<le> t" and "t \<le> u"
  shows "ep.forecast e' u = ep.forecast e u"
proof -
  have f: "ep.filled e" "lastResidualCapacityUpdate e \<le> t" using assms(2,3) by (auto simp: store_inv_filled store_inv_def)
  have "ep.forecast e' u = ep.forecast (refresh t e) u"
    using assms(1) ep.level_advance [OF f(1), of t] by (simp add: brought_to_def ep.forecast_def)
  also have "\<dots> = ep.forecast e u" using ep.forecast_advance [OF f assms(4)] .
  finally show ?thesis .
qed

lemma put_moved: "brought_to t e (put_residual t (ep.forecast e t) e)"
  by (simp add: brought_to_def put_residual_def)

lemma refresh_moved: "store_inv now e \<Longrightarrow> brought_to t e (refresh t e)"
  using ep.forecast_now [OF store_inv_filled, of now e] put_moved [of t e]
  by (cases "t = lastResidualCapacityUpdate e") (auto simp: refresh_forecast brought_to_def store_inv_def)

text \<open>A crash means that the energy was falling.\<close>

lemma crash_falling:
  assumes "store_inv now e" and "now \<le> t" and "nodeState e = Some UP" and "ep.forecast e t \<le> 0"
  shows "net_power e < 0"
  using ep.forecast_above [OF store_inv_filled [OF assms(1)], of 0 t] assms by (simp add: store_inv_def)

lemma moved_store:
  assumes "brought_to t e e'" and "store_inv now e" and "now \<le> t" and "storage_ok e'"
  shows "store_inv t e'"
  using assms by (auto simp: store_inv_def brought_to_def)

lemma moved_follow:
  assumes m: "brought_to t e (energyStorage b)" and inv: "store_inv now e" "now \<le> t" and ok: "storage_ok (energyStorage b)"
    and th: "thresholds_ok a" and f: "follow_inv resolution now a" and e: "energyStorage a = e"
    and same: "nodeShutdownCapacity b = nodeShutdownCapacity a" "nodeStartCapacity b = nodeStartCapacity a"
      "lifecycleOperationTimer b = lifecycleOperationTimer a"
    and late: "\<forall>u \<in> set_option (lifecycleOperationTimer a). t \<le> u"
  shows "follow_inv resolution t b"
proof -
  let ?e = "energyStorage b"
  have path: "ep.forecast ?e u = ep.forecast e u" if "t \<le> u" for u using moved_forecast [OF m inv that] .
  have last: "lastResidualCapacityUpdate ?e = t" "lastResidualCapacityUpdate e \<le> t" "net_power ?e = net_power e"
    using m inv by (auto simp: brought_to_def store_inv_def)
  show ?thesis
  proof (cases "nodeState ?e = nodeState e")
    case True
    then show ?thesis using f last path late e same unfolding follow_inv_def Let_def by auto
  next
    case False
    then have st: "nodeState e = Some UP" "nodeState ?e = Some DOWN" "ep.forecast e t \<le> 0"
      using m by (auto simp: brought_to_def split: if_splits)
    have falling: "net_power e < 0" using crash_falling [OF inv st(1,3)] .
    have "\<not> y \<le> ep.forecast ?e u" if "y \<in> set_option (nodeStartCapacity a)" "t \<le> u" for y u
    proof
      assume y: "y \<le> ep.forecast ?e u"
      have "0 < y" "y \<le> nominalCapacity ?e" using th that m e by (auto simp: thresholds_ok_def brought_to_def)
      moreover have "residualCapacity ?e \<le> 0" using m st(3) by (simp add: brought_to_def)
      ultimately have "0 < net_power ?e"
        using ep.forecast_below [OF storage_ok_filled [OF ok], of y u] that last y by simp
      with falling last show False by simp
    qed
    with st falling last late same show ?thesis unfolding follow_inv_def Let_def by auto
  qed
qed

section \<open>The management acts and arms its timer\<close>

lemma operate_eq:
  "operate ModuleStopOperation UP a = Inr (a\<lparr>energyStorage := (energyStorage a)\<lparr>nodeState := Some DOWN\<rparr>\<rparr>)"
  "operate ModuleStartOperation DOWN a = Inr (a\<lparr>energyStorage := (energyStorage a)\<lparr>nodeState := Some UP\<rparr>\<rparr>)"
proof -
  have "\<exists>p'. initiateOperation (status_only 1) (prover_operation k) False (state_before k) = Inr (True, False, p', state_after k)" for k
    using initiate_status_only [of "prover_operation k" 1 False] by (simp add: prover_operation_def prover_node_def)
  from this [of ModuleStopOperation] this [of ModuleStartOperation]
  show "operate ModuleStopOperation UP a = Inr (a\<lparr>energyStorage := (energyStorage a)\<lparr>nodeState := Some DOWN\<rparr>\<rparr>)"
    "operate ModuleStartOperation DOWN a = Inr (a\<lparr>energyStorage := (energyStorage a)\<lparr>nodeState := Some UP\<rparr>\<rparr>)"
    by (auto simp: operate_def)
qed

text \<open>The state of the node that the thresholds ask for.\<close>

definition switched :: "real option \<Rightarrow> real option \<Rightarrow> real \<Rightarrow> node_state \<Rightarrow> node_state" where
  "switched shutdown start r st =
     (if (\<exists>x \<in> set_option shutdown. r \<le> x) \<and> st = UP then DOWN
      else if (\<exists>y \<in> set_option start. y \<le> r) \<and> st = DOWN then UP else st)"

lemma manageNodeOperation_eq:
  "nodeState (energyStorage a) = Some st \<Longrightarrow>
   manageNodeOperation r a = Inr (a\<lparr>energyStorage := (energyStorage a)\<lparr>nodeState :=
     Some (switched (nodeShutdownCapacity a) (nodeStartCapacity a) r st)\<rparr>\<rparr>)"
  by (auto simp: manageNodeOperation_def switched_def operate_eq)

lemma refresh_now: "lastResidualCapacityUpdate e = now \<Longrightarrow> refresh now e = e"
  by (simp add: refresh_def)

text \<open>The storage after the management has acted.\<close>

definition managed_store :: "real \<Rightarrow> energy_management \<Rightarrow> energy_storage" where
  "managed_store now a = (let e = refresh now (energyStorage a) in
     e\<lparr>nodeState := map_option (switched (nodeShutdownCapacity a) (nodeStartCapacity a) (residualCapacity e)) (nodeState e)\<rparr>)"

lemma managed_store_sel [simp]:
  "residualCapacity (managed_store now a) = residualCapacity (refresh now (energyStorage a))"
  "lastResidualCapacityUpdate (managed_store now a) = now"
  "nominalCapacity (managed_store now a) = nominalCapacity (energyStorage a)"
  "totalPowerGeneration (managed_store now a) = totalPowerGeneration (energyStorage a)"
  "totalPowerConsumption (managed_store now a) = totalPowerConsumption (energyStorage a)"
  "nodeState (managed_store now a) = map_option (switched (nodeShutdownCapacity a) (nodeStartCapacity a)
     (residualCapacity (refresh now (energyStorage a)))) (nodeState (refresh now (energyStorage a)))"
  "timerAt (managed_store now a) = timerAt (energyStorage a)"
  "targetCapacity (managed_store now a) = targetCapacity (energyStorage a)"
  by (simp_all add: managed_store_def Let_def)

lemma manage_eq:
  assumes "nodeState (refresh now (energyStorage a)) \<noteq> None"
  shows "\<exists>b. manage simtime resolution now a = Inr b \<and> energyStorage b = managed_store now a \<and>
    nodeShutdownCapacity b = nodeShutdownCapacity a \<and> nodeStartCapacity b = nodeStartCapacity a \<and>
    lifecycleOperationTimer b = (case lifecycleTarget (residualCapacity (managed_store now a)) (a\<lparr>energyStorage := managed_store now a\<rparr>) of
       None \<Rightarrow> None
     | Some x \<Rightarrow> let d = simtime ((x - residualCapacity (managed_store now a)) / net_power (managed_store now a)) + resolution
         in if net_power (managed_store now a) \<noteq> 0 \<and> d > 0 then Some (now + d) else None)"
proof -
  from assms obtain st where st: "nodeState (refresh now (energyStorage a)) = Some st" by blast
  let ?a1 = "a\<lparr>energyStorage := refresh now (energyStorage a)\<rparr>"
  have "(energyStorage ?a1)\<lparr>nodeState := Some (switched (nodeShutdownCapacity ?a1) (nodeStartCapacity ?a1)
      (residualCapacity (refresh now (energyStorage a))) st)\<rparr> = managed_store now a"
    using st by (simp add: managed_store_def Let_def)
  then have "manageNodeOperation (residualCapacity (refresh now (energyStorage a))) ?a1 = Inr (a\<lparr>energyStorage := managed_store now a\<rparr>)"
    using manageNodeOperation_eq [of ?a1 st "residualCapacity (refresh now (energyStorage a))"] st by simp
  moreover have "refresh now (managed_store now a) = managed_store now a" by (rule refresh_now) simp
  ultimately show ?thesis
    by (cases "lifecycleTarget (residualCapacity (refresh now (energyStorage a))) (a\<lparr>energyStorage := managed_store now a\<rparr>)")
       (simp_all add: manage_def getEstimatedEnergyCapacity_def scheduleLifecycleOperationTimer_def Let_def)
qed

lemma switched_up: "switched sh st r s = UP \<Longrightarrow> s = UP \<or> s = DOWN \<Longrightarrow> x \<in> set_option sh \<Longrightarrow>
    (\<forall>y \<in> set_option st. x < y) \<Longrightarrow> x < r"
  by (auto simp: switched_def split: if_splits)

lemma switched_down: "switched sh st r s = DOWN \<Longrightarrow> s = UP \<or> s = DOWN \<Longrightarrow> y \<in> set_option st \<Longrightarrow>
    (\<forall>x \<in> set_option sh. x < y) \<Longrightarrow> r < y"
  by (auto simp: switched_def split: if_splits)

text \<open>When the timer for a threshold \<open>x\<close> fires: after the threshold is reached, by at most one step.\<close>

lemma timer_reaches:
  assumes f: "ep.filled e" and p: "net_power e \<noteq> 0" "0 \<le> x" "x \<le> nominalCapacity e" and sim: "simtime_drops simtime resolution"
    and ahead: "0 < (x - residualCapacity e) / net_power e"
  defines "u \<equiv> lastResidualCapacityUpdate e + (simtime ((x - residualCapacity e) / net_power e) + resolution)"
  shows "lastResidualCapacityUpdate e < u" and "if net_power e < 0 then ep.forecast e u \<le> x else x \<le> ep.forecast e u"
    and "lastResidualCapacityUpdate e \<le> s \<Longrightarrow> (if net_power e < 0 then ep.forecast e s \<le> x else x \<le> ep.forecast e s) \<Longrightarrow> u \<le> s + resolution"
proof -
  let ?d = "(x - residualCapacity e) / net_power e"
  have st: "0 < resolution" "0 \<le> simtime ?d" "simtime ?d \<le> ?d" "?d < simtime ?d + resolution"
    using sim ahead by (auto simp: simtime_drops_def)
  then show "lastResidualCapacityUpdate e < u" by (simp add: u_def)
  show "if net_power e < 0 then ep.forecast e u \<le> x else x \<le> ep.forecast e u"
    using ep.forecast_reaches [OF f p, of u] st by (simp add: u_def)
  assume s: "lastResidualCapacityUpdate e \<le> s" "if net_power e < 0 then ep.forecast e s \<le> x else x \<le> ep.forecast e s"
  have "lastResidualCapacityUpdate e + ?d \<le> s"
  proof (cases "net_power e < 0")
    case True
    then have "x < residualCapacity e" using ahead by (simp add: zero_less_divide_iff)
    with ep.forecast_above [OF f p(2) _ s(1)] s(2) True show ?thesis by simp
  next
    case False
    then have "residualCapacity e < x" using ahead p(1) by (simp add: zero_less_divide_iff)
    with ep.forecast_below [OF f p(3) _ s(1)] s(2) False show ?thesis by simp
  qed
  with st show "u \<le> s + resolution" by (simp add: u_def)
qed

lemma storage_ok_nodeState [simp]: "storage_ok (e\<lparr>nodeState := x\<rparr>) = storage_ok e"
  by (simp add: storage_ok_def)

lemma managed_store_inv:
  assumes "store_inv now (energyStorage a)" and "now \<le> t" and "thresholds_ok a"
  shows "store_inv t (managed_store t a)" and "nodeState (refresh t (energyStorage a)) \<noteq> None"
proof -
  let ?e = "refresh t (energyStorage a)"
  have e: "store_inv t ?e"
    using moved_store [OF refresh_moved [OF assms(1)] assms(1,2)] assms(1) by (simp add: store_inv_def)
  then show "nodeState ?e \<noteq> None" by (auto simp: store_inv_def)
  from e obtain st where st: "nodeState ?e = Some st" "st = UP \<or> st = DOWN" "st = UP \<longrightarrow> 0 < residualCapacity ?e"
    by (auto simp: store_inv_def)
  have "0 < residualCapacity ?e" if "switched (nodeShutdownCapacity a) (nodeStartCapacity a) (residualCapacity ?e) st = UP"
    using that st(3) assms(3) by (auto simp: switched_def thresholds_ok_def split: if_splits)
  moreover have "storage_ok (managed_store t a)" using e by (simp add: managed_store_def store_inv_def Let_def)
  moreover have "switched sh y r st \<in> {UP, DOWN}" for sh y r using st(2) by (auto simp: switched_def)
  ultimately show "store_inv t (managed_store t a)" using st(1) by (simp add: store_inv_def)
qed

text \<open>After the management has acted, the node is as its thresholds ask, and the timer is the next time they do.\<close>

lemma manage_follows:
  assumes inv: "store_inv now (energyStorage a)" "now \<le> t" and th: "thresholds_ok a" and sim: "simtime_drops simtime resolution"
  shows "\<exists>b. manage simtime resolution t a = Inr b \<and> energyStorage b = managed_store t a \<and>
    nodeShutdownCapacity b = nodeShutdownCapacity a \<and> nodeStartCapacity b = nodeStartCapacity a \<and>
    store_inv t (energyStorage b) \<and> follow_inv resolution t b"
proof -
  let ?e = "managed_store t a" let ?r = "residualCapacity ?e"
  from manage_eq [OF managed_store_inv(2) [OF inv th], of simtime resolution] obtain b where
    b: "manage simtime resolution t a = Inr b" "energyStorage b = ?e"
      "nodeShutdownCapacity b = nodeShutdownCapacity a" "nodeStartCapacity b = nodeStartCapacity a"
    and timer: "lifecycleOperationTimer b = (case lifecycleTarget ?r (a\<lparr>energyStorage := ?e\<rparr>) of
       None \<Rightarrow> None
     | Some x \<Rightarrow> let d = simtime ((x - ?r) / net_power ?e) + resolution
         in if net_power ?e \<noteq> 0 \<and> d > 0 then Some (t + d) else None)" by blast
  have e: "store_inv t ?e" using managed_store_inv(1) [OF inv th] .
  have last: "lastResidualCapacityUpdate ?e = t" by simp
  have f: "ep.filled ?e" using store_inv_filled [OF e] .
  obtain st where st: "nodeState (refresh t (energyStorage a)) = Some st" "st = UP \<or> st = DOWN"
    using moved_store [OF refresh_moved [OF inv(1)] inv] inv(1) by (auto simp: store_inv_def)
  have cap: "nominalCapacity ?e = nominalCapacity (energyStorage a)" by simp
  have up: "x < ?r" if "nodeState ?e = Some UP" "nodeShutdownCapacity a = Some x" for x
    using switched_up [of "nodeShutdownCapacity a" "nodeStartCapacity a" ?r st x] that st th by (auto simp: thresholds_ok_def)
  have down: "?r < y" if "nodeState ?e = Some DOWN" "nodeStartCapacity a = Some y" for y
    using switched_down [of "nodeShutdownCapacity a" "nodeStartCapacity a" ?r st y] that st th by (auto simp: thresholds_ok_def)
  have sh: "0 \<le> x \<and> x \<le> nominalCapacity ?e" if "nodeShutdownCapacity a = Some x" for x
    using th that cap by (simp add: thresholds_ok_def)
  have stt: "0 \<le> y \<and> y \<le> nominalCapacity ?e" if "nodeStartCapacity a = Some y" for y
    using th that cap by (auto simp: thresholds_ok_def)
  define target where "target = lifecycleTarget ?r (a\<lparr>energyStorage := ?e\<rparr>)"
  have target: "target = Some x \<longleftrightarrow> net_power ?e > 0 \<and> nodeState ?e = Some DOWN \<and> ?r < x \<and> nodeStartCapacity a = Some x \<or>
      net_power ?e < 0 \<and> nodeState ?e = Some UP \<and> x < ?r \<and> nodeShutdownCapacity a = Some x" for x
    by (auto simp: target_def lifecycleTarget_def Let_def split: option.split simp del: managed_store_sel)
  have "follow_inv resolution t b"
  proof (cases target)
    case None
    then have "lifecycleOperationTimer b = None" using timer by (simp add: target_def)
    moreover have "\<not> ep.forecast ?e s \<le> x" if "nodeState ?e = Some UP" "nodeShutdownCapacity a = Some x" "t \<le> s" for x s
      using ep.forecast_above [OF f, of x s] up [OF that(1,2)] sh [OF that(2)] that None target [of x] last by auto
    moreover have "\<not> y \<le> ep.forecast ?e s" if "nodeState ?e = Some DOWN" "nodeStartCapacity a = Some y" "t \<le> s" for y s
      using ep.forecast_below [OF f, of y s] down [OF that(1,2)] stt [OF that(2)] that None target [of y] last by auto
    ultimately show ?thesis using b(2-4) last unfolding follow_inv_def Let_def by (simp del: managed_store_sel)
  next
    case (Some x)
    let ?u = "t + (simtime ((x - ?r) / net_power ?e) + resolution)"
    have x: "0 \<le> x" "x \<le> nominalCapacity ?e" "net_power ?e \<noteq> 0" "0 < (x - ?r) / net_power ?e"
      using target [of x] Some sh [of x] stt [of x] by (auto simp: zero_less_divide_iff simp del: managed_store_sel)
    note reach = timer_reaches [OF f x(3,1,2) sim x(4), unfolded last]
    have u: "lifecycleOperationTimer b = Some ?u"
      using timer reach(1) x(3) Some by (simp add: target_def Let_def del: managed_store_sel)
    from target [of x] Some have "net_power ?e > 0 \<and> nodeState ?e = Some DOWN \<and> nodeStartCapacity a = Some x \<or>
      net_power ?e < 0 \<and> nodeState ?e = Some UP \<and> nodeShutdownCapacity a = Some x" by blast
    then show ?thesis using b(2-4) last reach u unfolding follow_inv_def Let_def
      by (elim disjE) (auto simp del: managed_store_sel)
  qed
  with b e show ?thesis by auto
qed

section \<open>All states of a run\<close>

definition managed_inv :: "real \<Rightarrow> real \<Rightarrow> energy_management \<Rightarrow> bool" where
  "managed_inv resolution now a \<longleftrightarrow> store_inv now (energyStorage a) \<and> timer_inv now (energyStorage a) \<and>
     thresholds_ok a \<and> follow_inv resolution now a"

lemma thresholds_cong:
  "nodeShutdownCapacity b = nodeShutdownCapacity a \<Longrightarrow> nodeStartCapacity b = nodeStartCapacity a \<Longrightarrow>
   nominalCapacity (energyStorage b) = nominalCapacity (energyStorage a) \<Longrightarrow> thresholds_ok b = thresholds_ok a"
  by (simp add: thresholds_ok_def)

lemma timer_inv_schedule:
  "storage_ok e \<Longrightarrow> lastResidualCapacityUpdate e = now \<Longrightarrow> timer_inv now (scheduleTimer now e)"
  using schedule_forecast [of e now] by (auto simp: timer_inv_def less_imp_le)

lemma follow_schedule: "follow_inv resolution t (b\<lparr>energyStorage := scheduleTimer t (energyStorage b)\<rparr>) = follow_inv resolution t b"
  by (simp add: follow_inv_def ep.forecast_def Let_def)

lemma store_inv_schedule: "store_inv t e \<Longrightarrow> store_inv t (scheduleTimer t e)"
  by (simp add: store_inv_def)

text \<open>A step that only brings the storage up to date, and perhaps arms its timer again.\<close>

lemma moved_inv:
  assumes inv: "managed_inv resolution now a" and t: "now \<le> t" "on_time t x a"
    and m: "brought_to t (energyStorage a) e" and ok: "storage_ok e" and timer: "timer_inv t e"
  shows "managed_inv resolution t (a\<lparr>energyStorage := e\<rparr>)"
proof -
  have s: "store_inv now (energyStorage a)" "thresholds_ok a" "follow_inv resolution now a" using inv by (auto simp: managed_inv_def)
  have "follow_inv resolution t (a\<lparr>energyStorage := e\<rparr>)"
    using m s t ok by (intro moved_follow [of t "energyStorage a" _ now a]) (auto simp: on_time_def)
  moreover have "thresholds_ok (a\<lparr>energyStorage := e\<rparr>)"
    using s(2) m by (subst thresholds_cong [of _ a]) (auto simp: brought_to_def)
  ultimately show ?thesis using moved_store [OF m s(1) t(1) ok] timer by (simp add: managed_inv_def)
qed

lemma look_inv:
  assumes inv: "managed_inv resolution now a" and t: "now \<le> t" "on_time t x a"
  shows "managed_inv resolution t (a\<lparr>energyStorage := refresh t (energyStorage a)\<rparr>)"
proof (rule moved_inv [OF inv t])
  have s: "store_inv now (energyStorage a)" "timer_inv now (energyStorage a)" using inv by (auto simp: managed_inv_def)
  show m: "brought_to t (energyStorage a) (refresh t (energyStorage a))" using refresh_moved [OF s(1)] .
  show "storage_ok (refresh t (energyStorage a))" using s(1) by (simp add: store_inv_def)
  show "timer_inv t (refresh t (energyStorage a))"
    using s(2) t(2) moved_forecast [OF m s(1) t(1)] by (auto simp: timer_inv_def on_time_def)
qed

lemma storage_timer_inv:
  assumes inv: "managed_inv resolution now a" and t: "now \<le> t" "on_time t StorageTimer a"
  shows "\<exists>e. handleTimer t (energyStorage a) = Inr e \<and> managed_inv resolution t (a\<lparr>energyStorage := e\<rparr>)"
proof -
  let ?e = "energyStorage a" let ?p = "put_residual t (targetCapacity ?e) (?e\<lparr>timerAt := None\<rparr>)"
  have s: "store_inv now ?e" "timer_inv now ?e" using inv by (auto simp: managed_inv_def)
  have armed: "timerAt ?e = Some t" using t(2) by (simp add: on_time_def)
  then have target: "targetCapacity ?e = ep.forecast ?e t" using s(2) by (simp add: timer_inv_def)
  have ok: "storage_ok ?p" using s(1) armed by (auto simp: store_inv_def storage_ok_def put_residual_def)
  have "brought_to t ?e (scheduleTimer t ?p)"
    by (simp add: brought_to_def put_residual_def target)
  moreover have "timer_inv t (scheduleTimer t ?p)"
    using ok by (intro timer_inv_schedule) (simp_all add: put_residual_def)
  ultimately have "managed_inv resolution t (a\<lparr>energyStorage := scheduleTimer t ?p\<rparr>)"
    using ok by (intro moved_inv [OF inv t]) simp_all
  then show ?thesis by (simp add: handleTimer_def)
qed

lemma lifecycle_timer_inv:
  assumes inv: "managed_inv resolution now a" and t: "now \<le> t" "on_time t LifecycleTimer a" and sim: "simtime_drops simtime resolution"
  shows "ok (managed_inv resolution t) (handleLifecycleTimer simtime resolution t a)"
proof -
  let ?a = "a\<lparr>lifecycleOperationTimer := None\<rparr>" let ?m = "managed_store t ?a"
  have s: "store_inv now (energyStorage ?a)" "thresholds_ok ?a" using inv by (auto simp: managed_inv_def thresholds_ok_def)
  from manage_follows [OF s(1) t(1) s(2) sim] obtain b where
    b: "manage simtime resolution t ?a = Inr b" "energyStorage b = ?m"
      "nodeShutdownCapacity b = nodeShutdownCapacity ?a" "nodeStartCapacity b = nodeStartCapacity ?a"
      "store_inv t (energyStorage b)" "follow_inv resolution t b" by blast
  have "timer_inv t ?m"
    unfolding timer_inv_def
  proof
    fix u assume "u \<in> set_option (timerAt ?m)"
    then have u: "timerAt (energyStorage a) = Some u" by simp
    then have tu: "t \<le> u" using t(2) by (simp add: on_time_def)
    have "ep.forecast ?m u = ep.forecast (refresh t (energyStorage a)) u" by (simp add: ep.forecast_def)
    also have "\<dots> = ep.forecast (energyStorage a) u"
      using moved_forecast [OF refresh_moved _ t(1) tu] s(1) by simp
    finally show "t \<le> u \<and> ep.forecast ?m u = targetCapacity ?m"
      using tu inv u by (simp add: managed_inv_def timer_inv_def)
  qed
  moreover have "thresholds_ok b" using b s(2) by (subst thresholds_cong [of _ ?a]) simp_all
  ultimately show ?thesis using b by (simp add: handleLifecycleTimer_def managed_inv_def)
qed

text \<open>A power signal: the management acts before the storage arms its timer.\<close>

lemma signal_inv:
  assumes e: "store_inv t e" and th: "thresholds_ok (a\<lparr>energyStorage := e\<rparr>)" and sim: "simtime_drops simtime resolution"
  shows "ok (managed_inv resolution t) (rbind (manage simtime resolution t (a\<lparr>energyStorage := e\<rparr>)) (\<lambda>b.
     Inr (b\<lparr>energyStorage := scheduleTimer t (energyStorage b)\<rparr>)))"
proof -
  let ?a = "a\<lparr>energyStorage := e\<rparr>" let ?m = "managed_store t ?a"
  have e': "store_inv t (energyStorage ?a)" using e by simp
  from manage_follows [OF e' order_refl th sim] obtain b where
    b: "manage simtime resolution t ?a = Inr b" "energyStorage b = ?m"
      "nodeShutdownCapacity b = nodeShutdownCapacity ?a" "nodeStartCapacity b = nodeStartCapacity ?a"
      "store_inv t (energyStorage b)" "follow_inv resolution t b" by blast
  let ?b = "b\<lparr>energyStorage := scheduleTimer t (energyStorage b)\<rparr>"
  have "timer_inv t (scheduleTimer t ?m)" using b(2,5) by (intro timer_inv_schedule) (simp_all add: store_inv_def)
  moreover have "thresholds_ok ?b" using b th by (subst thresholds_cong [of _ ?a]) simp_all
  ultimately have "managed_inv resolution t ?b"
    using b(2,5) follow_schedule [of resolution t b] b(6) store_inv_schedule [OF b(5)] by (simp add: managed_inv_def)
  with b(1) show ?thesis by simp
qed

lemma store_inv_upd:
  "store_inv t (e\<lparr>totalPowerConsumption := w\<rparr>) = store_inv t e"
  "store_inv t (e\<lparr>totalPowerGeneration := w\<rparr>) = store_inv t e"
  "store_inv t (e\<lparr>energyConsumers := cs\<rparr>) = store_inv t e"
  "store_inv t (e\<lparr>energyGenerators := cs\<rparr>) = store_inv t e"
  by (simp_all add: store_inv_def)

lemma power_change_inv:
  assumes e: "store_inv now (energyStorage a)" and t: "now \<le> t" and th: "thresholds_ok a" and sim: "simtime_drops simtime resolution"
  shows "ok (managed_inv resolution t) (managedConsumption simtime resolution watts t a)"
    and "ok (managed_inv resolution t) (managedGeneration simtime resolution watts t a)"
proof -
  let ?e = "refresh t (energyStorage a)"
  have r: "store_inv t ?e" using moved_store [OF refresh_moved [OF e] e t] e by (simp add: store_inv_def)
  have th': "thresholds_ok (a\<lparr>energyStorage := ?e\<lparr>totalPowerConsumption := w\<rparr>\<rparr>)"
    "thresholds_ok (a\<lparr>energyStorage := ?e\<lparr>totalPowerGeneration := w\<rparr>\<rparr>)" for w
    using th by (auto simp: thresholds_ok_def)
  from signal_inv [of t "?e\<lparr>totalPowerConsumption := computeTotalPowerConsumption watts ?e\<rparr>", OF _ th'(1) sim]
  show "ok (managed_inv resolution t) (managedConsumption simtime resolution watts t a)"
    using r by (simp add: managedConsumption_def newConsumption_def receiveSignal_def store_inv_upd)
  from signal_inv [of t "?e\<lparr>totalPowerGeneration := computeTotalPowerGeneration watts ?e\<rparr>", OF _ th'(2) sim]
  show "ok (managed_inv resolution t) (managedGeneration simtime resolution watts t a)"
    using r by (simp add: managedGeneration_def newGeneration_def receiveSignal_def store_inv_upd)
qed

lemma managed_step_inv:
  assumes inv: "managed_inv resolution now a" and t: "now \<le> t" "on_time t x a" and sim: "simtime_drops simtime resolution"
  shows "ok (managed_inv resolution t) (managed_step simtime resolution watts t x a)"
proof -
  have s: "store_inv now (energyStorage a)" "thresholds_ok a" using inv by (auto simp: managed_inv_def)
  have s': "store_inv now (energyStorage (a\<lparr>energyStorage := f (energyStorage a)\<rparr>))" "thresholds_ok (a\<lparr>energyStorage := f (energyStorage a)\<rparr>)"
    if "\<And>e. store_inv now (f e) = store_inv now e \<and> nominalCapacity (f e) = nominalCapacity e" for f
    using s that by (auto simp: thresholds_ok_def)
  show ?thesis
  proof (cases x)
    case Look
    then show ?thesis using look_inv [OF inv t] by (simp add: getEstimatedEnergyCapacity_def)
  next
    case StorageTimer
    then show ?thesis using storage_timer_inv [OF inv t(1)] t(2) by auto
  next
    case LifecycleTimer
    then show ?thesis using lifecycle_timer_inv [OF inv t(1) _ sim] t(2) by simp
  next
    case (Consumers cs)
    then show ?thesis
      using power_change_inv(1) [OF s'(1) t(1) s'(2) sim, of "\<lambda>e. e\<lparr>energyConsumers := cs\<rparr>" "\<lambda>e. e\<lparr>energyConsumers := cs\<rparr>"]
      by (simp add: store_inv_upd)
  next
    case (Generators cs)
    then show ?thesis
      using power_change_inv(2) [OF s'(1) t(1) s'(2) sim, of "\<lambda>e. e\<lparr>energyGenerators := cs\<rparr>" "\<lambda>e. e\<lparr>energyGenerators := cs\<rparr>"]
      by (simp add: store_inv_upd)
  qed (use power_change_inv [OF s(1) t(1) s(2) sim] in simp_all)
qed

lemma initialize_store:
  assumes "energy_initialize watts nominal initial step (Some st) t0 cs gs = Inr e" and "0 \<le> initial" and "initial \<le> nominal"
    and "st = UP \<or> st = DOWN"
  shows "store_inv t0 e"
  using assms by (auto simp: energy_initialize_def newConsumption_def newGeneration_def Let_def store_inv_def intro!: storage_ok_schedule)
    (auto simp: put_residual_def split: if_splits)

lemma managed_run_inv: "managed_run simtime resolution now a \<Longrightarrow> simtime_drops simtime resolution \<and> managed_inv resolution now a"
proof (induction rule: managed_run.induct)
  case (start watts nominal initial step st t0 cs gs e shutdown start' a cs' a')
  have e: "energyStorage a = e" using start(6) by (auto simp: management_initialize_def split: if_splits)
  have "store_inv t0 (energyStorage (a\<lparr>energyStorage := e\<lparr>energyConsumers := cs'\<rparr>\<rparr>))"
    using initialize_store [OF start(2-5)] by (simp add: store_inv_upd)
  moreover have "thresholds_ok (a\<lparr>energyStorage := e\<lparr>energyConsumers := cs'\<rparr>\<rparr>)"
    using start(7) e by (simp add: thresholds_ok_def)
  ultimately have "ok (managed_inv resolution t0) (managed_step simtime resolution watts t0 (Consumers cs') a)"
    using power_change_inv(1) [OF _ order_refl _ start(1)] e by simp
  with start(1,8) show ?case by simp
next
  case (event now a t x watts a')
  with managed_step_inv [of resolution now a t x simtime watts] show ?case by simp
qed

section \<open>Properties\<close>


text \<open>
  A node with 10 J of 10 J and a consumer of 2 W, which has to stop at 4 J, for examples. The
  least step of the time is 1 s.
\<close>

definition demo_simtime :: "real \<Rightarrow> real" where
  "demo_simtime x = real_of_int \<lfloor>x\<rfloor>"

definition demo_managed :: energy_management where
  "demo_managed = \<lparr>nodeShutdownCapacity = Some 4, nodeStartCapacity = Some 8,
     energyStorage = \<lparr>energyConsumers = [0], energyGenerators = [], totalPowerConsumption = 2, totalPowerGeneration = 0,
     nominalCapacity = 10, residualCapacity = 10, printCapacityStep = None, lastResidualCapacityUpdate = 0,
       timerAt = Some 5, targetCapacity = 0, nodeState = Some UP\<rparr>,
     lifecycleOperationTimer = Some 4, targetEnergy = Some 4\<rparr>"

definition demo_storage :: energy_storage where
  "demo_storage = \<lparr>energyConsumers = [], energyGenerators = [], totalPowerConsumption = 0, totalPowerGeneration = 0,
     nominalCapacity = 10, residualCapacity = 10, printCapacityStep = None, lastResidualCapacityUpdate = 0,
     timerAt = None, targetCapacity = 10, nodeState = Some UP\<rparr>"

lemma demo_storage_initialize: "energy_initialize (\<lambda>_. 2) 10 10 None (Some UP) 0 [] [] = Inr demo_storage"
  by (simp add: energy_initialize_def newConsumption_def newGeneration_def demo_storage_def computeTotalPowerConsumption_def computeTotalPowerGeneration_def
      put_residual_def scheduleTimer_def nextTarget_def)

lemma demo_simtime_drops: "simtime_drops demo_simtime 1"
  unfolding simtime_drops_def demo_simtime_def by (auto; linarith)

lemma demo_managed_run: "managed_run demo_simtime 1 0 demo_managed"
proof -
  let ?a = "\<lparr>nodeShutdownCapacity = Some 4, nodeStartCapacity = Some 8, energyStorage = demo_storage,
    lifecycleOperationTimer = None, targetEnergy = None\<rparr>"
  let ?e = "demo_storage\<lparr>energyConsumers := [0], totalPowerConsumption := 2\<rparr>"
  have a: "management_initialize (Some 4) (Some 8) (Some demo_storage) = Inr ?a"
    by (simp add: management_initialize_def demo_storage_def)
  have refresh: "refresh 0 demo_storage = demo_storage" "refresh 0 ?e = ?e"
    "refresh 0 (demo_storage\<lparr>energyConsumers := [0]\<rparr>) = demo_storage\<lparr>energyConsumers := [0]\<rparr>"
    by (simp_all add: refresh_def demo_storage_def)
  have "manageNodeOperation 10 (?a\<lparr>energyStorage := ?e\<rparr>) = Inr (?a\<lparr>energyStorage := ?e\<rparr>)"
    by (simp add: manageNodeOperation_def demo_storage_def)
  moreover have "scheduleLifecycleOperationTimer demo_simtime 1 0 (?a\<lparr>energyStorage := ?e\<rparr>) =
      Inr (?a\<lparr>energyStorage := ?e, lifecycleOperationTimer := Some 4, targetEnergy := Some 4\<rparr>)"
    unfolding scheduleLifecycleOperationTimer_def getEstimatedEnergyCapacity_def lifecycleTarget_def
    by (simp add: refresh) (simp add: demo_storage_def demo_simtime_def Let_def)
  ultimately have m: "manage demo_simtime 1 0 (?a\<lparr>energyStorage := ?e\<rparr>) =
      Inr (?a\<lparr>energyStorage := ?e, lifecycleOperationTimer := Some 4, targetEnergy := Some 4\<rparr>)"
    unfolding manage_def getEstimatedEnergyCapacity_def by (simp add: refresh) (simp add: demo_storage_def)
  have sched: "scheduleTimer 0 ?e = energyStorage demo_managed"
    by (simp add: scheduleTimer_def nextTarget_def demo_storage_def demo_managed_def)
  have step: "managed_step demo_simtime 1 (\<lambda>_. 2) 0 (Consumers [0]) ?a = Inr demo_managed"
    using m by (simp add: managedConsumption_def newConsumption_def receiveSignal_def refresh computeTotalPowerConsumption_def sched)
      (simp add: demo_managed_def)
  have "thresholds_ok ?a" by (simp add: thresholds_ok_def demo_storage_def)
  from managed_run.start [OF demo_simtime_drops demo_storage_initialize _ _ _ a this step] show ?thesis by simp
qed


text \<open>
  The timer does its work when it fires: it stops a node that is up, and starts a node
  that is down while its energy rises; it never fires in vain for a node that is up.
\<close>
theorem lifecycle_timer_acts:
  assumes "managed_run simtime resolution now a" and "on_time u LifecycleTimer a"
    and "nodeState (refresh u (energyStorage a)) = Some st" and "st = UP \<or> net_power (energyStorage a) > 0"
  shows "\<exists>a'. handleLifecycleTimer simtime resolution u a = Inr a' \<and>
    nodeState (energyStorage a') = Some (if st = UP then DOWN else UP)"
proof -
  have sim: "simtime_drops simtime resolution" and inv: "managed_inv resolution now a"
    using managed_run_inv [OF assms(1)] by simp_all
  have armed: "lifecycleOperationTimer a = Some u" using assms(2) by (simp add: on_time_def)
  have s: "store_inv now (energyStorage a)" "now \<le> u" "thresholds_ok (a\<lparr>lifecycleOperationTimer := None\<rparr>)"
    using inv armed by (auto simp: managed_inv_def follow_inv_def thresholds_ok_def Let_def)
  let ?a = "a\<lparr>lifecycleOperationTimer := None\<rparr>" let ?r = "residualCapacity (refresh u (energyStorage a))"
  have s': "store_inv now (energyStorage ?a)" using s(1) by simp
  from manage_follows [OF s' s(2,3) sim] obtain b where
    b: "manage simtime resolution u ?a = Inr b" "energyStorage b = managed_store u ?a" by blast
  have r: "?r = ep.forecast (energyStorage a) u" using ep.level_advance [OF store_inv_filled [OF s(1)]] .
  have m: "brought_to u (energyStorage a) (refresh u (energyStorage a))" using refresh_moved [OF s(1)] .
  have st: "st = UP \<or> st = DOWN" "nodeState (energyStorage a) = Some st"
    using assms(3,4) m s(1) crash_falling [OF s(1,2)] by (auto simp: brought_to_def store_inv_def split: if_splits)
  have "switched (nodeShutdownCapacity a) (nodeStartCapacity a) ?r st = (if st = UP then DOWN else UP)"
    using inv armed st assms(4) r by (auto simp: managed_inv_def follow_inv_def switched_def Let_def)
  then show ?thesis using b assms(3) by (simp add: handleLifecycleTimer_def)
qed

theorem lifecycle_timer_acts_witness:
  "\<exists>a'. handleLifecycleTimer demo_simtime 1 4 demo_managed = Inr a' \<and> nodeState (energyStorage a') = Some DOWN"
proof -
  have "on_time 4 LifecycleTimer demo_managed" by (simp add: on_time_def demo_managed_def)
  moreover have "nodeState (refresh 4 (energyStorage demo_managed)) = Some UP"
    by (simp add: refresh_def put_residual_def clamp_def demo_managed_def)
  ultimately show ?thesis using lifecycle_timer_acts [OF demo_managed_run] by fastforce
qed

text \<open>
  A start threshold above the nominal capacity is not cut down to the range of the storage:
  the node stays down while it charges, and the timer is armed again each time it fires,
  also when the storage is full, so that the simulation never runs out of events.
\<close>
theorem start_threshold_unreachable:
  assumes "simtime_drops simtime resolution" and "store_inv now (energyStorage a)" and "now \<le> t"
    and "nodeState (energyStorage a) = Some DOWN" and "0 < net_power (energyStorage a)"
    and "nodeStartCapacity a = Some y" and "nominalCapacity (energyStorage a) < y"
  shows "\<exists>b u. handleLifecycleTimer simtime resolution t a = Inr b \<and> nodeState (energyStorage b) = Some DOWN \<and>
    lifecycleOperationTimer b = Some u \<and> t < u"
proof -
  let ?a = "a\<lparr>lifecycleOperationTimer := None\<rparr>" let ?m = "managed_store t ?a"
  have s: "store_inv now (energyStorage ?a)" using assms(2) by simp
  have m: "brought_to t (energyStorage a) (refresh t (energyStorage a))" using refresh_moved [OF assms(2)] .
  then have st: "nodeState (refresh t (energyStorage a)) = Some DOWN" using assms(4) by (simp add: brought_to_def)
  have "residualCapacity (refresh t (energyStorage a)) \<le> nominalCapacity (energyStorage a)"
    using ep.filled_advance [OF store_inv_filled [OF assms(2)], of t] by (simp add: ep.filled_def)
  then have r: "residualCapacity ?m < y" using assms(7) by simp
  have down: "nodeState ?m = Some DOWN" using st r assms(6) by (simp add: switched_def)
  have "nodeState (refresh t (energyStorage ?a)) \<noteq> None" using st by simp
  from manage_eq [OF this, of simtime resolution] obtain b where
    b: "manage simtime resolution t ?a = Inr b" "energyStorage b = ?m"
    and timer: "lifecycleOperationTimer b = (case lifecycleTarget (residualCapacity ?m) (?a\<lparr>energyStorage := ?m\<rparr>) of
       None \<Rightarrow> None
     | Some x \<Rightarrow> let d = simtime ((x - residualCapacity ?m) / net_power ?m) + resolution
         in if net_power ?m \<noteq> 0 \<and> d > 0 then Some (t + d) else None)" by blast
  have "lifecycleTarget (residualCapacity ?m) (?a\<lparr>energyStorage := ?m\<rparr>) = Some y"
    using r down assms(5,6) by (simp add: lifecycleTarget_def del: managed_store_sel) simp
  moreover have "0 < simtime ((y - residualCapacity ?m) / net_power ?m) + resolution"
  proof -
    have "0 \<le> (y - residualCapacity ?m) / net_power ?m" using r assms(5) by simp
    with assms(1) show ?thesis unfolding simtime_drops_def by (smt (verit))
  qed
  ultimately show ?thesis using b timer down assms(5) by (simp add: handleLifecycleTimer_def del: managed_store_sel) simp
qed

theorem start_threshold_unreachable_witness:
  "\<exists>b u. handleLifecycleTimer demo_simtime 1 0 (demo_managed\<lparr>nodeStartCapacity := Some 12,
      energyStorage := (energyStorage demo_managed)\<lparr>nodeState := Some DOWN, totalPowerGeneration := 3, timerAt := None\<rparr>\<rparr>) = Inr b \<and>
    nodeState (energyStorage b) = Some DOWN \<and> lifecycleOperationTimer b = Some u \<and> 0 < u"
proof -
  show ?thesis
    using demo_simtime_drops by (rule start_threshold_unreachable [where now = 0 and y = 12]) (simp_all add: demo_managed_def store_inv_def storage_ok_def)
qed

end
