(* ===== verification/Energy_Sources.thy ===== *)
theory Energy_Sources
  imports Energy_Storage
begin

text \<open>
  The other stores of energy of INET and the devices that alternate between work and sleep:
  \<open>IdealEpEnergyStorage\<close>, which only keeps a balance; \<open>SimpleCcBattery\<close>, which accounts for charge
  and current, with its base classes; \<open>AlternatingEpEnergyConsumer\<close> and
  \<open>AlternatingEpEnergyGenerator\<close>, here together with the ideal storage they signal.
\<close>

section \<open>The ideal storage\<close>

record ideal_storage = ep_storage_base +
  energyBalance :: real
  lastEnergyBalanceUpdate :: real

definition ideal_initialize :: "(nat \<Rightarrow> real) \<Rightarrow> nat list \<Rightarrow> nat list \<Rightarrow> ideal_storage" where
  "ideal_initialize watts consumers generators =
     newGeneration watts (newConsumption watts
       \<lparr>energyConsumers = consumers, energyGenerators = generators, totalPowerConsumption = 0, totalPowerGeneration = 0,
        energyBalance = 0, lastEnergyBalanceUpdate = 0\<rparr>)"

definition updateEnergyBalance :: "real \<Rightarrow> ideal_storage \<Rightarrow> ideal_storage" where
  "updateEnergyBalance now e =
     (if now \<noteq> lastEnergyBalanceUpdate e then
        e\<lparr>energyBalance := energyBalance e +
            (now - lastEnergyBalanceUpdate e) * (totalPowerGeneration e - totalPowerConsumption e),
          lastEnergyBalanceUpdate := now\<rparr>
      else e)"

definition idealConsumption :: "(nat \<Rightarrow> real) \<Rightarrow> real \<Rightarrow> ideal_storage \<Rightarrow> ideal_storage result" where
  "idealConsumption watts now e = Inr (newConsumption watts (updateEnergyBalance now e))"

definition idealGeneration :: "(nat \<Rightarrow> real) \<Rightarrow> real \<Rightarrow> ideal_storage \<Rightarrow> ideal_storage result" where
  "idealGeneration watts now e = Inr (newGeneration watts (updateEnergyBalance now e))"

section \<open>The battery\<close>

record cc_storage_base = energy_base +
  totalCurrentConsumption :: real
  totalCurrentGeneration :: real

definition computeTotalCurrentConsumption :: "(nat \<Rightarrow> real) \<Rightarrow> 'a cc_storage_base_scheme \<Rightarrow> real" where
  "computeTotalCurrentConsumption amperes e = foldl (\<lambda>sum c. sum + amperes c) 0 (energyConsumers e)"

definition computeTotalCurrentGeneration :: "(nat \<Rightarrow> real) \<Rightarrow> 'a cc_storage_base_scheme \<Rightarrow> real" where
  "computeTotalCurrentGeneration amperes e = foldl (\<lambda>sum g. sum + amperes g) 0 (energyGenerators e)"

record cc_battery = cc_storage_base +
  nominalCharge :: real
  nominalVoltage :: real
  internalResistance :: real
  residualCharge :: real
  lastResidualChargeUpdate :: real
  batteryNode :: "node_state option"

definition cc_executeNodeOperation :: "real \<Rightarrow> cc_battery \<Rightarrow> cc_battery result" where
  "cc_executeNodeOperation newResidualCapacity e =
     (case batteryNode e of
        None \<Rightarrow> Inl NullPointer
      | Some st \<Rightarrow>
          if st = UP \<and> newResidualCapacity \<le> 0 then
            rbind (initiateOperation (status_only 1) (prover_operation ModuleCrashOperation) False st)
              (\<lambda>(d, invoked, p, st'). Inr (e\<lparr>batteryNode := Some st'\<rparr>))
          else Inr e)"

definition cc_setResidualCapacity :: "real \<Rightarrow> real \<Rightarrow> cc_battery \<Rightarrow> cc_battery result" where
  "cc_setResidualCapacity now newResidualCapacity e =
     (let e' = e\<lparr>residualCharge := newResidualCapacity, lastResidualChargeUpdate := now\<rparr> in
      if batteryNode e' \<noteq> None then cc_executeNodeOperation newResidualCapacity e' else Inr e')"

definition cc_updateResidualCapacity :: "real \<Rightarrow> cc_battery \<Rightarrow> cc_battery result" where
  "cc_updateResidualCapacity now e =
     (if now \<noteq> lastResidualChargeUpdate e then
        let new = residualCharge e +
              (now - lastResidualChargeUpdate e) * (totalCurrentGeneration e - totalCurrentConsumption e)
        in cc_setResidualCapacity now (if new < 0 then 0 else if new > nominalCharge e then nominalCharge e else new) e
      else Inr e)"

definition updateTotalCurrentConsumption :: "(nat \<Rightarrow> real) \<Rightarrow> real \<Rightarrow> cc_battery \<Rightarrow> cc_battery result" where
  "updateTotalCurrentConsumption amperes now e =
     rbind (cc_updateResidualCapacity now e) (\<lambda>e'.
     Inr (e'\<lparr>totalCurrentConsumption := computeTotalCurrentConsumption amperes e'\<rparr>))"

definition updateTotalCurrentGeneration :: "(nat \<Rightarrow> real) \<Rightarrow> real \<Rightarrow> cc_battery \<Rightarrow> cc_battery result" where
  "updateTotalCurrentGeneration amperes now e =
     rbind (cc_updateResidualCapacity now e) (\<lambda>e'.
     Inr (e'\<lparr>totalCurrentGeneration := computeTotalCurrentGeneration amperes e'\<rparr>))"

text \<open>Unlike the energy storage, the battery is not brought up to date when it is read.\<close>

definition getResidualChargeCapacity :: "cc_battery \<Rightarrow> real" where
  "getResidualChargeCapacity e = residualCharge e"

definition getOutputVoltage :: "cc_battery \<Rightarrow> real" where
  "getOutputVoltage e = nominalVoltage e + (totalCurrentGeneration e - totalCurrentConsumption e) * internalResistance e"

definition cc_initialize ::
  "(nat \<Rightarrow> real) \<Rightarrow> real \<Rightarrow> real \<Rightarrow> real \<Rightarrow> real \<Rightarrow> node_state option \<Rightarrow> real \<Rightarrow> nat list \<Rightarrow> nat list \<Rightarrow> cc_battery result" where
  "cc_initialize amperes nominal initial voltage resistance st now consumers generators =
     (let e = \<lparr>energyConsumers = consumers, energyGenerators = generators, totalCurrentConsumption = 0,
               totalCurrentGeneration = 0, nominalCharge = nominal, nominalVoltage = voltage,
               internalResistance = resistance, residualCharge = 0, lastResidualChargeUpdate = -1, batteryNode = st\<rparr>;
          e1 = e\<lparr>totalCurrentConsumption := computeTotalCurrentConsumption amperes e\<rparr>;
          e2 = e1\<lparr>totalCurrentGeneration := computeTotalCurrentGeneration amperes e1\<rparr>
      in cc_setResidualCapacity now initial e2)"

text \<open>What the battery does, and that it is another \<open>integrator\<close>.\<close>

definition cc_put :: "real \<Rightarrow> real \<Rightarrow> cc_battery \<Rightarrow> cc_battery" where
  "cc_put now r e = e\<lparr>residualCharge := r, lastResidualChargeUpdate := now,
     batteryNode := if r \<le> 0 \<and> batteryNode e = Some UP then Some DOWN else batteryNode e\<rparr>"

abbreviation net_current :: "'a cc_storage_base_scheme \<Rightarrow> real" where
  "net_current e \<equiv> totalCurrentGeneration e - totalCurrentConsumption e"

definition cc_refresh :: "real \<Rightarrow> cc_battery \<Rightarrow> cc_battery" where
  "cc_refresh now e =
     (if now \<noteq> lastResidualChargeUpdate e
      then cc_put now (clamp (nominalCharge e) (residualCharge e + (now - lastResidualChargeUpdate e) * net_current e)) e
      else e)"

lemma cc_setResidualCapacity_eq: "cc_setResidualCapacity now r e = Inr (cc_put now r e)"
proof -
  obtain p' where "initiateOperation (status_only 1) (prover_operation ModuleCrashOperation) False UP =
      Inr (True, False, p', DOWN)"
    using initiate_status_only [of "prover_operation ModuleCrashOperation" 1 False]
    by (auto simp: prover_operation_def prover_node_def)
  then show ?thesis
    by (auto simp: cc_setResidualCapacity_def cc_executeNodeOperation_def cc_put_def Let_def split: option.split)
qed

lemma cc_updateResidualCapacity_eq: "cc_updateResidualCapacity now e = Inr (cc_refresh now e)"
  by (simp add: cc_updateResidualCapacity_def cc_refresh_def cc_setResidualCapacity_eq clamp_def Let_def)

interpretation cc: integrator residualCharge nominalCharge net_current lastResidualChargeUpdate cc_refresh
  by unfold_locales (simp_all add: cc_refresh_def cc_put_def)

datatype battery_op = ConsumptionChanges | GenerationChanges

text \<open>What happens to a battery: the currents of its consumers or generators change, at some time.\<close>

fun battery_run :: "(real \<times> battery_op \<times> (nat \<Rightarrow> real)) list \<Rightarrow> cc_battery \<Rightarrow> cc_battery result" where
  "battery_run [] e = Inr e"
| "battery_run ((now, ConsumptionChanges, amperes) # xs) e = rbind (updateTotalCurrentConsumption amperes now e) (battery_run xs)"
| "battery_run ((now, GenerationChanges, amperes) # xs) e = rbind (updateTotalCurrentGeneration amperes now e) (battery_run xs)"

definition battery_ok :: "cc_battery \<Rightarrow> bool" where
  "battery_ok e \<longleftrightarrow> cc.filled e \<and> (batteryNode e = Some UP \<longrightarrow> 0 < residualCharge e)"

lemma battery_ok_refresh: "battery_ok e \<Longrightarrow> battery_ok (cc_refresh now e)"
  using cc.filled_advance [of e now] by (auto simp: battery_ok_def) (auto simp: cc_refresh_def cc_put_def split: if_splits)

lemma battery_ok_total [simp]:
  "battery_ok (e\<lparr>totalCurrentConsumption := w\<rparr>) = battery_ok e" "battery_ok (e\<lparr>totalCurrentGeneration := w\<rparr>) = battery_ok e"
  by (simp_all add: battery_ok_def cc.filled_def)

text \<open>
  A battery that starts with a charge between 0 and its nominal capacity handles every
  sequence of changes of the currents without a fault, keeps its charge in this range, and
  leaves no node up on an empty battery.
\<close>
theorem battery_charge_in_range:
  assumes "cc_initialize amperes nominal initial voltage resistance st now cs gs = Inr e" and "0 \<le> initial" and "initial \<le> nominal"
  shows "\<exists>e'. battery_run xs e = Inr e' \<and> 0 \<le> residualCharge e' \<and> residualCharge e' \<le> nominalCharge e' \<and>
    (batteryNode e' = Some UP \<longrightarrow> 0 < residualCharge e')"
proof -
  have "battery_ok e"
    using assms by (auto simp: cc_initialize_def cc_setResidualCapacity_eq battery_ok_def cc.filled_def Let_def)
      (auto simp: cc_put_def split: if_splits)
  then have "\<exists>e'. battery_run xs e = Inr e' \<and> battery_ok e'"
    by (induction xs e rule: battery_run.induct)
       (auto simp: updateTotalCurrentConsumption_def updateTotalCurrentGeneration_def cc_updateResidualCapacity_eq battery_ok_refresh)
  then show ?thesis by (auto simp: battery_ok_def cc.filled_def)
qed

definition demo_battery_cc :: cc_battery where
  "demo_battery_cc = \<lparr>energyConsumers = [0], energyGenerators = [], totalCurrentConsumption = 1, totalCurrentGeneration = 0,
     nominalCharge = 10, nominalVoltage = 12, internalResistance = 2, residualCharge = 4, lastResidualChargeUpdate = 0,
     batteryNode = Some UP\<rparr>"

theorem battery_charge_in_range_witness:
  "\<exists>e e'. cc_initialize (\<lambda>_. 1) 10 4 12 2 (Some UP) 0 [0] [] = Inr e \<and>
     battery_run [(3, ConsumptionChanges, \<lambda>_. 2), (9, GenerationChanges, \<lambda>_. 0)] e = Inr e' \<and>
     0 \<le> residualCharge e' \<and> residualCharge e' \<le> nominalCharge e'"
proof -
  have e: "cc_initialize (\<lambda>_. 1) 10 4 12 2 (Some UP) 0 [0] [] = Inr demo_battery_cc"
    by (simp add: cc_initialize_def cc_setResidualCapacity_eq cc_put_def demo_battery_cc_def
        computeTotalCurrentConsumption_def computeTotalCurrentGeneration_def)
  from battery_charge_in_range [OF e, of "[(3, ConsumptionChanges, \<lambda>_. 2), (9, GenerationChanges, \<lambda>_. 0)]"] e show ?thesis by auto
qed

text \<open>
  The battery notices that it is empty only when a current changes: under a constant net
  consumption its reading stays the old one and the node stays up, however long ago the
  charge was used up; the next change finds the battery empty and crashes the node exactly
  when the charge was used up by then. The module description promises the crash when
  the charge reaches zero.
\<close>
theorem battery_crash_at_change:
  assumes "battery_ok e" and "batteryNode e = Some UP" and "net_current e < 0" and "lastResidualChargeUpdate e \<le> t"
  shows "\<exists>e'. updateTotalCurrentConsumption amperes t e = Inr e' \<and> getResidualChargeCapacity e > 0 \<and>
    (if lastResidualChargeUpdate e + getResidualChargeCapacity e / (- net_current e) \<le> t
     then getResidualChargeCapacity e' = 0 \<and> batteryNode e' = Some DOWN
     else getResidualChargeCapacity e' > 0 \<and> batteryNode e' = Some UP)"
proof -
  have f: "cc.filled e" "0 < residualCharge e" using assms(1,2) by (auto simp: battery_ok_def)
  let ?f = "cc.forecast e t"
  have r: "residualCharge (cc_refresh t e) = ?f" using cc.level_advance [OF f(1)] .
  have node: "batteryNode (cc_refresh t e) = (if ?f \<le> 0 then Some DOWN else Some UP)"
    using assms(2) f(2) cc.forecast_now [OF f(1)]
    by (cases "t = lastResidualChargeUpdate e") (auto simp: cc_refresh_def cc_put_def cc.forecast_def)
  have up: "updateTotalCurrentConsumption amperes t e =
      Inr ((cc_refresh t e)\<lparr>totalCurrentConsumption := computeTotalCurrentConsumption amperes (cc_refresh t e)\<rparr>)"
    by (simp add: updateTotalCurrentConsumption_def cc_updateResidualCapacity_eq)
  have "0 \<le> ?f" using cc.filled_advance [OF f(1), of t] r by (simp add: cc.filled_def)
  moreover have "0 \<le> nominalCharge e" using f by (simp add: cc.filled_def)
  ultimately have "?f \<le> 0 \<longleftrightarrow> lastResidualChargeUpdate e + residualCharge e / (- net_current e) \<le> t"
    using cc.forecast_above [OF f(1) _ f(2) assms(4)] cc.forecast_reaches [OF f(1), of 0 t] assms(3)
    unfolding divide_minus_right by auto
  with up r node f(2) \<open>0 \<le> ?f\<close> show ?thesis by (auto simp: getResidualChargeCapacity_def)
qed

theorem battery_crash_at_change_witness:
  "\<exists>e'. updateTotalCurrentConsumption (\<lambda>_. 1) 100 demo_battery_cc = Inr e' \<and> getResidualChargeCapacity demo_battery_cc = 4 \<and>
     batteryNode demo_battery_cc = Some UP \<and> getResidualChargeCapacity e' = 0 \<and> batteryNode e' = Some DOWN"
proof -
  have "battery_ok demo_battery_cc" by (simp add: battery_ok_def cc.filled_def demo_battery_cc_def)
  from battery_crash_at_change [OF this, of 100 "\<lambda>_. 1"] show ?thesis
    by (auto simp: demo_battery_cc_def getResidualChargeCapacity_def)
qed

section \<open>Alternating consumers and generators\<close>

text \<open>The power and the two intervals are the values of the volatile parameters at this time.\<close>

record alternating =
  isSleeping :: bool
  devicePower :: real
  deviceTimer :: real

record drawn =
  drawnPower :: real
  sleepInterval :: real
  workInterval :: real

definition updateDevicePower :: "drawn \<Rightarrow> alternating \<Rightarrow> alternating" where
  "updateDevicePower v d = d\<lparr>devicePower := (if isSleeping d then 0 else drawnPower v)\<rparr>"

definition scheduleIntervalTimer :: "drawn \<Rightarrow> real \<Rightarrow> alternating \<Rightarrow> alternating result" where
  "scheduleIntervalTimer v now d =
     (let interval = (if isSleeping d then sleepInterval v else workInterval v) in
      if interval < 0 then Inl (RuntimeError ''Cannot schedule message into the past'')
      else Inr (d\<lparr>deviceTimer := now + interval\<rparr>))"

definition alternating_initialize :: "drawn \<Rightarrow> alternating result" where
  "alternating_initialize v =
     scheduleIntervalTimer v 0 (updateDevicePower v \<lparr>isSleeping = False, devicePower = 0, deviceTimer = 0\<rparr>)"

text \<open>
  Consumers and generators with numbers that belong to one storage. The timer of a device
  changes its power and signals it to the storage, which asks all of its devices.
\<close>

record grid =
  consumers :: "nat \<Rightarrow> alternating"
  generators :: "nat \<Rightarrow> alternating"
  store :: ideal_storage

definition consumerTimer :: "drawn \<Rightarrow> real \<Rightarrow> nat \<Rightarrow> grid \<Rightarrow> grid result" where
  "consumerTimer v now i g =
     (let d = consumers g i;
          d1 = updateDevicePower v (d\<lparr>isSleeping := \<not> isSleeping d\<rparr>)
      in rbind (idealConsumption (\<lambda>j. devicePower (((consumers g)(i := d1)) j)) now (store g)) (\<lambda>e.
         rbind (scheduleIntervalTimer v now d1) (\<lambda>d2.
         Inr (g\<lparr>consumers := (consumers g)(i := d2), store := e\<rparr>))))"

definition generatorTimer :: "drawn \<Rightarrow> real \<Rightarrow> nat \<Rightarrow> grid \<Rightarrow> grid result" where
  "generatorTimer v now i g =
     (let d = generators g i;
          d1 = updateDevicePower v (d\<lparr>isSleeping := \<not> isSleeping d\<rparr>)
      in rbind (idealGeneration (\<lambda>j. devicePower (((generators g)(i := d1)) j)) now (store g)) (\<lambda>e.
         rbind (scheduleIntervalTimer v now d1) (\<lambda>d2.
         Inr (g\<lparr>generators := (generators g)(i := d2), store := e\<rparr>))))"

text \<open>The devices register at the storage when all of them are initialised (\<open>INITSTAGE_POWER\<close>).\<close>

definition register :: "(nat \<Rightarrow> real) \<Rightarrow> (nat \<Rightarrow> real) \<Rightarrow> nat list \<Rightarrow> nat list \<Rightarrow> ideal_storage \<Rightarrow> ideal_storage result" where
  "register used made cs gs e =
     foldl (\<lambda>r g. rbind r (sinkAdd (idealGeneration made 0) g))
       (foldl (\<lambda>r c. rbind r (sourceAdd (idealConsumption used 0) c)) (Inr e) cs) gs"

datatype device = Consumer nat | Generator nat

fun grid_run :: "(real \<times> device \<times> drawn) list \<Rightarrow> grid \<Rightarrow> grid result" where
  "grid_run [] g = Inr g"
| "grid_run ((now, Consumer i, v) # xs) g = rbind (consumerTimer v now i g) (grid_run xs)"
| "grid_run ((now, Generator i, v) # xs) g = rbind (generatorTimer v now i g) (grid_run xs)"

section \<open>The balance is the sum of the meters\<close>

text \<open>
  A meter of one device: the energy from a time on, from its power and whether it sleeps then,
  the times of its timer with the power it draws, up to a last time.
\<close>

fun meter :: "real \<Rightarrow> bool \<Rightarrow> real \<Rightarrow> (real \<times> real) list \<Rightarrow> real \<Rightarrow> real" where
  "meter p asleep since [] until = p * (until - since)"
| "meter p asleep since ((t, w) # xs) until =
     p * (t - since) + meter (if asleep then w else 0) (\<not> asleep) t xs until"

definition times_of :: "device \<Rightarrow> (real \<times> device \<times> drawn) list \<Rightarrow> (real \<times> real) list" where
  "times_of x xs = map (\<lambda>(t, _, v). (t, drawnPower v)) (filter (\<lambda>(_, y, _). y = x) xs)"

definition metered :: "device \<Rightarrow> alternating \<Rightarrow> real \<Rightarrow> (real \<times> device \<times> drawn) list \<Rightarrow> real \<Rightarrow> real" where
  "metered x d since xs until = meter (devicePower d) (isSleeping d) since (times_of x xs) until"

lemma meter_later: "meter p s t xs u = p * (t' - t) + meter p s t' xs u"
  by (cases xs) (auto simp: algebra_simps)

lemma times_of_simps [simp]:
  "times_of x [] = []"
  "times_of x ((t, y, v) # xs) = (if y = x then (t, drawnPower v) # times_of x xs else times_of x xs)"
  by (simp_all add: times_of_def)

lemma metered_later: "metered x d t xs u = devicePower d * (t' - t) + metered x d t' xs u"
  unfolding metered_def by (rule meter_later)

lemma metered_other: "y \<noteq> x \<Longrightarrow> metered x d t ((t', y, v) # xs) u = metered x d t xs u"
  by (simp add: metered_def)

lemma metered_toggle:
  assumes "updateDevicePower v (d\<lparr>isSleeping := \<not> isSleeping d\<rparr>) = d1" and "scheduleIntervalTimer v t' d1 = Inr d2"
  shows "metered x d t ((t', x, v) # xs) u = devicePower d * (t' - t) + metered x d2 t' xs u"
proof -
  have "devicePower d2 = devicePower d1" "isSleeping d2 = isSleeping d1"
    using assms(2) by (auto simp: scheduleIntervalTimer_def Let_def split: if_splits)
  with assms(1) show ?thesis by (auto simp: metered_def updateDevicePower_def)
qed

text \<open>The storage knows the devices below \<open>m\<close> and \<open>n\<close>, and their powers.\<close>

definition connected_grid :: "nat \<Rightarrow> nat \<Rightarrow> grid \<Rightarrow> bool" where
  "connected_grid m n g \<longleftrightarrow> energyConsumers (store g) = [0..<m] \<and> energyGenerators (store g) = [0..<n] \<and>
     totalPowerConsumption (store g) = (\<Sum>i<m. devicePower (consumers g i)) \<and>
     totalPowerGeneration (store g) = (\<Sum>i<n. devicePower (generators g i))"

lemma foldl_sum: "foldl (\<lambda>sum c. sum + f c) a [0..<m] = a + (\<Sum>i<m. f i :: real)"
  by (induction m) simp_all

lemma computed_totals:
  "energyConsumers e = [0..<m] \<Longrightarrow> computeTotalPowerConsumption watts e = (\<Sum>i<m. watts i)"
  "energyGenerators e = [0..<m] \<Longrightarrow> computeTotalPowerGeneration watts e = (\<Sum>i<m. watts i)"
  by (simp_all add: computeTotalPowerConsumption_def computeTotalPowerGeneration_def foldl_sum)

lemma updateEnergyBalance_frame [simp]:
  "energyConsumers (updateEnergyBalance t e) = energyConsumers e"
  "energyGenerators (updateEnergyBalance t e) = energyGenerators e"
  "totalPowerConsumption (updateEnergyBalance t e) = totalPowerConsumption e"
  "totalPowerGeneration (updateEnergyBalance t e) = totalPowerGeneration e"
  "lastEnergyBalanceUpdate (updateEnergyBalance t e) = t"
  "energyBalance (updateEnergyBalance t e) = energyBalance e +
     (t - lastEnergyBalanceUpdate e) * (totalPowerGeneration e - totalPowerConsumption e)"
  by (simp_all add: updateEnergyBalance_def)

definition account :: "nat \<Rightarrow> nat \<Rightarrow> grid \<Rightarrow> real \<Rightarrow> (real \<times> device \<times> drawn) list \<Rightarrow> real \<Rightarrow> real" where
  "account m n g since xs until =
     (\<Sum>i<n. metered (Generator i) (generators g i) since xs until) - (\<Sum>i<m. metered (Consumer i) (consumers g i) since xs until)"

lemma sum_metered_step:
  assumes "\<And>i. i < n \<Longrightarrow> metered (x i) (d i) t ev u = devicePower (d i) * (t' - t) + metered (x i) (d' i) t' xs u"
  shows "(\<Sum>i<n. metered (x i) (d i) t ev u) = (\<Sum>i<n. devicePower (d i)) * (t' - t) + (\<Sum>i<n. metered (x i) (d' i) t' xs u)"
  using assms by (simp add: sum.distrib sum_distrib_right)

lemma consumer_step:
  assumes g: "connected_grid m n g" and run: "consumerTimer v t i g = Inr g'" and i: "i < m"
  shows "connected_grid m n g' \<and> lastEnergyBalanceUpdate (store g') = t \<and>
    energyBalance (store g) + account m n g (lastEnergyBalanceUpdate (store g)) ((t, Consumer i, v) # xs) u =
    energyBalance (store g') + account m n g' t xs u"
proof -
  let ?d = "consumers g i" let ?L = "lastEnergyBalanceUpdate (store g)"
  define d1 where d1: "d1 = updateDevicePower v (?d\<lparr>isSleeping := \<not> isSleeping ?d\<rparr>)"
  from run obtain d2 where d2: "scheduleIntervalTimer v t d1 = Inr d2"
    and g': "g' = g\<lparr>consumers := (consumers g)(i := d2),
      store := newConsumption (\<lambda>j. devicePower (((consumers g)(i := d1)) j)) (updateEnergyBalance t (store g))\<rparr>"
    by (auto simp: consumerTimer_def idealConsumption_def Let_def rbind_eq_Inr d1)
  have pw: "devicePower d2 = devicePower d1" using d2 by (auto simp: scheduleIntervalTimer_def Let_def split: if_splits)
  then have same: "devicePower (((consumers g)(i := d1)) j) = devicePower (consumers g' j)" for j using g' by simp
  have "(\<Sum>j<m. metered (Consumer j) (consumers g j) ?L ((t, Consumer i, v) # xs) u) =
      (\<Sum>j<m. devicePower (consumers g j)) * (t - ?L) + (\<Sum>j<m. metered (Consumer j) (consumers g' j) t xs u)"
    using metered_toggle [OF d1 [symmetric] d2] g' metered_later
    by (intro sum_metered_step) (auto simp: metered_other)
  moreover have "(\<Sum>j<n. metered (Generator j) (generators g j) ?L ((t, Consumer i, v) # xs) u) =
      (\<Sum>j<n. devicePower (generators g j)) * (t - ?L) + (\<Sum>j<n. metered (Generator j) (generators g' j) t xs u)"
    using g' metered_later by (intro sum_metered_step) (simp add: metered_other)
  ultimately show ?thesis
    using g g' same by (simp add: connected_grid_def account_def newConsumption_def computed_totals algebra_simps)
qed

lemma generator_step:
  assumes g: "connected_grid m n g" and run: "generatorTimer v t i g = Inr g'" and i: "i < n"
  shows "connected_grid m n g' \<and> lastEnergyBalanceUpdate (store g') = t \<and>
    energyBalance (store g) + account m n g (lastEnergyBalanceUpdate (store g)) ((t, Generator i, v) # xs) u =
    energyBalance (store g') + account m n g' t xs u"
proof -
  let ?d = "generators g i" let ?L = "lastEnergyBalanceUpdate (store g)"
  define d1 where d1: "d1 = updateDevicePower v (?d\<lparr>isSleeping := \<not> isSleeping ?d\<rparr>)"
  from run obtain d2 where d2: "scheduleIntervalTimer v t d1 = Inr d2"
    and g': "g' = g\<lparr>generators := (generators g)(i := d2),
      store := newGeneration (\<lambda>j. devicePower (((generators g)(i := d1)) j)) (updateEnergyBalance t (store g))\<rparr>"
    by (auto simp: generatorTimer_def idealGeneration_def Let_def rbind_eq_Inr d1)
  have pw: "devicePower d2 = devicePower d1" using d2 by (auto simp: scheduleIntervalTimer_def Let_def split: if_splits)
  then have same: "devicePower (((generators g)(i := d1)) j) = devicePower (generators g' j)" for j using g' by simp
  have "(\<Sum>j<n. metered (Generator j) (generators g j) ?L ((t, Generator i, v) # xs) u) =
      (\<Sum>j<n. devicePower (generators g j)) * (t - ?L) + (\<Sum>j<n. metered (Generator j) (generators g' j) t xs u)"
    using metered_toggle [OF d1 [symmetric] d2] g' metered_later
    by (intro sum_metered_step) (auto simp: metered_other)
  moreover have "(\<Sum>j<m. metered (Consumer j) (consumers g j) ?L ((t, Generator i, v) # xs) u) =
      (\<Sum>j<m. devicePower (consumers g j)) * (t - ?L) + (\<Sum>j<m. metered (Consumer j) (consumers g' j) t xs u)"
    using g' metered_later by (intro sum_metered_step) (simp add: metered_other)
  ultimately show ?thesis
    using g g' same by (simp add: connected_grid_def account_def newGeneration_def computed_totals algebra_simps)
qed

definition known_device :: "nat \<Rightarrow> nat \<Rightarrow> device \<Rightarrow> bool" where
  "known_device m n x = (case x of Consumer i \<Rightarrow> i < m | Generator i \<Rightarrow> i < n)"

lemma run_accounts:
  "connected_grid m n g \<Longrightarrow> grid_run xs g = Inr g' \<Longrightarrow> \<forall>(t, x, v) \<in> set xs. known_device m n x \<Longrightarrow>
   energyBalance (store g) + account m n g (lastEnergyBalanceUpdate (store g)) xs u =
   energyBalance (updateEnergyBalance u (store g'))"
proof (induction xs g rule: grid_run.induct)
  case (1 g)
  then show ?case
    by (simp add: connected_grid_def account_def metered_def algebra_simps sum_distrib_left sum_distrib_right sum_subtractf)
next
  case (2 now i v xs g)
  then obtain g1 where g1: "consumerTimer v now i g = Inr g1" "grid_run xs g1 = Inr g'" by (auto simp: rbind_eq_Inr)
  have "i < m" using 2(4) by (simp add: known_device_def)
  from consumer_step [OF 2(2) g1(1) this, of xs u] 2(1) [OF _ g1(2)] 2(4) show ?case by simp
next
  case (3 now i v xs g)
  then obtain g1 where g1: "generatorTimer v now i g = Inr g1" "grid_run xs g1 = Inr g'" by (auto simp: rbind_eq_Inr)
  have "i < n" using 3(4) by (simp add: known_device_def)
  from generator_step [OF 3(2) g1(1) this, of xs u] 3(1) [OF _ g1(2)] 3(4) show ?case by simp
qed

text \<open>Registration at time 0.\<close>

lemma register_consumers:
  "energyConsumers e = [] \<Longrightarrow> lastEnergyBalanceUpdate e = 0 \<Longrightarrow> totalPowerConsumption e = 0 \<Longrightarrow>
   foldl (\<lambda>r c. rbind r (sourceAdd (idealConsumption used 0) c)) (Inr e) [0..<m] =
   Inr (e\<lparr>energyConsumers := [0..<m], totalPowerConsumption := (\<Sum>i<m. used i)\<rparr>)"
  by (induction m) (simp_all add: sourceAdd_def idealConsumption_def updateEnergyBalance_def newConsumption_def
      computeTotalPowerConsumption_def foldl_sum)

lemma register_generators:
  "energyGenerators e = [] \<Longrightarrow> lastEnergyBalanceUpdate e = 0 \<Longrightarrow> totalPowerGeneration e = 0 \<Longrightarrow>
   foldl (\<lambda>r c. rbind r (sinkAdd (idealGeneration made 0) c)) (Inr e) [0..<m] =
   Inr (e\<lparr>energyGenerators := [0..<m], totalPowerGeneration := (\<Sum>i<m. made i)\<rparr>)"
  by (induction m) (simp_all add: sinkAdd_def idealGeneration_def updateEnergyBalance_def newGeneration_def
      computeTotalPowerGeneration_def foldl_sum)

lemma register_connected:
  assumes "register (\<lambda>i. devicePower (c i)) (\<lambda>i. devicePower (p i)) [0..<m] [0..<n] (ideal_initialize watts [] []) = Inr e"
  shows "connected_grid m n \<lparr>consumers = c, generators = p, store = e\<rparr> \<and> lastEnergyBalanceUpdate e = 0 \<and> energyBalance e = 0"
  using assms by (auto simp: register_def ideal_initialize_def newConsumption_def newGeneration_def
      computeTotalPowerConsumption_def computeTotalPowerGeneration_def register_consumers register_generators connected_grid_def)

text \<open>
  The balance of the ideal storage is exact: after any sequence of timer events of any number
  of alternating consumers and generators, brought up to date at any time, it is the energy
  the meters of the single generators count minus that of the consumers. No order of
  the events and no coincidence of signals loses or doubles a phase.
\<close>
theorem balance_is_metered:
  assumes "\<forall>i < m. alternating_initialize (vc i) = Inr (c i)" and "\<forall>i < n. alternating_initialize (vg i) = Inr (p i)"
    and "register (\<lambda>i. devicePower (c i)) (\<lambda>i. devicePower (p i)) [0..<m] [0..<n] (ideal_initialize watts [] []) = Inr e"
    and "grid_run xs \<lparr>consumers = c, generators = p, store = e\<rparr> = Inr g"
    and "\<forall>(t, x, v) \<in> set xs. known_device m n x"
  shows "energyBalance (updateEnergyBalance until (store g)) =
    (\<Sum>i<n. meter (drawnPower (vg i)) False 0 (times_of (Generator i) xs) until) -
    (\<Sum>i<m. meter (drawnPower (vc i)) False 0 (times_of (Consumer i) xs) until)"
proof -
  have init: "devicePower d = drawnPower v \<and> \<not> isSleeping d" if "alternating_initialize v = Inr d" for v d
    using that by (auto simp: alternating_initialize_def updateDevicePower_def scheduleIntervalTimer_def Let_def split: if_splits)
  have met: "metered x d 0 xs until = meter (drawnPower v) False 0 (times_of x xs) until"
    if "alternating_initialize v = Inr d" for x v d
    using init [OF that] by (simp add: metered_def)
  have "(\<Sum>i<n. metered (Generator i) (p i) 0 xs until) = (\<Sum>i<n. meter (drawnPower (vg i)) False 0 (times_of (Generator i) xs) until)"
    "(\<Sum>i<m. metered (Consumer i) (c i) 0 xs until) = (\<Sum>i<m. meter (drawnPower (vc i)) False 0 (times_of (Consumer i) xs) until)"
    using assms(1,2) by (auto intro!: sum.cong met)
  then show ?thesis
    using run_accounts [of m n "\<lparr>consumers = c, generators = p, store = e\<rparr>" xs g until] register_connected [OF assms(3)] assms(4,5)
    by (simp add: account_def)
qed

text \<open>A consumer of 5 W that works for 2 s and sleeps for 1 s, and a generator of 3 W.\<close>

theorem balance_is_metered_witness:
  "\<exists>e g. register (\<lambda>_. 5) (\<lambda>_. 3) [0..<1] [0..<1] (ideal_initialize (\<lambda>_. 0) [] []) = Inr e \<and>
     grid_run [(2, Consumer 0, \<lparr>drawnPower = 5, sleepInterval = 1, workInterval = 2\<rparr>)]
       \<lparr>consumers = (\<lambda>_. \<lparr>isSleeping = False, devicePower = 5, deviceTimer = 2\<rparr>),
        generators = (\<lambda>_. \<lparr>isSleeping = False, devicePower = 3, deviceTimer = 9\<rparr>), store = e\<rparr> = Inr g \<and>
     energyBalance (updateEnergyBalance 3 (store g)) = -1"
proof -
  let ?c = "\<lambda>_. \<lparr>isSleeping = False, devicePower = 5, deviceTimer = 2\<rparr>"
    and ?p = "\<lambda>_. \<lparr>isSleeping = False, devicePower = 3, deviceTimer = 9\<rparr>"
  let ?v = "\<lparr>drawnPower = 5, sleepInterval = 1, workInterval = 2\<rparr>" and ?w = "\<lparr>drawnPower = 3, sleepInterval = 1, workInterval = 9\<rparr>"
  let ?xs = "[(2, Consumer 0, ?v)]"
  obtain e where e: "register (\<lambda>i. devicePower (?c i)) (\<lambda>i. devicePower (?p i)) [0..<1] [0..<1] (ideal_initialize (\<lambda>_. 0) [] []) = Inr e"
    by (simp add: register_def sourceAdd_def sinkAdd_def idealConsumption_def idealGeneration_def)
  obtain g where g: "grid_run ?xs \<lparr>consumers = ?c, generators = ?p, store = e\<rparr> = Inr g"
    by (simp add: consumerTimer_def idealConsumption_def updateDevicePower_def scheduleIntervalTimer_def Let_def)
  have "energyBalance (updateEnergyBalance 3 (store g)) =
      (\<Sum>i<1. meter (drawnPower ?w) False 0 (times_of (Generator i) ?xs) 3) - (\<Sum>i<1. meter (drawnPower ?v) False 0 (times_of (Consumer i) ?xs) 3)"
    by (rule balance_is_metered [OF _ _ e g])
       (simp_all add: alternating_initialize_def updateDevicePower_def scheduleIntervalTimer_def known_device_def)
  with e g show ?thesis by simp
qed

end
