(* ===== verification/Mobility_Paths.thy ===== *)
theory Mobility_Paths
  imports Mobility "HOL-Library.While_Combinator" "HOL-Library.Signed_Division"
begin

text \<open>
  Three deterministic mobility models of INET: \<open>LinearMobility\<close> (a straight line that is reflected
  at the walls), \<open>RectangleMobility\<close> (around the border of the area) and \<open>TractorMobility\<close> (row by
  row over a field), each with the path in closed form that its steps follow. The direction of the
  linear model, which the code computes with a quaternion from two angles, is an argument.
\<close>

section \<open>LinearMobility\<close>

definition linear_initialize :: "coord \<Rightarrow> coord \<Rightarrow> real \<Rightarrow> real \<Rightarrow> coord \<Rightarrow> coord \<Rightarrow> moving" where
  "linear_initialize lo hi interval sp direction position =
     \<lparr>constraintAreaMin = lo, constraintAreaMax = hi, lastPosition = position, updateInterval = interval,
      stationary = (sp = 0), lastVelocity = Some (coord_mult direction sp), lastUpdate = 0, nextChange = -1, moveTimer = None\<rparr>"

text \<open>\<open>handleIfOutside(REFLECT, dummyCoord, lastVelocity)\<close>: no target, no heading.\<close>

definition reflectVelocity :: "coord \<Rightarrow> 'a moving_scheme \<Rightarrow> 'a moving_scheme result" where
  "reflectVelocity v s =
     rbind (handleIfOutside REFLECT \<lparr>uniform = (\<lambda>_ a _. a), speed = 0, waitTime = 0\<rparr> s
         \<lparr>m_target = coord_ZERO, m_velocity = v, m_heading = 0, m_elevation = 0, m_quaternion = None\<rparr>)
       (\<lambda>(s', m). Inr (s'\<lparr>lastVelocity := Some (m_velocity m)\<rparr>))"

definition linear_move :: "real \<Rightarrow> moving \<Rightarrow> moving result" where
  "linear_move now s =
     (case lastVelocity s of
        None \<Rightarrow> Inl DivisionByZero
      | Some v \<Rightarrow>
          let elapsedTime = now - lastUpdate s
          in reflectVelocity v (s\<lparr>lastPosition := coord_add (lastPosition s) (coord_mult v elapsedTime)\<rparr>))"

text \<open>The updates of a node at given times.\<close>

fun linear_run :: "real list \<Rightarrow> moving \<Rightarrow> moving result" where
  "linear_run [] s = Inr s"
| "linear_run (t # ts) s = rbind (moveAndUpdate (linear_move t) t s) (linear_run ts)"

text \<open>One axis of a reflection: the new coordinate and speed.\<close>

definition axisReflect :: "real \<Rightarrow> real \<Rightarrow> real \<Rightarrow> real \<Rightarrow> real \<times> real" where
  "axisReflect lo hi c v = (if c < lo \<or> hi < c then (case reflect lo hi c v of Inr (_, c', v') \<Rightarrow> (c', v') | Inl _ \<Rightarrow> (c, v)) else (c, v))"

lemma reflect_axis:
  "lo < hi \<Longrightarrow> c < lo \<or> hi < c \<Longrightarrow> \<exists>sg. reflect lo hi c v = Inr (sg, axisReflect lo hi c v)"
  using reflect_inside [of lo hi c v] by (auto simp: axisReflect_def)

lemma reflectX_axis:
  fixes s :: "'a mobility_scheme" and m :: motion
  assumes "cx (constraintAreaMin s) < cx (constraintAreaMax s)"
  defines "a \<equiv> axisReflect (cx (constraintAreaMin s)) (cx (constraintAreaMax s)) (cx (lastPosition s)) (cx (m_velocity m))"
  shows "\<exists>m'. reflectX s m = Inr (s\<lparr>lastPosition := (lastPosition s)\<lparr>cx := fst a\<rparr>\<rparr>, m') \<and> m_velocity m' = (m_velocity m)\<lparr>cx := snd a\<rparr>"
  using reflect_axis [OF assms(1), of "cx (lastPosition s)" "cx (m_velocity m)"] reflect_inside [OF assms(1), of "cx (m_target m)" 0]
  by (cases a; cases "cx (lastPosition s) < cx (constraintAreaMin s) \<or> cx (constraintAreaMax s) < cx (lastPosition s)")
     (auto simp: reflectX_def Let_def a_def axisReflect_def)

lemma reflectY_axis:
  fixes s :: "'a mobility_scheme" and m :: motion
  assumes "cy (constraintAreaMin s) < cy (constraintAreaMax s)"
  defines "a \<equiv> axisReflect (cy (constraintAreaMin s)) (cy (constraintAreaMax s)) (cy (lastPosition s)) (cy (m_velocity m))"
  shows "\<exists>m'. reflectY s m = Inr (s\<lparr>lastPosition := (lastPosition s)\<lparr>cy := fst a\<rparr>\<rparr>, m') \<and> m_velocity m' = (m_velocity m)\<lparr>cy := snd a\<rparr>"
  using reflect_axis [OF assms(1), of "cy (lastPosition s)" "cy (m_velocity m)"] reflect_inside [OF assms(1), of "cy (m_target m)" 0]
  by (cases a; cases "cy (lastPosition s) < cy (constraintAreaMin s) \<or> cy (constraintAreaMax s) < cy (lastPosition s)")
     (auto simp: reflectY_def Let_def a_def axisReflect_def)

lemma reflectZ_axis:
  fixes s :: "'a mobility_scheme" and m :: motion
  assumes "cz (constraintAreaMin s) < cz (constraintAreaMax s)"
  defines "a \<equiv> axisReflect (cz (constraintAreaMin s)) (cz (constraintAreaMax s)) (cz (lastPosition s)) (cz (m_velocity m))"
  shows "\<exists>m'. reflectZ s m = Inr (s\<lparr>lastPosition := (lastPosition s)\<lparr>cz := fst a\<rparr>\<rparr>, m') \<and> m_velocity m' = (m_velocity m)\<lparr>cz := snd a\<rparr>"
  using reflect_axis [OF assms(1), of "cz (lastPosition s)" "cz (m_velocity m)"] reflect_inside [OF assms(1), of "cz (m_target m)" 0]
  by (cases a; cases "cz (lastPosition s) < cz (constraintAreaMin s) \<or> cz (constraintAreaMax s) < cz (lastPosition s)")
     (auto simp: reflectZ_def Let_def a_def axisReflect_def)

text \<open>
  The coordinate \<open>x\<close> and speed \<open>v\<close> of a node that would be at \<open>u\<close> with speed \<open>v0\<close> if there were no
  walls: \<open>k\<close> widths away, mirrored when \<open>k\<close> is odd.
\<close>

definition folded :: "real \<Rightarrow> real \<Rightarrow> real \<Rightarrow> real \<Rightarrow> real \<Rightarrow> real \<Rightarrow> bool" where
  "folded lo hi u v0 x v \<longleftrightarrow> lo \<le> x \<and> x \<le> hi \<and>
     (\<exists>k. if even k then u = x + (hi - lo) * real_of_int k \<and> v = v0
          else u = lo + hi - x + (hi - lo) * real_of_int k \<and> v = - v0)"

text \<open>A coordinate an odd number of widths from the lower wall, where \<open>reflect\<close> goes wrong.\<close>

definition at_odd_wall :: "real \<Rightarrow> real \<Rightarrow> real \<Rightarrow> bool" where
  "at_odd_wall lo hi u \<longleftrightarrow> (\<exists>k. odd k \<and> u = lo + (hi - lo) * real_of_int k)"

lemma folded_fold_back:
  assumes "lo < hi" and "folded lo hi u v0 x v"
  shows "fold_back lo hi u = x"
proof -
  from assms(2) obtain k where x: "lo \<le> x" "x \<le> hi"
    and k: "if even k then u = x + (hi - lo) * real_of_int k else u = lo + hi - x + (hi - lo) * real_of_int k"
    unfolding folded_def by (metis (no_types))
  let ?r = "if even k then x - lo else hi - x"
  show ?thesis
  proof (cases "?r = hi - lo")
    case True
    then have "u = lo + 0 + (hi - lo) * real_of_int (k + 1)" using k by (auto simp: algebra_simps split: if_splits)
    from reflect_parts(2) [OF assms(1) _ _ this] assms(1) True show ?thesis by (auto split: if_splits)
  next
    case False
    then have "0 \<le> ?r" "?r < hi - lo" using x by (auto split: if_splits)
    moreover have "u = lo + ?r + (hi - lo) * real_of_int k" using k by auto
    ultimately show ?thesis using reflect_parts(2) [OF assms(1)] by auto
  qed
qed

lemma folded_move: "folded lo hi u v0 x v \<Longrightarrow> \<exists>k. if even k then u + v0 * d = x + v * d + (hi - lo) * real_of_int k \<and> v = v0
    else u + v0 * d = lo + hi - (x + v * d) + (hi - lo) * real_of_int k \<and> v = - v0"
proof -
  assume "folded lo hi u v0 x v"
  then obtain k where "if even k then u = x + (hi - lo) * real_of_int k \<and> v = v0
    else u = lo + hi - x + (hi - lo) * real_of_int k \<and> v = - v0" by (auto simp: folded_def)
  then show ?thesis by (intro exI [of _ k]) (auto simp: algebra_simps)
qed

text \<open>One step on one axis.\<close>

lemma folded_step:
  assumes l: "lo < hi" and f: "folded lo hi u v0 x v" and free: "\<not> at_odd_wall lo hi (u + v0 * d)"
  shows "folded lo hi (u + v0 * d) v0 (fst (axisReflect lo hi (x + v * d) v)) (snd (axisReflect lo hi (x + v * d) v))"
proof -
  let ?u = "u + v0 * d" let ?c = "x + v * d"
  from folded_move [OF f, of d] obtain k where
    k: "if even k then ?u = ?c + (hi - lo) * real_of_int k \<and> v = v0 else ?u = lo + hi - ?c + (hi - lo) * real_of_int k \<and> v = - v0" ..
  show ?thesis
  proof (cases "?c < lo \<or> hi < ?c")
    case False
    then have a: "axisReflect lo hi ?c v = (?c, v)" by (simp add: axisReflect_def)
    show ?thesis unfolding folded_def a using False k by (intro conjI exI [of _ k]) simp_all
  next
    case True
    obtain j r where r: "0 \<le> r" "r < hi - lo" and c: "?c = lo + r + (hi - lo) * real_of_int j" using width_parts [OF l] .
    have "r \<noteq> 0" if "odd j"
    proof
      assume "r = 0"
      then have "?u = lo + (hi - lo) * real_of_int (if even k then j + k else k + 1 - j)"
        using k c by (auto simp: algebra_simps split: if_splits)
      moreover have "odd (if even k then j + k else k + 1 - j)" using that by simp
      ultimately show False using free unfolding at_odd_wall_def by blast
    qed
    then have a: "axisReflect lo hi ?c v = (if even j then (lo + r, v) else (hi - r, - v))"
      using reflect_parts(1) [OF l r c, of v] True by (simp add: axisReflect_def)
    show ?thesis unfolding folded_def a
      using k c r by (intro conjI exI [of _ "if even k then j + k else k - j"]) (auto simp: algebra_simps split: if_splits)
  qed
qed

text \<open>All three axes, for the unfolded position \<open>u\<close>.\<close>

definition on_line :: "coord \<Rightarrow> coord \<Rightarrow> moving \<Rightarrow> bool" where
  "on_line u v0 s \<longleftrightarrow> (let lo = constraintAreaMin s; hi = constraintAreaMax s; p = lastPosition s in
     \<exists>v. lastVelocity s = Some v \<and> folded (cx lo) (cx hi) (cx u) (cx v0) (cx p) (cx v) \<and>
       folded (cy lo) (cy hi) (cy u) (cy v0) (cy p) (cy v) \<and> folded (cz lo) (cz hi) (cz u) (cz v0) (cz p) (cz v))"

definition off_walls :: "coord \<Rightarrow> coord \<Rightarrow> coord \<Rightarrow> bool" where
  "off_walls lo hi u \<longleftrightarrow> \<not> at_odd_wall (cx lo) (cx hi) (cx u) \<and> \<not> at_odd_wall (cy lo) (cy hi) (cy u) \<and> \<not> at_odd_wall (cz lo) (cz hi) (cz u)"

definition fold_coord :: "coord \<Rightarrow> coord \<Rightarrow> coord \<Rightarrow> coord" where
  "fold_coord lo hi u = mkCoord (fold_back (cx lo) (cx hi) (cx u)) (fold_back (cy lo) (cy hi) (cy u)) (fold_back (cz lo) (cz hi) (cz u))"

lemma reflectVelocity_axes:
  fixes s :: moving
  assumes "wide_area s"
  defines "lo \<equiv> constraintAreaMin s" and "hi \<equiv> constraintAreaMax s" and "p \<equiv> lastPosition s"
  shows "reflectVelocity v s = Inr (s\<lparr>
    lastPosition := mkCoord (fst (axisReflect (cx lo) (cx hi) (cx p) (cx v))) (fst (axisReflect (cy lo) (cy hi) (cy p) (cy v)))
      (fst (axisReflect (cz lo) (cz hi) (cz p) (cz v))),
    lastVelocity := Some (mkCoord (snd (axisReflect (cx lo) (cx hi) (cx p) (cx v))) (snd (axisReflect (cy lo) (cy hi) (cy p) (cy v)))
      (snd (axisReflect (cz lo) (cz hi) (cz p) (cz v))))\<rparr>)"
proof -
  have w: "cx (constraintAreaMin s) < cx (constraintAreaMax s)" "cy (constraintAreaMin s) < cy (constraintAreaMax s)"
    "cz (constraintAreaMin s) < cz (constraintAreaMax s)" using assms(1) by (simp_all add: wide_area_def Let_def)
  let ?m = "\<lparr>m_target = coord_ZERO, m_velocity = v, m_heading = 0, m_elevation = 0, m_quaternion = None\<rparr>"
  from reflectX_axis [OF w(1), of ?m] obtain m1 where
    x: "reflectX s ?m = Inr (s\<lparr>lastPosition := p\<lparr>cx := fst (axisReflect (cx lo) (cx hi) (cx p) (cx v))\<rparr>\<rparr>, m1)"
      "m_velocity m1 = v\<lparr>cx := snd (axisReflect (cx lo) (cx hi) (cx p) (cx v))\<rparr>" by (auto simp: lo_def hi_def p_def)
  let ?s1 = "s\<lparr>lastPosition := p\<lparr>cx := fst (axisReflect (cx lo) (cx hi) (cx p) (cx v))\<rparr>\<rparr>"
  from reflectY_axis [of ?s1 m1] w(2) obtain m2 where
    y: "reflectY ?s1 m1 = Inr (?s1\<lparr>lastPosition := (lastPosition ?s1)\<lparr>cy := fst (axisReflect (cy lo) (cy hi) (cy p) (cy v))\<rparr>\<rparr>, m2)"
      "m_velocity m2 = (m_velocity m1)\<lparr>cy := snd (axisReflect (cy lo) (cy hi) (cy p) (cy v))\<rparr>"
    using x(2) by (auto simp: lo_def hi_def p_def)
  let ?s2 = "?s1\<lparr>lastPosition := (lastPosition ?s1)\<lparr>cy := fst (axisReflect (cy lo) (cy hi) (cy p) (cy v))\<rparr>\<rparr>"
  from reflectZ_axis [of ?s2 m2] w(3) obtain m3 where
    z: "reflectZ ?s2 m2 = Inr (?s2\<lparr>lastPosition := (lastPosition ?s2)\<lparr>cz := fst (axisReflect (cz lo) (cz hi) (cz p) (cz v))\<rparr>\<rparr>, m3)"
      "m_velocity m3 = (m_velocity m2)\<lparr>cz := snd (axisReflect (cz lo) (cz hi) (cz p) (cz v))\<rparr>"
    using x(2) y(2) by (auto simp: lo_def hi_def p_def)
  show ?thesis
    by (simp add: reflectVelocity_def handleIfOutside_def reflectIfOutside_def x(1) y(1) [simplified] z(1) [simplified])
      (simp add: x(2) y(2) z(2) mkCoord_def)
qed

lemma linear_step:
  fixes s :: moving
  assumes w: "wide_area s" and f: "on_line u v0 s"
    and free: "off_walls (constraintAreaMin s) (constraintAreaMax s) (coord_add u (coord_mult v0 (t - lastUpdate s)))"
  shows "\<exists>s'. moveAndUpdate (linear_move t) t s = Inr s' \<and> on_line (coord_add u (coord_mult v0 (t - lastUpdate s))) v0 s' \<and>
    lastUpdate s' = t \<and> constraintAreaMin s' = constraintAreaMin s \<and> constraintAreaMax s' = constraintAreaMax s"
proof (cases "nextChange s = t \<or> lastUpdate s \<noteq> t")
  case True
  from f obtain v where v: "lastVelocity s = Some v" by (auto simp: on_line_def Let_def)
  let ?s1 = "s\<lparr>lastPosition := coord_add (lastPosition s) (coord_mult v (t - lastUpdate s))\<rparr>"
  have w1: "wide_area ?s1" and l: "cx (constraintAreaMin s) < cx (constraintAreaMax s)" "cy (constraintAreaMin s) < cy (constraintAreaMax s)"
    "cz (constraintAreaMin s) < cz (constraintAreaMax s)" using w by (simp_all add: wide_area_def Let_def)
  have sel: "cx (coord_add a (coord_mult b d)) = cx a + cx b * d" "cy (coord_add a (coord_mult b d)) = cy a + cy b * d"
    "cz (coord_add a (coord_mult b d)) = cz a + cz b * d" for a b d by (simp_all add: coord_add_def coord_mult_def)
  show ?thesis
    using True f v free folded_step [OF l(1)] folded_step [OF l(2)] folded_step [OF l(3)]
    by (simp add: moveAndUpdate_def linear_move_def reflectVelocity_axes [OF w1] on_line_def off_walls_def sel Let_def)
next
  case False
  then have "coord_add u (coord_mult v0 (t - lastUpdate s)) = u" by (simp add: coord_add_def coord_mult_def)
  with False f show ?thesis by (simp add: moveAndUpdate_def)
qed


lemma odd_wall_int: "at_odd_wall 0 10 (real_of_int n) \<Longrightarrow> n mod 20 = 10"
proof -
  assume "at_odd_wall 0 10 (real_of_int n)"
  then obtain k where k: "odd k" "real_of_int n = real_of_int (10 * k)" by (auto simp: at_odd_wall_def)
  then have "n = 10 * k" by linarith
  with k(1) show ?thesis by presburger
qed


section \<open>RectangleMobility\<close>

record rectangle = moving +
  rectangleSpeed :: real
  perimeterDistance :: real
  corner1 :: real
  corner2 :: real
  corner3 :: real
  corner4 :: real

text \<open>\<open>fmod\<close> of the C library: the remainder has the sign of the dividend.\<close>

definition fmod :: "real \<Rightarrow> real \<Rightarrow> real" where
  "fmod a n = a - n * real_of_int (if 0 \<le> a / n then \<lfloor>a / n\<rfloor> else \<lceil>a / n\<rceil>)"

definition rectangle_initialize :: "coord \<Rightarrow> coord \<Rightarrow> real \<Rightarrow> real \<Rightarrow> real \<Rightarrow> coord \<Rightarrow> rectangle" where
  "rectangle_initialize lo hi interval sp start position =
     (let dx = cx hi - cx lo; dy = cy hi - cy lo; c1 = dx; c2 = c1 + dy; c3 = c2 + dx; c4 = c3 + dy; startPos = fmod start 4 in
      \<lparr>constraintAreaMin = lo, constraintAreaMax = hi, lastPosition = position, updateInterval = interval, stationary = (sp = 0),
       lastVelocity = Some coord_ZERO, lastUpdate = 0, nextChange = -1, moveTimer = None, rectangleSpeed = sp,
       perimeterDistance = (if startPos < 1 then startPos * dx
         else if startPos < 2 then c1 + (startPos - 1) * dy
         else if startPos < 3 then c2 + (startPos - 2) * dx
         else c3 + (startPos - 3) * dy),
       corner1 = c1, corner2 = c2, corner3 = c3, corner4 = c4\<rparr>)"

text \<open>The two loops that bring the distance into one round; \<open>None\<close> when they do not end.\<close>

definition wrapDistance :: "real \<Rightarrow> real \<Rightarrow> real option" where
  "wrapDistance c d = Option.bind (while_option (\<lambda>d. d < 0) (\<lambda>d. d + c) d) (while_option (\<lambda>d. d \<ge> c) (\<lambda>d. d - c))"

definition placeOnBorder :: "rectangle \<Rightarrow> rectangle" where
  "placeOnBorder s =
     (let d = perimeterDistance s; lo = constraintAreaMin s; hi = constraintAreaMax s; p = lastPosition s; v = rectangleSpeed s in
      if d < corner1 s then
        s\<lparr>lastPosition := p\<lparr>cx := cx lo + d, cy := cy lo\<rparr>, lastVelocity := Some (mkCoord v 0 0)\<rparr>
      else if d < corner2 s then
        s\<lparr>lastPosition := p\<lparr>cx := cx hi, cy := cy lo + d - corner1 s\<rparr>, lastVelocity := Some (mkCoord 0 v 0)\<rparr>
      else if d < corner3 s then
        s\<lparr>lastPosition := p\<lparr>cx := cx hi - d + corner2 s, cy := cy hi\<rparr>, lastVelocity := Some (mkCoord (- v) 0 0)\<rparr>
      else
        s\<lparr>lastPosition := p\<lparr>cx := cx lo, cy := cy hi - d + corner3 s\<rparr>, lastVelocity := Some (mkCoord 0 (- v) 0)\<rparr>)"

definition rectangle_move :: "real \<Rightarrow> rectangle \<Rightarrow> rectangle option" where
  "rectangle_move now s =
     map_option (\<lambda>d. placeOnBorder (s\<lparr>perimeterDistance := d\<rparr>))
       (wrapDistance (corner4 s) (perimeterDistance s + rectangleSpeed s * (now - lastUpdate s)))"

text \<open>Updates at given times; the next change of this model is never set.\<close>

fun rectangle_run :: "real list \<Rightarrow> rectangle \<Rightarrow> rectangle option" where
  "rectangle_run [] s = Some s"
| "rectangle_run (t # ts) s =
     Option.bind (if nextChange s = t \<or> lastUpdate s \<noteq> t then map_option (\<lambda>s'. s'\<lparr>lastUpdate := t\<rparr>) (rectangle_move t s) else Some s)
       (rectangle_run ts)"

text \<open>The loops are the remainder, and they end exactly for a positive length.\<close>

lemma while_option_steps:
  "(\<And>j. j < k \<Longrightarrow> b ((c ^^ j) s)) \<Longrightarrow> \<not> b ((c ^^ k) s) \<Longrightarrow> while_option b c s = Some ((c ^^ k) s)"
proof (induction k arbitrary: s)
  case 0
  then show ?case by (simp add: while_option_unfold)
next
  case (Suc k)
  have "b s" using Suc.prems(1) [of 0] by simp
  moreover have "while_option b c (c s) = Some ((c ^^ k) (c s))"
  proof (rule Suc.IH)
    show "b ((c ^^ j) (c s))" if "j < k" for j using Suc.prems(1) [of "Suc j"] that by (simp add: funpow_swap1)
    show "\<not> b ((c ^^ k) (c s))" using Suc.prems(2) by (simp add: funpow_swap1)
  qed
  ultimately show ?case by (simp add: while_option_unfold [of b c s] funpow_swap1)
qed

lemma while_option_forever: "(\<And>j. b ((c ^^ j) s)) \<Longrightarrow> while_option b c s = None"
  by (simp add: while_option_def)

text \<open>Adding or subtracting the length some times.\<close>

lemma funpow_add: "((\<lambda>d. d + c) ^^ n) d = d + real n * (c :: real)" and funpow_sub: "((\<lambda>d. d - c) ^^ n) d = d - real n * (c :: real)"
  by (induction n) (simp_all add: algebra_simps)

lemma raise_distance:
  fixes c d :: real
  assumes "0 < c"
  shows "while_option (\<lambda>d. d < 0) (\<lambda>d. d + c) d = Some (if d < 0 then modulo_real d c else d)"
proof (cases "d < 0")
  case False
  then show ?thesis by (simp add: while_option_unfold)
next
  case True
  define k where "k = nat (- \<lfloor>d / c\<rfloor>)"
  have "d / c < 0" using True assms by (simp add: divide_neg_pos)
  then have "0 < - \<lfloor>d / c\<rfloor>" by linarith
  then have k: "real k = - real_of_int \<lfloor>d / c\<rfloor>" by (simp add: k_def)
  have range: "0 \<le> modulo_real d c" "modulo_real d c < c" using modulo_real_range assms by auto
  have m: "modulo_real d c = d + real k * c" using k by (simp add: modulo_real_def)
  have "((\<lambda>d. d + c) ^^ j) d < 0" if "j < k" for j
  proof -
    have "real j + 1 \<le> real k" using that by linarith
    then have "(real j + 1) * c \<le> real k * c" using assms by (intro mult_right_mono) simp_all
    then show ?thesis using range m by (simp add: funpow_add algebra_simps)
  qed
  from while_option_steps [of k "\<lambda>d. d < 0" "\<lambda>d. d + c" d, OF this] range m True show ?thesis by (simp add: funpow_add)
qed

lemma lower_distance:
  fixes c d :: real
  assumes "0 < c" and "0 \<le> d"
  shows "while_option (\<lambda>d. d \<ge> c) (\<lambda>d. d - c) d = Some (modulo_real d c)"
proof -
  define k where "k = nat \<lfloor>d / c\<rfloor>"
  have "0 \<le> \<lfloor>d / c\<rfloor>" using assms by simp
  then have k: "real k = real_of_int \<lfloor>d / c\<rfloor>" by (simp add: k_def)
  have range: "0 \<le> modulo_real d c" "modulo_real d c < c" using modulo_real_range assms by auto
  have m: "modulo_real d c = d - real k * c" using k by (simp add: modulo_real_def)
  have "((\<lambda>d. d - c) ^^ j) d \<ge> c" if "j < k" for j
  proof -
    have "real j + 1 \<le> real k" using that by linarith
    then have "(real j + 1) * c \<le> real k * c" using assms by (intro mult_right_mono) simp_all
    then show ?thesis using range m by (simp add: funpow_sub algebra_simps)
  qed
  from while_option_steps [of k "\<lambda>d. d \<ge> c" "\<lambda>d. d - c" d, OF this] range m show ?thesis by (simp add: funpow_sub)
qed

lemma modulo_real_shift: "0 < c \<Longrightarrow> modulo_real (d + c * real_of_int k) c = modulo_real d c"
proof -
  assume c: "0 < c"
  have "0 \<le> modulo_real d c" "modulo_real d c < c" using modulo_real_range c by auto
  moreover have "d + c * real_of_int k = modulo_real d c + c * real_of_int (\<lfloor>d / c\<rfloor> + k)"
    by (simp add: modulo_real_def algebra_simps)
  ultimately show ?thesis by (rule modulo_real_unique)
qed

lemma wrapDistance_eq: "0 < c \<Longrightarrow> wrapDistance c d = Some (modulo_real d c)"
proof -
  assume c: "0 < c"
  have r: "0 \<le> modulo_real d c" "modulo_real d c < c" using modulo_real_range c by auto
  have "modulo_real (modulo_real d c) c = modulo_real d c" using r by (rule modulo_real_unique [of _ _ _ 0]) simp
  then show ?thesis using lower_distance [OF c, of "modulo_real d c"] lower_distance [OF c, of d] r
    by (cases "d < 0") (simp_all add: wrapDistance_def raise_distance [OF c])
qed

lemma wrapDistance_endless: "c \<le> 0 \<Longrightarrow> wrapDistance c d = None"
proof -
  assume c: "c \<le> 0"
  show ?thesis
  proof (cases "d < 0")
    case True
    have "((\<lambda>d. d + c) ^^ j) d < 0" for j
      using True c mult_nonneg_nonpos [of "real j" c] by (simp add: funpow_add)
    then show ?thesis unfolding wrapDistance_def by (subst while_option_forever) simp_all
  next
    case False
    then have "while_option (\<lambda>d. d < 0) (\<lambda>d. d + c) d = Some d" by (simp add: while_option_unfold)
    moreover have "((\<lambda>d. d - c) ^^ j) d \<ge> c" for j
      using False c mult_nonneg_nonpos [of "real j" c] by (simp add: funpow_sub)
    ultimately show ?thesis unfolding wrapDistance_def by (simp add: while_option_forever)
  qed
qed

text \<open>The point of the border at a distance, clockwise from the lower corner.\<close>

definition borderPoint :: "coord \<Rightarrow> coord \<Rightarrow> real \<Rightarrow> real \<times> real" where
  "borderPoint lo hi d =
     (let dx = cx hi - cx lo; dy = cy hi - cy lo in
      if d < dx then (cx lo + d, cy lo)
      else if d < dx + dy then (cx hi, cy lo + (d - dx))
      else if d < 2 * dx + dy then (cx hi - (d - dx - dy), cy hi)
      else (cx lo, cy hi - (d - 2 * dx - dy)))"

definition corners_ok :: "rectangle \<Rightarrow> bool" where
  "corners_ok s \<longleftrightarrow> (let dx = cx (constraintAreaMax s) - cx (constraintAreaMin s); dy = cy (constraintAreaMax s) - cy (constraintAreaMin s) in
     0 \<le> dx \<and> 0 \<le> dy \<and> corner1 s = dx \<and> corner2 s = dx + dy \<and> corner3 s = 2 * dx + dy \<and> corner4 s = 2 * dx + 2 * dy)"

text \<open>Being on the border of a rectangle.\<close>

definition onBorder :: "coord \<Rightarrow> coord \<Rightarrow> real \<times> real \<Rightarrow> bool" where
  "onBorder lo hi = (\<lambda>(x, y). cx lo \<le> x \<and> x \<le> cx hi \<and> cy lo \<le> y \<and> y \<le> cy hi \<and>
     (x = cx lo \<or> x = cx hi \<or> y = cy lo \<or> y = cy hi))"

lemma borderPoint_on: "cx lo \<le> cx hi \<Longrightarrow> cy lo \<le> cy hi \<Longrightarrow> 0 \<le> d \<Longrightarrow> d \<le> 2 * (cx hi - cx lo) + 2 * (cy hi - cy lo) \<Longrightarrow>
    onBorder lo hi (borderPoint lo hi d)"
  by (auto simp: onBorder_def borderPoint_def Let_def)

lemma placeOnBorder_point:
  assumes "corners_ok s"
  shows "(cx (lastPosition (placeOnBorder s)), cy (lastPosition (placeOnBorder s))) =
    borderPoint (constraintAreaMin s) (constraintAreaMax s) (perimeterDistance s)"
  using assms by (simp add: placeOnBorder_def borderPoint_def corners_ok_def Let_def)

lemma placeOnBorder_frame [simp]:
  "constraintAreaMin (placeOnBorder s) = constraintAreaMin s" "constraintAreaMax (placeOnBorder s) = constraintAreaMax s"
  "perimeterDistance (placeOnBorder s) = perimeterDistance s" "rectangleSpeed (placeOnBorder s) = rectangleSpeed s"
  "corner1 (placeOnBorder s) = corner1 s" "corner2 (placeOnBorder s) = corner2 s"
  "corner3 (placeOnBorder s) = corner3 s" "corner4 (placeOnBorder s) = corner4 s"
  "lastUpdate (placeOnBorder s) = lastUpdate s"
  by (simp_all add: placeOnBorder_def Let_def)

text \<open>What holds after an update at the time \<open>t\<close> of a node that had gone the distance \<open>d0\<close> at the time 0.\<close>

definition round_inv :: "rectangle \<Rightarrow> real \<Rightarrow> rectangle \<Rightarrow> bool" where
  "round_inv a d0 s \<longleftrightarrow> constraintAreaMin s = constraintAreaMin a \<and> constraintAreaMax s = constraintAreaMax a \<and>
     rectangleSpeed s = rectangleSpeed a \<and> corners_ok s \<and> corner4 s = corner4 a \<and>
     (\<exists>k. perimeterDistance s = d0 + rectangleSpeed a * lastUpdate s + corner4 a * real_of_int k)"

lemma rectangle_move_round:
  assumes "0 < corner4 a" and "round_inv a d0 s"
  shows "\<exists>s'. rectangle_move t s = Some s' \<and> round_inv a d0 (s'\<lparr>lastUpdate := t\<rparr>) \<and>
    (cx (lastPosition s'), cy (lastPosition s')) =
      borderPoint (constraintAreaMin a) (constraintAreaMax a) (modulo_real (d0 + rectangleSpeed a * t) (corner4 a))"
proof -
  let ?c = "corner4 a" and ?d = "perimeterDistance s + rectangleSpeed s * (t - lastUpdate s)"
  from assms(2) obtain k where k: "perimeterDistance s = d0 + rectangleSpeed a * lastUpdate s + ?c * real_of_int k"
    and s: "constraintAreaMin s = constraintAreaMin a" "constraintAreaMax s = constraintAreaMax a"
      "rectangleSpeed s = rectangleSpeed a" "corners_ok s" "corner4 s = ?c" by (auto simp: round_inv_def)
  have d: "?d = d0 + rectangleSpeed a * t + ?c * real_of_int k" using k s(3) by (simp add: algebra_simps)
  then have m: "modulo_real ?d ?c = modulo_real (d0 + rectangleSpeed a * t) ?c" using modulo_real_shift [OF assms(1)] by simp
  let ?s = "s\<lparr>perimeterDistance := modulo_real ?d ?c\<rparr>"
  have move: "rectangle_move t s = Some (placeOnBorder ?s)" using wrapDistance_eq [OF assms(1)] s(5) by (simp add: rectangle_move_def)
  have c: "corners_ok ?s" using s(4) by (simp add: corners_ok_def)
  have "modulo_real ?d ?c = d0 + rectangleSpeed a * t + ?c * real_of_int (k - \<lfloor>?d / ?c\<rfloor>)"
    unfolding modulo_real_def using d by (simp add: algebra_simps)
  then have "round_inv a d0 ((placeOnBorder ?s)\<lparr>lastUpdate := t\<rparr>)"
    unfolding round_inv_def using s c
    by (intro conjI exI [of _ "k - \<lfloor>?d / ?c\<rfloor>"]) (simp_all add: corners_ok_def)
  with move placeOnBorder_point [OF c] m s(1,2) show ?thesis by auto
qed

text \<open>
  C32. The rectangle model goes around the border: after updates at any times a node with a
  positive area is at the point of the border that is the distance gone (the start distance
  and speed times time, modulo the length of the border) away from the corner, and on
  the border of the area. An area without extent makes the loops of \<open>move\<close> run forever.
\<close>
theorem rectangle_goes_round:
  assumes "cx lo \<le> cx hi" and "cy lo \<le> cy hi" and a_def: "a = rectangle_initialize lo hi interval sp start position"
  shows "if cx lo = cx hi \<and> cy lo = cy hi then rectangle_move t a = None
    else \<exists>s s'. rectangle_run ts a = Some s \<and> rectangle_move t s = Some s' \<and>
      (cx (lastPosition s'), cy (lastPosition s')) = borderPoint lo hi (modulo_real (perimeterDistance a + sp * t) (corner4 a)) \<and>
      onBorder lo hi (cx (lastPosition s'), cy (lastPosition s'))"
proof (cases "cx lo = cx hi \<and> cy lo = cy hi")
  case True
  then have "corner4 a = 0" by (simp add: a_def rectangle_initialize_def Let_def)
  with True show ?thesis by (simp add: rectangle_move_def wrapDistance_endless)
next
  case False
  have area: "constraintAreaMin a = lo" "constraintAreaMax a = hi" "rectangleSpeed a = sp"
    "corner4 a = 2 * (cx hi - cx lo) + 2 * (cy hi - cy lo)"
    by (simp_all add: a_def rectangle_initialize_def Let_def)
  have c: "0 < corner4 a" using False assms(1,2) area(4) by auto
  have start: "round_inv a (perimeterDistance a) a"
    unfolding round_inv_def using assms(1,2)
    by (intro conjI exI [of _ 0]) (simp_all add: corners_ok_def a_def rectangle_initialize_def Let_def)
  have "round_inv a (perimeterDistance a) s \<Longrightarrow> \<exists>s'. rectangle_run ts s = Some s' \<and> round_inv a (perimeterDistance a) s'" for s
  proof (induction ts arbitrary: s)
    case (Cons t ts)
    from rectangle_move_round [OF c Cons.prems, of t] obtain s1 where
      "rectangle_move t s = Some s1" "round_inv a (perimeterDistance a) (s1\<lparr>lastUpdate := t\<rparr>)" by blast
    with Cons.IH Cons.prems show ?case by simp
  qed simp
  from this [OF start] obtain s where
    s: "rectangle_run ts a = Some s" "round_inv a (perimeterDistance a) s" by blast
  have "0 \<le> modulo_real (perimeterDistance a + sp * t) (corner4 a)" "modulo_real (perimeterDistance a + sp * t) (corner4 a) < corner4 a"
    using modulo_real_range c by auto
  with borderPoint_on [OF assms(1,2)] have "onBorder lo hi (borderPoint lo hi (modulo_real (perimeterDistance a + sp * t) (corner4 a)))"
    using area(4) by simp
  with rectangle_move_round [OF c s(2), of t] s(1) area False show ?thesis by auto
qed

text \<open>An area of 4 by 3 and a node with speed 1: after 20 s it has gone 6 m of its second round.\<close>

theorem rectangle_goes_round_witness:
  "\<exists>s s'. rectangle_run [3] (rectangle_initialize (mkCoord 0 0 0) (mkCoord 4 3 0) 1 1 0 (mkCoord 0 0 0)) = Some s \<and>
     rectangle_move 20 s = Some s' \<and> cx (lastPosition s') = 4 \<and> cy (lastPosition s') = 2"
proof -
  let ?a = "rectangle_initialize (mkCoord 0 0 0) (mkCoord 4 3 0) 1 1 0 (mkCoord 0 0 0)"
  have m: "modulo_real 20 14 = 6" by (rule modulo_real_unique [of _ _ _ 1]) simp_all
  have "perimeterDistance ?a = 0" "corner4 ?a = 14" by (simp_all add: rectangle_initialize_def fmod_def mkCoord_def)
  with m rectangle_goes_round [of "mkCoord 0 0 0" "mkCoord 4 3 0" ?a 1 1 0 "mkCoord 0 0 0" 20 "[3]"] show ?thesis
    by (auto simp: mkCoord_def borderPoint_def)
qed

section \<open>TractorMobility\<close>

record tractor = segments +
  tractorSpeed :: real
  fieldX1 :: real
  fieldY1 :: real
  fieldX2 :: real
  fieldY2 :: real
  rowCount :: int
  rowStep :: int

definition tractor_initialize :: "coord \<Rightarrow> coord \<Rightarrow> real \<Rightarrow> real \<Rightarrow> real \<times> real \<Rightarrow> real \<times> real \<Rightarrow> int \<Rightarrow> tractor" where
  "tractor_initialize lo hi interval sp c1 c2 rows =
     \<lparr>constraintAreaMin = lo, constraintAreaMax = hi, lastPosition = coord_ZERO, updateInterval = interval,
      stationary = False, lastVelocity = Some coord_ZERO, lastUpdate = 0, nextChange = -1, moveTimer = None,
      targetPosition = coord_ZERO, tractorSpeed = sp, fieldX1 = fst c1, fieldY1 = snd c1, fieldX2 = fst c2, fieldY2 = snd c2,
      rowCount = rows, rowStep = 0\<rparr>"

definition tractor_setInitialPosition :: "tractor \<Rightarrow> tractor" where
  "tractor_setInitialPosition s = s\<lparr>lastPosition := (lastPosition s)\<lparr>cx := fieldX1 s, cy := fieldY1 s\<rparr>\<rparr>"

text \<open>\<open>/\<close> and \<open>%\<close> of C++ truncate; the switch has no case for a negative remainder.\<close>

definition positionDelta :: "tractor \<Rightarrow> coord result" where
  "positionDelta s =
     (let m = rowStep s smod 4 in
      if m = 0 then Inr (mkCoord (fieldX2 s - fieldX1 s) 0 0)
      else if m = 1 \<or> m = 3 then
        if 2 * rowCount s = 0 then Inl DivisionByZero
        else
          let sign = (if (rowStep s sdiv (2 * rowCount s)) smod 2 \<noteq> 0 then -1 else 1 :: real)
          in Inr (mkCoord 0 ((fieldY2 s - fieldY1 s) / real_of_int (rowCount s) * sign) 0)
      else if m = 2 then Inr (mkCoord (fieldX1 s - fieldX2 s) 0 0)
      else Inr coord_ZERO)"

definition tractor_setTargetPosition :: "(real \<Rightarrow> real) \<Rightarrow> real \<Rightarrow> tractor \<Rightarrow> tractor result" where
  "tractor_setTargetPosition simtime now s =
     rbind (positionDelta s) (\<lambda>delta.
     if tractorSpeed s = 0 then Inl (RuntimeError ''Cannot convert to simtime_t: Out of range'')
     else Inr (s\<lparr>rowStep := rowStep s + 1, targetPosition := coord_add (lastPosition s) delta,
                nextChange := now + simtime (coord_length delta / tractorSpeed s)\<rparr>))"

text \<open>The end of \<open>n\<close> segments, each when its time has come.\<close>

fun tractor_segments :: "(real \<Rightarrow> real) \<Rightarrow> nat \<Rightarrow> tractor \<Rightarrow> tractor result" where
  "tractor_segments simtime 0 s = Inr s"
| "tractor_segments simtime (Suc n) s =
     rbind (tractor_segments simtime n s) (\<lambda>s'.
       lineMove (tractor_setTargetPosition simtime (nextChange s')) (nextChange s') s')"

text \<open>
  The corner where the segment \<open>n\<close> begins: the rows go there and back in turn, and after the last
  row the tractor takes the rows in the opposite direction, up to the start again.
\<close>

definition turn :: "nat \<Rightarrow> nat \<Rightarrow> nat" where
  "turn rows m = (let q = m mod (2 * rows) in if q \<le> rows then q else 2 * rows - q)"

definition tractorCorner :: "real \<times> real \<Rightarrow> real \<times> real \<Rightarrow> nat \<Rightarrow> real \<Rightarrow> nat \<Rightarrow> coord" where
  "tractorCorner c1 c2 rows z n =
     mkCoord (if n mod 4 = 1 \<or> n mod 4 = 2 then fst c2 else fst c1)
       (snd c1 + (snd c2 - snd c1) / real rows * real (turn rows (n div 2))) z"

lemma turn_Suc:
  assumes "0 < rows"
  shows "real (turn rows (Suc m)) = real (turn rows m) + (if even (m div rows) then 1 else -1)"
proof -
  define q where "q = m mod (2 * rows)"
  have q: "q < 2 * rows" using assms by (simp add: q_def)
  have "m div rows mod 2 = q div rows"
    using assms by (simp add: q_def mod_mult2_eq [of m rows 2, unfolded mult.commute [of rows]])
  then have par: "even (m div rows) \<longleftrightarrow> q < rows"
  proof -
    have "q div rows = (if q < rows then 0 else 1)"
      using q by (auto simp: div_nat_eqI)
    with \<open>m div rows mod 2 = q div rows\<close> show ?thesis by (metis even_iff_mod_2_eq_zero zero_neq_one)
  qed
  have s: "Suc m mod (2 * rows) = (if Suc q = 2 * rows then 0 else Suc q)" by (simp add: q_def mod_Suc)
  show ?thesis
  proof (cases "Suc q = 2 * rows")
    case True
    then have "q = 2 * rows - 1" by simp
    with True assms show ?thesis unfolding par turn_def Let_def s q_def [symmetric] by auto
  next
    case False
    with q show ?thesis unfolding par turn_def Let_def s q_def [symmetric] by (auto simp: of_nat_diff)
  qed
qed

lemma turn_le: "turn rows m \<le> rows"
  by (auto simp: turn_def Let_def)

lemma turn_round: "turn rows (m + 2 * rows) = turn rows m"
  by (simp add: turn_def)

lemma sdiv_smod_nat:
  "0 < b \<Longrightarrow> int a sdiv int b = int (a div b)" "0 < b \<Longrightarrow> int a smod int b = int (a mod b)"
  by (cases "a = 0"; simp add: signed_divide_int_def signed_modulo_int_def zdiv_int zmod_int)+

lemma odd_step_div: "0 < rows \<Longrightarrow> (2 * m + 1) div (2 * rows) = m div (rows :: nat)"
  by (simp add: div_mult2_eq)

lemma positionDelta_corner:
  assumes rows: "0 < rows" "rowCount s = int rows" and n: "rowStep s = int n"
    and c: "fieldX1 s = fst c1" "fieldY1 s = snd c1" "fieldX2 s = fst c2" "fieldY2 s = snd c2"
  shows "\<exists>d. positionDelta s = Inr d \<and> coord_add (tractorCorner c1 c2 rows z n) d = tractorCorner c1 c2 rows z (Suc n)"
proof -
  let ?m = "n div 2"
  have r4: "int n smod 4 = int (n mod 4)" using sdiv_smod_nat(2) [of 4 n] by simp
  have "n mod 4 = 0 \<or> (n mod 4 = 1 \<or> n mod 4 = 3) \<or> n mod 4 = 2" "n mod 4 = 0 \<Longrightarrow> Suc n mod 4 = 1 \<and> Suc n div 2 = ?m"
    "n mod 4 = 1 \<or> n mod 4 = 3 \<Longrightarrow> odd n \<and> Suc n div 2 = Suc ?m" "n mod 4 = 2 \<Longrightarrow> Suc n mod 4 = 3 \<and> Suc n div 2 = ?m" by presburger+
  then consider "n mod 4 = 0" "Suc n mod 4 = 1" "Suc n div 2 = ?m" | "n mod 4 = 1 \<or> n mod 4 = 3" "odd n" "Suc n div 2 = Suc ?m"
    | "n mod 4 = 2" "Suc n mod 4 = 3" "Suc n div 2 = ?m" by metis
  then show ?thesis
  proof cases
    case 1
    then show ?thesis using n c r4
      by (simp add: positionDelta_def tractorCorner_def coord_add_def mkCoord_def Let_def)
  next
    case 2
    have x: "(Suc n mod 4 = 1 \<or> Suc n mod 4 = 2) = (n mod 4 = 1 \<or> n mod 4 = 2)" using 2(1) by presburger
    have "n = 2 * ?m + 1" using 2(2) by presburger
    then have "n div (2 * rows) = ?m div rows" using odd_step_div [OF rows(1), of ?m] by simp
    then have "int n sdiv (2 * int rows) = int (?m div rows)" using sdiv_smod_nat(1) [of "2 * rows" n] rows(1) by simp
    then have sg: "(int n sdiv (2 * int rows)) smod 2 \<noteq> 0 \<longleftrightarrow> odd (?m div rows)"
      using sdiv_smod_nat(2) [of 2 "?m div rows"] by (simp add: odd_iff_mod_2_eq_one)
    have "int n smod 4 = 1 \<or> int n smod 4 = 3" "int n smod 4 \<noteq> 0" using 2(1) r4 by auto
    then have "positionDelta s = Inr (mkCoord 0 ((snd c2 - snd c1) / real rows * (if odd (?m div rows) then -1 else 1)) 0)"
      using rows n c sg by (simp add: positionDelta_def Let_def)
    then show ?thesis using x 2(3) turn_Suc [OF rows(1), of ?m]
      by (auto simp: tractorCorner_def coord_add_def mkCoord_def algebra_simps)
  next
    case 3
    then show ?thesis using n c r4
      by (simp add: positionDelta_def tractorCorner_def coord_add_def mkCoord_def Let_def)
  qed
qed

definition on_field :: "real \<times> real \<Rightarrow> real \<times> real \<Rightarrow> nat \<Rightarrow> nat \<Rightarrow> tractor \<Rightarrow> bool" where
  "on_field c1 c2 rows n s \<longleftrightarrow> rowCount s = int rows \<and> rowStep s = int (Suc n) \<and> tractorSpeed s \<noteq> 0 \<and>
     fieldX1 s = fst c1 \<and> fieldY1 s = snd c1 \<and> fieldX2 s = fst c2 \<and> fieldY2 s = snd c2 \<and>
     lastPosition s = tractorCorner c1 c2 rows 0 n \<and> targetPosition s = tractorCorner c1 c2 rows 0 (Suc n)"

lemma tractor_segment:
  assumes "0 < rows" and "on_field c1 c2 rows n s"
  shows "\<exists>s'. lineMove (tractor_setTargetPosition simtime (nextChange s)) (nextChange s) s = Inr s' \<and> on_field c1 c2 rows (Suc n) s'"
proof -
  let ?s = "s\<lparr>lastPosition := targetPosition s\<rparr>"
  from assms(2) positionDelta_corner [OF assms(1), of ?s "Suc n" c1 c2 0] obtain d where
    "positionDelta ?s = Inr d" "coord_add (tractorCorner c1 c2 rows 0 (Suc n)) d = tractorCorner c1 c2 rows 0 (Suc (Suc n))"
    by (auto simp: on_field_def)
  with assms(2) show ?thesis by (simp add: lineMove_def tractor_setTargetPosition_def setVelocity_def on_field_def)
qed

lemma scheduleUpdate_frame: "scheduleUpdate now a = Inr s \<Longrightarrow> \<exists>u. s = a\<lparr>moveTimer := u\<rparr>"
  by (auto simp: scheduleUpdate_def scheduleMove_def Let_def split: if_splits)

text \<open>
  The tractor works row by row: with a positive number of rows, after any number of segments
  it is at the corner the closed form gives, on its way to the next one; it stays in the
  rows of the field and is back at its start after four segments per row.
\<close>
theorem tractor_follows_rows:
  assumes "0 < rows" and "sp \<noteq> 0"
    and "initializeSegments (\<lambda>s. Inr (tractor_setInitialPosition s)) (tractor_setTargetPosition simtime now) now
      (tractor_initialize lo hi interval sp c1 c2 (int rows)) = Inr s"
  shows "\<exists>s'. tractor_segments simtime n s = Inr s' \<and> lastPosition s' = tractorCorner c1 c2 rows 0 n \<and>
    targetPosition s' = tractorCorner c1 c2 rows 0 (Suc n) \<and> turn rows (n div 2) \<le> rows \<and>
    tractorCorner c1 c2 rows 0 (4 * rows) = mkCoord (fst c1) (snd c1) 0"
proof -
  have "on_field c1 c2 rows 0 s"
  proof -
    let ?s = "tractor_setInitialPosition (tractor_initialize lo hi interval sp c1 c2 (int rows))"
    have p: "lastPosition ?s = tractorCorner c1 c2 rows 0 0"
      by (simp add: tractor_setInitialPosition_def tractor_initialize_def tractorCorner_def turn_def coord_ZERO_def mkCoord_def)
    from positionDelta_corner [OF assms(1), of ?s 0 c1 c2 0] obtain d where
      d: "positionDelta ?s = Inr d" "coord_add (tractorCorner c1 c2 rows 0 0) d = tractorCorner c1 c2 rows 0 (Suc 0)"
      by (auto simp: tractor_setInitialPosition_def tractor_initialize_def)
    have "tractor_setTargetPosition simtime now ?s = Inr (?s\<lparr>rowStep := 1, targetPosition := tractorCorner c1 c2 rows 0 (Suc 0),
        nextChange := now + simtime (coord_length d / sp)\<rparr>)"
      using d p assms(2) by (simp add: tractor_setTargetPosition_def) (simp add: tractor_setInitialPosition_def tractor_initialize_def)
    with assms(3) have "scheduleUpdate now ((setVelocity now (?s\<lparr>rowStep := 1, targetPosition := tractorCorner c1 c2 rows 0 (Suc 0),
        nextChange := now + simtime (coord_length d / sp)\<rparr>))\<lparr>lastUpdate := now\<rparr>) = Inr s"
      by (simp add: initializeSegments_def checkPosition_def tractor_initialize_def tractor_setInitialPosition_def split: if_splits)
    from scheduleUpdate_frame [OF this] obtain u where
      "s = (setVelocity now (?s\<lparr>rowStep := 1, targetPosition := tractorCorner c1 c2 rows 0 (Suc 0),
        nextChange := now + simtime (coord_length d / sp)\<rparr>))\<lparr>lastUpdate := now, moveTimer := u\<rparr>" by auto
    with p show ?thesis
      by (simp add: on_field_def setVelocity_def) (simp add: tractor_setInitialPosition_def tractor_initialize_def assms(2))
  qed
  then have "\<exists>s'. tractor_segments simtime n s = Inr s' \<and> on_field c1 c2 rows n s'"
  proof (induction n)
    case (Suc n)
    then obtain a where a: "tractor_segments simtime n s = Inr a" "on_field c1 c2 rows n a" by blast
    from tractor_segment [OF assms(1) a(2), of simtime] a(1) show ?case by auto
  qed simp
  moreover have "tractorCorner c1 c2 rows 0 (4 * rows) = mkCoord (fst c1) (snd c1) 0"
    using turn_round [of rows 0] by (simp add: tractorCorner_def turn_def)
  ultimately show ?thesis using turn_le by (auto simp: on_field_def)
qed

theorem tractor_follows_rows_witness:
  "\<exists>s s'. initializeSegments (\<lambda>s. Inr (tractor_setInitialPosition s)) (tractor_setTargetPosition (\<lambda>x. x) 0) 0
      (tractor_initialize (mkCoord 0 0 0) (mkCoord 100 100 0) 0 2 (10, 10) (90, 70) 3) = Inr s \<and>
    tractor_segments (\<lambda>x. x) 3 s = Inr s' \<and> lastPosition s' = mkCoord 10 30 0"
proof -
  have len: "coord_length (mkCoord 80 0 0) = 80" by (simp add: coord_length_def squareLength_def mkCoord_def)
  have frame: "nextChange (setVelocity now a) = nextChange a" "stationary (setVelocity now a) = stationary a"
    "updateInterval (setVelocity now a) = updateInterval a" for now and a :: tractor by (simp_all add: setVelocity_def)
  let ?a = "tractor_setInitialPosition (tractor_initialize (mkCoord 0 0 0) (mkCoord 100 100 0) 0 2 (10, 10) (90, 70) 3)"
  have "positionDelta ?a = Inr (mkCoord 80 0 0)"
    by (simp add: positionDelta_def tractor_setInitialPosition_def tractor_initialize_def signed_modulo_int_def)
  then have target: "tractor_setTargetPosition (\<lambda>x. x) 0 ?a = Inr (?a\<lparr>rowStep := 1, targetPosition := coord_add (lastPosition ?a) (mkCoord 80 0 0),
      nextChange := 40\<rparr>)"
    by (simp add: tractor_setTargetPosition_def len) (simp add: tractor_setInitialPosition_def tractor_initialize_def)
  have a: "\<not> isOutside ?a" "\<not> stationary ?a" "updateInterval ?a = 0"
    by (simp_all add: isOutside_def tractor_setInitialPosition_def tractor_initialize_def mkCoord_def coord_ZERO_def)
  obtain s where s: "initializeSegments (\<lambda>s. Inr (tractor_setInitialPosition s)) (tractor_setTargetPosition (\<lambda>x. x) 0) 0
      (tractor_initialize (mkCoord 0 0 0) (mkCoord 100 100 0) 0 2 (10, 10) (90, 70) 3) = Inr s"
    by (simp add: initializeSegments_def checkPosition_def a target frame scheduleUpdate_def scheduleMove_def)
  then have "initializeSegments (\<lambda>s. Inr (tractor_setInitialPosition s)) (tractor_setTargetPosition (\<lambda>x. x) 0) 0
      (tractor_initialize (mkCoord 0 0 0) (mkCoord 100 100 0) 0 2 (10, 10) (90, 70) (int 3)) = Inr s" by simp
  from tractor_follows_rows [OF _ _ this, of 3] s show ?thesis
    by (auto simp: tractorCorner_def turn_def mkCoord_def)
qed

end
