(* ===== verification/Mobility_More.thy ===== *)
theory Mobility_More
  imports Mobility_Paths
begin

text \<open>
  More mobility models of INET: \<open>StaticGridMobility\<close>, \<open>ChiangMobility\<close>, \<open>GaussMarkovMobility\<close> and
  \<open>BonnMotionMobility\<close>. Random variates are arguments; angles are kept in radians, the code's type \<open>rad\<close>.
\<close>

section \<open>StaticGridMobility\<close>

definition grid_setInitialPosition ::
  "int \<Rightarrow> real \<Rightarrow> real \<Rightarrow> real \<Rightarrow> real \<Rightarrow> int \<Rightarrow> int \<Rightarrow> real \<Rightarrow> int \<Rightarrow> 'a mobility_scheme \<Rightarrow> 'a mobility_scheme result" where
  "grid_setInitialPosition numHosts marginX marginY separationX separationY columns rows initialZ index s =
     (if numHosts > rows * columns then Inl (RuntimeError ''parameter error: numHosts > rows * columns'')
      else if columns = 0 then Inl DivisionByZero
      else
        let row = index sdiv columns; col = index smod columns
        in Inr (s\<lparr>lastPosition := mkCoord
             (cx (constraintAreaMin s) + marginX + (real_of_int col + 1 / 2) * separationX)
             (cy (constraintAreaMin s) + marginY + (real_of_int row + 1 / 2) * separationY) initialZ\<rparr>))"

text \<open>
  The grid places all its hosts: for fewer hosts than cells every host gets the middle of a
  cell inside the grid, and different hosts get different cells; for more hosts
  than cells the model stops with an error.
\<close>
theorem grid_places_hosts:
  assumes "0 < columns" and "0 < sx" and "0 < sy" and "0 \<le> i" and "i < numHosts" and "0 \<le> j" and "j < numHosts"
  shows "if numHosts > rows * columns
    then \<exists>e. grid_setInitialPosition numHosts mx my sx sy columns rows z i s = Inl (RuntimeError e)
    else \<exists>a b. grid_setInitialPosition numHosts mx my sx sy columns rows z i s = Inr a \<and>
      grid_setInitialPosition numHosts mx my sx sy columns rows z j s = Inr b \<and>
      cx (constraintAreaMin s) + mx < cx (lastPosition a) \<and>
      cx (lastPosition a) < cx (constraintAreaMin s) + mx + real_of_int columns * sx \<and>
      cy (constraintAreaMin s) + my < cy (lastPosition a) \<and>
      cy (lastPosition a) < cy (constraintAreaMin s) + my + real_of_int rows * sy \<and>
      (lastPosition a = lastPosition b \<longleftrightarrow> i = j)"
proof (cases "numHosts > rows * columns")
  case True
  then show ?thesis by (simp add: grid_setInitialPosition_def)
next
  case False
  have div: "k sdiv columns = k div columns \<and> k smod columns = k mod columns" if "0 \<le> k" for k
    using sdiv_smod_nat [of "nat columns" "nat k"] that assms(1) by (simp add: zdiv_int zmod_int)
  have col: "0 \<le> i mod columns" "i mod columns < columns" using assms(1) by simp_all
  have row: "0 \<le> i div columns" using assms(1,4) by (simp add: pos_imp_zdiv_nonneg_iff)
  have "i < rows * columns" using False assms(5) by linarith
  moreover have "i div columns * columns + i mod columns = i" by simp
  ultimately have "i div columns * columns < rows * columns" using col(1) by linarith
  then have "i div columns < rows" using assms(1) by simp
  have cell: "(real_of_int k + 1 / 2) * w < real_of_int n * w \<and> 0 < (real_of_int k + 1 / 2) * w" if "0 \<le> k" "k < n" "0 < w" for k n w
  proof -
    have "real_of_int k + 1 / 2 < real_of_int n" "0 < real_of_int k + 1 / 2" using that(1,2) by linarith+
    with that(3) show ?thesis by simp
  qed
  have "i = j" if "i mod columns = j mod columns" "i div columns = j div columns"
    using that by (metis div_mult_mod_eq)
  with False assms div col row \<open>i div columns < rows\<close> cell [of "i mod columns" columns sx] cell [of "i div columns" rows sy]
  show ?thesis by (auto simp: grid_setInitialPosition_def mkCoord_def Let_def)
qed

theorem grid_places_hosts_witness:
  "\<exists>a b. grid_setInitialPosition 5 0 0 10 10 3 2 0 4 (unit_area coord_ZERO) = Inr a \<and>
     grid_setInitialPosition 5 0 0 10 10 3 2 0 2 (unit_area coord_ZERO) = Inr b \<and> lastPosition a \<noteq> lastPosition b"
  using grid_places_hosts [of 3 10 10 4 5 2 2 0 0 0 "unit_area coord_ZERO"] by auto

section \<open>ChiangMobility\<close>

definition stateMatrix :: "nat \<Rightarrow> real list" where
  "stateMatrix i = (if i = 0 then [7/10, 3/10, 0] else if i = 1 then [1/2, 0, 1/2] else [0, 3/10, 7/10])"

fun nextState :: "real \<Rightarrow> real \<Rightarrow> nat \<Rightarrow> real list \<Rightarrow> nat option" where
  "nextState acc randomValue i [] = None"
| "nextState acc randomValue i (x # xs) = (if acc + x \<ge> randomValue then Some i else nextState (acc + x) randomValue (i + 1) xs)"

definition getNextStateIndex :: "real \<Rightarrow> nat \<Rightarrow> nat" where
  "getNextStateIndex randomValue currentState =
     (case nextState 0 randomValue 0 (stateMatrix currentState) of Some i \<Rightarrow> i | None \<Rightarrow> currentState)"

record chiang = segments +
  chiangSpeed :: real
  stateTransitionUpdateInterval :: real
  xState :: nat
  yState :: nat

definition chiang_initialize :: "coord \<Rightarrow> coord \<Rightarrow> real \<Rightarrow> real \<Rightarrow> real \<Rightarrow> chiang" where
  "chiang_initialize lo hi interval transition sp =
     \<lparr>constraintAreaMin = lo, constraintAreaMax = hi, lastPosition = coord_ZERO, updateInterval = interval,
      stationary = (sp = 0), lastVelocity = Some coord_ZERO, lastUpdate = 0, nextChange = -1, moveTimer = None,
      targetPosition = coord_ZERO, chiangSpeed = sp, stateTransitionUpdateInterval = transition, xState = 1, yState = 1\<rparr>"

definition chiang_setTargetPosition :: "real \<Rightarrow> real \<Rightarrow> real \<Rightarrow> chiang \<Rightarrow> chiang result" where
  "chiang_setTargetPosition rx ry now s =
     (let x = getNextStateIndex rx (xState s);
          y = getNextStateIndex ry (yState s);
          direction = mkCoord (real x - 1) (real y - 1) 0;
          len = coord_length direction;
          v = (if len \<noteq> 0 then coord_mult (coord_div direction len) (chiangSpeed s) else coord_ZERO)
      in Inr (s\<lparr>xState := x, yState := y, nextChange := now + stateTransitionUpdateInterval s, lastVelocity := Some v,
             targetPosition := coord_sub (lastPosition s) (coord_mult v (stateTransitionUpdateInterval s))\<rparr>))"

definition chiang_move :: "real \<Rightarrow> real \<Rightarrow> real \<Rightarrow> chiang \<Rightarrow> chiang result" where
  "chiang_move rx ry now s =
     rbind (lineMove (chiang_setTargetPosition rx ry now) now s) (\<lambda>s1.
     case lastVelocity s1 of None \<Rightarrow> Inl DivisionByZero | Some v \<Rightarrow> reflectVelocity v s1)"

lemma reflectVelocity_inside:
  "wide_area s \<Longrightarrow> \<exists>s'. reflectVelocity v s = Inr s' \<and> inside s' (lastPosition s')"
  using reflectIfOutside_inside [of s "\<lparr>m_target = coord_ZERO, m_velocity = v, m_heading = 0, m_elevation = 0, m_quaternion = None\<rparr>"]
  by (auto simp: reflectVelocity_def handleIfOutside_def)

lemma chiang_move_inside: "wide_area s \<Longrightarrow> chiang_move rx ry now s = Inr s' \<Longrightarrow> inside s' (lastPosition s')"
proof -
  assume w: "wide_area s" and m: "chiang_move rx ry now s = Inr s'"
  from m obtain s1 v where s1: "lineMove (chiang_setTargetPosition rx ry now) now s = Inr s1" "reflectVelocity v s1 = Inr s'"
    by (auto simp: chiang_move_def rbind_eq_Inr split: option.splits)
  have "constraintAreaMin s1 = constraintAreaMin s" "constraintAreaMax s1 = constraintAreaMax s"
    using s1(1) by (auto simp: lineMove_def chiang_setTargetPosition_def setVelocity_def rbind_eq_Inr Let_def split: if_splits option.splits)
  then have "wide_area s1" using w by (simp add: wide_area_def)
  from reflectVelocity_inside [OF this, of v] s1(2) show "inside s' (lastPosition s')" by auto
qed

lemma getNextStateIndex_cases:
  assumes "0 \<le> r" and "r \<le> 1" and "st < 3"
  shows "getNextStateIndex r st = (if st = 0 then if r \<le> 7/10 then 0 else 1
    else if st = 1 then if r \<le> 1/2 then 0 else 2
    else if r = 0 then 0 else if r \<le> 3/10 then 1 else 2)"
proof -
  from assms(3) consider "st = 0" | "st = 1" | "st = 2" by linarith
  then show ?thesis using assms(1,2) by cases (auto simp: getNextStateIndex_def stateMatrix_def)
qed

text \<open>
  The motion states form the chain of the matrix: from each state every variate leads to a
  state, and no transition of probability 0 is taken, with one exception: the variate 0
  leads from the last state to the first, which the matrix forbids, because a partial
  sum of 0 already counts as reached. (A variate of 0 can be drawn.)
\<close>
theorem chiang_forbidden_jump:
  assumes "0 \<le> r" and "r \<le> 1" and "st < 3"
  shows "getNextStateIndex r st < 3 \<and> (stateMatrix st ! getNextStateIndex r st = 0 \<longleftrightarrow> st = 2 \<and> r = 0)"
proof -
  from assms(3) consider "st = 0" | "st = 1" | "st = 2" by linarith
  then show ?thesis unfolding getNextStateIndex_cases [OF assms]
    by cases (auto simp: stateMatrix_def numeral_2_eq_2)
qed

theorem chiang_forbidden_jump_witness: "getNextStateIndex 0 2 = 0 \<and> stateMatrix 2 ! 0 = 0 \<and> stateMatrix 2 ! getNextStateIndex 0 2 = 0"
  using chiang_forbidden_jump [of 0 2] by (auto simp: stateMatrix_def getNextStateIndex_cases)

text \<open>
  The node moves against its state: the velocity from the states is subtracted, so that in the state
  that is documented as the positive direction the velocity of the segment is negative.
\<close>

lemma chiang_moves_backwards:
  assumes "chiang_setTargetPosition rx ry now s = Inr s'" and "0 < stateTransitionUpdateInterval s"
  shows "\<exists>v. lastVelocity s' = Some v \<and> lastVelocity (setVelocity now s') = Some (coord_neg v)"
  using assms by (auto simp: chiang_setTargetPosition_def setVelocity_def Let_def coord_div_def coord_sub_def coord_mult_def coord_neg_def mkCoord_def)

section \<open>GaussMarkovMobility\<close>

text \<open>Angles are in radians here; \<open>deg(270.0)\<close> is \<open>3 * pi / 2\<close>.\<close>

record gauss = segments +
  gaussSpeed :: real
  speedMean :: real
  speedStdDev :: real
  angle :: real
  angleMean :: real
  angleStdDev :: real
  alpha :: real
  margin :: real

definition preventBorderHugging :: "gauss \<Rightarrow> gauss" where
  "preventBorderHugging s =
     (let p = lastPosition s; lo = constraintAreaMin s; hi = constraintAreaMax s;
          left = (cx p < cx lo + margin s);
          right = (cx p \<ge> cx hi - margin s);
          top = (cy p < cy lo + margin s);
          bottom = (cy p \<ge> cy hi - margin s)
      in if top \<or> bottom then
           let a = (if bottom then 3 * pi / 2 else pi / 2)
           in s\<lparr>angleMean := (if right then a - pi / 4 else if left then a + pi / 4 else a)\<rparr>
         else if left then s\<lparr>angleMean := 0\<rparr>
         else if right then s\<lparr>angleMean := pi\<rparr>
         else s)"

text \<open>\<open>n1\<close> and \<open>n2\<close> are the two normal variates.\<close>

definition gauss_setTargetPosition :: "real \<Rightarrow> real \<Rightarrow> real \<Rightarrow> gauss \<Rightarrow> gauss result" where
  "gauss_setTargetPosition n1 n2 now s =
     (let v = alpha s * gaussSpeed s + (1 - alpha s) * speedMean s + sqrt (1 - alpha s * alpha s) * n1 * speedStdDev s;
          a = alpha s * angle s + (1 - alpha s) * angleMean s + sqrt (1 - alpha s * alpha s) * n2 * angleStdDev s;
          direction = mkCoord (cos a) (sin a) 0
      in Inr (s\<lparr>gaussSpeed := v, angle := a, nextChange := now + updateInterval s,
             targetPosition := coord_add (lastPosition s) (coord_mult direction (v * updateInterval s))\<rparr>))"

definition gauss_initialize :: "coord \<Rightarrow> coord \<Rightarrow> real \<Rightarrow> real \<Rightarrow> real \<Rightarrow> real \<Rightarrow> real \<Rightarrow> real \<Rightarrow> real \<Rightarrow> gauss result" where
  "gauss_initialize lo hi interval sp spDev angleDeg angDev a marg =
     (if a < 0 \<or> a > 1 then Inl (RuntimeError ''The parameter alpha is out of [0;1] interval'')
      else
        let mean = fmod angleDeg 360 * pi / 180
        in Inr \<lparr>constraintAreaMin = lo, constraintAreaMax = hi, lastPosition = coord_ZERO, updateInterval = interval,
             stationary = (sp = 0), lastVelocity = Some coord_ZERO, lastUpdate = 0, nextChange = -1, moveTimer = None,
             targetPosition = coord_ZERO, gaussSpeed = sp, speedMean = sp, speedStdDev = spDev, angle = mean, angleMean = mean,
             angleStdDev = angDev, alpha = a, margin = marg\<rparr>)"

text \<open>
  The target that \<open>move\<close> reflects is \<open>lastPosition\<close> itself. The position is in the area when it is
  reflected for the second time, which leaves it as it is, so a copy is passed here.
\<close>

definition gauss_move :: "real \<Rightarrow> real \<Rightarrow> real \<Rightarrow> gauss \<Rightarrow> gauss result" where
  "gauss_move n1 n2 now s =
     rbind (lineMove (gauss_setTargetPosition n1 n2 now) now (preventBorderHugging s)) (\<lambda>s1.
     case lastVelocity s1 of
       None \<Rightarrow> Inl DivisionByZero
     | Some v \<Rightarrow>
         rbind (reflectIfOutside s1 \<lparr>m_target = lastPosition s1, m_velocity = v, m_heading = angle s1, m_elevation = 0,
             m_quaternion = None\<rparr>) (\<lambda>(s2, m).
         Inr (s2\<lparr>lastVelocity := Some (m_velocity m), angle := m_heading m\<rparr>)))"

text \<open>Being near a border; the \<open>x\<close> axis points to the right and the \<open>y\<close> axis down, as the code names the borders.\<close>

definition nearLeft :: "gauss \<Rightarrow> bool" where
  "nearLeft s \<longleftrightarrow> cx (lastPosition s) < cx (constraintAreaMin s) + margin s"

definition nearRight :: "gauss \<Rightarrow> bool" where
  "nearRight s \<longleftrightarrow> cx (lastPosition s) \<ge> cx (constraintAreaMax s) - margin s"

definition nearTop :: "gauss \<Rightarrow> bool" where
  "nearTop s \<longleftrightarrow> cy (lastPosition s) < cy (constraintAreaMin s) + margin s"

definition nearBottom :: "gauss \<Rightarrow> bool" where
  "nearBottom s \<longleftrightarrow> cy (lastPosition s) \<ge> cy (constraintAreaMax s) - margin s"

lemmas near_defs = nearLeft_def nearRight_def nearTop_def nearBottom_def

text \<open>
  Away from the upper corners the repelled node turns away from every border it is near. In
  the two upper corners it turns towards the side: at the upper right the mean angle is 45
  degrees, to the right, and at the upper left 135 degrees, to the left; the offsets that
  are right for the lower corners are used for the upper ones.
\<close>
theorem border_hugging_corners:
  assumes "0 < margin s" and "2 * margin s < cx (constraintAreaMax s) - cx (constraintAreaMin s)"
    and "2 * margin s < cy (constraintAreaMax s) - cy (constraintAreaMin s)"
    and a: "a = angleMean (preventBorderHugging s)"
  shows "(nearTop s \<longrightarrow> 0 < sin a) \<and> (nearBottom s \<longrightarrow> sin a < 0) \<and>
    (nearLeft s \<longrightarrow> (if nearTop s then cos a < 0 else 0 < cos a)) \<and>
    (nearRight s \<longrightarrow> (if nearTop s then 0 < cos a else cos a < 0))"
proof -
  have excl: "\<not> (nearLeft s \<and> nearRight s)" "\<not> (nearTop s \<and> nearBottom s)" using assms(1-3) by (auto simp: near_defs)
  have a: "a = (if nearTop s \<or> nearBottom s
      then if nearRight s then (if nearBottom s then 3 * pi / 2 else pi / 2) - pi / 4
        else if nearLeft s then (if nearBottom s then 3 * pi / 2 else pi / 2) + pi / 4
        else (if nearBottom s then 3 * pi / 2 else pi / 2)
      else if nearLeft s then 0 else if nearRight s then pi else angleMean s)"
    unfolding a preventBorderHugging_def Let_def by (simp flip: near_defs)
  have quarter: "pi / 2 - pi / 4 = pi / 4" "pi / 2 + pi / 4 = pi - pi / 4" "3 * pi / 2 - pi / 4 = pi + pi / 4"
    "3 * pi / 2 + pi / 4 = 2 * pi - pi / 4" "3 * pi / 2 = pi + pi / 2" by simp_all
  have up: "sin (pi / 2 - pi / 4) > 0" "cos (pi / 2 - pi / 4) > 0" "sin (pi / 2 + pi / 4) > 0" "cos (pi / 2 + pi / 4) < 0"
    unfolding quarter(1,2) sin_pi_minus cos_pi_minus sin_45 cos_45 by simp_all
  have down: "sin (3 * pi / 2 - pi / 4) < 0" "cos (3 * pi / 2 - pi / 4) < 0" "sin (3 * pi / 2 + pi / 4) < 0" "cos (3 * pi / 2 + pi / 4) > 0"
    unfolding quarter(3,4) sin_periodic_pi2 cos_periodic_pi2 sin_2pi_minus cos_2pi_minus sin_45 cos_45 by simp_all
  have "sin (3 * pi / 2) < 0" unfolding quarter(5) sin_periodic_pi2 by simp
  with excl up down show ?thesis unfolding a by (auto split: if_splits)
qed

definition demo_gauss :: "real \<Rightarrow> real \<Rightarrow> gauss" where
  "demo_gauss x y = \<lparr>constraintAreaMin = mkCoord 0 0 0, constraintAreaMax = mkCoord 100 100 0, lastPosition = mkCoord x y 0,
     updateInterval = 1, stationary = False, lastVelocity = Some coord_ZERO, lastUpdate = 0, nextChange = -1, moveTimer = None,
     targetPosition = coord_ZERO, gaussSpeed = 1, speedMean = 1, speedStdDev = 0, angle = 0, angleMean = 0, angleStdDev = 0,
     alpha = 1 / 2, margin = 10\<rparr>"

theorem border_hugging_corners_witness:
  "0 < cos (angleMean (preventBorderHugging (demo_gauss 95 5))) \<and> cos (angleMean (preventBorderHugging (demo_gauss 95 95))) < 0"
  using border_hugging_corners [of "demo_gauss 95 5", OF _ _ _ refl] border_hugging_corners [of "demo_gauss 95 95", OF _ _ _ refl]
  by (simp add: demo_gauss_def near_defs mkCoord_def)

section \<open>BonnMotionMobility\<close>

text \<open>
  A line of the trace file as a list of numbers; reading beyond its end, which is undefined
  in C++, is a fault.
\<close>

record bonn = segments +
  is3D :: bool
  line :: "real list"
  currentLine :: nat
  maxSpeed :: real

definition vec :: "bonn \<Rightarrow> nat \<Rightarrow> real result" where
  "vec s i = (if i < length (line s) then Inr (line s ! i) else Inl OutOfRange)"

definition bonn_setInitialPosition :: "bonn \<Rightarrow> bonn" where
  "bonn_setInitialPosition s =
     (if length (line s) \<ge> 3 then s\<lparr>lastPosition := (lastPosition s)\<lparr>cx := line s ! 1, cy := line s ! 2\<rparr>\<rparr> else s)"

definition bonn_setTargetPosition :: "(real \<Rightarrow> real) \<Rightarrow> bonn \<Rightarrow> bonn result" where
  "bonn_setTargetPosition simtime s =
     (if currentLine s + (if is3D s then 3 else 2) \<ge> length (line s)
      then Inr (s\<lparr>nextChange := -1, stationary := True, targetPosition := lastPosition s\<rparr>)
      else
        rbind (vec s (currentLine s)) (\<lambda>t.
        rbind (vec s (currentLine s + 1)) (\<lambda>x.
        rbind (vec s (currentLine s + 2)) (\<lambda>y.
        rbind (if is3D s then vec s (currentLine s + 3) else Inr 0) (\<lambda>z.
        Inr (s\<lparr>nextChange := simtime t, targetPosition := mkCoord x y z, currentLine := currentLine s + (if is3D s then 4 else 3)\<rparr>))))))"

definition bonn_move :: "(real \<Rightarrow> real) \<Rightarrow> real \<Rightarrow> bonn \<Rightarrow> bonn result" where
  "bonn_move simtime now s = rbind (lineMove (bonn_setTargetPosition simtime) now s) raiseErrorIfOutside"

text \<open>\<open>BonnMotionFile::getLine\<close>: a negative number gives the first line.\<close>

definition getLine :: "int \<Rightarrow> real list list \<Rightarrow> real list option" where
  "getLine nodeId file = (if nat nodeId < length file then Some (file ! nat nodeId) else None)"

text \<open>The loop of \<open>computeMaxSpeed\<close> from the index \<open>i\<close> on.\<close>

function speedLoop :: "bonn \<Rightarrow> nat \<Rightarrow> coord \<Rightarrow> real \<Rightarrow> real \<Rightarrow> real result" where
  "speedLoop s i lastPos lastTime fastest =
     (if i < length (line s) then
        rbind (vec s i) (\<lambda>t.
        rbind (vec s (i + 1)) (\<lambda>x.
        rbind (vec s (i + 2)) (\<lambda>y.
        rbind (if is3D s then vec s (i + 3) else Inr 0) (\<lambda>z.
        if t - lastTime = 0 then Inl DivisionByZero
        else
          let currPos = mkCoord x y z; sp = coord_distance currPos lastPos / (t - lastTime)
          in speedLoop s (i + (if is3D s then 4 else 3)) currPos t (if sp > fastest then sp else fastest)))))
      else Inr fastest)"
  by pat_completeness auto
termination by (relation "measure (\<lambda>(s, i, _). length (line s) - i)") auto

definition computeMaxSpeed :: "bonn \<Rightarrow> bonn result" where
  "computeMaxSpeed s =
     rbind (vec s 0) (\<lambda>t.
     rbind (vec s 1) (\<lambda>x.
     rbind (vec s 2) (\<lambda>y.
     rbind (if is3D s then vec s 3 else Inr 0) (\<lambda>z.
     rbind (speedLoop s (if is3D s then 4 else 3) (mkCoord x y z) t (maxSpeed s)) (\<lambda>fastest.
     Inr (s\<lparr>maxSpeed := fastest\<rparr>))))))"

text \<open>
  An empty line, or one that ends within a tuple, is read beyond its end, although the steps that
  use the line afterwards check its length.
\<close>

lemma computeMaxSpeed_short: "length (line s) < 3 \<Longrightarrow> computeMaxSpeed s = Inl OutOfRange"
  by (auto simp: computeMaxSpeed_def vec_def numeral_3_eq_3 less_Suc_eq)

lemma bonn_setTargetPosition_safe: "\<exists>s'. bonn_setTargetPosition simtime s = Inr s'"
  by (auto simp: bonn_setTargetPosition_def vec_def)

text \<open>\<open>initialize\<close>; \<open>index\<close> is the index of the containing node.\<close>

definition bonn_initialize :: "coord \<Rightarrow> coord \<Rightarrow> real \<Rightarrow> bool \<Rightarrow> int \<Rightarrow> int \<Rightarrow> real list list \<Rightarrow> bonn result" where
  "bonn_initialize lo hi interval threeD nodeId index file =
     (case getLine (if nodeId = -1 then index else nodeId) file of
        None \<Rightarrow> Inl (RuntimeError ''Invalid nodeId'')
      | Some l \<Rightarrow>
          computeMaxSpeed \<lparr>constraintAreaMin = lo, constraintAreaMax = hi, lastPosition = coord_ZERO, updateInterval = interval,
             stationary = False, lastVelocity = Some coord_ZERO, lastUpdate = 0, nextChange = -1, moveTimer = None,
             targetPosition = coord_ZERO, is3D = threeD, line = l, currentLine = 0, maxSpeed = 0\<rparr>)"

section \<open>A trace is followed\<close>

text \<open>The tuple \<open>k\<close> of a line, and the ends of \<open>k\<close> segments, each at its time.\<close>

definition tuple_at :: "bonn \<Rightarrow> nat \<Rightarrow> real \<times> coord" where
  "tuple_at s k =
     (let w = (if is3D s then 4 else 3); l = line s
      in (l ! (w * k), mkCoord (l ! (w * k + 1)) (l ! (w * k + 2)) (if is3D s then l ! (w * k + 3) else 0)))"

fun bonn_segments :: "(real \<Rightarrow> real) \<Rightarrow> nat \<Rightarrow> bonn \<Rightarrow> bonn result" where
  "bonn_segments simtime 0 s = Inr s"
| "bonn_segments simtime (Suc k) s = rbind (bonn_segments simtime k s) (\<lambda>s'. bonn_move simtime (nextChange s') s')"

text \<open>The node is on its way to the tuple \<open>k\<close>.\<close>

definition heading_to :: "(real \<Rightarrow> real) \<Rightarrow> bonn \<Rightarrow> nat \<Rightarrow> bonn \<Rightarrow> bool" where
  "heading_to simtime a k s \<longleftrightarrow> is3D s = is3D a \<and> line s = line a \<and>
     constraintAreaMin s = constraintAreaMin a \<and> constraintAreaMax s = constraintAreaMax a \<and>
     currentLine s = (if is3D a then 4 else 3) * Suc k \<and>
     nextChange s = simtime (fst (tuple_at a k)) \<and> targetPosition s = snd (tuple_at a k)"

lemma setTarget_heading:
  assumes "length (line a) = (if is3D a then 4 else 3) * n" and "k < n"
    and "is3D s = is3D a" "line s = line a" "constraintAreaMin s = constraintAreaMin a" "constraintAreaMax s = constraintAreaMax a"
    and "currentLine s = (if is3D a then 4 else 3) * k"
  shows "\<exists>s'. bonn_setTargetPosition simtime s = Inr s' \<and> heading_to simtime a k s' \<and> lastPosition s' = lastPosition s"
proof -
  have "(if is3D a then 4 else 3) * k + (if is3D a then 3 else 2) < length (line a)"
    using assms(1,2) by (auto split: if_splits)
  with assms show ?thesis
    by (auto simp: bonn_setTargetPosition_def vec_def heading_to_def tuple_at_def Let_def split: if_splits)
qed

text \<open>
  C33. A node is where its trace says: for a line of complete tuples inside the area, the segment
  that ends at the time of a tuple ends at its position, tuple by tuple, without an error and
  without reading beyond the line; after the last tuple the node rests there.
\<close>
theorem bonn_follows_trace:
  assumes "length (line a) = (if is3D a then 4 else 3) * n" and "k < n" and "currentLine a = 0"
    and "\<forall>j < n. inside a (snd (tuple_at a j))"
    and "bonn_setTargetPosition simtime a = Inr s"
  shows "\<exists>s1 s2. bonn_segments simtime k (setVelocity now s) = Inr s1 \<and> nextChange s1 = simtime (fst (tuple_at a k)) \<and>
    bonn_move simtime (nextChange s1) s1 = Inr s2 \<and> lastPosition s2 = snd (tuple_at a k) \<and>
    (Suc k = n \<longrightarrow> stationary s2 \<and> nextChange s2 = -1)"
proof -
  have h0: "heading_to simtime a 0 (setVelocity now s)"
    using setTarget_heading [OF assms(1), of 0 a simtime] assms(2,3,5) by (auto simp: heading_to_def setVelocity_def)
  have step: "\<exists>b'. bonn_move simtime (nextChange b) b = Inr b' \<and> lastPosition b' = snd (tuple_at a j) \<and>
      (if Suc j = n then stationary b' \<and> nextChange b' = -1 else heading_to simtime a (Suc j) b')"
    if "heading_to simtime a j b" "j < n" for j b
  proof -
    let ?b = "b\<lparr>lastPosition := targetPosition b\<rparr>"
    have ins: "raiseErrorIfOutside c = Inr c" if "lastPosition c = snd (tuple_at a j)" "constraintAreaMin c = constraintAreaMin a"
      "constraintAreaMax c = constraintAreaMax a" for c :: bonn
      using assms(4) \<open>j < n\<close> that by (simp add: raiseErrorIfOutside_def isOutside_iff)
    show ?thesis
    proof (cases "Suc j = n")
      case True
      then have "bonn_setTargetPosition simtime ?b = Inr (?b\<lparr>nextChange := -1, stationary := True, targetPosition := lastPosition ?b\<rparr>)"
        using \<open>heading_to simtime a j b\<close> assms(1) by (auto simp: bonn_setTargetPosition_def heading_to_def split: if_splits)
      with True \<open>heading_to simtime a j b\<close> ins show ?thesis
        by (simp add: bonn_move_def lineMove_def setVelocity_def heading_to_def)
    next
      case False
      with \<open>j < n\<close> have "Suc j < n" by simp
      from setTarget_heading [OF assms(1) this, of ?b simtime] \<open>heading_to simtime a j b\<close> obtain c where
        "bonn_setTargetPosition simtime ?b = Inr c" "heading_to simtime a (Suc j) c" "lastPosition c = targetPosition b"
        by (auto simp: heading_to_def)
      with False \<open>heading_to simtime a j b\<close> ins show ?thesis
        by (simp add: bonn_move_def lineMove_def setVelocity_def heading_to_def)
    qed
  qed
  have "\<exists>s1. bonn_segments simtime k (setVelocity now s) = Inr s1 \<and> heading_to simtime a k s1" using assms(2)
  proof (induction k)
    case (Suc k)
    then obtain s1 where s1: "bonn_segments simtime k (setVelocity now s) = Inr s1" "heading_to simtime a k s1" by auto
    from step [OF s1(2)] Suc.prems s1(1) show ?case by auto
  qed (use h0 in simp)
  then obtain s1 where s1: "bonn_segments simtime k (setVelocity now s) = Inr s1" "heading_to simtime a k s1" by blast
  from step [OF s1(2) assms(2)] s1 show ?thesis by (auto simp: heading_to_def split: if_splits)
qed

theorem bonn_follows_trace_witness:
  "\<exists>a s s1 s2. bonn_initialize (mkCoord 0 0 0) (mkCoord 9 9 0) 1 False 0 0 [[1, 2, 3, 4, 5, 6]] = Inr a \<and>
     bonn_setTargetPosition (\<lambda>t. t) a = Inr s \<and> bonn_segments (\<lambda>t. t) 1 (setVelocity 0 s) = Inr s1 \<and> nextChange s1 = 4 \<and>
     bonn_move (\<lambda>t. t) 4 s1 = Inr s2 \<and> lastPosition s2 = mkCoord 5 6 0 \<and> stationary s2"
proof -
  let ?l = "[1, 2, 3, 4, 5, 6]"
  obtain a where a: "bonn_initialize (mkCoord 0 0 0) (mkCoord 9 9 0) 1 False 0 0 [?l] = Inr a"
    and p: "is3D a = False" "line a = ?l" "currentLine a = 0" "constraintAreaMin a = mkCoord 0 0 0" "constraintAreaMax a = mkCoord 9 9 0"
    by (simp add: bonn_initialize_def getLine_def computeMaxSpeed_def vec_def Let_def)
  obtain s where s: "bonn_setTargetPosition (\<lambda>t. t) a = Inr s" using bonn_setTargetPosition_safe by blast
  have t: "tuple_at a 0 = (1, mkCoord 2 3 0)" "tuple_at a 1 = (4, mkCoord 5 6 0)" by (simp_all add: tuple_at_def p)
  have "inside a (snd (tuple_at a j))" if "j < 2" for j
  proof -
    from that have "j = 0 \<or> j = 1" by linarith
    then show ?thesis using t p(4,5) by (auto simp: isInBoundary_def)
  qed
  moreover have "length (line a) = (if is3D a then 4 else 3) * 2" by (simp add: p)
  ultimately show ?thesis
    using bonn_follows_trace [of a 2 1 "\<lambda>t. t" s 0] a s t p by fastforce
qed

end
