(* ===== verification/Tcp_Sequence.thy ===== *)
theory Tcp_Sequence
  imports Fadia_Prelude "HOL-Library.Word"
begin

text \<open>
  Sequence numbers of TCP (\<open>TcpHeader.h\<close>): 32-bit words compared modulo the wrap-around, and the
  lemmas that turn the comparisons into comparisons of natural numbers inside a window of
  less than half the number space.
\<close>

type_synonym seq = "32 word"

definition seqLess :: "seq \<Rightarrow> seq \<Rightarrow> bool" where
  "seqLess a b \<longleftrightarrow> a \<noteq> b \<and> b - a < 0x80000000"

definition seqLE :: "seq \<Rightarrow> seq \<Rightarrow> bool" where
  "seqLE a b \<longleftrightarrow> b - a < 0x80000000"

definition seqGreater :: "seq \<Rightarrow> seq \<Rightarrow> bool" where
  "seqGreater a b \<longleftrightarrow> a \<noteq> b \<and> a - b < 0x80000000"

definition seqGE :: "seq \<Rightarrow> seq \<Rightarrow> bool" where
  "seqGE a b \<longleftrightarrow> a - b < 0x80000000"

definition seqMin :: "seq \<Rightarrow> seq \<Rightarrow> seq" where
  "seqMin a b = (if b - a < 0x80000000 then a else b)"

definition seqMax :: "seq \<Rightarrow> seq \<Rightarrow> seq" where
  "seqMax a b = (if a - b < 0x80000000 then a else b)"

text \<open>The distance from one number forward to another, and half the number space.\<close>

definition fwd :: "seq \<Rightarrow> seq \<Rightarrow> nat" where
  "fwd a b = unat (b - a)"

abbreviation half :: nat where
  "half \<equiv> 2147483648"

abbreviation full :: nat where
  "full \<equiv> 4294967296"

lemma seqLE_fwd: "seqLE a b \<longleftrightarrow> fwd a b < half"
  by (simp add: seqLE_def fwd_def word_less_nat_alt)

lemma seqLess_fwd: "seqLess a b \<longleftrightarrow> a \<noteq> b \<and> fwd a b < half"
  by (simp add: seqLess_def fwd_def word_less_nat_alt)

lemma seqGreater_less: "seqGreater a b = seqLess b a"
  by (auto simp: seqGreater_def seqLess_def)

lemma seqGE_LE: "seqGE a b = seqLE b a"
  by (simp add: seqGE_def seqLE_def)

lemma seqMin_LE: "seqMin a b = (if seqLE a b then a else b)"
  by (simp add: seqMin_def seqLE_def)

lemma seqMax_LE: "seqMax a b = (if seqLE b a then a else b)"
  by (simp add: seqMax_def seqLE_def)

lemma fwd_self [simp]: "fwd a a = 0"
  by (simp add: fwd_def)

lemma fwd_zero [simp]: "fwd a b = 0 \<longleftrightarrow> a = b"
  by (auto simp: fwd_def unat_eq_0)

lemma fwd_pos [simp]: "0 < fwd a b \<longleftrightarrow> a \<noteq> b"
  by (simp flip: neq0_conv)

lemma fwd_bound: "fwd a b < full"
  using unsigned_less [of "b - a"] by (simp add: fwd_def)

lemma fwd_sum: "fwd a c = (fwd a b + fwd b c) mod full"
proof -
  have "unat ((b - a) + (c - b)) = (unat (b - a) + unat (c - b)) mod full"
    by (simp only: unat_word_ariths) simp
  then show ?thesis by (simp add: fwd_def)
qed

lemma fwd_trans: "fwd a b + fwd b c < full \<Longrightarrow> fwd a c = fwd a b + fwd b c"
  by (simp add: fwd_sum [of a c b])

lemma fwd_flip:
  assumes "a \<noteq> b"
  shows "fwd a b + fwd b a = full"
proof -
  have "full dvd fwd a b + fwd b a" using fwd_sum [of a a b] by (simp add: mod_eq_0_iff_dvd)
  then obtain k where k: "fwd a b + fwd b a = full * k" by (elim dvdE)
  moreover have "0 < fwd a b" "0 < fwd b a" using assms by (auto simp: neq0_conv [symmetric])
  moreover have "fwd a b < full" "fwd b a < full" by (rule fwd_bound)+
  ultimately have "0 < k" "k < 2" by linarith+
  then show ?thesis using k by simp
qed

lemma fwd_add: "fwd a (a + of_nat n) = n mod (full)"
  by (simp add: fwd_def unat_of_nat)

lemma add_fwd: "a + of_nat (fwd a b) = b"
  by (simp add: fwd_def)

lemma fwd_split:
  assumes "fwd a b \<le> fwd a c"
  shows "fwd a c = fwd a b + fwd b c"
proof (rule ccontr)
  assume neq: "fwd a c \<noteq> fwd a b + fwd b c"
  then have "full \<le> fwd a b + fwd b c" using fwd_trans [of a b c] by linarith
  then have "fwd a c = fwd a b + fwd b c - full"
    using fwd_sum [of a c b] fwd_bound [of a b] fwd_bound [of b c] by (simp add: mod_if)
  then show False using assms fwd_bound [of b c] \<open>full \<le> fwd a b + fwd b c\<close> by linarith
qed

lemma fwd_inj: "fwd w x = fwd w y \<longleftrightarrow> x = y"
  using fwd_split [of w x y] by auto

text \<open>Inside a window of less than half the number space that begins at \<open>w\<close>, the comparisons are
  those of the distances from \<open>w\<close>.\<close>

lemma window_order:
  assumes "fwd w x < half" and "fwd w y < half"
  shows "seqLE x y \<longleftrightarrow> fwd w x \<le> fwd w y" and "seqLess x y \<longleftrightarrow> fwd w x < fwd w y"
proof -
  have up: "fwd a b = fwd w b - fwd w a" "fwd a b < half" if "fwd w a \<le> fwd w b" "fwd w b < half" for a b
    using fwd_split [OF that(1)] that by linarith+
  show le: "seqLE x y \<longleftrightarrow> fwd w x \<le> fwd w y"
  proof (cases "fwd w x \<le> fwd w y")
    case True
    then show ?thesis using up(2) [OF True assms(2)] by (simp add: seqLE_fwd)
  next
    case False
    then have "fwd y x < half" "x \<noteq> y" using up(2) [OF _ assms(1), of y] by auto
    then have "half < fwd x y" using fwd_flip [of x y] by linarith
    then show ?thesis using False by (simp add: seqLE_fwd)
  qed
  then show "seqLess x y \<longleftrightarrow> fwd w x < fwd w y"
    using fwd_inj [of w x y] by (auto simp: seqLess_def seqLE_def)
qed

text \<open>An \<open>ASSERT\<close> of the code throws when its condition does not hold.\<close>

abbreviation failed :: "'a result" where
  "failed \<equiv> Inl (RuntimeError ''ASSERT'')"

definition require :: "bool \<Rightarrow> 'a result \<Rightarrow> 'a result" where
  "require b r = (if b then r else failed)"

lemma require_True [simp]: "require True r = r"
  by (simp add: require_def)

end
