(* ===== verification/Tcp_Sack_Queue.thy ===== *)
theory Tcp_Sack_Queue
  imports Tcp_Sequence
begin

text \<open>
  The retransmission queue of a sender with selective acknowledgements (\<open>TcpSackRexmitQueue\<close>): the
  sent bytes that are not acknowledged, as a list of adjacent regions with two flags each.

  The abstraction \<open>flags\<close> is the list of the flags of the single bytes. Every operation is
  shown to do to that list what its comment in the header file says.
\<close>

section \<open>The queue\<close>

record region =
  beginSeqNum :: seq
  endSeqNum :: seq
  sacked :: bool
  rexmitted :: bool

record rexmit_queue =
  rexmitQueue :: "region list"
  qbegin :: seq
  qend :: seq

definition rexmit_queue0 :: rexmit_queue where
  "rexmit_queue0 = \<lparr>rexmitQueue = [], qbegin = 0, qend = 0\<rparr>"

definition rexmit_init :: "seq \<Rightarrow> rexmit_queue \<Rightarrow> rexmit_queue" where
  "rexmit_init seqNum q = q\<lparr>qbegin := seqNum, qend := seqNum\<rparr>"

fun checkRegions :: "seq \<Rightarrow> region list \<Rightarrow> seq \<Rightarrow> bool" where
  "checkRegions b [] e \<longleftrightarrow> b = e"
| "checkRegions b (r # rs) e \<longleftrightarrow> b = beginSeqNum r \<and> seqLess (beginSeqNum r) (endSeqNum r) \<and> checkRegions (endSeqNum r) rs e"

definition checkQueue :: "rexmit_queue \<Rightarrow> bool" where
  "checkQueue q = checkRegions (qbegin q) (rexmitQueue q) (qend q)"

text \<open>\<open>while (i != end && seqLE(i->endSeqNum, x)) i++\<close> passes the regions that end before \<open>x\<close>.\<close>

abbreviation passed :: "seq \<Rightarrow> region list \<Rightarrow> region list" where
  "passed x \<equiv> takeWhile (\<lambda>r. seqLE (endSeqNum r) x)"

abbreviation reached :: "seq \<Rightarrow> region list \<Rightarrow> region list" where
  "reached x \<equiv> dropWhile (\<lambda>r. seqLE (endSeqNum r) x)"

definition covers :: "seq \<Rightarrow> region \<Rightarrow> bool" where
  "covers x r \<longleftrightarrow> seqLE (beginSeqNum r) x \<and> seqLess x (endSeqNum r)"

definition discardUpTo :: "seq \<Rightarrow> rexmit_queue \<Rightarrow> rexmit_queue result" where
  "discardUpTo seqNum q =
     require (seqLE (qbegin q) seqNum \<and> seqLE seqNum (qend q))
       (rbind (case reached seqNum (rexmitQueue q) of
                 [] \<Rightarrow> Inr []
               | r # rs \<Rightarrow> require (covers seqNum r) (Inr (r\<lparr>beginSeqNum := seqNum\<rparr> # rs))) (\<lambda>rs.
        let q' = q\<lparr>rexmitQueue := rs, qbegin := seqNum\<rparr>
        in require (checkQueue q') (Inr q')))"

text \<open>
  The common start of \<open>enqueueSentData\<close> and \<open>setSackedBit\<close>: find the region of \<open>from\<close> and cut it
  there; the regions before and behind the cut.
\<close>

definition chunk :: "seq \<Rightarrow> region list \<Rightarrow> (region list \<times> region list) result" where
  "chunk fromSeqNum rs =
     (case reached fromSeqNum rs of
        [] \<Rightarrow> failed
      | r # post \<Rightarrow>
          require (covers fromSeqNum r)
            (Inr (if beginSeqNum r \<noteq> fromSeqNum
                  then (passed fromSeqNum rs @ [r\<lparr>endSeqNum := fromSeqNum\<rparr>], r\<lparr>beginSeqNum := fromSeqNum\<rparr> # post)
                  else (passed fromSeqNum rs, r # post))))"

text \<open>The part that is sent again: whole regions are marked, the last one is cut or extended.\<close>

definition resend :: "seq \<Rightarrow> seq \<Rightarrow> region list \<Rightarrow> region list result" where
  "resend fromSeqNum toSeqNum rs =
     (let mid = passed toSeqNum rs; post = reached toSeqNum rs;
          fromSeqNum' = (if mid = [] then fromSeqNum else endSeqNum (last mid));
          marked = map (rexmitted_update (\<lambda>_. True)) mid
      in if fromSeqNum' = toSeqNum then require (mid \<noteq> []) (Inr (marked @ post))
         else case post of
           [] \<Rightarrow> Inr (marked @ [\<lparr>beginSeqNum = fromSeqNum', endSeqNum = toSeqNum, sacked = False, rexmitted = False\<rparr>])
         | r # rest \<Rightarrow>
             require (seqLess (beginSeqNum r) toSeqNum)
               (Inr (marked @ \<lparr>beginSeqNum = fromSeqNum', endSeqNum = toSeqNum, sacked = sacked r, rexmitted = True\<rparr>
                       # r\<lparr>beginSeqNum := toSeqNum\<rparr> # rest)))"

definition enqueueSentData :: "seq \<Rightarrow> seq \<Rightarrow> rexmit_queue \<Rightarrow> rexmit_queue result" where
  "enqueueSentData fromSeqNum toSeqNum q =
     require (seqLE (qbegin q) fromSeqNum \<and> seqLE fromSeqNum (qend q))
       (require (seqLess fromSeqNum toSeqNum)
         (rbind (if rexmitQueue q = [] \<or> qend q = fromSeqNum
                 then Inr (rexmitQueue q @
                        [\<lparr>beginSeqNum = fromSeqNum, endSeqNum = toSeqNum, sacked = False, rexmitted = False\<rparr>])
                 else rbind (chunk fromSeqNum (rexmitQueue q)) (\<lambda>(pre, post).
                      rbind (resend fromSeqNum toSeqNum post) (\<lambda>rs. Inr (pre @ rs)))) (\<lambda>rs.
          let q' = q\<lparr>rexmitQueue := rs, qbegin := beginSeqNum (hd rs), qend := endSeqNum (last rs)\<rparr>
          in require (checkQueue q') (Inr q'))))"

definition clip :: "seq \<Rightarrow> seq \<Rightarrow> seq" where
  "clip b x = (if seqLess x b then b else x)"

text \<open>The part that is acknowledged: whole regions are marked, the last one is cut.\<close>

definition acknowledge :: "seq \<Rightarrow> seq \<Rightarrow> region list \<Rightarrow> region list" where
  "acknowledge fromSeqNum toSeqNum rs =
     map (\<lambda>r. if seqGE (beginSeqNum r) fromSeqNum then r\<lparr>sacked := True\<rparr> else r) (passed toSeqNum rs) @
     (case reached toSeqNum rs of
        [] \<Rightarrow> []
      | r # rest \<Rightarrow>
          if seqLess (beginSeqNum r) toSeqNum \<and> seqLess toSeqNum (endSeqNum r)
          then r\<lparr>endSeqNum := toSeqNum, sacked := True\<rparr> # r\<lparr>beginSeqNum := toSeqNum\<rparr> # rest
          else r # rest)"

definition setSackedBit :: "seq \<Rightarrow> seq \<Rightarrow> rexmit_queue \<Rightarrow> rexmit_queue result" where
  "setSackedBit fromSeqNum0 toSeqNum q =
     (let fromSeqNum = clip (qbegin q) fromSeqNum0
      in require (seqLess fromSeqNum (qend q))
         (require (seqLess (qbegin q) toSeqNum \<and> seqLE toSeqNum (qend q))
         (require (seqLess fromSeqNum toSeqNum)
         (rbind (if rexmitQueue q = [] then Inr []
                 else rbind (chunk fromSeqNum (rexmitQueue q)) (\<lambda>(pre, post).
                      Inr (pre @ acknowledge fromSeqNum toSeqNum post))) (\<lambda>rs.
          let q' = q\<lparr>rexmitQueue := rs\<rparr>
          in require (checkQueue q') (Inr q'))))))"

section \<open>Questions\<close>

definition getSackedBit :: "seq \<Rightarrow> rexmit_queue \<Rightarrow> bool result" where
  "getSackedBit seqNum q =
     require (seqLE (qbegin q) seqNum \<and> seqLE seqNum (qend q))
       (if qend q = seqNum then Inr False
        else case reached seqNum (rexmitQueue q) of
          [] \<Rightarrow> failed
        | r # rs \<Rightarrow> require (covers seqNum r) (Inr (sacked r)))"

definition getHighest :: "(region \<Rightarrow> bool) \<Rightarrow> rexmit_queue \<Rightarrow> seq" where
  "getHighest P q = (case List.find P (rev (rexmitQueue q)) of Some r \<Rightarrow> endSeqNum r | None \<Rightarrow> qbegin q)"

definition getHighestSackedSeqNum :: "rexmit_queue \<Rightarrow> seq" where
  "getHighestSackedSeqNum = getHighest sacked"

definition getHighestRexmittedSeqNum :: "rexmit_queue \<Rightarrow> seq" where
  "getHighestRexmittedSeqNum = getHighest rexmitted"

fun skipRegions :: "seq \<Rightarrow> region list \<Rightarrow> 32 word \<Rightarrow> 32 word result" where
  "skipRegions fromSeqNum [] bytes = Inr bytes"
| "skipRegions fromSeqNum (r # rs) bytes =
     (if sacked r \<or> rexmitted r
      then require (covers fromSeqNum r) (skipRegions (endSeqNum r) rs (bytes + (endSeqNum r - fromSeqNum)))
      else Inr bytes)"

definition checkRexmitQueueForSackedOrRexmittedSegments :: "seq \<Rightarrow> rexmit_queue \<Rightarrow> 32 word result" where
  "checkRexmitQueueForSackedOrRexmittedSegments fromSeqNum q =
     require (seqLE (qbegin q) fromSeqNum \<and> seqLE fromSeqNum (qend q))
       (if rexmitQueue q = [] \<or> qend q = fromSeqNum then Inr 0
        else skipRegions fromSeqNum (reached fromSeqNum (rexmitQueue q)) 0)"

definition resetSackedBit :: "rexmit_queue \<Rightarrow> rexmit_queue" where
  "resetSackedBit q = q\<lparr>rexmitQueue := map (sacked_update (\<lambda>_. False)) (rexmitQueue q)\<rparr>"

definition resetRexmittedBit :: "rexmit_queue \<Rightarrow> rexmit_queue" where
  "resetRexmittedBit q = q\<lparr>rexmitQueue := map (rexmitted_update (\<lambda>_. False)) (rexmitQueue q)\<rparr>"

fun addSacked :: "region list \<Rightarrow> 32 word \<Rightarrow> 32 word" where
  "addSacked [] bytes = bytes"
| "addSacked (r # rs) bytes = addSacked rs (if sacked r then bytes + (endSeqNum r - beginSeqNum r) else bytes)"

definition getTotalAmountOfSackedBytes :: "rexmit_queue \<Rightarrow> 32 word" where
  "getTotalAmountOfSackedBytes q = addSacked (rexmitQueue q) 0"

definition getAmountOfSackedBytes :: "seq \<Rightarrow> rexmit_queue \<Rightarrow> 32 word result" where
  "getAmountOfSackedBytes fromSeqNum q =
     require (seqLE (qbegin q) fromSeqNum \<and> seqLE fromSeqNum (qend q))
       (let back = rev (rexmitQueue q);
            bytes = addSacked (takeWhile (\<lambda>r. seqLE fromSeqNum (beginSeqNum r)) back) 0
        in Inr (case dropWhile (\<lambda>r. seqLE fromSeqNum (beginSeqNum r)) back of
             [] \<Rightarrow> bytes
           | r # rs \<Rightarrow>
               if seqLess (beginSeqNum r) fromSeqNum \<and> seqLess fromSeqNum (endSeqNum r) \<and> sacked r
               then bytes + (endSeqNum r - fromSeqNum) else bytes))"

fun countSacks :: "bool \<Rightarrow> region list \<Rightarrow> 32 word \<Rightarrow> 32 word" where
  "countSacks prevSacked [] counter = counter"
| "countSacks prevSacked (r # rs) counter =
     countSacks (sacked r) rs (if sacked r \<and> \<not> prevSacked then counter + 1 else counter)"

definition getNumOfDiscontiguousSacks :: "seq \<Rightarrow> rexmit_queue \<Rightarrow> 32 word result" where
  "getNumOfDiscontiguousSacks fromSeqNum q =
     require (seqLE (qbegin q) fromSeqNum \<and> seqLE fromSeqNum (qend q))
       (Inr (if rexmitQueue q = [] \<or> fromSeqNum = qend q then 0
             else countSacks False (reached fromSeqNum (rexmitQueue q)) 0))"

definition checkSackBlock :: "seq \<Rightarrow> rexmit_queue \<Rightarrow> (32 word \<times> bool \<times> bool) result" where
  "checkSackBlock fromSeqNum q =
     require (seqLE (qbegin q) fromSeqNum \<and> seqLess fromSeqNum (qend q))
       (case reached fromSeqNum (rexmitQueue q) of
          [] \<Rightarrow> failed
        | r # rs \<Rightarrow> require (covers fromSeqNum r) (Inr (endSeqNum r - fromSeqNum, sacked r, rexmitted r)))"

section \<open>Bytes\<close>

definition len :: "region \<Rightarrow> nat" where
  "len r = fwd (beginSeqNum r) (endSeqNum r)"

definition flags :: "region list \<Rightarrow> (bool \<times> bool) list" where
  "flags rs = concat (map (\<lambda>r. replicate (len r) (sacked r, rexmitted r)) rs)"

text \<open>
  The assertion of the code holds, and the queue holds less than half the number space (TCP
  never has more than a window of \<open>2 ^ 30\<close> bytes under way).
\<close>

definition queue_ok :: "rexmit_queue \<Rightarrow> bool" where
  "queue_ok q \<longleftrightarrow> checkQueue q \<and> length (flags (rexmitQueue q)) < half"

lemma flags_simps [simp]:
  "flags [] = []"
  "flags (r # rs) = replicate (len r) (sacked r, rexmitted r) @ flags rs"
  "flags (rs @ rs') = flags rs @ flags rs'"
  by (simp_all add: flags_def)

lemma checkRegions_append: "checkRegions b (xs @ ys) e \<longleftrightarrow> (\<exists>m. checkRegions b xs m \<and> checkRegions m ys e)"
  by (induction xs arbitrary: b) auto

lemma fwd_chain: "checkRegions b rs e \<Longrightarrow> length (flags rs) < full \<Longrightarrow> fwd b e = length (flags rs)"
proof (induction rs arbitrary: b)
  case (Cons r rs)
  then have "fwd (endSeqNum r) e = length (flags rs)" "fwd b (endSeqNum r) = len r" by (simp_all add: len_def)
  then show ?case using fwd_trans [of b "endSeqNum r" e] Cons.prems(2) by simp
qed simp

lemma queue_fwd:
  assumes "queue_ok q"
  shows "length (flags (rexmitQueue q)) = fwd (qbegin q) (qend q)"
  using fwd_chain [of "qbegin q" "rexmitQueue q" "qend q"] assms by (simp add: queue_ok_def checkQueue_def)

text \<open>The search for a number inside the queue: what is passed, and the region it stops in.\<close>

lemma search:
  assumes "checkRegions b rs e" and "length (flags rs) < half" and "fwd b x \<le> length (flags rs)"
  shows "\<exists>m. checkRegions b (passed x rs) m \<and> checkRegions m (reached x rs) e \<and> fwd b x = length (flags (passed x rs)) + fwd m x \<and>
    (case reached x rs of [] \<Rightarrow> x = m | r # post \<Rightarrow> fwd m x < len r)"
  using assms
proof (induction rs arbitrary: b)
  case Nil
  then show ?case by simp
next
  case (Cons r rs)
  let ?m = "endSeqNum r"
  have r: "b = beginSeqNum r" "checkRegions ?m rs e" "len r = fwd b ?m" using Cons.prems(1) by (auto simp: len_def)
  have "fwd b ?m < half" "fwd b x < half" using Cons.prems(2,3) r(3) by auto
  note le = window_order(1) [OF this]
  show ?case
  proof (cases "seqLE ?m x")
    case True
    then have x: "fwd b x = len r + fwd ?m x" using le r(3) fwd_split [of b ?m x] by simp
    then have "fwd ?m x \<le> length (flags rs)" "length (flags rs) < half" using Cons.prems(2,3) by auto
    from Cons.IH [OF r(2) this(2,1)] show ?thesis using True x Cons.prems(1) r(1,3) by (auto simp: add.assoc)
  next
    case False
    then have "fwd b x < len r" using le r(3) by simp
    then show ?thesis using False Cons.prems(1) by auto
  qed
qed

declare dropWhile_eq_Nil_conv [simp del] takeWhile_eq_all_conv [simp del]

lemma covers_iff:
  assumes "len r < half"
  shows "covers x r \<longleftrightarrow> fwd (beginSeqNum r) x < len r"
proof -
  have "seqLess x (endSeqNum r) \<longleftrightarrow> fwd (beginSeqNum r) x < len r" if "fwd (beginSeqNum r) x < half"
    using window_order(2) [OF that] assms by (simp add: len_def)
  then show ?thesis using assms by (auto simp: covers_def seqLE_fwd)
qed

lemma cut_region:
  assumes "covers x r" and "len r < half"
  shows "len r = fwd (beginSeqNum r) x + fwd x (endSeqNum r)"
  using assms fwd_split [of "beginSeqNum r" x "endSeqNum r"] by (simp add: covers_iff len_def)

lemma chunk_ok:
  assumes "checkRegions b rs e" and "length (flags rs) < half" and "fwd b x < length (flags rs)"
  shows "\<exists>pre post. chunk x rs = Inr (pre, post) \<and> checkRegions b pre x \<and> checkRegions x post e \<and>
    flags rs = flags pre @ flags post"
proof -
  from search [OF assms(1,2) less_imp_le [OF assms(3)]] obtain m where
    m: "checkRegions b (passed x rs) m" "checkRegions m (reached x rs) e" "fwd b x = length (flags (passed x rs)) + fwd m x"
    and stop: "case reached x rs of [] \<Rightarrow> x = m | r # post \<Rightarrow> fwd m x < len r"
    by blast
  have all: "flags rs = flags (passed x rs) @ flags (reached x rs)" by (simp flip: flags_simps(3))
  show ?thesis
  proof (cases "reached x rs")
    case Nil
    have "fwd m x < length (flags (reached x rs))" using m(3) all assms(3) by simp
    then show ?thesis unfolding Nil by simp
  next
    case (Cons r post)
    then have r: "beginSeqNum r = m" "seqLess m (endSeqNum r)" "checkRegions (endSeqNum r) post e" "fwd m x < len r"
      using m(2) stop by auto
    have "len r < half" using all Cons assms(2) by simp
    then have cov: "covers x r" and sum: "len r = fwd m x + fwd x (endSeqNum r)"
      using r cut_region [of x r] by (auto simp: covers_iff)
    show ?thesis
    proof (cases "m = x")
      case True
      then show ?thesis using Cons r m(1) cov all by (simp add: chunk_def)
    next
      case False
      then have "seqLess m x" "seqLess x (endSeqNum r)" using cov r(1) by (auto simp: covers_def seqLess_def seqLE_def)
      then show ?thesis
        using False Cons r m(1) cov all sum
        by (auto simp: chunk_def checkRegions_append len_def replicate_add)
    qed
  qed
qed

text \<open>All regions of a queue that ends before \<open>x\<close> are passed.\<close>

lemma passed_all:
  assumes "checkRegions b rs e" and "length (flags rs) \<le> fwd b x" and "fwd b x < half"
  shows "passed x rs = rs"
  using assms
proof (induction rs arbitrary: b)
  case (Cons r rs)
  then have r: "fwd b (endSeqNum r) = len r" "checkRegions (endSeqNum r) rs e" "len r \<le> fwd b x"
    by (auto simp: len_def)
  then have "fwd b x = len r + fwd (endSeqNum r) x" using fwd_split [of b "endSeqNum r" x] by simp
  then have "passed x rs = rs" using Cons.IH [OF r(2)] Cons.prems(2,3) by auto
  moreover have "seqLE (endSeqNum r) x" using window_order(1) [of b "endSeqNum r" x] r Cons.prems(3) by simp
  ultimately show ?case by simp
qed simp

section \<open>What the operations do to the bytes\<close>

abbreviation bytes :: "rexmit_queue \<Rightarrow> (bool \<times> bool) list" where
  "bytes q \<equiv> flags (rexmitQueue q)"

text \<open>Byte \<open>i\<close> and the \<open>n - 1\<close> bytes behind it are sent, some of them again; bytes \<open>i\<close> to \<open>j\<close> are acknowledged.\<close>

definition sent :: "nat \<Rightarrow> nat \<Rightarrow> (bool \<times> bool) list \<Rightarrow> (bool \<times> bool) list" where
  "sent i n fs = take i fs @ map (apsnd (\<lambda>_. True)) (take n (drop i fs)) @ drop (i + n) fs @ replicate (i + n - length fs) (False, False)"

definition acked :: "nat \<Rightarrow> nat \<Rightarrow> (bool \<times> bool) list \<Rightarrow> (bool \<times> bool) list" where
  "acked i j fs = take i fs @ map (apfst (\<lambda>_. True)) (take (j - i) (drop i fs)) @ drop j fs"

lemma in_queue:
  assumes "queue_ok q"
  shows "seqLE (qbegin q) x \<and> seqLE x (qend q) \<longleftrightarrow> fwd (qbegin q) x \<le> length (bytes q)"
    and "seqLE (qbegin q) x \<and> seqLess x (qend q) \<longleftrightarrow> fwd (qbegin q) x < length (bytes q)"
proof -
  have e: "fwd (qbegin q) (qend q) = length (bytes q)" "length (bytes q) < half"
    using queue_fwd [OF assms] assms by (simp_all add: queue_ok_def)
  then have w: "seqLE x (qend q) \<longleftrightarrow> fwd (qbegin q) x \<le> length (bytes q)" "seqLess x (qend q) \<longleftrightarrow> fwd (qbegin q) x < length (bytes q)"
    if "fwd (qbegin q) x < half"
    using window_order [OF that, of "qend q"] by simp_all
  show "seqLE (qbegin q) x \<and> seqLE x (qend q) \<longleftrightarrow> fwd (qbegin q) x \<le> length (bytes q)"
    using w(1) e(2) by (auto simp: seqLE_fwd [of "qbegin q"])
  show "seqLE (qbegin q) x \<and> seqLess x (qend q) \<longleftrightarrow> fwd (qbegin q) x < length (bytes q)"
    using w(2) e(2) by (auto simp: seqLE_fwd [of "qbegin q"])
qed

lemma queue_search:
  assumes "queue_ok q" and "fwd (qbegin q) x \<le> length (bytes q)"
  obtains m where "checkRegions (qbegin q) (passed x (rexmitQueue q)) m" and "checkRegions m (reached x (rexmitQueue q)) (qend q)"
    and "bytes q = flags (passed x (rexmitQueue q)) @ flags (reached x (rexmitQueue q))"
    and "fwd (qbegin q) x = length (flags (passed x (rexmitQueue q))) + fwd m x"
    and "case reached x (rexmitQueue q) of [] \<Rightarrow> x = m | r # post \<Rightarrow> fwd m x < len r"
proof -
  have "bytes q = flags (passed x (rexmitQueue q)) @ flags (reached x (rexmitQueue q))" by (simp flip: flags_simps(3))
  then show thesis
    using search [of "qbegin q" "rexmitQueue q" "qend q" x] assms that by (auto simp: queue_ok_def checkQueue_def)
qed

lemma discardUpTo_ok:
  assumes "queue_ok q" and "fwd (qbegin q) x \<le> length (bytes q)"
  shows "\<exists>q'. discardUpTo x q = Inr q' \<and> queue_ok q' \<and> qbegin q' = x \<and> qend q' = qend q \<and>
    bytes q' = drop (fwd (qbegin q) x) (bytes q)"
proof -
  obtain m where m: "checkRegions m (reached x (rexmitQueue q)) (qend q)"
      "bytes q = flags (passed x (rexmitQueue q)) @ flags (reached x (rexmitQueue q))"
      "fwd (qbegin q) x = length (flags (passed x (rexmitQueue q))) + fwd m x"
      "case reached x (rexmitQueue q) of [] \<Rightarrow> x = m | r # post \<Rightarrow> fwd m x < len r"
    using queue_search [OF assms] .
  have guard: "seqLE (qbegin q) x \<and> seqLE x (qend q)" using in_queue(1) [OF assms(1)] assms(2) by simp
  show ?thesis
  proof (cases "reached x (rexmitQueue q)")
    case Nil
    then have "x = qend q" using m(1,4) by simp
    then show ?thesis using guard Nil m(2,3) by (simp add: discardUpTo_def Let_def checkQueue_def queue_ok_def)
  next
    case (Cons r post)
    have "len r < half" using m(2) Cons assms(1) by (simp add: queue_ok_def)
    moreover have r: "m = beginSeqNum r" "checkRegions (endSeqNum r) post (qend q)" "fwd m x < len r" using m(1,4) Cons by auto
    ultimately have cov: "covers x r" and sum: "len r = fwd m x + fwd x (endSeqNum r)"
      using cut_region [of x r] by (auto simp: covers_iff)
    then have "bytes q = flags (passed x (rexmitQueue q)) @ replicate (fwd m x) (sacked r, rexmitted r) @
        replicate (fwd x (endSeqNum r)) (sacked r, rexmitted r) @ flags post"
      using m(2) Cons by (simp add: replicate_add)
    then show ?thesis using guard Cons cov r(2) m(3) assms(1)
      by (auto simp: discardUpTo_def Let_def checkQueue_def queue_ok_def covers_def len_def)
  qed
qed

lemma last_end: "checkRegions b rs e \<Longrightarrow> e = (if rs = [] then b else endSeqNum (last rs))"
  by (induction rs arbitrary: b) auto

lemma first_begin: "checkRegions b rs e \<Longrightarrow> rs \<noteq> [] \<Longrightarrow> beginSeqNum (hd rs) = b"
  by (cases rs) auto

lemma checkRegions_map [simp]:
  "(\<And>r. beginSeqNum (f r) = beginSeqNum r) \<Longrightarrow> (\<And>r. endSeqNum (f r) = endSeqNum r) \<Longrightarrow>
    checkRegions b (map f rs) e = checkRegions b rs e"
  by (induction rs arbitrary: b) auto

lemma flags_map:
  "(\<And>r. len (f r) = len r) \<Longrightarrow> (\<And>r. (sacked (f r), rexmitted (f r)) = g (sacked r, rexmitted r)) \<Longrightarrow>
    flags (map f rs) = map g (flags rs)"
  by (induction rs) auto

lemma flags_marked [simp]: "flags (map (rexmitted_update (\<lambda>_. True)) rs) = map (apsnd (\<lambda>_. True)) (flags rs)"
  by (rule flags_map) (simp_all add: len_def)

lemma sent_append: "sent 0 (length as + k) (as @ bs) = map (apsnd (\<lambda>_. True)) as @ sent 0 k bs"
  by (simp add: sent_def)

lemma sent_part: "sent 0 k (replicate (k + l) (s, x) @ bs) = replicate k (s, True) @ replicate l (s, x) @ bs"
  by (simp add: sent_def)

lemma sent_fresh: "sent 0 k [] = replicate k (False, False)"
  by (simp add: sent_def)

lemma sent_nothing [simp]: "sent 0 0 fs = fs"
  by (simp add: sent_def)

lemma resend_ok:
  assumes ch: "checkRegions x rs e" and small: "length (flags rs) < half" and n: "0 < fwd x y" "fwd x y < half" and "rs \<noteq> []"
  shows "\<exists>rs'. resend x y rs = Inr rs' \<and> rs' \<noteq> [] \<and> checkRegions x rs' (if fwd x y \<le> length (flags rs) then e else y) \<and>
    flags rs' = sent 0 (fwd x y) (flags rs)"
proof (cases "fwd x y \<le> length (flags rs)")
  case True
  from search [OF ch small True] obtain m where m: "checkRegions x (passed y rs) m" "checkRegions m (reached y rs) e"
      "fwd x y = length (flags (passed y rs)) + fwd m y" "case reached y rs of [] \<Rightarrow> y = m | r # post \<Rightarrow> fwd m y < len r"
    by blast
  have all: "flags rs = flags (passed y rs) @ flags (reached y rs)" by (simp flip: flags_simps(3))
  have last: "(if passed y rs = [] then x else endSeqNum (last (passed y rs))) = m" using last_end [OF m(1)] by simp
  show ?thesis
  proof (cases "m = y")
    case True
    then have "passed y rs \<noteq> []" using m(1) n(1) by auto
    then have "resend x y rs = Inr (map (rexmitted_update (\<lambda>_. True)) (passed y rs) @ reached y rs)"
      using last True by (simp add: resend_def Let_def)
    moreover have "sent 0 (fwd x y) (flags rs) = map (apsnd (\<lambda>_. True)) (flags (passed y rs)) @ flags (reached y rs)"
      unfolding all m(3) sent_append by (simp add: True)
    moreover have "checkRegions x (map (rexmitted_update (\<lambda>_. True)) (passed y rs) @ reached y rs) e"
      using m(1,2) by (auto simp: checkRegions_append)
    ultimately show ?thesis using \<open>passed y rs \<noteq> []\<close> \<open>fwd x y \<le> length (flags rs)\<close> by simp
  next
    case False
    with m(4) obtain r post where rp: "reached y rs = r # post" by (cases "reached y rs") simp_all
    have r: "reached y rs = r # post" "fwd m y < len r" "beginSeqNum r = m" "checkRegions (endSeqNum r) post e"
      using m(2,4) unfolding rp by simp_all
    have "len r < half" using all r(1) small by simp
    then have cov: "covers y r" and sum: "len r = fwd m y + fwd y (endSeqNum r)"
      using r(2,3) cut_region [of y r] by (auto simp: covers_iff)
    have "fwd m y < half" using n(2) m(3) by simp
    then have less: "seqLess m y" "seqLess y (endSeqNum r)" using False cov by (simp_all add: seqLess_fwd covers_def)
    have "resend x y rs = Inr (map (rexmitted_update (\<lambda>_. True)) (passed y rs) @
        \<lparr>beginSeqNum = m, endSeqNum = y, sacked = sacked r, rexmitted = True\<rparr> # r\<lparr>beginSeqNum := y\<rparr> # post)"
      using last False less(1) r(1,3) by (simp add: resend_def Let_def)
    moreover have "sent 0 (fwd x y) (flags rs) = map (apsnd (\<lambda>_. True)) (flags (passed y rs)) @
        replicate (fwd m y) (sacked r, True) @ replicate (fwd y (endSeqNum r)) (sacked r, rexmitted r) @ flags post"
      unfolding all m(3) r(1) sent_append using sum by (simp add: sent_part)
    ultimately show ?thesis using less m(1) r(4) \<open>fwd x y \<le> length (flags rs)\<close>
      by (auto simp: checkRegions_append len_def)
  qed
next
  case False
  then have all: "passed y rs = rs" using passed_all [OF ch] n(2) by simp
  then have none: "reached y rs = []" by (metis append_self_conv takeWhile_dropWhile_id)
  have "fwd x e = length (flags rs)" using fwd_chain [OF ch] small by simp
  moreover from this have "fwd x y = fwd x e + fwd e y" using False fwd_split [of x e y] by simp
  ultimately have less: "seqLess e y" and sum: "fwd x y = length (flags rs) + fwd e y" using False n(2) by (auto simp: seqLess_fwd)
  have "resend x y rs = Inr (map (rexmitted_update (\<lambda>_. True)) rs @ [\<lparr>beginSeqNum = e, endSeqNum = y, sacked = False, rexmitted = False\<rparr>])"
    using all none last_end [OF ch] \<open>rs \<noteq> []\<close> less by (simp add: resend_def Let_def seqLess_def)
  moreover have "sent 0 (fwd x y) (flags rs) = map (apsnd (\<lambda>_. True)) (flags rs) @ replicate (fwd e y) (False, False)"
    unfolding sum using sent_append [of "flags rs" "fwd e y" "[]"] by (simp add: sent_fresh)
  ultimately show ?thesis using False ch less by (auto simp: checkRegions_append len_def)
qed

lemma sent_behind: "sent (length as) n (as @ bs) = as @ sent 0 n bs"
  by (simp add: sent_def)

lemma enqueueSentData_ok:
  assumes ok: "queue_ok q" and x: "fwd (qbegin q) x \<le> length (bytes q)" and n: "x \<noteq> y" "fwd (qbegin q) x + fwd x y < half"
  shows "\<exists>q'. enqueueSentData x y q = Inr q' \<and> queue_ok q' \<and> qbegin q' = qbegin q \<and>
    bytes q' = sent (fwd (qbegin q) x) (fwd x y) (bytes q)"
proof -
  have ch: "checkRegions (qbegin q) (rexmitQueue q) (qend q)" and small: "length (bytes q) < half"
    using ok by (simp_all add: queue_ok_def checkQueue_def)
  have guards: "seqLE (qbegin q) x \<and> seqLE x (qend q)" "seqLess x y"
    using in_queue(1) [OF ok] x n by (simp_all add: seqLess_fwd)
  have "\<exists>rs e. (if rexmitQueue q = [] \<or> qend q = x
                 then Inr (rexmitQueue q @ [\<lparr>beginSeqNum = x, endSeqNum = y, sacked = False, rexmitted = False\<rparr>])
                 else rbind (chunk x (rexmitQueue q)) (\<lambda>(pre, post).
                      rbind (resend x y post) (\<lambda>rs. Inr (pre @ rs)))) = Inr rs \<and> rs \<noteq> [] \<and>
      checkRegions (qbegin q) rs e \<and> flags rs = sent (fwd (qbegin q) x) (fwd x y) (bytes q)"
  proof (cases "fwd (qbegin q) x = length (bytes q)")
    case True
    then have "x = qend q" using fwd_inj [of "qbegin q" x "qend q"] queue_fwd [OF ok] by simp
    moreover have "sent (fwd (qbegin q) x) (fwd x y) (bytes q) = bytes q @ replicate (fwd x y) (False, False)"
      unfolding True using sent_behind [of "bytes q" _ "[]"] by (simp add: sent_fresh)
    ultimately show ?thesis using ch guards(2) by (auto simp: checkRegions_append len_def)
  next
    case False
    then have lt: "fwd (qbegin q) x < length (bytes q)" using x by simp
    then have "rexmitQueue q \<noteq> []" "qend q \<noteq> x" using queue_fwd [OF ok] by auto
    moreover obtain pre post where c: "chunk x (rexmitQueue q) = Inr (pre, post)" "checkRegions (qbegin q) pre x"
        "checkRegions x post (qend q)" "bytes q = flags pre @ flags post"
      using chunk_ok [OF ch small lt] by blast
    moreover have pre: "fwd (qbegin q) x = length (flags pre)" using fwd_chain [OF c(2)] c(4) small by simp
    moreover obtain rs where "resend x y post = Inr rs" "rs \<noteq> []" "checkRegions x rs (if fwd x y \<le> length (flags post) then qend q else y)"
        "flags rs = sent 0 (fwd x y) (flags post)"
      using resend_ok [OF c(3), of y] c(3,4) small n pre lt by fastforce
    moreover from this c(2) have "\<exists>e. checkRegions (qbegin q) (pre @ rs) e" by (auto simp: checkRegions_append)
    ultimately show ?thesis by (auto simp: sent_behind)
  qed
  then obtain rs e where rs: "(if rexmitQueue q = [] \<or> qend q = x
                 then Inr (rexmitQueue q @ [\<lparr>beginSeqNum = x, endSeqNum = y, sacked = False, rexmitted = False\<rparr>])
                 else rbind (chunk x (rexmitQueue q)) (\<lambda>(pre, post).
                      rbind (resend x y post) (\<lambda>rs. Inr (pre @ rs)))) = Inr rs" "rs \<noteq> []" "checkRegions (qbegin q) rs e"
      "flags rs = sent (fwd (qbegin q) x) (fwd x y) (bytes q)" by blast
  have "length (flags rs) < half" using rs(4) small x n by (simp add: sent_def)
  then show ?thesis
    using guards rs(2-4) first_begin [OF rs(3)] last_end [OF rs(3)]
    by (simp add: enqueueSentData_def rs(1) Let_def queue_ok_def checkQueue_def)
qed

lemma acked_append: "acked 0 (length as + k) (as @ bs) = map (apfst (\<lambda>_. True)) as @ acked 0 k bs"
  by (simp add: acked_def)

lemma acked_part: "acked 0 k (replicate (k + l) (s, x) @ bs) = replicate k (True, x) @ replicate l (s, x) @ bs"
  by (simp add: acked_def)

lemma acked_behind: "acked (length as) (length as + k) (as @ bs) = as @ acked 0 k bs"
  by (simp add: acked_def)

lemma acked_nothing [simp]: "acked i i fs = fs"
  by (simp add: acked_def)

lemma begins_behind:
  assumes "checkRegions b rs e" and "length (flags rs) < half" and "r \<in> set rs"
  shows "seqLE b (beginSeqNum r)"
proof -
  obtain xs ys where rs: "rs = xs @ r # ys" using assms(3) by (meson split_list)
  then have "checkRegions b xs (beginSeqNum r)" using assms(1) by (auto simp: checkRegions_append)
  then have "fwd b (beginSeqNum r) = length (flags xs)" using fwd_chain assms(2) rs by simp
  then show ?thesis using assms(2) rs by (simp add: seqLE_fwd)
qed

lemma acknowledge_ok:
  assumes ch: "checkRegions x rs e" and small: "length (flags rs) < half" and n: "fwd x y \<le> length (flags rs)"
  shows "checkRegions x (acknowledge x y rs) e \<and> flags (acknowledge x y rs) = acked 0 (fwd x y) (flags rs)"
proof -
  from search [OF ch small n] obtain m where m: "checkRegions x (passed y rs) m" "checkRegions m (reached y rs) e"
      "fwd x y = length (flags (passed y rs)) + fwd m y" "case reached y rs of [] \<Rightarrow> y = m | r # post \<Rightarrow> fwd m y < len r"
    by blast
  have all: "flags rs = flags (passed y rs) @ flags (reached y rs)" by (simp flip: flags_simps(3))
  have marked: "map (\<lambda>r. if seqGE (beginSeqNum r) x then r\<lparr>sacked := True\<rparr> else r) (passed y rs) = map (sacked_update (\<lambda>_. True)) (passed y rs)"
    using begins_behind [OF ch small] set_takeWhileD by (fastforce simp: seqGE_LE)
  have fl: "flags (map (sacked_update (\<lambda>_. True)) (passed y rs)) = map (apfst (\<lambda>_. True)) (flags (passed y rs))"
    by (rule flags_map) (simp_all add: len_def)
  have target: "acked 0 (fwd x y) (flags rs) = map (apfst (\<lambda>_. True)) (flags (passed y rs)) @ acked 0 (fwd m y) (flags (reached y rs))"
    unfolding all m(3) acked_append ..
  show ?thesis
  proof (cases "m = y")
    case True
    then have "acknowledge x y rs = map (sacked_update (\<lambda>_. True)) (passed y rs) @ reached y rs"
      using m(2) marked by (cases "reached y rs") (auto simp: acknowledge_def seqLess_def)
    then show ?thesis using m(1,2) fl target True by (auto simp: checkRegions_append)
  next
    case False
    with m(4) obtain r post where rp: "reached y rs = r # post" by (cases "reached y rs") simp_all
    have r: "fwd m y < len r" "beginSeqNum r = m" "checkRegions (endSeqNum r) post e" using m(2,4) unfolding rp by simp_all
    have "len r < half" using all rp small by simp
    then have cov: "covers y r" and sum: "len r = fwd m y + fwd y (endSeqNum r)"
      using r cut_region [of y r] by (auto simp: covers_iff)
    have "fwd m y < half" using n small m(3) by simp
    then have less: "seqLess m y" "seqLess y (endSeqNum r)" using False cov by (simp_all add: seqLess_fwd covers_def)
    have "acknowledge x y rs = map (sacked_update (\<lambda>_. True)) (passed y rs) @
        r\<lparr>endSeqNum := y, sacked := True\<rparr> # r\<lparr>beginSeqNum := y\<rparr> # post"
      using marked less r(2) by (simp add: acknowledge_def rp)
    moreover have "acked 0 (fwd m y) (flags (reached y rs)) =
        replicate (fwd m y) (True, rexmitted r) @ replicate (fwd y (endSeqNum r)) (sacked r, rexmitted r) @ flags post"
      using sum by (simp add: rp acked_part)
    ultimately show ?thesis using m(1) less r fl target by (auto simp: checkRegions_append len_def)
  qed
qed

lemma setSackedBit_ok:
  assumes ok: "queue_ok q" and y: "fwd (qbegin q) y \<le> length (bytes q)"
    and x: "fwd (qbegin q) (clip (qbegin q) x0) < fwd (qbegin q) y"
  shows "\<exists>q'. setSackedBit x0 y q = Inr q' \<and> queue_ok q' \<and> qbegin q' = qbegin q \<and> qend q' = qend q \<and>
    bytes q' = acked (fwd (qbegin q) (clip (qbegin q) x0)) (fwd (qbegin q) y) (bytes q)"
proof -
  define x where "x = clip (qbegin q) x0"
  have lt: "fwd (qbegin q) x < fwd (qbegin q) y" using assms(3) by (simp add: x_def)
  have ch: "checkRegions (qbegin q) (rexmitQueue q) (qend q)" and small: "length (bytes q) < half"
    using ok by (simp_all add: queue_ok_def checkQueue_def)
  have near: "fwd (qbegin q) x < half" "fwd (qbegin q) y < half" using lt y small by simp_all
  have guards: "seqLess x (qend q)" "seqLess (qbegin q) y \<and> seqLE y (qend q)" "seqLess x y"
    using in_queue(1) [OF ok, of y] in_queue(2) [OF ok, of x] lt y window_order(2) [OF near] near(2)
    by (auto simp: seqLess_fwd [of "qbegin q"])
  obtain pre post where c: "chunk x (rexmitQueue q) = Inr (pre, post)" "checkRegions (qbegin q) pre x"
      "checkRegions x post (qend q)" "bytes q = flags pre @ flags post"
    using chunk_ok [OF ch small less_le_trans [OF lt y]] by blast
  have pre: "fwd (qbegin q) x = length (flags pre)" using fwd_chain [OF c(2)] c(4) small by simp
  have sum: "fwd (qbegin q) y = length (flags pre) + fwd x y" using fwd_split [of "qbegin q" x y] lt pre by simp
  note ack = acknowledge_ok [OF c(3), of y]
  have "rexmitQueue q \<noteq> []" using lt y by auto
  then have "setSackedBit x0 y q = (let q' = q\<lparr>rexmitQueue := pre @ acknowledge x y post\<rparr> in require (checkQueue q') (Inr q'))"
    using guards c(1) by (simp add: setSackedBit_def Let_def flip: x_def)
  moreover have "checkRegions (qbegin q) (pre @ acknowledge x y post) (qend q)" "flags (pre @ acknowledge x y post) =
      acked (fwd (qbegin q) x) (fwd (qbegin q) y) (bytes q)"
    using ack c(2,4) small y sum pre by (auto simp: checkRegions_append acked_behind)
  moreover have "length (acked i j fs) = length fs" if "i \<le> j" "j \<le> length fs" for i j fs using that by (simp add: acked_def)
  ultimately show ?thesis using lt y small by (simp add: queue_ok_def checkQueue_def x_def Let_def)
qed

section \<open>What the questions say of the bytes\<close>

text \<open>Length of the part up to the last byte with a property, and the number of blocks of true values.\<close>

definition upto_last :: "('a \<Rightarrow> bool) \<Rightarrow> 'a list \<Rightarrow> nat" where
  "upto_last P xs = length (dropWhile (\<lambda>x. \<not> P x) (rev xs))"

definition blocks :: "bool list \<Rightarrow> nat" where
  "blocks xs = length (filter (\<lambda>b. b) (remdups_adj xs))"

lemma at_region:
  assumes "queue_ok q" and "fwd (qbegin q) x < length (bytes q)"
  obtains r post where "reached x (rexmitQueue q) = r # post" and "covers x r" and "checkRegions (endSeqNum r) post (qend q)"
    and "drop (fwd (qbegin q) x) (bytes q) = replicate (fwd x (endSeqNum r)) (sacked r, rexmitted r) @ flags post"
proof -
  obtain m where m: "checkRegions m (reached x (rexmitQueue q)) (qend q)"
      "bytes q = flags (passed x (rexmitQueue q)) @ flags (reached x (rexmitQueue q))"
      "fwd (qbegin q) x = length (flags (passed x (rexmitQueue q))) + fwd m x"
      "case reached x (rexmitQueue q) of [] \<Rightarrow> x = m | r # post \<Rightarrow> fwd m x < len r"
    using queue_search [OF assms(1) less_imp_le [OF assms(2)]] .
  have "fwd m x < length (flags (reached x (rexmitQueue q)))" using m(2,3) assms(2) by simp
  then obtain r post where rp: "reached x (rexmitQueue q) = r # post" by (cases "reached x (rexmitQueue q)") simp_all
  have r: "fwd m x < len r" "beginSeqNum r = m" "checkRegions (endSeqNum r) post (qend q)" using m(1,4) unfolding rp by simp_all
  have "len r < half" using m(2) rp assms(1) by (simp add: queue_ok_def)
  then have cov: "covers x r" and sum: "len r = fwd m x + fwd x (endSeqNum r)"
    using r cut_region [of x r] by (auto simp: covers_iff)
  have "drop (fwd (qbegin q) x) (bytes q) = drop (fwd m x) (flags (r # post))"
    unfolding m(2,3) rp by simp
  then show thesis using that [OF rp cov r(3)] sum by simp
qed

lemma word_fwd: "b - a = of_nat (fwd a b)"
  by (simp add: fwd_def)

lemma getSackedBit_ok:
  assumes "queue_ok q" and "fwd (qbegin q) x \<le> length (bytes q)"
  shows "getSackedBit x q = Inr (fwd (qbegin q) x < length (bytes q) \<and> fst (bytes q ! fwd (qbegin q) x))"
proof (cases "fwd (qbegin q) x < length (bytes q)")
  case True
  obtain r post where r: "reached x (rexmitQueue q) = r # post" "covers x r"
      "drop (fwd (qbegin q) x) (bytes q) = replicate (fwd x (endSeqNum r)) (sacked r, rexmitted r) @ flags post"
    using at_region [OF assms(1) True] .
  have "0 < fwd x (endSeqNum r)" using r(2) by (simp add: covers_def seqLess_fwd)
  then have "bytes q ! fwd (qbegin q) x = (sacked r, rexmitted r)"
    using r(3) Cons_nth_drop_Suc [OF True] by (cases "fwd x (endSeqNum r)") simp_all
  moreover have "qend q \<noteq> x" using queue_fwd [OF assms(1)] True by auto
  ultimately show ?thesis using in_queue(1) [OF assms(1)] assms(2) r True by (simp add: getSackedBit_def)
next
  case False
  then have "x = qend q" using assms(2) fwd_inj [of "qbegin q" x "qend q"] queue_fwd [OF assms(1)] by simp
  then show ?thesis using in_queue(1) [OF assms(1)] assms(2) False by (simp add: getSackedBit_def)
qed

lemma checkSackBlock_ok:
  assumes "queue_ok q" and "fwd (qbegin q) x < length (bytes q)"
  obtains n s r where "checkSackBlock x q = Inr (of_nat n, s, r)" and "0 < n" and "fwd (qbegin q) x + n \<le> length (bytes q)"
    and "take n (drop (fwd (qbegin q) x) (bytes q)) = replicate n (s, r)"
proof -
  obtain r post where r: "reached x (rexmitQueue q) = r # post" "covers x r"
      "drop (fwd (qbegin q) x) (bytes q) = replicate (fwd x (endSeqNum r)) (sacked r, rexmitted r) @ flags post"
    using at_region [OF assms] .
  have "length (drop (fwd (qbegin q) x) (bytes q)) = fwd x (endSeqNum r) + length (flags post)" unfolding r(3) by simp
  then have "fwd (qbegin q) x + fwd x (endSeqNum r) \<le> length (bytes q)" using assms(2) by simp
  moreover have "0 < fwd x (endSeqNum r)" using r(2) by (simp add: covers_def seqLess_fwd)
  moreover have "checkSackBlock x q = Inr (of_nat (fwd x (endSeqNum r)), sacked r, rexmitted r)"
    using in_queue(2) [OF assms(1)] assms(2) r by (simp add: checkSackBlock_def word_fwd)
  ultimately show thesis using that r(3) by simp
qed

lemma addSacked_flags: "addSacked rs n = n + of_nat (length (filter fst (flags rs)))"
  by (induction rs arbitrary: n) (auto simp: len_def word_fwd filter_replicate)

lemma getTotal_ok: "getTotalAmountOfSackedBytes q = of_nat (length (filter fst (bytes q)))"
  by (simp add: getTotalAmountOfSackedBytes_def addSacked_flags)

lemma amount_flags:
  assumes "checkRegions b rs e" and "length (flags rs) < half" and "fwd b x \<le> length (flags rs)"
  shows "addSacked (takeWhile (\<lambda>r. seqLE x (beginSeqNum r)) (rev rs)) 0 +
      (case dropWhile (\<lambda>r. seqLE x (beginSeqNum r)) (rev rs) of
         [] \<Rightarrow> 0
       | r # _ \<Rightarrow> if seqLess (beginSeqNum r) x \<and> seqLess x (endSeqNum r) \<and> sacked r then endSeqNum r - x else 0) =
    of_nat (length (filter fst (drop (fwd b x) (flags rs))))"
  using assms
proof (induction rs arbitrary: e rule: rev_induct)
  case Nil
  then show ?case by simp
next
  case (snoc r rs)
  let ?k = "length (flags rs)"
  have r: "checkRegions b rs (beginSeqNum r)" "e = endSeqNum r" "seqLess (beginSeqNum r) (endSeqNum r)"
    using snoc.prems(1) by (auto simp: checkRegions_append)
  have pos: "fwd b (beginSeqNum r) = ?k" using fwd_chain [OF r(1)] snoc.prems(2) by simp
  have near: "fwd b x < half" "?k < half" using snoc.prems(2,3) by simp_all
  have le: "seqLE x (beginSeqNum r) \<longleftrightarrow> fwd b x \<le> ?k" "seqLess (beginSeqNum r) x \<longleftrightarrow> ?k < fwd b x"
    using window_order(1) [of b x "beginSeqNum r"] window_order(2) [of b "beginSeqNum r" x] near pos by simp_all
  show ?case
  proof (cases "fwd b x \<le> ?k")
    case True
    then show ?thesis using snoc.IH [OF r(1) near(2)] le(1)
      by (simp add: addSacked_flags [where n = "_ + _"] addSacked_flags filter_replicate len_def word_fwd split: list.splits)
  next
    case False
    have end_pos: "fwd b (endSeqNum r) = ?k + len r" using fwd_chain [OF snoc.prems(1)] snoc.prems(2) r(2) by simp
    have tail: "fwd b (endSeqNum r) = fwd b x + fwd x (endSeqNum r)"
      using fwd_split [of b x "endSeqNum r"] snoc.prems(3) end_pos by simp
    have "seqLess x (endSeqNum r) \<longleftrightarrow> x \<noteq> endSeqNum r" using tail end_pos snoc.prems(2) by (auto simp: seqLess_fwd)
    moreover have "len r + ?k - fwd b x = fwd x (endSeqNum r)" using tail end_pos by simp
    ultimately show ?thesis using False le by (auto simp: filter_replicate word_fwd)
  qed
qed

lemma getAmount_ok:
  assumes "queue_ok q" and "fwd (qbegin q) x \<le> length (bytes q)"
  shows "getAmountOfSackedBytes x q = Inr (of_nat (length (filter fst (drop (fwd (qbegin q) x) (bytes q)))))"
proof -
  have "checkRegions (qbegin q) (rexmitQueue q) (qend q)" "length (bytes q) < half"
    using assms(1) by (simp_all add: queue_ok_def checkQueue_def)
  from amount_flags [OF this assms(2), symmetric] show ?thesis using in_queue(1) [OF assms(1), of x] assms(2)
    by (simp add: getAmountOfSackedBytes_def Let_def split: list.splits)
qed

lemma highest_flags:
  assumes "checkRegions b rs e" and "length (flags rs) < half" and "\<And>r. P r = G (sacked r, rexmitted r)"
  shows "(case List.find P (rev rs) of Some r \<Rightarrow> endSeqNum r | None \<Rightarrow> b) = b + of_nat (upto_last G (flags rs))"
  using assms(1,2)
proof (induction rs arbitrary: e rule: rev_induct)
  case (snoc r rs)
  have r: "checkRegions b rs (beginSeqNum r)" "e = endSeqNum r" "seqLess (beginSeqNum r) (endSeqNum r)"
    using snoc.prems(1) by (auto simp: checkRegions_append)
  have "0 < len r" using r(3) by (simp add: len_def seqLess_fwd)
  then have up: "upto_last G (flags (rs @ [r])) = (if P r then length (flags rs) + len r else upto_last G (flags rs))"
    by (cases "len r") (simp_all add: upto_last_def assms(3) dropWhile_append flip: replicate_append_same)
  have "fwd b (endSeqNum r) = length (flags rs) + len r" using fwd_chain [OF snoc.prems(1)] snoc.prems(2) r(2) by simp
  then have "endSeqNum r = b + of_nat (length (flags rs) + len r)" using add_fwd [of b "endSeqNum r"] by simp
  then show ?case using snoc.IH [OF r(1)] snoc.prems(2) up by simp
qed (simp add: upto_last_def)

lemma getHighest_ok:
  assumes "queue_ok q"
  shows "getHighestSackedSeqNum q = qbegin q + of_nat (upto_last fst (bytes q))"
    and "getHighestRexmittedSeqNum q = qbegin q + of_nat (upto_last snd (bytes q))"
  using assms highest_flags [of "qbegin q" "rexmitQueue q" "qend q" sacked fst]
    highest_flags [of "qbegin q" "rexmitQueue q" "qend q" rexmitted snd]
  by (simp_all add: getHighestSackedSeqNum_def getHighestRexmittedSeqNum_def getHighest_def queue_ok_def checkQueue_def)

lemma skipRegions_ok:
  assumes "checkRegions b rs e" and "length (flags rs) < half"
  shows "skipRegions b rs n = Inr (n + of_nat (length (takeWhile (\<lambda>(s, x). s \<or> x) (flags rs))))"
  using assms
proof (induction rs arbitrary: b n)
  case (Cons r rs)
  then have "covers b r" by (simp add: covers_def seqLE_fwd)
  moreover from Cons.prems obtain k where "len r = Suc k" by (cases "len r") (simp_all add: len_def seqLess_fwd)
  ultimately show ?case using Cons by (simp add: word_fwd takeWhile_append add.assoc flip: len_def)
qed simp

lemma checkRexmit_ok:
  assumes "queue_ok q" and "fwd (qbegin q) x \<le> length (bytes q)"
  shows "checkRexmitQueueForSackedOrRexmittedSegments x q =
    Inr (of_nat (length (takeWhile (\<lambda>(s, r). s \<or> r) (drop (fwd (qbegin q) x) (bytes q)))))"
proof (cases "fwd (qbegin q) x < length (bytes q)")
  case True
  obtain r post where r: "reached x (rexmitQueue q) = r # post" "covers x r" "checkRegions (endSeqNum r) post (qend q)"
      "drop (fwd (qbegin q) x) (bytes q) = replicate (fwd x (endSeqNum r)) (sacked r, rexmitted r) @ flags post"
    using at_region [OF assms(1) True] .
  have "length (drop (fwd (qbegin q) x) (bytes q)) < half" using assms(1) by (simp add: queue_ok_def less_imp_diff_less)
  then have "length (flags post) < half" unfolding r(4) by simp
  note skip = skipRegions_ok [OF r(3) this]
  have "x \<noteq> qend q" "rexmitQueue q \<noteq> []" using True queue_fwd [OF assms(1)] by auto
  moreover have "0 < fwd x (endSeqNum r)" using r(2) by (simp add: covers_def seqLess_fwd)
  ultimately show ?thesis using in_queue(1) [OF assms(1), of x] assms(2) r(1,2) skip unfolding r(4)
    by (auto simp: checkRexmitQueueForSackedOrRexmittedSegments_def word_fwd takeWhile_append gr0_conv_Suc)
next
  case False
  then have "x = qend q" using assms(2) fwd_inj [of "qbegin q" x "qend q"] queue_fwd [OF assms(1)] by simp
  then show ?thesis using in_queue(1) [OF assms(1), of x] assms(2) False
    by (simp add: checkRexmitQueueForSackedOrRexmittedSegments_def)
qed

fun starts :: "bool \<Rightarrow> bool list \<Rightarrow> nat" where
  "starts p [] = 0"
| "starts p (b # bs) = (if b \<and> \<not> p then 1 else 0) + starts b bs"

lemma starts_blocks: "length (filter (\<lambda>b. b) (remdups_adj (p # bs))) = starts p bs + (if p then 1 else 0)"
  by (induction bs arbitrary: p) auto

lemma blocks_starts: "blocks bs = starts False bs"
  using starts_blocks [of False bs] by (cases bs) (auto simp: blocks_def split: if_splits)

lemma starts_same: "starts b (replicate k b @ bs) = starts b bs"
  by (induction k) simp_all

lemma starts_replicate: "0 < k \<Longrightarrow> starts p (replicate k b @ bs) = (if b \<and> \<not> p then 1 else 0) + starts b bs"
  by (cases k) (simp_all add: starts_same)

lemma countSacks_ok: "checkRegions b rs e \<Longrightarrow> countSacks p rs n = n + of_nat (starts p (map fst (flags rs)))"
proof (induction rs arbitrary: b p n)
  case (Cons r rs)
  then have "checkRegions (endSeqNum r) rs e" "0 < len r" by (simp_all add: len_def seqLess_fwd)
  then show ?case using Cons.IH by (simp add: starts_replicate)
qed simp

lemma getNum_ok:
  assumes "queue_ok q" and "fwd (qbegin q) x \<le> length (bytes q)"
  shows "getNumOfDiscontiguousSacks x q = Inr (of_nat (blocks (map fst (drop (fwd (qbegin q) x) (bytes q)))))"
proof (cases "fwd (qbegin q) x < length (bytes q)")
  case True
  obtain r post where r: "reached x (rexmitQueue q) = r # post" "covers x r" "checkRegions (endSeqNum r) post (qend q)"
      "drop (fwd (qbegin q) x) (bytes q) = replicate (fwd x (endSeqNum r)) (sacked r, rexmitted r) @ flags post"
    using at_region [OF assms(1) True] .
  have "x \<noteq> qend q" "rexmitQueue q \<noteq> []" using True queue_fwd [OF assms(1)] by auto
  moreover have "0 < fwd x (endSeqNum r)" using r(2) by (simp add: covers_def seqLess_fwd)
  ultimately show ?thesis using in_queue(1) [OF assms(1), of x] assms(2) r(1)
    by (simp add: getNumOfDiscontiguousSacks_def r(4) blocks_starts starts_replicate countSacks_ok [OF r(3)])
next
  case False
  then have "x = qend q" using assms(2) fwd_inj [of "qbegin q" x "qend q"] queue_fwd [OF assms(1)] by simp
  then show ?thesis using in_queue(1) [OF assms(1), of x] assms(2) False
    by (simp add: getNumOfDiscontiguousSacks_def blocks_def)
qed

section \<open>Sequences of operations\<close>

datatype queue_op =
    EnqueueSentData seq seq
  | SetSackedBit seq seq
  | DiscardUpTo seq
  | ResetSackedBit
  | ResetRexmittedBit

fun queue_step :: "queue_op \<Rightarrow> rexmit_queue \<Rightarrow> rexmit_queue result" where
  "queue_step (EnqueueSentData x y) q = enqueueSentData x y q"
| "queue_step (SetSackedBit x y) q = setSackedBit x y q"
| "queue_step (DiscardUpTo x) q = discardUpTo x q"
| "queue_step ResetSackedBit q = Inr (resetSackedBit q)"
| "queue_step ResetRexmittedBit q = Inr (resetRexmittedBit q)"

fun queue_run :: "queue_op list \<Rightarrow> rexmit_queue \<Rightarrow> rexmit_queue result" where
  "queue_run [] q = Inr q"
| "queue_run (x # xs) q = rbind (queue_step x q) (queue_run xs)"

text \<open>The same on the bytes: the first unacknowledged number and the flags from there.\<close>

type_synonym send_window = "seq \<times> (bool \<times> bool) list"

fun byte_step :: "queue_op \<Rightarrow> send_window \<Rightarrow> send_window" where
  "byte_step (EnqueueSentData x y) (una, fs) = (una, sent (fwd una x) (fwd x y) fs)"
| "byte_step (SetSackedBit x y) (una, fs) = (una, acked (fwd una (clip una x)) (fwd una y) fs)"
| "byte_step (DiscardUpTo x) (una, fs) = (x, drop (fwd una x) fs)"
| "byte_step ResetSackedBit (una, fs) = (una, map (apfst (\<lambda>_. False)) fs)"
| "byte_step ResetRexmittedBit (una, fs) = (una, map (apsnd (\<lambda>_. False)) fs)"

text \<open>What the caller has to respect: the numbers lie in the window, and it stays below half the number space.\<close>

fun fits :: "queue_op \<Rightarrow> send_window \<Rightarrow> bool" where
  "fits (EnqueueSentData x y) (una, fs) \<longleftrightarrow> fwd una x \<le> length fs \<and> x \<noteq> y \<and> fwd una x + fwd x y < half"
| "fits (SetSackedBit x y) (una, fs) \<longleftrightarrow> fwd una (clip una x) < fwd una y \<and> fwd una y \<le> length fs"
| "fits (DiscardUpTo x) (una, fs) \<longleftrightarrow> fwd una x \<le> length fs"
| "fits ResetSackedBit w \<longleftrightarrow> True"
| "fits ResetRexmittedBit w \<longleftrightarrow> True"

fun all_fit :: "queue_op list \<Rightarrow> send_window \<Rightarrow> bool" where
  "all_fit [] w \<longleftrightarrow> True"
| "all_fit (x # xs) w \<longleftrightarrow> fits x w \<and> all_fit xs (byte_step x w)"

definition window :: "rexmit_queue \<Rightarrow> send_window" where
  "window q = (qbegin q, bytes q)"

lemma flags_reset:
  "flags (map (sacked_update (\<lambda>_. False)) rs) = map (apfst (\<lambda>_. False)) (flags rs)"
  "flags (map (rexmitted_update (\<lambda>_. False)) rs) = map (apsnd (\<lambda>_. False)) (flags rs)"
  by (rule flags_map; simp add: len_def)+

lemma queue_step_ok:
  assumes "queue_ok q" and "fits x (window q)"
  shows "\<exists>q'. queue_step x q = Inr q' \<and> queue_ok q' \<and> window q' = byte_step x (window q)"
proof (cases x)
  case (EnqueueSentData a b)
  then show ?thesis using assms enqueueSentData_ok [of q a b] by (auto simp: window_def)
next
  case (SetSackedBit a b)
  then show ?thesis using assms setSackedBit_ok [of q b a] by (auto simp: window_def)
next
  case (DiscardUpTo a)
  then show ?thesis using assms discardUpTo_ok [of q a] by (auto simp: window_def)
qed (use assms in \<open>simp_all add: window_def flags_reset queue_ok_def checkQueue_def resetSackedBit_def resetRexmittedBit_def\<close>)

lemma queue_run_ok:
  "queue_ok q \<Longrightarrow> all_fit xs (window q) \<Longrightarrow>
    \<exists>q'. queue_run xs q = Inr q' \<and> queue_ok q' \<and> window q' = fold byte_step xs (window q)"
proof (induction xs arbitrary: q)
  case (Cons x xs)
  then obtain q' where "queue_step x q = Inr q'" "queue_ok q'" "window q' = byte_step x (window q)"
    using queue_step_ok [of q x] by auto
  then show ?case using Cons.IH [of q'] Cons.prems(2) by simp
qed simp

lemma init_ok: "queue_ok (rexmit_init s rexmit_queue0) \<and> window (rexmit_init s rexmit_queue0) = (s, [])"
  by (simp add: queue_ok_def checkQueue_def rexmit_init_def rexmit_queue0_def window_def)

text \<open>
  C13. The queue refines the list of bytes: a sequence of operations that respects the window
  passes all assertions of the code, and afterwards every byte has the flags the operations gave it;
  bytes that are sent again are marked, bytes that are acknowledged are marked or dropped,
  and no operation touches another byte, whatever regions the list was cut into.
\<close>
theorem sack_queue_refines_bytes:
  assumes "all_fit xs (s, [])"
  shows "\<exists>q. queue_run xs (rexmit_init s rexmit_queue0) = Inr q \<and> checkQueue q \<and> window q = fold byte_step xs (s, [])"
  using queue_run_ok [of "rexmit_init s rexmit_queue0" xs] init_ok [of s] assms by (auto simp: queue_ok_def)

lemma eval_replicate: "replicate (numeral k) x = x # replicate (pred_numeral k) x"
  by (simp add: numeral_eq_Suc)

theorem sack_queue_refines_bytes_witness:
  "\<exists>q. queue_run [EnqueueSentData 4294967290 4, SetSackedBit 4294967294 2, EnqueueSentData 4294967292 1, DiscardUpTo 4294967295]
      (rexmit_init 4294967290 rexmit_queue0) = Inr q \<and> checkQueue q \<and>
    window q = (4294967295, [(True, True), (True, True), (True, False), (False, False), (False, False)])"
  using sack_queue_refines_bytes [of "[EnqueueSentData 4294967290 4, SetSackedBit 4294967294 2,
      EnqueueSentData 4294967292 1, DiscardUpTo 4294967295]" 4294967290]
  by (simp add: fwd_def clip_def seqLess_def sent_def acked_def eval_replicate)

text \<open>
  C19. What a sender asks the queue is a question about its bytes: whether a byte is acknowledged,
  the number behind the last acknowledged and the last repeated byte, how many bytes to skip because
  they are acknowledged or repeated, how many bytes are acknowledged in all and from a number on,
  and the number of separate acknowledged blocks from a number on.
\<close>
theorem sack_queue_answers:
  assumes "all_fit xs (s, [])" and "queue_run xs (rexmit_init s rexmit_queue0) = Inr q"
    and "(una, fs) = fold byte_step xs (s, [])" and "fwd una x \<le> length fs"
  shows "getSackedBit x q = Inr (fwd una x < length fs \<and> fst (fs ! fwd una x)) \<and>
    getHighestSackedSeqNum q = una + of_nat (upto_last fst fs) \<and>
    getHighestRexmittedSeqNum q = una + of_nat (upto_last snd fs) \<and>
    checkRexmitQueueForSackedOrRexmittedSegments x q =
      Inr (of_nat (length (takeWhile (\<lambda>(s, r). s \<or> r) (drop (fwd una x) fs)))) \<and>
    getTotalAmountOfSackedBytes q = of_nat (length (filter fst fs)) \<and>
    getAmountOfSackedBytes x q = Inr (of_nat (length (filter fst (drop (fwd una x) fs)))) \<and>
    getNumOfDiscontiguousSacks x q = Inr (of_nat (blocks (map fst (drop (fwd una x) fs))))"
proof -
  have "queue_ok q" "window q = (una, fs)"
    using queue_run_ok [of "rexmit_init s rexmit_queue0" xs] init_ok [of s] assms(1,2,3) by auto
  then have q: "queue_ok q" "una = qbegin q" "fs = bytes q" by (simp_all add: window_def)
  have x: "fwd (qbegin q) x \<le> length (bytes q)" using assms(4) q(2,3) by simp
  note ok = getSackedBit_ok [OF q(1) x] getHighest_ok [OF q(1)] checkRexmit_ok [OF q(1) x] getTotal_ok
    getAmount_ok [OF q(1) x] getNum_ok [OF q(1) x]
  show ?thesis unfolding q(2,3) by (intro conjI ok)
qed

theorem sack_queue_answers_witness:
  "\<exists>q. queue_run [EnqueueSentData 4294967294 4, SetSackedBit 4294967295 1, SetSackedBit 2 3] (rexmit_init 4294967294 rexmit_queue0) = Inr q \<and>
    getHighestSackedSeqNum q = 3 \<and> getAmountOfSackedBytes 0 q = Inr 2 \<and> getNumOfDiscontiguousSacks 0 q = Inr 2"
proof -
  let ?xs = "[EnqueueSentData 4294967294 4, SetSackedBit 4294967295 1, SetSackedBit 2 3]"
  have fit: "all_fit ?xs (4294967294, [])"
    and bytes: "(4294967294, [(False, False), (True, False), (True, False), (False, False), (True, False), (False, False)]) =
      fold byte_step ?xs (4294967294, [])"
    by (simp_all add: fwd_def clip_def seqLess_def sent_def acked_def eval_replicate)
  obtain q where q: "queue_run ?xs (rexmit_init 4294967294 rexmit_queue0) = Inr q"
    using queue_run_ok [of "rexmit_init 4294967294 rexmit_queue0" ?xs] init_ok [of 4294967294] fit by auto
  then show ?thesis
    using sack_queue_answers [OF fit q bytes, of 0]
    by (auto simp: fwd_def upto_last_def blocks_def)
qed

text \<open>A second \<open>init\<close> keeps the regions: the queue is corrupt unless it was empty.\<close>

lemma init_keeps_regions:
  assumes "queue_ok q"
  shows "checkQueue (rexmit_init s q) \<longleftrightarrow> rexmitQueue q = []"
proof -
  have "rexmitQueue q = []" if "checkRegions s (rexmitQueue q) s"
    using fwd_chain [OF that] assms that by (cases "rexmitQueue q") (simp_all add: queue_ok_def len_def seqLess_fwd)
  then show ?thesis by (auto simp: checkQueue_def rexmit_init_def)
qed

end
