(* ===== verification/Chunk_Buffers.thy ===== *)
theory Chunk_Buffers
  imports Tcp_Sequence
begin

text \<open>
  The byte buffers of INET that TCP keeps its data in (\<open>src/inet/src/inet/common/packet\<close>):
  \<open>ChunkQueue\<close>, \<open>ChunkBuffer\<close> and \<open>ReorderBuffer\<close>. A chunk is the list of its bytes; the representations
  that the code shares and merges lazily all stand for such a list. Lengths are in bytes.
\<close>

section \<open>ChunkQueue\<close>

record 'a chunk_queue =
  qcontent :: "'a list"
  position :: nat
  pushedLength :: nat
  poppedLength :: nat

definition chunk_queue0 :: "'a chunk_queue" where
  "chunk_queue0 = \<lparr>qcontent = [], position = 0, pushedLength = 0, poppedLength = 0\<rparr>"

definition getLength :: "'a chunk_queue \<Rightarrow> nat" where
  "getLength q = length (qcontent q) - position q"

text \<open>Peeking an empty part is an error unless a flag allows it.\<close>

definition chunk_peek :: "'a list \<Rightarrow> nat \<Rightarrow> nat \<Rightarrow> 'a list result" where
  "chunk_peek xs pos n =
     (if n = 0 then Inl (RuntimeError ''Returning an empty chunk (EmptyChunk) is not allowed'')
      else if length xs < pos + n then Inl (RuntimeError ''length is invalid'')
      else Inr (take n (drop pos xs)))"

definition remove_front :: "nat \<Rightarrow> 'a chunk_queue \<Rightarrow> 'a chunk_queue" where
  "remove_front n q =
     q\<lparr>qcontent := (if length (qcontent q) = n then [] else drop n (qcontent q)), position := position q - n\<rparr>"

definition moveIteratorOrRemove :: "nat \<Rightarrow> 'a chunk_queue \<Rightarrow> 'a chunk_queue" where
  "moveIteratorOrRemove n q =
     (let q' = q\<lparr>poppedLength := poppedLength q + n, position := position q + n\<rparr>
      in if 2 * position q' > length (qcontent q') then remove_front (position q') q' else q')"

definition peekAt :: "nat \<Rightarrow> nat \<Rightarrow> 'a chunk_queue \<Rightarrow> 'a list result" where
  "peekAt offset n q =
     (if getLength q < offset then Inl (RuntimeError ''offset is out of range'')
      else if getLength q < offset + n then Inl (RuntimeError ''length is invalid'')
      else chunk_peek (qcontent q) (position q + offset) n)"

definition pop :: "nat \<Rightarrow> 'a chunk_queue \<Rightarrow> ('a list \<times> 'a chunk_queue) result" where
  "pop n q =
     (if getLength q < n then Inl (RuntimeError ''length is invalid'')
      else rbind (chunk_peek (qcontent q) (position q) n) (\<lambda>xs. Inr (xs, moveIteratorOrRemove (length xs) q)))"

definition clear_queue :: "'a chunk_queue \<Rightarrow> 'a chunk_queue" where
  "clear_queue q = q\<lparr>poppedLength := poppedLength q + getLength q, position := 0, qcontent := []\<rparr>"

definition push :: "'a list \<Rightarrow> 'a chunk_queue \<Rightarrow> 'a chunk_queue result" where
  "push xs q =
     (if xs = [] then Inl (RuntimeError ''chunk is empty'')
      else Inr (q\<lparr>pushedLength := pushedLength q + length xs,
                  qcontent := (if qcontent q = [] then xs else qcontent q @ xs)\<rparr>))"

text \<open>The bytes in the queue, and what the operations do to them.\<close>

definition queued :: "'a chunk_queue \<Rightarrow> 'a list" where
  "queued q = drop (position q) (qcontent q)"

definition chunk_queue_ok :: "'a chunk_queue \<Rightarrow> bool" where
  "chunk_queue_ok q \<longleftrightarrow> position q \<le> length (qcontent q) \<and> pushedLength q = poppedLength q + length (queued q)"

lemma getLength_queued [simp]: "getLength q = length (queued q)"
  by (simp add: getLength_def queued_def)

lemma clear_queue_ok: "chunk_queue_ok q \<Longrightarrow> chunk_queue_ok (clear_queue q) \<and> queued (clear_queue q) = []"
  by (simp add: chunk_queue_ok_def clear_queue_def queued_def)

lemma push_ok:
  assumes "chunk_queue_ok q" and "xs \<noteq> []"
  shows "\<exists>q'. push xs q = Inr q' \<and> chunk_queue_ok q' \<and> queued q' = queued q @ xs"
  using assms by (cases "qcontent q = []") (auto simp: push_def chunk_queue_ok_def queued_def)

lemma peekAt_ok:
  assumes "chunk_queue_ok q" and "0 < n" and "k + n \<le> length (queued q)"
  shows "peekAt k n q = Inr (take n (drop k (queued q)))"
  using assms by (simp add: peekAt_def chunk_peek_def chunk_queue_ok_def queued_def add.commute)

lemma pop_ok:
  assumes "chunk_queue_ok q" and "0 < n" and "n \<le> length (queued q)"
  shows "\<exists>q'. pop n q = Inr (take n (queued q), q') \<and> chunk_queue_ok q' \<and> queued q' = drop n (queued q)"
proof -
  have "chunk_queue_ok (moveIteratorOrRemove n q) \<and> queued (moveIteratorOrRemove n q) = drop n (queued q)"
    using assms by (auto simp: moveIteratorOrRemove_def remove_front_def chunk_queue_ok_def queued_def Let_def add.commute)
  moreover have "pop n q = Inr (take n (queued q), moveIteratorOrRemove n q)"
    using assms by (simp add: pop_def chunk_peek_def chunk_queue_ok_def queued_def)
  ultimately show ?thesis by blast
qed

section \<open>ChunkBuffer\<close>

record 'a buffer_region =
  offset :: int
  rdata :: "'a list"

definition getEndOffset :: "'a buffer_region \<Rightarrow> int" where
  "getEndOffset r = offset r + int (length (rdata r))"

text \<open>The loop of \<open>sliceRegions\<close> over the regions near the new one, which covers \<open>s\<close> to \<open>e\<close>.\<close>

fun slice :: "int \<Rightarrow> int \<Rightarrow> 'a buffer_region list \<Rightarrow> 'a buffer_region list" where
  "slice s e [] = []"
| "slice s e (r # rs) =
     (if e \<le> offset r \<or> getEndOffset r \<le> s then r # slice s e rs
      else if s \<le> offset r \<and> getEndOffset r \<le> e then slice s e rs
      else if offset r < s \<and> e < getEndOffset r
      then \<lparr>offset = offset r, rdata = take (nat (s - offset r)) (rdata r)\<rparr>
         # r\<lparr>offset := e, rdata := drop (nat (e - offset r)) (rdata r)\<rparr> # rs
      else if getEndOffset r \<le> e then r\<lparr>rdata := take (nat (s - offset r)) (rdata r)\<rparr> # slice s e rs
      else r\<lparr>offset := e, rdata := drop (nat (e - offset r)) (rdata r)\<rparr> # slice s e rs)"

definition sliceRegions :: "int \<Rightarrow> int \<Rightarrow> 'a buffer_region list \<Rightarrow> 'a buffer_region list" where
  "sliceRegions s e rs =
     (let lower = length (takeWhile (\<lambda>r. offset r < s) rs) - 1;
          upper = min (length rs) (length (takeWhile (\<lambda>r. getEndOffset r \<le> e) rs) + 1)
      in take lower rs @ slice s e (take (upper - lower) (drop lower rs)) @ drop (max lower upper) rs)"

text \<open>\<open>mergeRegions\<close> and \<open>eraseEmptyRegions\<close>: consecutive regions become one.\<close>

definition mergeRegions :: "'a buffer_region \<Rightarrow> 'a buffer_region \<Rightarrow> 'a buffer_region list" where
  "mergeRegions p r =
     (if getEndOffset p = offset r then [\<lparr>offset = offset p, rdata = rdata p @ rdata r\<rparr>] else [p, r])"

definition insertRegion :: "'a buffer_region \<Rightarrow> 'a buffer_region list \<Rightarrow> 'a buffer_region list" where
  "insertRegion new rs =
     (let pre = takeWhile (\<lambda>r. offset r \<le> offset new) rs; post = dropWhile (\<lambda>r. offset r \<le> offset new) rs;
          left = (if pre = [] then [new] else butlast pre @ mergeRegions (last pre) new)
      in if post = [] then left else butlast left @ mergeRegions (last left) (hd post) @ tl post)"

definition replace :: "int \<Rightarrow> 'a list \<Rightarrow> 'a buffer_region list \<Rightarrow> 'a buffer_region list result" where
  "replace off xs rs0 =
     (if off < 0 then Inl (RuntimeError ''offset is invalid'')
      else if xs = [] then Inl (RuntimeError ''chunk is empty'')
      else
        let new = \<lparr>offset = off, rdata = xs\<rparr>; rs = sliceRegions off (off + int (length xs)) rs0
        in Inr (if rs = [] then [new]
                else if getEndOffset (last rs) \<le> off then butlast rs @ mergeRegions (last rs) new
                else if off + int (length xs) \<le> offset (hd rs) then mergeRegions new (hd rs) @ tl rs
                else insertRegion new rs))"

fun eraseRegion :: "int \<Rightarrow> nat \<Rightarrow> 'a buffer_region list \<Rightarrow> 'a buffer_region list option" where
  "eraseRegion off n [] = None"
| "eraseRegion off n (r # rs) =
     (if offset r = off \<and> length (rdata r) = n then Some rs else map_option ((#) r) (eraseRegion off n rs))"

definition clear_region :: "int \<Rightarrow> nat \<Rightarrow> 'a buffer_region list \<Rightarrow> 'a buffer_region list result" where
  "clear_region off n rs =
     (if off < 0 then Inl (RuntimeError ''offset is invalid'')
      else Inr (case eraseRegion off n rs of Some rs' \<Rightarrow> rs' | None \<Rightarrow> sliceRegions off (off + int n) rs))"

section \<open>ReorderBuffer\<close>

record 'a reorder_buffer =
  buffer_regions :: "'a buffer_region list"
  expectedOffset :: int

definition getAvailableDataLength :: "'a reorder_buffer \<Rightarrow> nat" where
  "getAvailableDataLength b =
     (case buffer_regions b of
        r # rs \<Rightarrow> if offset r = expectedOffset b then length (rdata r) else 0
      | [] \<Rightarrow> 0)"

definition popAvailableData :: "nat \<Rightarrow> 'a reorder_buffer \<Rightarrow> ('a list option \<times> 'a reorder_buffer) result" where
  "popAvailableData n b =
     (case buffer_regions b of
        r # rs \<Rightarrow>
          if offset r = expectedOffset b then
            rbind (chunk_peek (rdata r) 0 n) (\<lambda>xs.
            rbind (clear_region (expectedOffset b) n (buffer_regions b)) (\<lambda>rs'.
            Inr (Some xs, b\<lparr>buffer_regions := rs', expectedOffset := expectedOffset b + int n\<rparr>)))
          else Inr (None, b)
      | [] \<Rightarrow> Inr (None, b))"

section \<open>The bytes at the offsets\<close>

definition region_at :: "'a buffer_region \<Rightarrow> int \<Rightarrow> 'a option" where
  "region_at r i = (if offset r \<le> i \<and> i < getEndOffset r then Some (rdata r ! nat (i - offset r)) else None)"

fun content :: "'a buffer_region list \<Rightarrow> int \<Rightarrow> 'a option" where
  "content [] = Map.empty"
| "content (r # rs) = content rs ++ region_at r"

text \<open>Regions are in order, not empty, and there is a gap between any two.\<close>

fun separate :: "'a buffer_region list \<Rightarrow> bool" where
  "separate [] \<longleftrightarrow> True"
| "separate (r # rs) \<longleftrightarrow> rdata r \<noteq> [] \<and> (\<forall>r' \<in> set rs. getEndOffset r < offset r') \<and> separate rs"

text \<open>The region of \<open>xs\<close> written over a buffer.\<close>

definition overlay :: "int \<Rightarrow> 'a list \<Rightarrow> (int \<Rightarrow> 'a option) \<Rightarrow> int \<Rightarrow> 'a option" where
  "overlay off xs m i = (if off \<le> i \<and> i < off + int (length xs) then Some (xs ! nat (i - off)) else m i)"

definition without :: "int \<Rightarrow> int \<Rightarrow> (int \<Rightarrow> 'a option) \<Rightarrow> int \<Rightarrow> 'a option" where
  "without s e m i = (if s \<le> i \<and> i < e then None else m i)"

lemma content_append: "content (rs @ rs') = content rs' ++ content rs"
  by (induction rs) simp_all

lemma content_Some: "content rs i = Some x \<Longrightarrow> \<exists>r \<in> set rs. offset r \<le> i \<and> i < getEndOffset r"
  by (induction rs) (auto simp: map_add_def region_at_def split: option.splits if_splits)

lemma content_None: "(\<And>r. r \<in> set rs \<Longrightarrow> i < offset r \<or> getEndOffset r \<le> i) \<Longrightarrow> content rs i = None"
  using content_Some [of rs i] by (cases "content rs i") fastforce+

lemma end_after: "rdata r \<noteq> [] \<Longrightarrow> offset r < getEndOffset r"
  by (simp add: getEndOffset_def)

lemma separate_append:
  "separate (rs @ rs') \<longleftrightarrow> separate rs \<and> separate rs' \<and> (\<forall>r \<in> set rs. \<forall>r' \<in> set rs'. getEndOffset r < offset r')"
  by (induction rs) auto

lemma separate_nonempty: "separate rs \<Longrightarrow> r \<in> set rs \<Longrightarrow> rdata r \<noteq> []"
  by (induction rs) auto

text \<open>Slicing: the pieces lie in the old regions and outside the new one.\<close>

lemma slice_pieces:
  assumes "separate rs" and "s < e" and "p \<in> set (slice s e rs)"
  shows "rdata p \<noteq> [] \<and> (getEndOffset p \<le> s \<or> e \<le> offset p) \<and>
    (\<exists>r \<in> set rs. offset r \<le> offset p \<and> getEndOffset p \<le> getEndOffset r)"
  using assms
proof (induction rs)
  case (Cons r rs)
  have far: "e \<le> offset q" if "q \<in> set rs" "offset r < s" "e < getEndOffset r" for q
    using Cons.prems(1) that by force
  have ne: "rdata q \<noteq> []" if "q \<in> set rs" for q using Cons.prems(1) that separate_nonempty by auto
  show ?case using Cons far ne
    by (auto simp: getEndOffset_def split: if_splits)
qed simp

lemma slice_separate: "separate rs \<Longrightarrow> s < e \<Longrightarrow> separate (slice s e rs)"
proof (induction rs)
  case (Cons r rs)
  have later: "getEndOffset r < offset p" if "p \<in> set (slice s e rs)" for p
    using slice_pieces [OF _ Cons.prems(2) that] Cons.prems(1) by fastforce
  show ?case using Cons by (auto simp: getEndOffset_def dest: later [unfolded getEndOffset_def])
qed simp

lemma nat_steps: "a \<le> b \<Longrightarrow> b \<le> c \<Longrightarrow> nat (b - a) + nat (c - b) = nat (c - a)"
  by simp

lemma slice_content:
  assumes "separate rs" and "s < e"
  shows "content (slice s e rs) = without s e (content rs)"
  using assms
proof (induction rs)
  case Nil
  then show ?case by (auto simp: without_def)
next
  case (Cons r rs)
  have rest: "content rs i = None" if "i \<le> getEndOffset r" for i
    using Cons.prems(1) that by (intro content_None) force
  show ?case
  proof
    fix i
    show "content (slice s e (r # rs)) i = without s e (content (r # rs)) i"
      using Cons rest [of i]
      by (auto simp: without_def map_add_def region_at_def getEndOffset_def nat_steps split: option.splits)
  qed
qed

lemma slice_before: "\<forall>r \<in> set xs. getEndOffset r \<le> s \<Longrightarrow> slice s e (xs @ ys) = xs @ slice s e ys"
  by (induction xs) simp_all

lemma slice_later: "\<forall>r \<in> set ys. e \<le> offset r \<Longrightarrow> slice s e ys = ys"
  by (induction ys) simp_all

lemma slice_after: "\<forall>r \<in> set ys. e \<le> offset r \<Longrightarrow> slice s e (xs @ ys) = slice s e xs @ ys"
  by (induction xs) (simp_all add: slice_later)

lemma separate_nth:
  assumes "separate rs" and "i < j" and "j < length rs"
  shows "getEndOffset (rs ! i) < offset (rs ! j)"
  using assms
proof (induction rs arbitrary: i j)
  case (Cons r rs)
  then obtain k where "j = Suc k" by (cases j) auto
  then show ?case using Cons by (cases i) auto
qed simp

text \<open>The binary searches pass only regions that the new one does not touch.\<close>

lemma sliceRegions_slice:
  assumes "separate rs" and "s < e"
  shows "sliceRegions s e rs = slice s e rs"
proof -
  define l where "l = length (takeWhile (\<lambda>r. offset r < s) rs) - 1"
  define m where "m = length (takeWhile (\<lambda>r. getEndOffset r \<le> e) rs)"
  define u where "u = min (length rs) (m + 1)"
  have left: "getEndOffset (rs ! i) \<le> s" if "i < l" for i
  proof -
    have i: "Suc i < length (takeWhile (\<lambda>r. offset r < s) rs)" using that by (simp add: l_def)
    then have "Suc i < length rs" using length_takeWhile_le order_less_le_trans by blast
    then have "getEndOffset (rs ! i) < offset (rs ! Suc i)" using separate_nth [OF assms(1)] by simp
    moreover have "offset (rs ! Suc i) < s" using nth_mem [OF i] set_takeWhileD takeWhile_nth [OF i] by fastforce
    ultimately show ?thesis by simp
  qed
  have right: "e \<le> offset (rs ! i)" if "u \<le> i" "i < length rs" for i
  proof -
    have m: "m < i" using that by (simp add: u_def)
    then have "\<not> getEndOffset (rs ! m) \<le> e" using nth_length_takeWhile [of "\<lambda>r. getEndOffset r \<le> e" rs] that(2) by (simp add: m_def)
    then show ?thesis using separate_nth [OF assms(1) m that(2)] by simp
  qed
  have before: "\<forall>r \<in> set (take l rs). getEndOffset r \<le> s" using left by (auto simp: in_set_conv_nth)
  have "max l u \<le> length rs"
    using length_takeWhile_le [of "\<lambda>r. offset r < s" rs] by (auto simp: l_def u_def)
  then have after: "\<forall>r \<in> set (drop (max l u) rs). e \<le> offset r" using right by (auto simp: in_set_conv_nth)
  have "drop (max l u) rs = drop (u - l) (drop l rs)" by (simp add: max_def)
  then have "slice s e rs = slice s e (take l rs @ take (u - l) (drop l rs) @ drop (max l u) rs)" by (simp only: append_take_drop_id)
  also have "\<dots> = take l rs @ slice s e (take (u - l) (drop l rs)) @ drop (max l u) rs"
    by (simp only: slice_before [OF before] slice_after [OF after])
  finally show ?thesis by (simp add: sliceRegions_def Let_def l_def u_def m_def)
qed

text \<open>Merging where two lists of regions meet.\<close>

lemma nat_after: "nat (i - a) - n = nat (i - (a + int n))"
  by arith

lemma merge_content:
  "rdata p \<noteq> [] \<Longrightarrow> rdata r \<noteq> [] \<Longrightarrow> getEndOffset p \<le> offset r \<Longrightarrow> content (mergeRegions p r) = content [p, r]"
  by (rule ext) (auto simp: mergeRegions_def map_add_def region_at_def getEndOffset_def nth_append nat_less_iff nat_after split: option.splits)

lemma merge_bounds:
  assumes "rdata p \<noteq> []" and "rdata r \<noteq> []" and "getEndOffset p \<le> offset r"
  shows "separate (mergeRegions p r)" and "mergeRegions p r \<noteq> []" and "getEndOffset (last (mergeRegions p r)) = getEndOffset r"
    and "offset (hd (mergeRegions p r)) = offset p"
    and "q \<in> set (mergeRegions p r) \<Longrightarrow> offset p \<le> offset q \<and> getEndOffset q \<le> getEndOffset r"
  using assms by (auto simp: mergeRegions_def getEndOffset_def split: if_splits)

definition join :: "'a buffer_region list \<Rightarrow> 'a buffer_region list \<Rightarrow> 'a buffer_region list" where
  "join xs ys =
     (if xs = [] then ys else if ys = [] then xs else butlast xs @ mergeRegions (last xs) (hd ys) @ tl ys)"

lemma join_ok:
  assumes "separate xs" and "separate ys" and "\<forall>x \<in> set xs. \<forall>y \<in> set ys. getEndOffset x \<le> offset y"
  shows "separate (join xs ys) \<and> content (join xs ys) = content (xs @ ys) \<and>
    (\<forall>q \<in> set (join xs ys). (\<exists>x \<in> set (xs @ ys). offset x \<le> offset q) \<and> (\<exists>x \<in> set (xs @ ys). getEndOffset q \<le> getEndOffset x))"
proof (cases "xs = [] \<or> ys = []")
  case True
  then show ?thesis using assms(1,2) by (auto simp: join_def)
next
  case False
  obtain us u where u: "xs = us @ [u]" using False by (metis rev_exhaust)
  obtain w ws where w: "ys = w # ws" using False by (metis neq_Nil_conv)
  have ne: "rdata u \<noteq> []" "rdata w \<noteq> []" and uw: "getEndOffset u \<le> offset w"
    using assms u w by (auto simp: separate_append)
  have "separate us" "\<forall>r \<in> set us. getEndOffset r < offset u" "separate ws" "\<forall>r \<in> set ws. getEndOffset w < offset r"
    using assms(1,2) u w by (auto simp: separate_append)
  moreover have "offset u < getEndOffset u" "offset w < getEndOffset w" using ne end_after by auto
  moreover have "\<forall>r \<in> set us. \<forall>r' \<in> set ws. getEndOffset r < offset r'" using calculation uw by force
  moreover note m = merge_bounds [OF ne uw]
  moreover have "content (us @ mergeRegions u w @ ws) = content (us @ [u, w] @ ws)"
    unfolding content_append merge_content [OF ne uw] by simp
  ultimately show ?thesis using u w uw by (force simp: join_def separate_append)
qed

lemma after_split:
  assumes "separate rs" and "s < e" and "\<forall>r \<in> set rs. getEndOffset r \<le> s \<or> e \<le> offset r"
  shows "\<forall>r \<in> set (takeWhile (\<lambda>r. offset r \<le> s) rs). getEndOffset r \<le> s"
    and "\<forall>r \<in> set (dropWhile (\<lambda>r. offset r \<le> s) rs). e \<le> offset r"
proof -
  show "\<forall>r \<in> set (takeWhile (\<lambda>r. offset r \<le> s) rs). getEndOffset r \<le> s"
    using assms(2,3) set_takeWhileD by fastforce
  show "\<forall>r \<in> set (dropWhile (\<lambda>r. offset r \<le> s) rs). e \<le> offset r"
    using assms
  proof (induction rs)
    case (Cons r rs)
    have "offset r < offset r'" if "r' \<in> set rs" for r' using Cons.prems(1) that end_after [of r] by fastforce
    then show ?case using Cons end_after by fastforce
  qed simp
qed

lemma replace_join:
  assumes "separate rs" and "xs \<noteq> []" and "rs' = slice off (off + int (length xs)) rs" and "0 \<le> off"
  shows "replace off xs rs =
    Inr (join (join (takeWhile (\<lambda>r. offset r \<le> off) rs') [\<lparr>offset = off, rdata = xs\<rparr>]) (dropWhile (\<lambda>r. offset r \<le> off) rs'))"
proof -
  let ?e = "off + int (length xs)" and ?new = "\<lparr>offset = off, rdata = xs\<rparr>"
  let ?pre = "takeWhile (\<lambda>r. offset r \<le> off) rs'" and ?post = "dropWhile (\<lambda>r. offset r \<le> off) rs'"
  have lt: "off < ?e" using assms(2) by simp
  have sep: "separate rs'" using slice_separate [OF assms(1) lt] assms(3) by simp
  have sl: "sliceRegions off ?e rs = rs'" using sliceRegions_slice [OF assms(1) lt] assms(3) by simp
  have all_before: "?pre = rs' \<and> ?post = []" if "rs' \<noteq> []" "getEndOffset (last rs') \<le> off"
  proof -
    have "offset r \<le> off" if "r \<in> set rs'" for r
    proof -
      obtain us where us: "rs' = us @ [last rs']" using \<open>rs' \<noteq> []\<close> by (metis append_butlast_last_id)
      then have "r = last rs' \<or> getEndOffset r < offset (last rs')" using sep that by (metis UnE in_set_conv_decomp separate_append set_append set_ConsD empty_iff empty_set)
      moreover have "offset r < getEndOffset r" "offset (last rs') < getEndOffset (last rs')"
        using sep that separate_nonempty end_after \<open>rs' \<noteq> []\<close> by (metis last_in_set)+
      ultimately show ?thesis using \<open>getEndOffset (last rs') \<le> off\<close> by auto
    qed
    then show ?thesis by (simp add: takeWhile_eq_all_conv)
  qed
  have all_behind: "?pre = [] \<and> ?post = rs'" if "rs' \<noteq> []" "?e \<le> offset (hd rs')"
    using that assms(2) by (cases rs'; cases xs) auto
  have code: "replace off xs rs =
      Inr (if rs' = [] then [?new]
           else if getEndOffset (last rs') \<le> off then butlast rs' @ mergeRegions (last rs') ?new
           else if ?e \<le> offset (hd rs') then mergeRegions ?new (hd rs') @ tl rs'
           else insertRegion ?new rs')"
    using assms(2,4) by (simp add: replace_def Let_def sl)
  have merged: "mergeRegions p r \<noteq> []" for p r :: "'a buffer_region" by (simp add: mergeRegions_def)
  consider "rs' = []" | "rs' \<noteq> []" "getEndOffset (last rs') \<le> off" | "rs' \<noteq> []" "\<not> getEndOffset (last rs') \<le> off" "?e \<le> offset (hd rs')"
    | "rs' \<noteq> []" "\<not> getEndOffset (last rs') \<le> off" "\<not> ?e \<le> offset (hd rs')" by blast
  then show ?thesis
  proof cases
    case 1
    then show ?thesis unfolding code by (simp add: join_def)
  next
    case 2
    then show ?thesis unfolding code by (simp add: join_def all_before [OF 2] merged)
  next
    case 3
    then show ?thesis unfolding code by (simp add: join_def all_behind [OF 3(1,3)])
  next
    case 4
    then show ?thesis unfolding code by (simp add: join_def insertRegion_def Let_def merged)
  qed
qed

lemma replace_ok:
  assumes "separate rs" and "xs \<noteq> []" and "0 \<le> off"
  shows "\<exists>rs'. replace off xs rs = Inr rs' \<and> separate rs' \<and> content rs' = overlay off xs (content rs)"
proof -
  define e where "e = off + int (length xs)"
  define new where "new = \<lparr>offset = off, rdata = xs\<rparr>"
  define rs1 where "rs1 = slice off e rs"
  define pre where "pre = takeWhile (\<lambda>r. offset r \<le> off) rs1"
  define post where "post = dropWhile (\<lambda>r. offset r \<le> off) rs1"
  have lt: "off < e" using assms(2) by (simp add: e_def)
  have "\<forall>r \<in> set rs1. getEndOffset r \<le> off \<or> e \<le> offset r"
    using slice_pieces [OF assms(1) lt] by (simp add: rs1_def)
  note sides = after_split [OF slice_separate [OF assms(1) lt] lt, folded rs1_def, OF this, folded pre_def post_def]
  have app: "rs1 = pre @ post" by (simp add: pre_def post_def)
  have sep: "separate pre" "separate post" using slice_separate [OF assms(1) lt] app by (simp_all add: separate_append flip: rs1_def)
  have new: "offset new = off" "getEndOffset new = e" "rdata new \<noteq> []" using assms(2) by (simp_all add: new_def e_def getEndOffset_def)
  have left: "separate (join pre [new])" "content (join pre [new]) = content (pre @ [new])"
    "\<forall>q \<in> set (join pre [new]). getEndOffset q \<le> e"
    using join_ok [of pre "[new]"] sep(1) sides(1) new lt by (auto, meson dual_order.trans less_imp_le)
  have "\<forall>x \<in> set (join pre [new]). \<forall>y \<in> set post. getEndOffset x \<le> offset y" using left(3) sides(2) by force
  note right = join_ok [OF left(1) sep(2) this]
  have "content (join (join pre [new]) post) = overlay off xs (content rs)"
  proof
    fix i
    have "content pre i = None" if "off \<le> i" using that sides(1) by (intro content_None) force
    moreover have "content post i = None" if "i < e" using that sides(2) by (intro content_None) force
    moreover have "content rs1 i = without off e (content rs) i" using slice_content [OF assms(1) lt] by (simp add: rs1_def)
    ultimately show "content (join (join pre [new]) post) i = overlay off xs (content rs) i"
      using right left(2) app
      by (auto simp: content_append overlay_def without_def map_add_def region_at_def new e_def new_def getEndOffset_def split: option.splits)
  qed
  then show ?thesis
    using replace_join [OF assms(1,2) refl assms(3)] right by (simp add: e_def new_def rs1_def pre_def post_def)
qed

text \<open>Clearing an interval, and taking the bytes that have arrived in order.\<close>

lemma eraseRegion_content:
  assumes "separate rs" and "eraseRegion off n rs = Some rs'"
  shows "separate rs' \<and> set rs' \<subseteq> set rs \<and> content rs' = without off (off + int n) (content rs)"
  using assms
proof (induction rs arbitrary: rs')
  case (Cons r rs)
  have later: "content rs i = None" if "i \<le> getEndOffset r" for i
    using Cons.prems(1) that by (intro content_None) force
  show ?case
  proof (cases "offset r = off \<and> length (rdata r) = n")
    case True
    then have "rs' = rs" using Cons.prems(2) by auto
    then show ?thesis using Cons.prems(1) True later
      by (auto simp: without_def map_add_def region_at_def getEndOffset_def fun_eq_iff split: option.splits)
  next
    case False
    then obtain rs'' where rs'': "eraseRegion off n rs = Some rs''" "rs' = r # rs''" using Cons.prems(2) by auto
    then have IH: "separate rs''" "set rs'' \<subseteq> set rs" "content rs'' = without off (off + int n) (content rs)"
      using Cons.IH Cons.prems(1) by auto
    have "\<exists>q \<in> set rs. offset q = off"
      using rs''(1) by (induction rs arbitrary: rs'') (auto split: if_splits)
    then have "getEndOffset r < off" using Cons.prems(1) by auto
    then show ?thesis using IH rs''(2) Cons.prems(1) later
      by (auto simp: without_def map_add_def region_at_def fun_eq_iff split: option.splits)
  qed
qed simp

lemma clear_region_ok:
  assumes "separate rs" and "0 \<le> off" and "0 < n"
  shows "\<exists>rs'. clear_region off n rs = Inr rs' \<and> separate rs' \<and> content rs' = without off (off + int n) (content rs)"
  using assms eraseRegion_content [OF assms(1)] slice_separate [of rs off "off + int n"] slice_content [of rs off "off + int n"]
    sliceRegions_slice [of rs off "off + int n"]
  by (cases "eraseRegion off n rs") (auto simp: clear_region_def)

text \<open>The bytes that have arrived in order from the expected offset.\<close>

definition available :: "'a reorder_buffer \<Rightarrow> 'a list" where
  "available b =
     (case buffer_regions b of r # rs \<Rightarrow> if offset r = expectedOffset b then rdata r else [] | [] \<Rightarrow> [])"

definition reorder_ok :: "'a reorder_buffer \<Rightarrow> bool" where
  "reorder_ok b \<longleftrightarrow> separate (buffer_regions b) \<and> 0 \<le> expectedOffset b \<and>
     (\<forall>r \<in> set (buffer_regions b). expectedOffset b \<le> offset r)"

lemma available_content:
  assumes "reorder_ok b"
  shows "i < length (available b) \<Longrightarrow> content (buffer_regions b) (expectedOffset b + int i) = Some (available b ! i)"
    and "content (buffer_regions b) (expectedOffset b + int (length (available b))) = None"
proof -
  have none: "content rs i = None" if "\<forall>r \<in> set rs. i < offset r" for rs i using that by (intro content_None) auto
  show "content (buffer_regions b) (expectedOffset b + int i) = Some (available b ! i)" if "i < length (available b)"
    using that assms
    by (auto simp: available_def reorder_ok_def map_add_def region_at_def getEndOffset_def split: list.splits option.splits if_splits)
  show "content (buffer_regions b) (expectedOffset b + int (length (available b))) = None"
  proof (cases "buffer_regions b")
    case (Cons r rs)
    have "content rs (expectedOffset b + int (length (available b))) = None"
      using assms Cons by (intro none) (auto simp: available_def reorder_ok_def getEndOffset_def)
    then show ?thesis using assms Cons
      by (auto simp: available_def reorder_ok_def map_add_def region_at_def getEndOffset_def split: option.splits)
  qed simp
qed

lemma popAvailableData_ok:
  assumes "reorder_ok b" and "0 < n" and "n \<le> length (available b)"
  shows "\<exists>b'. popAvailableData n b = Inr (Some (take n (available b)), b') \<and> reorder_ok b' \<and>
    expectedOffset b' = expectedOffset b + int n \<and>
    content (buffer_regions b') = without (expectedOffset b) (expectedOffset b + int n) (content (buffer_regions b))"
proof -
  obtain r rs where r: "buffer_regions b = r # rs" "offset r = expectedOffset b" "available b = rdata r"
    using assms(2,3) by (auto simp: available_def split: list.splits if_splits)
  obtain rs' where rs': "clear_region (expectedOffset b) n (buffer_regions b) = Inr rs'" "separate rs'"
      "content rs' = without (expectedOffset b) (expectedOffset b + int n) (content (buffer_regions b))"
    using clear_region_ok [of "buffer_regions b" "expectedOffset b" n] assms by (auto simp: reorder_ok_def)
  have "expectedOffset b + int n \<le> offset q" if q: "q \<in> set rs'" for q
  proof -
    have in_q: "content rs' (offset q) \<noteq> None"
      using q rs'(2) by (induction rs') (auto simp: map_add_def region_at_def getEndOffset_def split: option.splits)
    then have "content (buffer_regions b) (offset q) \<noteq> None" "\<not> (expectedOffset b \<le> offset q \<and> offset q < expectedOffset b + int n)"
      unfolding rs'(3) by (auto simp: without_def split: if_splits)
    moreover from this(1) have "expectedOffset b \<le> offset q"
      using content_Some assms(1) by (fastforce simp: reorder_ok_def)
    ultimately show ?thesis by simp
  qed
  then show ?thesis using rs' r assms
    by (simp add: popAvailableData_def chunk_peek_def reorder_ok_def)
qed

end
