(* ===== verification/Tcp_Queues.thy ===== *)
theory Tcp_Queues
  imports Chunk_Buffers
begin

text \<open>
  The two ends of a TCP connection's data (\<open>TcpSendQueue\<close>, \<open>TcpReceiveQueue\<close>): the sender keeps what
  the application wrote until it is acknowledged and cuts segments from it; the receiver puts
  segments that come in any order, repeated and overlapping, together again.

  The last section composes both with a network that delays, reorders, repeats and loses
  segments: the receiving application reads a prefix of what the sending application wrote.
\<close>

section \<open>TcpSendQueue\<close>

record 'a send_queue =
  sbegin :: seq
  send :: seq
  dataBuffer :: "'a chunk_queue"

definition send_init :: "seq \<Rightarrow> 'a send_queue \<Rightarrow> 'a send_queue" where
  "send_init startSeq q = q\<lparr>sbegin := startSeq, send := startSeq, dataBuffer := clear_queue (dataBuffer q)\<rparr>"

definition enqueueAppData :: "'a list \<Rightarrow> 'a send_queue \<Rightarrow> 'a send_queue result" where
  "enqueueAppData msg q =
     rbind (chunk_peek msg 0 (length msg)) (\<lambda>chunk.
     rbind (push chunk (dataBuffer q)) (\<lambda>b.
     let q' = q\<lparr>dataBuffer := b, send := send q + of_nat (length msg)\<rparr>
     in if seqLess (send q') (sbegin q') then Inl (RuntimeError ''Send queue is full'') else Inr q'))"

definition getBytesAvailable :: "seq \<Rightarrow> 'a send_queue \<Rightarrow> 32 word" where
  "getBytesAvailable fromSeq q = (if seqLess fromSeq (send q) then send q - fromSeq else 0)"

definition createSegmentWithBytes :: "seq \<Rightarrow> 32 word \<Rightarrow> 'a send_queue \<Rightarrow> 'a list result" where
  "createSegmentWithBytes fromSeq numBytes q =
     require (seqLE (sbegin q) fromSeq \<and> seqLE (fromSeq + numBytes) (send q))
       (peekAt (unat (fromSeq - sbegin q)) (unat numBytes) (dataBuffer q))"

definition send_discardUpTo :: "seq \<Rightarrow> 'a send_queue \<Rightarrow> 'a send_queue result" where
  "send_discardUpTo seqNum q =
     require (seqLE (sbegin q) seqNum \<and> seqLE seqNum (send q))
       (if seqNum \<noteq> sbegin q
        then rbind (pop (unat (seqNum - sbegin q)) (dataBuffer q)) (\<lambda>(xs, b). Inr (q\<lparr>dataBuffer := b, sbegin := seqNum\<rparr>))
        else Inr q)"

text \<open>The queue holds the bytes between its two numbers, less than half the number space.\<close>

definition send_ok :: "'a send_queue \<Rightarrow> bool" where
  "send_ok q \<longleftrightarrow> chunk_queue_ok (dataBuffer q) \<and> length (queued (dataBuffer q)) = fwd (sbegin q) (send q) \<and> fwd (sbegin q) (send q) < half"

abbreviation unsent :: "'a send_queue \<Rightarrow> 'a list" where
  "unsent q \<equiv> queued (dataBuffer q)"

lemma send_init_ok: "chunk_queue_ok (dataBuffer q) \<Longrightarrow> send_ok (send_init s q) \<and> unsent (send_init s q) = []"
  using clear_queue_ok [of "dataBuffer q"] by (simp add: send_ok_def send_init_def)

lemma enqueueAppData_ok:
  assumes "send_ok q" and "msg \<noteq> []" and "length (unsent q) + length msg < half"
  shows "\<exists>q'. enqueueAppData msg q = Inr q' \<and> send_ok q' \<and> unsent q' = unsent q @ msg \<and> sbegin q' = sbegin q"
proof -
  obtain b where b: "push msg (dataBuffer q) = Inr b" "chunk_queue_ok b" "queued b = unsent q @ msg"
    using push_ok assms by (auto simp: send_ok_def)
  have step: "fwd (send q) (send q + of_nat (length msg)) = length msg" using assms(3) by (simp add: fwd_add)
  then have total: "fwd (sbegin q) (send q + of_nat (length msg)) = length (unsent q) + length msg"
    using fwd_trans [of "sbegin q" "send q" "send q + of_nat (length msg)"] assms(1,3) by (simp add: send_ok_def)
  then have "\<not> seqLess (send q + of_nat (length msg)) (sbegin q)"
    using fwd_flip [of "sbegin q" "send q + of_nat (length msg)"] assms(3) by (auto simp: seqLess_fwd)
  then show ?thesis using b total assms(2,3) by (simp add: enqueueAppData_def chunk_peek_def send_ok_def)
qed

lemma createSegment_ok:
  assumes "send_ok q" and "0 < n" and "fwd (sbegin q) x + n \<le> length (unsent q)"
  shows "createSegmentWithBytes x (of_nat n) q = Inr (take n (drop (fwd (sbegin q) x) (unsent q)))"
proof -
  have small: "fwd (sbegin q) x + n < half" "fwd (sbegin q) (send q) = length (unsent q)" "length (unsent q) < half"
    using assms by (simp_all add: send_ok_def)
  have n: "unat (of_nat n :: 32 word) = n" "fwd x (x + of_nat n) = n" using small(1) by (simp_all add: unat_of_nat fwd_add)
  then have y: "fwd (sbegin q) (x + of_nat n) = fwd (sbegin q) x + n"
    using fwd_trans [of "sbegin q" x "x + of_nat n"] small(1) by simp
  have "seqLE (x + of_nat n) (send q)"
    using window_order(1) [of "sbegin q" "x + of_nat n" "send q"] y small assms(3) by simp
  moreover have "seqLE (sbegin q) x" using small(1) by (simp add: seqLE_fwd)
  ultimately show ?thesis using peekAt_ok [of "dataBuffer q" n "fwd (sbegin q) x"] assms n
    by (simp add: createSegmentWithBytes_def send_ok_def flip: fwd_def)
qed

lemma send_discardUpTo_ok:
  assumes "send_ok q" and "fwd (sbegin q) x \<le> length (unsent q)"
  shows "\<exists>q'. send_discardUpTo x q = Inr q' \<and> send_ok q' \<and> sbegin q' = x \<and> send q' = send q \<and>
    unsent q' = drop (fwd (sbegin q) x) (unsent q)"
proof -
  have e: "fwd (sbegin q) (send q) = length (unsent q)" "length (unsent q) < half" using assms(1) by (simp_all add: send_ok_def)
  have guard: "seqLE (sbegin q) x \<and> seqLE x (send q)"
    using window_order(1) [of "sbegin q" x "send q"] e assms(2) by (simp add: seqLE_fwd [of "sbegin q"])
  have rest: "fwd x (send q) = length (unsent q) - fwd (sbegin q) x" using fwd_split [of "sbegin q" x "send q"] e assms(2) by simp
  show ?thesis
  proof (cases "x = sbegin q")
    case True
    then show ?thesis using guard assms(1) by (simp add: send_discardUpTo_def)
  next
    case False
    then obtain b where "pop (fwd (sbegin q) x) (dataBuffer q) = Inr (take (fwd (sbegin q) x) (unsent q), b)" "chunk_queue_ok b"
        "queued b = drop (fwd (sbegin q) x) (unsent q)"
      using pop_ok [of "dataBuffer q" "fwd (sbegin q) x"] assms by (auto simp: send_ok_def)
    then show ?thesis using False guard rest e by (simp add: send_discardUpTo_def send_ok_def flip: fwd_def)
  qed
qed

section \<open>TcpReceiveQueue\<close>

record 'a receive_queue =
  rcv_nxt :: seq
  reorderBuffer :: "'a reorder_buffer"

definition offsetToSeq :: "int \<Rightarrow> seq" where
  "offsetToSeq offs = of_int offs"

definition seqToOffset :: "seq \<Rightarrow> 'a receive_queue \<Rightarrow> int" where
  "seqToOffset s q =
     (let expOffs = expectedOffset (reorderBuffer q); expSeq = offsetToSeq expOffs
      in if seqGE s expSeq then expOffs + uint (s - expSeq) else expOffs - uint (expSeq - s))"

definition receive_init :: "seq \<Rightarrow> 'a receive_queue" where
  "receive_init startSeq = \<lparr>rcv_nxt = startSeq, reorderBuffer = \<lparr>buffer_regions = [], expectedOffset = uint startSeq\<rparr>\<rparr>"

text \<open>The check of a debug build: the segment and the buffered regions lie in one window.\<close>

definition outOfRange :: "seq \<Rightarrow> nat \<Rightarrow> 'a receive_queue \<Rightarrow> bool" where
  "outOfRange nb n q =
     (case buffer_regions (reorderBuffer q) of
        [] \<Rightarrow> False
      | r # rs \<Rightarrow>
          let ob = offsetToSeq (offset r); oe = offsetToSeq (getEndOffset (last (r # rs)));
              ne = nb + of_nat n; minb = seqMin ob nb; maxe = seqMax oe ne
          in seqGE minb oe \<or> seqGE minb ne \<or> seqGE ob maxe \<or> seqGE nb maxe)"

definition insertBytesFromSegment :: "seq \<Rightarrow> 'a list \<Rightarrow> 'a receive_queue \<Rightarrow> (seq \<times> 'a receive_queue) result" where
  "insertBytesFromSegment seq0 payload0 q =
     (let buffSeq = offsetToSeq (expectedOffset (reorderBuffer q))
      in if outOfRange seq0 (length payload0) q then Inl (RuntimeError ''The new segment is out of the acceptable range'')
         else
           let offs = (if seqLess seq0 buffSeq then unat (buffSeq - seq0) else 0);
               s = (if seqLess seq0 buffSeq then buffSeq else seq0)
           in rbind (if length payload0 < offs then Inl (RuntimeError ''length is invalid'')
                     else chunk_peek payload0 offs (length payload0 - offs)) (\<lambda>payload.
              rbind (replace (seqToOffset s q) payload (buffer_regions (reorderBuffer q))) (\<lambda>rs.
              let first = hd rs;
                  nxt = (if seqGE (rcv_nxt q) (offsetToSeq (offset first))
                         then offsetToSeq (offset first + int (length (rdata first))) else rcv_nxt q);
                  q' = q\<lparr>rcv_nxt := nxt, reorderBuffer := (reorderBuffer q)\<lparr>buffer_regions := rs\<rparr>\<rparr>
              in Inr (nxt, q'))))"

definition extractBytesUpTo :: "seq \<Rightarrow> 'a receive_queue \<Rightarrow> ('a list option \<times> 'a receive_queue) result" where
  "extractBytesUpTo s q =
     require (seqLE s (rcv_nxt q))
       (if buffer_regions (reorderBuffer q) = [] then Inr (None, q)
        else
          let maxLength = seqToOffset s q - expectedOffset (reorderBuffer q)
          in if maxLength \<le> 0 then Inr (None, q)
             else rbind (popAvailableData (nat maxLength) (reorderBuffer q)) (\<lambda>(chunk, b).
               let q' = q\<lparr>reorderBuffer := b\<rparr>
               in require (expectedOffset b \<le> seqToOffset s q') (Inr (chunk, q'))))"

definition getAmountOfBufferedBytes :: "'a receive_queue \<Rightarrow> 32 word" where
  "getAmountOfBufferedBytes q = of_nat (sum_list (map (\<lambda>r. length (rdata r)) (buffer_regions (reorderBuffer q))))"

definition getAmountOfFreeBytes :: "32 word \<Rightarrow> 'a receive_queue \<Rightarrow> 32 word" where
  "getAmountOfFreeBytes maxRcvBuffer q =
     (let used = getAmountOfBufferedBytes q
      in if maxRcvBuffer > used then maxRcvBuffer - used else 0)"

definition getLE :: "seq \<Rightarrow> 'a receive_queue \<Rightarrow> seq" where
  "getLE fromSeqNum q =
     (let fs = seqToOffset fromSeqNum q
      in case List.find (\<lambda>r. offset r \<le> fs \<and> fs < getEndOffset r) (buffer_regions (reorderBuffer q)) of
           Some r \<Rightarrow> offsetToSeq (offset r)
         | None \<Rightarrow> fromSeqNum)"

definition getRE :: "seq \<Rightarrow> 'a receive_queue \<Rightarrow> seq" where
  "getRE toSeqNum q =
     (let fs = seqToOffset toSeqNum q
      in case List.find (\<lambda>r. offset r < fs \<and> fs \<le> getEndOffset r) (buffer_regions (reorderBuffer q)) of
           Some r \<Rightarrow> offsetToSeq (getEndOffset r)
         | None \<Rightarrow> toSeqNum)"

definition getFirstSeqNo :: "'a receive_queue \<Rightarrow> seq" where
  "getFirstSeqNo q =
     (case buffer_regions (reorderBuffer q) of
        [] \<Rightarrow> rcv_nxt q
      | r # rs \<Rightarrow> seqMin (offsetToSeq (offset r)) (rcv_nxt q))"

section \<open>Reassembly\<close>

text \<open>
  \<open>S\<close> is the stream of the sender, its byte \<open>0\<close> has the number \<open>start\<close>; the application has read \<open>n\<close>
  bytes. Nothing lies further from there than \<open>W\<close>, more than the largest window of TCP, \<open>65535\<close> times
  \<open>2 ^ 14\<close>.
\<close>

abbreviation W :: nat where
  "W \<equiv> 1073741823"

definition arrived :: "seq \<Rightarrow> 'a receive_queue \<Rightarrow> nat \<Rightarrow> 'a option" where
  "arrived start q i = content (buffer_regions (reorderBuffer q)) (uint start + int i)"

definition receive_ok :: "(nat \<Rightarrow> 'a) \<Rightarrow> seq \<Rightarrow> nat \<Rightarrow> 'a receive_queue \<Rightarrow> bool" where
  "receive_ok S start n q \<longleftrightarrow>
     reorder_ok (reorderBuffer q) \<and> expectedOffset (reorderBuffer q) = uint start + int n \<and>
     (\<forall>i x. arrived start q i = Some x \<longrightarrow> x = S i) \<and>
     (\<forall>r \<in> set (buffer_regions (reorderBuffer q)). getEndOffset r \<le> uint start + int (n + W)) \<and>
     rcv_nxt q = start + of_nat (n + length (available (reorderBuffer q)))"

lemma number_fwd:
  assumes "lo \<le> k" and "k < lo + half"
  shows "fwd (start + of_nat lo) (start + of_nat k) = k - lo"
proof -
  have "start + of_nat k = (start + of_nat lo) + of_nat (k - lo)" using assms(1) by simp
  then show ?thesis using assms fwd_add [of "start + of_nat lo" "k - lo"] by simp
qed

lemma number_order:
  assumes "lo \<le> i" and "i < lo + half" and "lo \<le> j" and "j < lo + half"
  shows "seqLE (start + of_nat i) (start + of_nat j) \<longleftrightarrow> i \<le> j" and "seqLess (start + of_nat i) (start + of_nat j) \<longleftrightarrow> i < j"
proof -
  have near: "fwd (start + of_nat lo) (start + of_nat i) < half" "fwd (start + of_nat lo) (start + of_nat j) < half"
    using assms number_fwd [OF assms(1,2), of start] number_fwd [OF assms(3,4), of start] by simp_all
  show "seqLE (start + of_nat i) (start + of_nat j) \<longleftrightarrow> i \<le> j" "seqLess (start + of_nat i) (start + of_nat j) \<longleftrightarrow> i < j"
    using window_order [OF near] number_fwd [OF assms(1,2), of start] number_fwd [OF assms(3,4), of start] assms by auto
qed

lemma offsetToSeq_at [simp]: "offsetToSeq (uint start + int i) = start + of_nat i"
  by (simp add: offsetToSeq_def)

lemma offset_index: "uint start + int n \<le> x \<Longrightarrow> \<exists>i \<ge> n. x = uint start + int i"
  by (rule exI [of _ "nat (x - uint start)"]) (use uint_ge_0 [of start] in linarith)

lemma region_bytes:
  assumes "separate rs" and "r \<in> set rs" and "offset r \<le> i" and "i < getEndOffset r"
  shows "content rs i \<noteq> None"
  using assms by (induction rs) (auto simp: map_add_def region_at_def split: option.splits)

lemma seqToOffset_at:
  assumes "expectedOffset (reorderBuffer q) = uint start + int n" and "n \<le> i" and "i < n + half"
  shows "seqToOffset (start + of_nat i) q = uint start + int i"
proof -
  have "seqGE (start + of_nat i) (start + of_nat n)"
    using number_order(1) [of n n i start] assms(2,3) by (simp add: seqGE_LE)
  moreover have "uint (start + of_nat i - (start + of_nat n) :: 32 word) = int (i - n)"
  proof -
    have "start + of_nat i - (start + of_nat n) = (of_nat (i - n) :: 32 word)" using assms(2) by simp
    then show ?thesis using assms(3) by (simp add: unsigned_of_nat take_bit_nat_eq_self)
  qed
  ultimately show ?thesis using assms by (simp add: seqToOffset_def Let_def)
qed

lemma in_range:
  assumes "receive_ok S start n q" and "n \<le> k + W" and "k + m \<le> n + W" and "n < k + m" and "0 < m"
  shows "\<not> outOfRange (start + of_nat k) m q"
proof (cases "buffer_regions (reorderBuffer q)")
  case (Cons r rs)
  let ?l = "last (r # rs)"
  have sep: "separate (r # rs)" and lo: "\<forall>r' \<in> set (r # rs). uint start + int n \<le> offset r'"
    and hi: "\<forall>r' \<in> set (r # rs). getEndOffset r' \<le> uint start + int (n + W)"
    using assms(1) Cons by (auto simp: receive_ok_def reorder_ok_def)
  have l: "?l \<in> set (r # rs)" by simp
  have first_last: "offset r \<le> offset ?l"
  proof (cases "rs = []")
    case False
    then have "getEndOffset r < offset ?l" using sep last_in_set [OF False] by simp
    then show ?thesis using sep end_after [of r] by simp
  qed simp
  have len: "offset ?l < getEndOffset ?l" using separate_nonempty [OF sep l] end_after by blast
  have "uint start + int n \<le> offset r" using lo by simp
  then obtain i where i: "offset r = uint start + int i" "n \<le> i" using offset_index by blast
  have "uint start + int n \<le> getEndOffset ?l" using \<open>uint start + int n \<le> offset r\<close> first_last len by linarith
  then obtain j where j: "getEndOffset ?l = uint start + int j" "n \<le> j" using offset_index by blast
  have "getEndOffset ?l \<le> uint start + int (n + W)" using hi l by blast
  then have "int j \<le> int (n + W)" "int i < int j" using i(1) j(1) first_last len by linarith+
  then have ij: "i < j" "j \<le> n + W" by linarith+
  define lo where "lo = min k n"
  have near: "lo \<le> x \<and> x < lo + half" if "x \<in> {i, j, k, k + m}" for x
    using that assms(2-5) i(2) ij by (auto simp: lo_def min_def)
  have order: "seqLE (start + of_nat x) (start + of_nat y) \<longleftrightarrow> x \<le> y" if "x \<in> {i, j, k, k + m}" "y \<in> {i, j, k, k + m}" for x y
    using number_order(1) [of lo x y start] near [OF that(1)] near [OF that(2)] by blast
  have mn: "seqMin (start + of_nat i) (start + of_nat k) = start + of_nat (min i k)"
    using order [of i k] by (simp add: seqMin_LE min_def)
  have mx: "seqMax (start + of_nat j) (start + of_nat (k + m)) = start + of_nat (max j (k + m))"
    using order [of "k + m" j] by (auto simp: seqMax_LE max_def)
  have minmax: "min i k \<in> {i, j, k, k + m}" "max j (k + m) \<in> {i, j, k, k + m}" by (auto simp: min_def max_def)
  have ne: "start + of_nat k + of_nat m = start + of_nat (k + m)" by simp
  have "\<not> outOfRange (start + of_nat k) m q \<longleftrightarrow>
      \<not> (j \<le> min i k \<or> k + m \<le> min i k \<or> max j (k + m) \<le> i \<or> max j (k + m) \<le> k)"
    using order [OF _ minmax(1), of j] order [OF _ minmax(1), of "k + m"] order [OF minmax(2), of i] order [OF minmax(2), of k]
    by (simp only: outOfRange_def Cons list.case Let_def i(1) j(1) ne mn mx seqGE_LE offsetToSeq_at insert_iff simp_thms)
  then show ?thesis using ij assms(5) by auto
qed (simp add: outOfRange_def)

text \<open>The number of bytes that have arrived without a gap is where the known bytes end.\<close>

lemma contiguous_unique:
  assumes "reorder_ok b" and "\<And>i. i < m \<Longrightarrow> content (buffer_regions b) (expectedOffset b + int i) \<noteq> None"
    and "content (buffer_regions b) (expectedOffset b + int m) = None"
  shows "length (available b) = m"
  using available_content(1) [OF assms(1), of m] available_content(2) [OF assms(1)] assms(2) [of "length (available b)"] assms(3)
  by (cases "length (available b)" m rule: linorder_cases) auto

lemma overlay_map:
  "overlay (uint start + int j) (map S [j..<l]) m (uint start + int i) =
    (if j \<le> i \<and> i < l then Some (S i) else m (uint start + int i))"
  by (cases "j \<le> l") (auto simp: overlay_def of_nat_diff nat_diff_distrib)

lemma insert_ok:
  assumes ok: "receive_ok S start n q" and seg: "n \<le> k + W" "k + m \<le> n + W" "n < k + m" "0 < m"
  shows "\<exists>q'. insertBytesFromSegment (start + of_nat k) (map S [k..<k + m]) q = Inr (rcv_nxt q', q') \<and> receive_ok S start n q' \<and>
    (\<forall>i. arrived start q' i = (if max k n \<le> i \<and> i < k + m then Some (S i) else arrived start q i))"
proof -
  let ?E = "uint start + int n" and ?rs = "buffer_regions (reorderBuffer q)" and ?j = "max k n"
  have E: "expectedOffset (reorderBuffer q) = ?E" and sep: "separate ?rs" and above: "\<forall>r \<in> set ?rs. ?E \<le> offset r"
    and below: "\<forall>r \<in> set ?rs. getEndOffset r \<le> uint start + int (n + W)"
    using ok by (auto simp: receive_ok_def reorder_ok_def)
  have jm: "?j < k + m" using seg(3,4) by auto
  define lo where "lo = min k n"
  have less: "seqLess (start + of_nat k) (start + of_nat n) \<longleftrightarrow> k < n"
    by (rule number_order(2) [of lo]) (use seg in \<open>auto simp: lo_def min_def\<close>)
  have old: "unat (start + of_nat n - (start + of_nat k) :: 32 word) = n - k" if "k < n"
  proof -
    have "start + of_nat n - (start + of_nat k) = (of_nat (n - k) :: 32 word)" using that by simp
    then show ?thesis using seg(1) by (simp add: unat_of_nat)
  qed
  have offs: "(if seqLess (start + of_nat k) (start + of_nat n) then unat (start + of_nat n - (start + of_nat k) :: 32 word) else 0) = ?j - k"
    "(if seqLess (start + of_nat k) (start + of_nat n) then start + of_nat n else start + of_nat k) = start + of_nat ?j"
    using less old by (auto simp: max_def)
  have peek: "chunk_peek (map S [k..<k + m]) (?j - k) (length (map S [k..<k + m]) - (?j - k)) = Inr (map S [?j..<k + m])"
    using seg(3,4) by (auto simp: chunk_peek_def max_def drop_map)
  have at: "seqToOffset (start + of_nat ?j) q = uint start + int ?j"
    by (rule seqToOffset_at [OF E]) (use seg in auto)
  obtain rs where rs: "replace (uint start + int ?j) (map S [?j..<k + m]) ?rs = Inr rs" "separate rs"
      "content rs = overlay (uint start + int ?j) (map S [?j..<k + m]) (content ?rs)"
    using replace_ok [OF sep, of "map S [?j..<k + m]" "uint start + int ?j"] jm by auto
  have bytes: "content rs (uint start + int i) = (if ?j \<le> i \<and> i < k + m then Some (S i) else arrived start q i)" for i
    unfolding rs(3) arrived_def by (rule overlay_map)
  have inside: "?E \<le> x \<and> x < uint start + int (n + W)" if "content rs x \<noteq> None" for x
  proof (cases "uint start + int ?j \<le> x \<and> x < uint start + int ?j + int (length (map S [?j..<k + m]))")
    case True
    then show ?thesis using seg by auto
  next
    case False
    then have "content ?rs x \<noteq> None" using that unfolding rs(3) by (auto simp: overlay_def)
    then obtain r where "r \<in> set ?rs" "offset r \<le> x" "x < getEndOffset r" using content_Some by fastforce
    then show ?thesis using above below by fastforce
  qed
  have in_reg: "?E \<le> offset r \<and> getEndOffset r \<le> uint start + int (n + W)" if "r \<in> set rs" for r
  proof -
    have "offset r < getEndOffset r" using separate_nonempty [OF rs(2) that] end_after by blast
    then show ?thesis
      using inside [OF region_bytes [OF rs(2) that, of "offset r"]] inside [OF region_bytes [OF rs(2) that, of "getEndOffset r - 1"]] by simp
  qed
  define b where "b = (reorderBuffer q)\<lparr>buffer_regions := rs\<rparr>"
  have b: "reorder_ok b" "expectedOffset b = ?E" "buffer_regions b = rs"
    using in_reg rs(2) E ok by (auto simp: b_def reorder_ok_def receive_ok_def)
  have "content rs (uint start + int ?j) \<noteq> None" using bytes [of ?j] seg by simp
  then obtain r0 rs0 where rs0: "rs = r0 # rs0" by (cases rs) auto
  have r0: "?E \<le> offset r0" "getEndOffset r0 \<le> uint start + int (n + W)" "offset r0 < getEndOffset r0"
    using in_reg [of r0] rs0 end_after [of r0] rs(2) by simp_all
  obtain f where f: "offset r0 = uint start + int f" "n \<le> f" using offset_index [OF r0(1)] by blast
  have fW: "f < n + W" using r0(2,3) f(1) by linarith
  let ?p = "n + length (available (reorderBuffer q))"
  have pW: "?p \<le> n + W"
  proof -
    have "?E + int (length (available (reorderBuffer q))) \<le> uint start + int (n + W)"
      using below E by (auto simp: available_def getEndOffset_def split: list.splits if_splits)
    then show ?thesis by linarith
  qed
  have ge: "seqGE (rcv_nxt q) (offsetToSeq (offset r0)) \<longleftrightarrow> f \<le> ?p"
  proof -
    have "rcv_nxt q = start + of_nat ?p" using ok by (simp add: receive_ok_def)
    moreover have "seqLE (start + of_nat f) (start + of_nat ?p) \<longleftrightarrow> f \<le> ?p"
      by (rule number_order(1) [of n]) (use f(2) fW pW in auto)
    ultimately show ?thesis by (simp add: seqGE_LE f(1))
  qed
  have first: "f = n" if "available (reorderBuffer q) \<noteq> []"
  proof -
    have "content rs ?E \<noteq> None"
      using available_content(1) [of "reorderBuffer q" 0] that ok bytes [of n] E by (auto simp: receive_ok_def arrived_def)
    then obtain r where "r \<in> set rs" "offset r \<le> ?E" using content_Some by fastforce
    then have "offset r0 \<le> ?E" using rs0 rs(2) end_after [of r0] by force
    then show ?thesis using f by simp
  qed
  have nxt: "(if seqGE (rcv_nxt q) (offsetToSeq (offset r0)) then offsetToSeq (offset r0 + int (length (rdata r0))) else rcv_nxt q) =
      start + of_nat (n + length (available b))"
  proof (cases "f \<le> ?p")
    case True
    then have "f = n" using first f(2) by (cases "available (reorderBuffer q) = []") auto
    then have "available b = rdata r0" "offset r0 + int (length (rdata r0)) = uint start + int (n + length (rdata r0))"
      using f(1) b(2,3) rs0 by (simp_all add: available_def)
    then show ?thesis using ge True by (simp only: if_True offsetToSeq_at)
  next
    case False
    then have "available (reorderBuffer q) = []" using first f(2) by auto
    moreover have "available b = []" using False f(1) b(2,3) rs0 by (simp add: available_def)
    ultimately show ?thesis using ge False ok by (simp add: receive_ok_def)
  qed
  define q' where "q' = q\<lparr>rcv_nxt := start + of_nat (n + length (available b)), reorderBuffer := b\<rparr>"
  have "insertBytesFromSegment (start + of_nat k) (map S [k..<k + m]) q = Inr (rcv_nxt q', q')"
  proof -
    have "\<not> length (map S [k..<k + m]) < ?j - k" using seg(3) by (auto simp: max_def)
    moreover have "\<not> outOfRange (start + of_nat k) (length (map S [k..<k + m])) q" using in_range [OF ok seg] by simp
    ultimately show ?thesis
      unfolding insertBytesFromSegment_def Let_def E offsetToSeq_at offs
      by (simp only: if_False peek rbind_Inr at rs(1)) (simp only: rs0 list.sel nxt, simp add: q'_def b_def rs0)
  qed
  moreover have "arrived start q' i = (if ?j \<le> i \<and> i < k + m then Some (S i) else arrived start q i)" for i
    using bytes [of i] b(3) by (simp add: arrived_def q'_def)
  moreover from this have "receive_ok S start n q'"
    using b in_reg ok by (auto simp: receive_ok_def q'_def)
  ultimately show ?thesis by blast
qed

lemma available_bytes:
  assumes "receive_ok S start n q"
  shows "available (reorderBuffer q) = map S [n..<n + length (available (reorderBuffer q))]"
proof (rule nth_equalityI)
  fix i
  assume "i < length (available (reorderBuffer q))"
  then have "arrived start q (n + i) = Some (available (reorderBuffer q) ! i)"
    using available_content(1) [of "reorderBuffer q" i] assms by (simp add: receive_ok_def arrived_def add.assoc)
  then have "available (reorderBuffer q) ! i = S (n + i)" using assms by (simp add: receive_ok_def)
  then show "available (reorderBuffer q) ! i = map S [n..<n + length (available (reorderBuffer q))] ! i"
    using \<open>i < length (available (reorderBuffer q))\<close> by simp
qed simp

lemma extract_ok:
  assumes ok: "receive_ok S start n q" and j: "n \<le> j" "j \<le> n + length (available (reorderBuffer q))"
    and near: "length (available (reorderBuffer q)) \<le> W"
  shows "\<exists>q'. extractBytesUpTo (start + of_nat j) q = Inr (if j = n then None else Some (map S [n..<j]), q') \<and>
    receive_ok S start j q' \<and> rcv_nxt q' = rcv_nxt q \<and> (\<forall>i \<ge> j. arrived start q' i = arrived start q i)"
proof -
  let ?b = "reorderBuffer q" and ?E = "uint start + int n"
  have E: "expectedOffset ?b = ?E" and rok: "reorder_ok ?b" and nxt: "rcv_nxt q = start + of_nat (n + length (available ?b))"
    using ok by (auto simp: receive_ok_def)
  have guard: "seqLE (start + of_nat j) (rcv_nxt q)"
    unfolding nxt by (subst number_order(1) [of n]) (use j near in auto)
  have off: "seqToOffset (start + of_nat j) q = uint start + int j" by (rule seqToOffset_at [OF E]) (use j near in auto)
  show ?thesis
  proof (cases "j = n")
    case True
    then show ?thesis using guard off E ok by (auto simp: extractBytesUpTo_def Let_def)
  next
    case False
    then have pos: "0 < j - n" "j - n \<le> length (available ?b)" using j by auto
    then have "buffer_regions ?b \<noteq> []" by (auto simp: available_def)
    obtain b' where b': "popAvailableData (j - n) ?b = Inr (Some (take (j - n) (available ?b)), b')" "reorder_ok b'"
        "expectedOffset b' = ?E + int (j - n)"
        "content (buffer_regions b') = without ?E (?E + int (j - n)) (content (buffer_regions ?b))"
      using popAvailableData_ok [OF rok pos] E by auto
    define q' where "q' = q\<lparr>reorderBuffer := b'\<rparr>"
    have E': "expectedOffset b' = uint start + int j" using b'(3) j(1) by simp
    have same: "content (buffer_regions b') (uint start + int i) = content (buffer_regions ?b) (uint start + int i)" if "j \<le> i" for i
      using that j(1) unfolding b'(4) by (simp add: without_def)
    have off': "seqToOffset (start + of_nat j) q' = uint start + int j"
      by (rule seqToOffset_at) (use E' in \<open>auto simp: q'_def\<close>)
    have data: "take (j - n) (available ?b) = map S [n..<j]"
      using j by (subst available_bytes [OF ok]) (simp add: take_map)
    have "extractBytesUpTo (start + of_nat j) q = Inr (Some (map S [n..<j]), q')"
      using guard off E off' E' b'(1) \<open>buffer_regions ?b \<noteq> []\<close> pos(1)
      by (simp add: extractBytesUpTo_def Let_def data nat_diff_distrib q'_def flip: of_nat_diff)
    moreover have avail: "length (available b') = n + length (available ?b) - j"
    proof (rule contiguous_unique [OF b'(2)])
      fix i
      assume "i < n + length (available ?b) - j"
      then have "j - n + i < length (available ?b)" using j by linarith
      then show "content (buffer_regions b') (expectedOffset b' + int i) \<noteq> None"
        using available_content(1) [OF rok, of "j - n + i"] same [of "j + i"] j(1) E by (simp add: E' add.assoc)
    next
      show "content (buffer_regions b') (expectedOffset b' + int (n + length (available ?b) - j)) = None"
        using available_content(2) [OF rok] same [of "n + length (available ?b)"] j E by (simp add: E' add.assoc)
    qed
    moreover have "receive_ok S start j q'"
    proof -
      have "x = S i" if "content (buffer_regions b') (uint start + int i) = Some x" for i x
        using that ok unfolding b'(4) by (auto simp: without_def receive_ok_def arrived_def split: if_splits)
      moreover have "getEndOffset r \<le> uint start + int (j + W)" if r: "r \<in> set (buffer_regions b')" for r
      proof -
        have "separate (buffer_regions b')" using b'(2) by (simp add: reorder_ok_def)
        then have "content (buffer_regions b') (getEndOffset r - 1) \<noteq> None"
          using region_bytes r end_after separate_nonempty by (metis int_one_le_iff_zero_less zle_diff1_eq zless_imp_add1_zle diff_gt_0_iff_gt le_diff_eq less_add_one zle_add1_eq_le add.commute diff_add_cancel)
        then have "content (buffer_regions ?b) (getEndOffset r - 1) \<noteq> None" unfolding b'(4) by (auto simp: without_def split: if_splits)
        then obtain r' where "r' \<in> set (buffer_regions ?b)" "getEndOffset r - 1 < getEndOffset r'" using content_Some by fastforce
        then show ?thesis using ok j(1) by (fastforce simp: receive_ok_def)
      qed
      ultimately show ?thesis using b'(2) E' nxt avail j by (auto simp: receive_ok_def q'_def arrived_def)
    qed
    ultimately show ?thesis using False same by (auto simp: q'_def arrived_def)
  qed
qed

section \<open>From one application to the other\<close>

text \<open>\<open>TcpConnection::isSegmentAcceptable\<close>, with the variables of the connection as arguments.\<close>

definition isSegmentAcceptable :: "seq \<Rightarrow> 32 word \<Rightarrow> seq \<Rightarrow> seq \<Rightarrow> seq \<Rightarrow> bool \<Rightarrow> seq \<Rightarrow> seq \<Rightarrow> 32 word \<Rightarrow> bool" where
  "isSegmentAcceptable rcvnxt rcv_wnd snd_una snd_nxt snd_max afterRto seqNo ackNo n =
     (let rcvWndEnd = rcvnxt + rcv_wnd;
          ret = (if n = 0
                 then (if rcv_wnd = 0 then seqNo = rcvnxt else seqLE rcvnxt seqNo \<and> seqLE seqNo rcvWndEnd)
                 else (if rcv_wnd = 0 then False
                       else seqLE rcvnxt seqNo \<and> seqLess seqNo rcvWndEnd \<or>
                         seqLess rcvnxt (seqNo + n) \<and> seqLE (seqNo + n) rcvWndEnd))
      in if \<not> ret \<and> n = 0
         then seqLess snd_una ackNo \<and> seqLE ackNo (if \<not> afterRto then snd_nxt else snd_max)
         else ret)"

text \<open>
  A connection in one direction. The number of bytes written, and the index that a segment or an
  acknowledgement had when it was sent, are kept beside the 32-bit numbers to say how old it is.
\<close>

record 'a transfer =
  sendQueue :: "'a send_queue"
  written :: nat
  segments :: "(nat \<times> seq \<times> 'a list) list"
  acks :: "(nat \<times> seq) list"
  receiveQueue :: "'a receive_queue"
  delivered :: "'a list"

datatype transfer_event =
    Write nat
  | Transmit nat nat
  | Arrive nat "32 word"
  | Acknowledge nat
  | Read

definition transfer_init :: "seq \<Rightarrow> 'a transfer" where
  "transfer_init start =
     \<lparr>sendQueue = send_init start \<lparr>sbegin = 0, send = 0, dataBuffer = chunk_queue0\<rparr>, written = 0, segments = [], acks = [],
      receiveQueue = receive_init start, delivered = []\<rparr>"

definition first_missing :: "'a transfer \<Rightarrow> nat" where
  "first_missing t = length (delivered t) + length (available (reorderBuffer (receiveQueue t)))"

fun transfer_step :: "(nat \<Rightarrow> 'a) \<Rightarrow> seq \<Rightarrow> transfer_event \<Rightarrow> 'a transfer \<Rightarrow> 'a transfer result" where
  "transfer_step S start (Write n) t =
     rbind (enqueueAppData (map S [written t..<written t + n]) (sendQueue t)) (\<lambda>q.
     Inr (t\<lparr>sendQueue := q, written := written t + n\<rparr>))"
| "transfer_step S start (Transmit k n) t =
     rbind (createSegmentWithBytes (start + of_nat k) (of_nat n) (sendQueue t)) (\<lambda>xs.
     Inr (t\<lparr>segments := segments t @ [(k, start + of_nat k, xs)]\<rparr>))"
| "transfer_step S start (Arrive i wnd) t =
     (case segments t ! i of (k, s, xs) \<Rightarrow>
        rbind (if isSegmentAcceptable (rcv_nxt (receiveQueue t)) wnd 0 0 0 False s 0 (of_nat (length xs))
               then rbind (insertBytesFromSegment s xs (receiveQueue t)) (\<lambda>(nxt, q). Inr q)
               else Inr (receiveQueue t)) (\<lambda>q.
        let t' = t\<lparr>receiveQueue := q\<rparr>
        in Inr (t'\<lparr>acks := acks t @ [(first_missing t', rcv_nxt q)]\<rparr>)))"
| "transfer_step S start (Acknowledge i) t =
     (case acks t ! i of (k, a) \<Rightarrow>
        if seqLess (sbegin (sendQueue t)) a
        then rbind (send_discardUpTo a (sendQueue t)) (\<lambda>q. Inr (t\<lparr>sendQueue := q\<rparr>))
        else Inr t)"
| "transfer_step S start Read t =
     rbind (extractBytesUpTo (rcv_nxt (receiveQueue t)) (receiveQueue t)) (\<lambda>(chunk, q).
     Inr (t\<lparr>receiveQueue := q, delivered := delivered t @ (case chunk of None \<Rightarrow> [] | Some xs \<Rightarrow> xs)\<rparr>))"

text \<open>
  Which events can happen: the application does not write more than the queue can number; the
  sender sends bytes it has, inside the window of the receiver; segments and acknowledgements
  of the network, lost, repeated or reordered as they may be, are not older than \<open>W\<close> bytes when they
  arrive; the receiver's window lies inside the buffer.
\<close>

fun possible :: "transfer_event \<Rightarrow> 'a transfer \<Rightarrow> bool" where
  "possible (Write n) t \<longleftrightarrow> 0 < n \<and> length (unsent (sendQueue t)) + n < half"
| "possible (Transmit k n) t \<longleftrightarrow>
     0 < n \<and> written t \<le> k + length (unsent (sendQueue t)) \<and> k + n \<le> written t \<and> k + n \<le> length (delivered t) + W"
| "possible (Arrive i wnd) t \<longleftrightarrow>
     i < length (segments t) \<and> length (delivered t) \<le> fst (segments t ! i) + W \<and>
     first_missing t + unat wnd \<le> length (delivered t) + W"
| "possible (Acknowledge i) t \<longleftrightarrow> i < length (acks t) \<and> written t \<le> fst (acks t ! i) + length (unsent (sendQueue t)) + W"
| "possible Read t \<longleftrightarrow> True"

inductive transfer_run :: "(nat \<Rightarrow> 'a) \<Rightarrow> seq \<Rightarrow> 'a transfer \<Rightarrow> bool" for S start where
  opened: "transfer_run S start (transfer_init start)"
| event: "transfer_run S start t \<Longrightarrow> possible e t \<Longrightarrow> transfer_step S start e t = Inr t' \<Longrightarrow> transfer_run S start t'"

definition segment_ok :: "(nat \<Rightarrow> 'a) \<Rightarrow> seq \<Rightarrow> 'a transfer \<Rightarrow> nat \<times> seq \<times> 'a list \<Rightarrow> bool" where
  "segment_ok S start t = (\<lambda>(k, s, xs). s = start + of_nat k \<and>
     (\<exists>n > 0. xs = map S [k..<k + n] \<and> k + n \<le> written t \<and> k + n \<le> length (delivered t) + W))"

definition transfer_ok :: "(nat \<Rightarrow> 'a) \<Rightarrow> seq \<Rightarrow> 'a transfer \<Rightarrow> bool" where
  "transfer_ok S start t \<longleftrightarrow>
     (\<exists>u \<le> first_missing t. send_ok (sendQueue t) \<and> sbegin (sendQueue t) = start + of_nat u \<and>
        unsent (sendQueue t) = map S [u..<written t] \<and> u \<le> written t) \<and>
     receive_ok S start (length (delivered t)) (receiveQueue t) \<and> delivered t = map S [0..<length (delivered t)] \<and>
     first_missing t \<le> written t \<and> first_missing t \<le> length (delivered t) + W \<and>
     (\<forall>i. arrived start (receiveQueue t) i \<noteq> None \<longrightarrow> i < written t) \<and>
     (\<forall>x \<in> set (segments t). segment_ok S start t x) \<and>
     (\<forall>(k, a) \<in> set (acks t). a = start + of_nat k \<and> k \<le> first_missing t)"

text \<open>An acceptable segment brings a byte that the application has not read.\<close>

lemma acceptable_new:
  assumes "isSegmentAcceptable (start + of_nat p) wnd una nxt mx rto (start + of_nat k) ack (of_nat m)"
    and "0 < m" and "n \<le> p" and "p \<le> n + W" and "n \<le> k + W" and "k + m \<le> n + W"
  shows "n < k + m"
proof -
  define lo where "lo = min k n"
  have near: "lo \<le> x \<and> x < lo + half" if "x \<in> {p, k, k + m}" for x
    using that assms(3-6) by (auto simp: lo_def min_def)
  have "(of_nat m :: 32 word) \<noteq> 0"
  proof
    assume "(of_nat m :: 32 word) = 0"
    then have "unat (of_nat m :: 32 word) = 0" by simp
    moreover have "unat (of_nat m :: 32 word) = m" using assms(5,6) by (simp add: unat_of_nat)
    ultimately show False using assms(2) by simp
  qed
  then have "seqLE (start + of_nat p) (start + of_nat k) \<or> seqLess (start + of_nat p) (start + of_nat (k + m))"
    using assms(1) by (auto simp: isSegmentAcceptable_def Let_def add.assoc split: if_splits)
  moreover have "seqLE (start + of_nat p) (start + of_nat k) \<longleftrightarrow> p \<le> k"
    by (rule number_order(1) [of lo]) (use near in auto)
  moreover have "seqLess (start + of_nat p) (start + of_nat (k + m)) \<longleftrightarrow> p < k + m"
    by (rule number_order(2) [of lo]) (use near in auto)
  ultimately show ?thesis using assms(2,3) by linarith
qed

lemma transfer_init_ok: "transfer_ok S start (transfer_init start)"
proof -
  have "chunk_queue_ok chunk_queue0" by (simp add: chunk_queue_ok_def chunk_queue0_def queued_def)
  then show ?thesis
    using send_init_ok [of "\<lparr>sbegin = 0, send = 0, dataBuffer = chunk_queue0\<rparr>" start]
    by (simp add: transfer_ok_def transfer_init_def first_missing_def receive_ok_def receive_init_def reorder_ok_def available_def
        arrived_def send_init_def)
qed

lemma sender_ok:
  assumes "transfer_ok S start t" and "send_ok q" and "sbegin q = start + of_nat u" and "unsent q = map S [u..<w]"
    and "u \<le> first_missing t" and "u \<le> w" and "written t \<le> w"
  shows "transfer_ok S start (t\<lparr>sendQueue := q, written := w\<rparr>)"
proof -
  have "segment_ok S start (t\<lparr>sendQueue := q, written := w\<rparr>) x" if "segment_ok S start t x" for x
    using that assms(7) by (fastforce simp: segment_ok_def)
  then show ?thesis using assms order_less_le_trans [OF _ assms(7)]
    by (auto simp: transfer_ok_def first_missing_def)
qed

lemma receiver_ok:
  assumes "transfer_ok S start t" and "receive_ok S start (length (delivered t)) q"
    and "p = length (delivered t) + length (available (reorderBuffer q))"
    and "first_missing t \<le> p" and "p \<le> written t" and "p \<le> length (delivered t) + W"
    and "\<And>i. arrived start q i \<noteq> None \<Longrightarrow> i < written t"
  shows "transfer_ok S start (t\<lparr>receiveQueue := q, acks := acks t @ [(p, start + of_nat p)]\<rparr>)"
proof -
  let ?t = "t\<lparr>receiveQueue := q, acks := acks t @ [(p, start + of_nat p)]\<rparr>"
  have p: "first_missing ?t = p" using assms(3) by (simp add: first_missing_def)
  have seg: "segment_ok S start ?t x \<longleftrightarrow> segment_ok S start t x" for x by (simp add: segment_ok_def)
  obtain u where "u \<le> first_missing t" "send_ok (sendQueue t)" "sbegin (sendQueue t) = start + of_nat u"
      "unsent (sendQueue t) = map S [u..<written t]" "u \<le> written t"
    using assms(1) by (auto simp: transfer_ok_def)
  then have "\<exists>u \<le> p. send_ok (sendQueue t) \<and> sbegin (sendQueue t) = start + of_nat u \<and>
      unsent (sendQueue t) = map S [u..<written t] \<and> u \<le> written t"
    using assms(4) by (intro exI [of _ u]) simp
  moreover have "k \<le> p" if "(k, a) \<in> set (acks t)" for k a using that assms(1,4) by (fastforce simp: transfer_ok_def)
  moreover have "a = start + of_nat k" if "(k, a) \<in> set (acks t)" for k a using that assms(1) by (fastforce simp: transfer_ok_def)
  ultimately show ?thesis using assms(1,2,5,6,7) unfolding transfer_ok_def p seg by auto
qed

lemma write_ok:
  assumes ok: "transfer_ok S start t" and "possible (Write n) t"
  shows "ok (transfer_ok S start) (transfer_step S start (Write n) t)"
proof -
  obtain u where u: "u \<le> first_missing t" "send_ok (sendQueue t)" "sbegin (sendQueue t) = start + of_nat u"
      "unsent (sendQueue t) = map S [u..<written t]" "u \<le> written t"
    using ok by (auto simp: transfer_ok_def)
  obtain q where q: "enqueueAppData (map S [written t..<written t + n]) (sendQueue t) = Inr q" "send_ok q"
      "unsent q = unsent (sendQueue t) @ map S [written t..<written t + n]" "sbegin q = sbegin (sendQueue t)"
    using enqueueAppData_ok [OF u(2), of "map S [written t..<written t + n]"] assms(2) by auto
  have "unsent q = map S [u..<written t + n]" using q(3) u(4,5) by (simp flip: map_append upt_add_eq_append)
  then show ?thesis using sender_ok [OF ok q(2)] u(1,3,5) q(1,4) by simp
qed

lemma transmit_ok:
  assumes ok: "transfer_ok S start t" and "possible (Transmit k n) t"
  shows "ok (transfer_ok S start) (transfer_step S start (Transmit k n) t)"
proof -
  obtain u where u: "u \<le> first_missing t" "send_ok (sendQueue t)" "sbegin (sendQueue t) = start + of_nat u"
      "unsent (sendQueue t) = map S [u..<written t]" "u \<le> written t"
    using ok by (auto simp: transfer_ok_def)
  have k: "u \<le> k" "0 < n" "k + n \<le> written t" "k + n \<le> length (delivered t) + W" using assms(2) u(4,5) by auto
  have "written t - u < half" using u(2,4) by (simp add: send_ok_def)
  then have "fwd (sbegin (sendQueue t)) (start + of_nat k) = k - u" unfolding u(3) using k by (intro number_fwd) auto
  then have "createSegmentWithBytes (start + of_nat k) (of_nat n) (sendQueue t) = Inr (map S [k..<k + n])"
    using createSegment_ok [OF u(2) k(2), of "start + of_nat k"] k u(4) by (simp add: take_map drop_map)
  then show ?thesis using ok k by (auto simp: transfer_ok_def segment_ok_def first_missing_def)
qed

lemma acknowledge_event_ok:
  assumes ok: "transfer_ok S start t" and "possible (Acknowledge i) t"
  shows "ok (transfer_ok S start) (transfer_step S start (Acknowledge i) t)"
proof -
  obtain u where u: "u \<le> first_missing t" "send_ok (sendQueue t)" "sbegin (sendQueue t) = start + of_nat u"
      "unsent (sendQueue t) = map S [u..<written t]" "u \<le> written t"
    using ok by (auto simp: transfer_ok_def)
  obtain k a where a: "acks t ! i = (k, a)" by (cases "acks t ! i")
  then have "(k, a) \<in> set (acks t)" using assms(2) nth_mem by fastforce
  then have k: "a = start + of_nat k" "k \<le> first_missing t" "u \<le> k + W" "k \<le> written t"
    using ok assms(2) a u(4,5) by (auto simp: transfer_ok_def)
  have small: "written t - u < half" using u(2,4) by (simp add: send_ok_def)
  define lo where "lo = min k u"
  have less: "seqLess (sbegin (sendQueue t)) a \<longleftrightarrow> u < k"
    unfolding u(3) k(1) by (rule number_order(2) [of lo]) (use k small in \<open>auto simp: lo_def min_def\<close>)
  show ?thesis
  proof (cases "u < k")
    case True
    have "fwd (sbegin (sendQueue t)) a = k - u" unfolding u(3) k(1) using small k(4) True by (intro number_fwd) auto
    then obtain q where q: "send_discardUpTo a (sendQueue t) = Inr q" "send_ok q" "sbegin q = a" "unsent q = drop (k - u) (unsent (sendQueue t))"
      using send_discardUpTo_ok [OF u(2), of a] diff_le_mono [OF k(4), of u] u(4) by auto
    have "unsent q = map S [k..<written t]" using q(4) u(4) True by (simp add: drop_map)
    then show ?thesis using sender_ok [OF ok q(2), of k "written t"] less True a q(1,3) k by simp
  qed (use ok less a in simp)
qed

lemma arrive_ok:
  assumes ok: "transfer_ok S start t" and pos: "possible (Arrive i wnd) t"
  shows "ok (transfer_ok S start) (transfer_step S start (Arrive i wnd) t)"
proof -
  let ?n = "length (delivered t)" and ?q = "receiveQueue t"
  have rok: "receive_ok S start ?n ?q" and p: "first_missing t \<le> ?n + W" "rcv_nxt ?q = start + of_nat (first_missing t)"
    using ok by (auto simp: transfer_ok_def receive_ok_def first_missing_def)
  obtain k s xs where seg: "segments t ! i = (k, s, xs)" by (cases "segments t ! i")
  then have "segment_ok S start t (k, s, xs)" using ok pos nth_mem [of i "segments t"] by (auto simp: transfer_ok_def)
  then obtain m where m: "s = start + of_nat k" "0 < m" "xs = map S [k..<k + m]" "k + m \<le> written t" "k + m \<le> ?n + W"
    by (auto simp: segment_ok_def)
  have k: "?n \<le> k + W" using pos seg by simp
  have np: "?n \<le> first_missing t" by (simp add: first_missing_def)
  show ?thesis
  proof (cases "isSegmentAcceptable (rcv_nxt ?q) wnd 0 0 0 False s 0 (of_nat (length xs))")
    case True
    then have "isSegmentAcceptable (start + of_nat (first_missing t)) wnd 0 0 0 False (start + of_nat k) 0 (of_nat m)"
      using p(2) m(1,3) by simp
    from acceptable_new [OF this m(2) np p(1) k m(5)] have new: "?n < k + m" .
    obtain q' where q': "insertBytesFromSegment s xs ?q = Inr (rcv_nxt q', q')" "receive_ok S start ?n q'"
        "\<forall>i. arrived start q' i = (if max k ?n \<le> i \<and> i < k + m then Some (S i) else arrived start ?q i)"
      using insert_ok [OF rok k m(5) new m(2)] m(1,3) by auto
    define p' where "p' = ?n + length (available (reorderBuffer q'))"
    have known: "arrived start q' j \<noteq> None" if "?n \<le> j" "j < p'" for j
      using available_content(1) [of "reorderBuffer q'" "j - ?n"] q'(2) that
      by (auto simp: receive_ok_def arrived_def p'_def add.assoc)
    have within: "j < written t \<and> j < ?n + W" if "arrived start q' j \<noteq> None" for j
    proof -
      have "j < written t" if "arrived start ?q j \<noteq> None" using that ok by (simp add: transfer_ok_def)
      moreover have "j < ?n + W" if a: "arrived start ?q j \<noteq> None"
      proof -
        obtain r where "r \<in> set (buffer_regions (reorderBuffer ?q))" "uint start + int j < getEndOffset r"
          using a content_Some by (fastforce simp: arrived_def)
        then have "uint start + int j < uint start + int (?n + W)" using rok by (fastforce simp: receive_ok_def)
        then show ?thesis by linarith
      qed
      ultimately show ?thesis using \<open>arrived start q' j \<noteq> None\<close> q'(3) m(4,5) by (auto split: if_splits)
    qed
    have p': "p' \<le> written t" "p' \<le> ?n + W" "first_missing t \<le> p'"
    proof -
      have "p' \<le> written t \<and> p' \<le> ?n + W" if "?n < p'"
      proof -
        have "?n \<le> p' - 1" "p' - 1 < p'" using that by linarith+
        from within [OF known [OF this]] show ?thesis using that by linarith
      qed
      moreover have "?n \<le> written t" using ok np by (auto simp: transfer_ok_def)
      moreover have "?n \<le> p'" by (simp add: p'_def)
      ultimately show "p' \<le> written t" "p' \<le> ?n + W" by (cases "?n < p'"; simp)+
      show "first_missing t \<le> p'"
      proof (rule ccontr)
        assume "\<not> first_missing t \<le> p'"
        then have "p' - ?n < length (available (reorderBuffer ?q))" by (simp add: first_missing_def p'_def)
        then have "arrived start ?q p' \<noteq> None"
          using available_content(1) [of "reorderBuffer ?q" "p' - ?n"] rok by (auto simp: receive_ok_def arrived_def p'_def add.assoc)
        moreover have "arrived start q' p' = None"
          using available_content(2) [of "reorderBuffer q'"] q'(2) by (auto simp: receive_ok_def arrived_def p'_def add.assoc)
        ultimately show False using q'(3) by (auto split: if_splits)
      qed
    qed
    have nxt: "rcv_nxt q' = start + of_nat p'" using q'(2) by (simp add: receive_ok_def p'_def)
    have "transfer_ok S start (t\<lparr>receiveQueue := q', acks := acks t @ [(p', start + of_nat p')]\<rparr>)"
      by (rule receiver_ok [OF ok q'(2) p'_def p'(3,1,2)]) (use within in blast)
    then show ?thesis using seg True q'(1) nxt
      by (simp add: first_missing_def Let_def split_beta flip: p'_def)
  next
    case False
    have "transfer_ok S start (t\<lparr>receiveQueue := ?q, acks := acks t @ [(first_missing t, start + of_nat (first_missing t))]\<rparr>)"
      by (rule receiver_ok [OF ok rok first_missing_def]) (use ok p(1) in \<open>simp_all add: transfer_ok_def\<close>)
    then show ?thesis using seg False p(2) by (simp add: first_missing_def Let_def split_beta)
  qed
qed

lemma read_prefix:
  assumes "xs = map S [0..<n]" and "n \<le> m"
  shows "xs @ map S [n..<m] = map S [0..<m]"
  using upt_add_eq_append [of 0 n "m - n"] assms by (simp flip: map_append)

lemma read_ok:
  assumes ok: "transfer_ok S start t"
  shows "ok (transfer_ok S start) (transfer_step S start Read t)"
proof -
  let ?n = "length (delivered t)" and ?q = "receiveQueue t"
  have rok: "receive_ok S start ?n ?q" and p: "first_missing t \<le> ?n + W" "rcv_nxt ?q = start + of_nat (first_missing t)"
    using ok by (auto simp: transfer_ok_def receive_ok_def first_missing_def)
  obtain q' where q': "extractBytesUpTo (rcv_nxt ?q) ?q = Inr (if first_missing t = ?n then None else Some (map S [?n..<first_missing t]), q')"
      "receive_ok S start (first_missing t) q'" "rcv_nxt q' = rcv_nxt ?q" "\<forall>i \<ge> first_missing t. arrived start q' i = arrived start ?q i"
    using extract_ok [OF rok, of "first_missing t"] p by (auto simp: first_missing_def)
  have none: "available (reorderBuffer q') = []"
  proof (rule ccontr)
    assume "available (reorderBuffer q') \<noteq> []"
    then have "arrived start q' (first_missing t) \<noteq> None"
      using available_content(1) [of "reorderBuffer q'" 0] q'(2) by (auto simp: receive_ok_def arrived_def)
    moreover have "arrived start ?q (first_missing t) = None"
      using available_content(2) [of "reorderBuffer ?q"] rok by (auto simp: receive_ok_def arrived_def first_missing_def add.assoc)
    ultimately show False using q'(4) by simp
  qed
  have np: "?n \<le> first_missing t" by (simp add: first_missing_def)
  define out where "out = delivered t @ (if first_missing t = ?n then [] else map S [?n..<first_missing t])"
  have "delivered t = map S [0..<?n]" using ok by (simp add: transfer_ok_def)
  then have out: "out = map S [0..<first_missing t]"
    using read_prefix [OF _ np] unfolding out_def by (cases "first_missing t = ?n") simp_all
  define t' where "t' = t\<lparr>receiveQueue := q', delivered := out\<rparr>"
  have "transfer_step S start Read t = Inr t'" using q'(1) by (simp add: t'_def out_def)
  moreover have fm: "first_missing t' = first_missing t" using out none by (simp add: first_missing_def t'_def)
  moreover have "length out = first_missing t" using out by simp
  moreover have "i < written t" if "arrived start q' i \<noteq> None" for i
    using that ok q'(4) by (cases "first_missing t \<le> i") (auto simp: transfer_ok_def)
  moreover have "segment_ok S start t' x" if "segment_ok S start t x" for x
    using that np \<open>length out = first_missing t\<close> by (fastforce simp: segment_ok_def t'_def)
  ultimately show ?thesis using ok q'(2) out by (simp add: transfer_ok_def fm) (simp add: t'_def)
qed

lemma transfer_step_ok: "transfer_ok S start t \<Longrightarrow> possible e t \<Longrightarrow> ok (transfer_ok S start) (transfer_step S start e t)"
  by (cases e) (simp_all only: write_ok transmit_ok arrive_ok acknowledge_event_ok read_ok)

lemma transfer_run_ok: "transfer_run S start t \<Longrightarrow> transfer_ok S start t"
  by (induction rule: transfer_run.induct) (use transfer_init_ok transfer_step_ok in \<open>fastforce simp: ok_def\<close>)+


text \<open>A run given by its events.\<close>

fun transfer_events :: "(nat \<Rightarrow> 'a) \<Rightarrow> seq \<Rightarrow> transfer_event list \<Rightarrow> 'a transfer \<Rightarrow> 'a transfer option" where
  "transfer_events S start [] t = Some t"
| "transfer_events S start (e # es) t =
     (if possible e t then (case transfer_step S start e t of Inl _ \<Rightarrow> None | Inr t' \<Rightarrow> transfer_events S start es t') else None)"

lemma transfer_events_run:
  "transfer_run S start t \<Longrightarrow> transfer_events S start es t = Some t' \<Longrightarrow> transfer_run S start t'"
  by (induction es arbitrary: t) (auto split: if_splits sum.splits intro: transfer_run.event)

lemmas transfer_simps = transfer_init_def send_init_def receive_init_def chunk_queue0_def clear_queue_def enqueueAppData_def
  chunk_peek_def push_def createSegmentWithBytes_def require_def Let_def seqLE_def seqLess_def seqGE_def seqGreater_def
  seqMin_def seqMax_def peekAt_def queued_def isSegmentAcceptable_def insertBytesFromSegment_def outOfRange_def
  offsetToSeq_def seqToOffset_def replace_def sliceRegions_def insertRegion_def mergeRegions_def first_missing_def
  getEndOffset_def available_def extractBytesUpTo_def popAvailableData_def clear_region_def

text \<open>Ten bytes whose numbers wrap around at \<open>2 ^ 32\<close>, in two segments that overlap and change places.\<close>

definition wrapping_run :: "nat \<Rightarrow> nat transfer option" where
  "wrapping_run k = transfer_events (\<lambda>i. i) 4294967290
     (take k [Write 10, Transmit 4 6, Transmit 0 6, Arrive 0 1000, Arrive 1 1000, Read, Acknowledge 1, Arrive 0 1000])
     (transfer_init 4294967290)"

lemma wrapping_run_ok: "wrapping_run k = Some t \<Longrightarrow> transfer_run (\<lambda>i. i) 4294967290 t"
  unfolding wrapping_run_def by (rule transfer_events_run [OF transfer_run.opened])

text \<open>
  C12. TCP's data path delivers the stream: whatever the network does to the segments (lose, repeat,
  reorder, cut differently when they are sent again), and wherever the 32-bit numbers wrap around,
  what the receiving application has read is a prefix of what the sending application wrote, and no
  possible event makes a queue fail.
\<close>

theorem stream_in_order:
  assumes "transfer_run S start t"
  shows "delivered t = map S [0..<length (delivered t)] \<and> length (delivered t) \<le> written t \<and>
    (\<forall>e. possible e t \<longrightarrow> (\<exists>t'. transfer_step S start e t = Inr t'))"
proof -
  have t: "transfer_ok S start t" by (rule transfer_run_ok [OF assms])
  then have "length (delivered t) \<le> written t" by (auto simp: transfer_ok_def first_missing_def)
  moreover have "\<exists>t'. transfer_step S start e t = Inr t'" if "possible e t" for e
    using transfer_step_ok [OF t that] by (cases "transfer_step S start e t") auto
  ultimately show ?thesis using t by (simp add: transfer_ok_def)
qed

theorem stream_in_order_witness:
  "\<exists>t. wrapping_run 6 = Some t \<and> delivered t = [0..<10] \<and> possible (Acknowledge 1) t \<and>
     (\<exists>t'. transfer_step (\<lambda>i. i) 4294967290 (Acknowledge 1) t = Inr t')"
proof -
  have run: "case wrapping_run 6 of None \<Rightarrow> False | Some t \<Rightarrow> length (delivered t) = 10 \<and> possible (Acknowledge 1) t"
    by (simp add: wrapping_run_def transfer_simps)
  then obtain t where t: "wrapping_run 6 = Some t" "length (delivered t) = 10" "possible (Acknowledge 1) t"
    by (auto split: option.splits)
  note ok = stream_in_order [OF wrapping_run_ok [OF t(1)]]
  have "\<exists>t'. transfer_step (\<lambda>i. i) 4294967290 (Acknowledge 1) t = Inr t'" using ok t(3) by blast
  then show ?thesis using ok t by (simp del: possible.simps transfer_step.simps)
qed

text \<open>
  C18. The receive queue reassembles: \<open>rcv_nxt\<close> is the number of the first byte that is missing, all the
  bytes before it have been read or lie in the buffer with their right values, and a read hands over
  all of them at once.
\<close>

theorem reassembly:
  assumes "transfer_run S start t"
  shows "rcv_nxt (receiveQueue t) = start + of_nat (first_missing t) \<and> first_missing t \<le> written t \<and>
    arrived start (receiveQueue t) (first_missing t) = None \<and>
    (\<forall>i < first_missing t. i < length (delivered t) \<or> arrived start (receiveQueue t) i = Some (S i)) \<and>
    (\<exists>t'. transfer_step S start Read t = Inr t' \<and> delivered t' = map S [0..<first_missing t])"
proof -
  let ?n = "length (delivered t)" and ?b = "reorderBuffer (receiveQueue t)"
  have t: "transfer_ok S start t" by (rule transfer_run_ok [OF assms])
  then have r: "receive_ok S start ?n (receiveQueue t)" and d: "delivered t = map S [0..<?n]" by (auto simp: transfer_ok_def)
  have nxt: "rcv_nxt (receiveQueue t) = start + of_nat (first_missing t)" using r by (simp add: receive_ok_def first_missing_def)
  have "arrived start (receiveQueue t) (first_missing t) = None"
    using available_content(2) [of ?b] r by (auto simp: receive_ok_def arrived_def first_missing_def add.assoc)
  moreover have "arrived start (receiveQueue t) i = Some (S i)" if "i < first_missing t" "\<not> i < ?n" for i
  proof -
    have "i - ?n < length (available ?b)" using that by (simp add: first_missing_def)
    then have "arrived start (receiveQueue t) i \<noteq> None"
      using available_content(1) [of ?b "i - ?n"] r that(2) by (auto simp: receive_ok_def arrived_def)
    then show ?thesis using r by (auto simp: receive_ok_def)
  qed
  moreover have "\<exists>t'. transfer_step S start Read t = Inr t' \<and> delivered t' = map S [0..<first_missing t]"
    using extract_ok [OF r, of "first_missing t"] t by (auto simp: transfer_ok_def first_missing_def nxt read_prefix [OF d])
  ultimately show ?thesis using nxt t by (auto simp: transfer_ok_def)
qed

theorem reassembly_witness:
  "\<exists>t. wrapping_run 4 = Some t \<and> rcv_nxt (receiveQueue t) = 4294967290 \<and> arrived 4294967290 (receiveQueue t) 0 = None"
proof -
  have run: "case wrapping_run 4 of None \<Rightarrow> False | Some t \<Rightarrow> first_missing t = 0"
    by (simp add: wrapping_run_def transfer_simps)
  then obtain t where t: "wrapping_run 4 = Some t" "first_missing t = 0" by (auto split: option.splits)
  show ?thesis using reassembly [OF wrapping_run_ok [OF t(1)]] t by simp
qed

end
