(* ===== verification/Tcp_Scoreboard.thy ===== *)
theory Tcp_Scoreboard
  imports Tcp_Sack_Queue Tcp_Queues
begin

text \<open>
  The sender's side of selective acknowledgement (\<open>TcpConnectionSackUtil.cc\<close>): what a SACK option
  marks, which bytes count as lost, how many are under way (\<open>pipe\<close>), and what to send next. RFC
  3517 defines these functions byte by byte; the code walks over the regions of the retransmission queue.
\<close>

section \<open>The scoreboard\<close>

record 'a scoreboard =
  sack_enabled :: bool
  snd_una :: seq
  snd_max :: seq
  snd_wnd :: "32 word"
  snd_mss :: "32 word"
  dupthresh :: "32 word"
  highRxt :: seq
  pipe :: "32 word"
  rcv_sacks :: "32 word"
  sackedBytes :: "32 word"
  sackedBytes_old :: "32 word"
  rexmit :: rexmit_queue
  sendq :: "'a send_queue"

definition isLost :: "seq \<Rightarrow> ('a, 'b) scoreboard_scheme \<Rightarrow> bool result" where
  "isLost seqNum s =
     require (sack_enabled s) (require (seqGE seqNum (snd_una s))
       (rbind (getNumOfDiscontiguousSacks seqNum (rexmit s)) (\<lambda>sacks.
        if dupthresh s \<le> sacks then Inr True
        else rbind (getAmountOfSackedBytes seqNum (rexmit s)) (\<lambda>amount.
          Inr (dupthresh s * snd_mss s \<le> amount)))))"

text \<open>The loop of \<open>setPipe\<close>; every round passes at least one byte.\<close>

fun pipeLoop :: "nat \<Rightarrow> seq \<Rightarrow> ('a, 'b) scoreboard_scheme \<Rightarrow> ('a, 'b) scoreboard_scheme result" where
  "pipeLoop 0 s1 s = Inl OutOfFuel"
| "pipeLoop (Suc n) s1 s =
     (if seqLess s1 (snd_max s)
      then rbind (checkSackBlock s1 (rexmit s)) (\<lambda>(len, sacked, rexmitted).
        if \<not> sacked
        then rbind (isLost s1 s) (\<lambda>lost.
          let s' = (if \<not> lost then s\<lparr>pipe := pipe s + len\<rparr> else s);
              s'' = (if seqLess s1 (highRxt s') then s'\<lparr>pipe := pipe s' + len\<rparr> else s')
          in pipeLoop n (s1 + len) s'')
        else pipeLoop n (s1 + len) s)
      else Inr s)"

definition setPipe :: "('a, 'b) scoreboard_scheme \<Rightarrow> ('a, 'b) scoreboard_scheme result" where
  "setPipe s =
     require (sack_enabled s)
       (pipeLoop (Suc (fwd (snd_una s) (snd_max s))) (snd_una s)
         (s\<lparr>highRxt := getHighestRexmittedSeqNum (rexmit s), pipe := 0\<rparr>))"

text \<open>
  \<open>nextSeg\<close>: the loops of its rules (1) and (3). The variable \<open>shift\<close> of the code is read only after
  \<open>checkSackBlock\<close> has set it.
\<close>

fun lostBlock :: "nat \<Rightarrow> seq \<Rightarrow> seq \<Rightarrow> ('a, 'b) scoreboard_scheme \<Rightarrow> seq option result" where
  "lostBlock 0 highestSacked s2 s = Inl OutOfFuel"
| "lostBlock (Suc n) highestSacked s2 s =
     (if seqLess s2 (snd_max s) \<and> seqLess s2 highestSacked
      then rbind (checkSackBlock s2 (rexmit s)) (\<lambda>(shift, sacked, rexmitted).
        if \<not> sacked then rbind (isLost s2 s) (\<lambda>lost. Inr (if lost then Some s2 else None))
        else lostBlock n highestSacked (s2 + shift) s)
      else Inr None)"

fun openBlock :: "nat \<Rightarrow> seq \<Rightarrow> seq \<Rightarrow> ('a, 'b) scoreboard_scheme \<Rightarrow> seq option result" where
  "openBlock 0 highestSacked s3 s = Inl OutOfFuel"
| "openBlock (Suc n) highestSacked s3 s =
     (if seqLess s3 (snd_max s) \<and> seqLess s3 highestSacked
      then rbind (checkSackBlock s3 (rexmit s)) (\<lambda>(shift, sacked, rexmitted).
        if \<not> sacked then Inr (Some s3) else openBlock n highestSacked (s3 + shift) s)
      else Inr None)"

definition nextSeg :: "('a, 'b) scoreboard_scheme \<Rightarrow> (bool \<times> seq \<times> ('a, 'b) scoreboard_scheme) result" where
  "nextSeg s0 =
     require (sack_enabled s0)
       (let s = s0\<lparr>highRxt := getHighestRexmittedSeqNum (rexmit s0)\<rparr>;
            highestSackedSeqNum = getHighestSackedSeqNum (rexmit s);
            fuel = Suc (fwd (highRxt s) (snd_max s))
        in rbind (lostBlock fuel highestSackedSeqNum (highRxt s) s) (\<lambda>rule1.
           case rule1 of Some s2 \<Rightarrow> Inr (True, s2, s)
           | None \<Rightarrow>
               let buffered = getBytesAvailable (snd_max s) (sendq s); effectiveWin = snd_wnd s - pipe s
               in if buffered > 0 \<and> effectiveWin \<ge> snd_mss s then Inr (True, snd_max s, s)
                  else rbind (openBlock fuel highestSackedSeqNum (highRxt s) s) (\<lambda>rule3.
                    case rule3 of Some s3 \<Rightarrow> Inr (True, s3, s) | None \<Rightarrow> Inr (False, 0, s))))"

text \<open>
  A SACK option of length \<open>optlen\<close> with its items, in a segment that acknowledges \<open>ackNo\<close>;
  \<open>expecting\<close> says that the connection is in one of the four states that take the option. The cases
  of duplicate SACKs only write to the log.
\<close>

fun sackLoop :: "seq \<Rightarrow> (seq \<times> seq) list \<Rightarrow> ('a, 'b) scoreboard_scheme \<Rightarrow> ('a, 'b) scoreboard_scheme result" where
  "sackLoop ackNo [] s = Inr s"
| "sackLoop ackNo ((start, stop) # items) s =
     (if seqGreater stop ackNo \<and> seqGreater stop (snd_una s)
      then rbind (setSackedBit start stop (rexmit s)) (\<lambda>q. sackLoop ackNo items (s\<lparr>rexmit := q\<rparr>))
      else sackLoop ackNo items s)"

definition processSACKOption :: "seq \<Rightarrow> nat \<Rightarrow> (seq \<times> seq) list \<Rightarrow> bool \<Rightarrow> ('a, 'b) scoreboard_scheme \<Rightarrow> (bool \<times> ('a, 'b) scoreboard_scheme) result" where
  "processSACKOption ackNo optlen items expecting s =
     (if optlen mod 8 \<noteq> 2 then Inr (False, s)
      else require (optlen = 2 + length items * 8)
        (if \<not> sack_enabled s then Inr (False, s)
         else if \<not> expecting then Inr (False, s)
         else if items \<noteq> []
         then rbind (sackLoop ackNo items s) (\<lambda>s'. Inr (True,
            s'\<lparr>rcv_sacks := rcv_sacks s' + of_nat (length items), sackedBytes_old := sackedBytes s',
               sackedBytes := getTotalAmountOfSackedBytes (rexmit s')\<rparr>))
         else Inr (True, s)))"

section \<open>The functions of RFC 3517, byte by byte\<close>

text \<open>
  \<open>fs\<close> are the flags of the bytes from the first unacknowledged one. \<open>IsLost\<close>: \<open>d\<close> separate
  blocks, or \<open>b\<close> bytes, have been acknowledged behind byte \<open>i\<close>.
\<close>

definition IsLost :: "nat \<Rightarrow> nat \<Rightarrow> (bool \<times> bool) list \<Rightarrow> nat \<Rightarrow> bool" where
  "IsLost d b fs i \<longleftrightarrow> d \<le> blocks (map fst (drop i fs)) \<or> b \<le> length (filter fst (drop i fs))"

text \<open>\<open>SetPipe\<close>, steps (a) and (b), for one byte and for all.\<close>

definition in_flight :: "nat \<Rightarrow> nat \<Rightarrow> (bool \<times> bool) list \<Rightarrow> nat \<Rightarrow> nat" where
  "in_flight d b fs i =
     (if fst (fs ! i) then 0 else (if IsLost d b fs i then 0 else 1) + (if i < upto_last snd fs then 1 else 0))"

definition Pipe :: "nat \<Rightarrow> nat \<Rightarrow> (bool \<times> bool) list \<Rightarrow> nat" where
  "Pipe d b fs = (\<Sum>i<length fs. in_flight d b fs i)"

text \<open>The unacknowledged bytes behind the last repeated one and before the last acknowledged one.\<close>

definition Candidates :: "(bool \<times> bool) list \<Rightarrow> nat list" where
  "Candidates fs = filter (\<lambda>i. \<not> fst (fs ! i)) [upto_last snd fs..<upto_last fst fs]"

text \<open>
  \<open>NextSeg\<close>, rules (1) to (4): the first candidate that is lost, else the first new byte when there is one
  and the window admits it (\<open>fresh\<close>), else the first candidate.
\<close>

definition NextSeg :: "nat \<Rightarrow> nat \<Rightarrow> bool \<Rightarrow> (bool \<times> bool) list \<Rightarrow> nat option" where
  "NextSeg d b fresh fs =
     (case List.find (IsLost d b fs) (Candidates fs) of
        Some i \<Rightarrow> Some i
      | None \<Rightarrow> if fresh then Some (length fs) else (case Candidates fs of [] \<Rightarrow> None | i # _ \<Rightarrow> Some i))"


section \<open>Counting over the flags\<close>

lemma upto_last_le: "upto_last P xs \<le> length xs"
  using length_dropWhile_le [of "\<lambda>x. \<not> P x" "rev xs"] by (simp add: upto_last_def)

lemma upto_last_snoc: "upto_last P (xs @ [x]) = (if P x then Suc (length xs) else upto_last P xs)"
  by (simp add: upto_last_def)

lemma upto_last_bound: "k < length xs \<Longrightarrow> P (xs ! k) \<Longrightarrow> k < upto_last P xs"
  by (induction xs rule: rev_induct) (auto simp: upto_last_snoc nth_append split: if_splits)

lemma upto_last_at: "0 < upto_last P xs \<Longrightarrow> P (xs ! (upto_last P xs - 1))"
proof (induction xs rule: rev_induct)
  case (snoc x xs)
  then show ?case using upto_last_le [of P xs] by (auto simp: upto_last_snoc nth_append split: if_splits)
qed (simp add: upto_last_def)

text \<open>A stretch of equal flags lies on one side of the last marked byte.\<close>

lemma upto_last_stretch:
  assumes "\<And>j. i \<le> j \<Longrightarrow> j < i + m \<Longrightarrow> fs ! j = x" and "i + m \<le> length fs" and "i \<le> j" and "j < i + m"
  shows "j < upto_last P fs \<longleftrightarrow> i < upto_last P fs"
proof
  assume less: "i < upto_last P fs"
  show "j < upto_last P fs"
  proof (rule ccontr)
    assume "\<not> j < upto_last P fs"
    then have "P x" using upto_last_at [of P fs] assms(1) [of "upto_last P fs - 1"] assms(3,4) less by auto
    then show False using upto_last_bound [of j fs P] assms \<open>\<not> j < upto_last P fs\<close> by auto
  qed
qed (use assms(3) in simp)

lemma starts_mono: "starts False bs \<le> starts p bs + (if p then 1 else 0)"
  by (cases bs) auto

lemma blocks_drop: "i \<le> j \<Longrightarrow> blocks (drop j bs) \<le> blocks (drop i bs)"
proof (induction bs arbitrary: i j)
  case (Cons b bs)
  have "blocks bs \<le> blocks (b # bs)" using starts_mono [of bs b] by (simp add: blocks_starts)
  then show ?case using Cons.IH [of 0 "j - 1"] Cons.IH [of "i - 1" "j - 1"] Cons.prems by (cases i; cases j) auto
qed simp

text \<open>A byte behind a lost one need not be lost, but a byte before it is.\<close>

lemma IsLost_before: "i \<le> j \<Longrightarrow> IsLost d b fs j \<Longrightarrow> IsLost d b fs i"
proof -
  assume ij: "i \<le> j" and lost: "IsLost d b fs j"
  have "drop i fs = take (j - i) (drop i fs) @ drop j fs" using ij by (metis append_take_drop_id drop_drop le_add_diff_inverse2)
  then have "length (filter fst (drop j fs)) \<le> length (filter fst (drop i fs))" by (metis filter_append le_add2 length_append)
  moreover have "blocks (map fst (drop j fs)) \<le> blocks (map fst (drop i fs))" using blocks_drop [OF ij, of "map fst fs"] by (simp add: drop_map)
  ultimately show ?thesis using lost by (auto simp: IsLost_def)
qed

lemma IsLost_stretch:
  assumes "take m (drop i fs) = replicate m (False, r)" and "i \<le> j" and "j < i + m"
  shows "IsLost d b fs j \<longleftrightarrow> IsLost d b fs i"
proof -
  have i: "drop i fs = replicate m (False, r) @ drop (i + m) fs"
    using append_take_drop_id [of m "drop i fs"] assms(1) by (simp add: add.commute)
  have "drop j fs = drop (j - i) (drop i fs)" using assms(2) by simp
  then have j: "drop j fs = replicate (i + m - j) (False, r) @ drop (i + m) fs" using assms(2,3) by (simp add: i)
  show ?thesis unfolding IsLost_def i j by (simp add: blocks_starts starts_same filter_replicate)
qed

section \<open>The code and the RFC\<close>

text \<open>The retransmission queue holds exactly what is under way.\<close>

definition board_ok :: "('a, 'b) scoreboard_scheme \<Rightarrow> bool" where
  "board_ok s \<longleftrightarrow> sack_enabled s \<and> queue_ok (rexmit s) \<and> qbegin (rexmit s) = snd_una s \<and> qend (rexmit s) = snd_max s \<and>
     unat (dupthresh s) * unat (snd_mss s) < full"

abbreviation lost_at :: "('a, 'b) scoreboard_scheme \<Rightarrow> nat \<Rightarrow> bool" where
  "lost_at s \<equiv> IsLost (unat (dupthresh s)) (unat (dupthresh s) * unat (snd_mss s)) (bytes (rexmit s))"

lemma board_index:
  assumes "board_ok s" and "i \<le> length (bytes (rexmit s))"
  shows "fwd (qbegin (rexmit s)) (snd_una s + of_nat i) = i" and "i < half"
  using assms by (simp_all add: board_ok_def queue_ok_def fwd_add)

lemma board_end: "board_ok s \<Longrightarrow> snd_max s = snd_una s + of_nat (length (bytes (rexmit s)))"
  using queue_fwd [of "rexmit s"] add_fwd [of "snd_una s" "snd_max s"] by (simp add: board_ok_def)

lemma board_less:
  assumes "board_ok s" and "i \<le> length (bytes (rexmit s))" and "j \<le> length (bytes (rexmit s))"
  shows "seqLess (snd_una s + of_nat i) (snd_una s + of_nat j) \<longleftrightarrow> i < j"
  by (rule number_order(2) [of 0]) (use board_index(2) [OF assms(1)] assms(2,3) in auto)

lemma word_le_of_nat: "k < full \<Longrightarrow> (w :: 32 word) \<le> of_nat k \<longleftrightarrow> unat w \<le> k"
  by (simp add: word_le_nat_alt unat_of_nat)

lemma isLost_ok:
  assumes "board_ok s" and "i \<le> length (bytes (rexmit s))"
  shows "isLost (snd_una s + of_nat i) s = Inr (lost_at s i)"
proof -
  let ?fs = "bytes (rexmit s)" and ?x = "snd_una s + of_nat i"
  have ok: "queue_ok (rexmit s)" and n: "length ?fs < half" and on: "sack_enabled s" using assms(1) by (simp_all add: board_ok_def queue_ok_def)
  have x: "fwd (qbegin (rexmit s)) ?x = i" using board_index(1) [OF assms] .
  have prod: "unat (dupthresh s * snd_mss s) = unat (dupthresh s) * unat (snd_mss s)"
    using assms(1) by (simp add: board_ok_def unat_word_ariths)
  have "length (filter fst (drop i ?fs)) \<le> length (drop i ?fs)" by (rule length_filter_le)
  then have amount: "length (filter fst (drop i ?fs)) < full" using n by simp
  have "blocks (map fst (drop i ?fs)) \<le> length (map fst (drop i ?fs))"
    unfolding blocks_def by (rule order_trans [OF length_filter_le remdups_adj_length])
  then have count: "blocks (map fst (drop i ?fs)) < full" using n by simp
  have "seqGE ?x (snd_una s)" using board_index(2) [OF assms] by (simp add: seqGE_LE seqLE_fwd fwd_add)
  then show ?thesis using getNum_ok [OF ok, of ?x] getAmount_ok [OF ok, of ?x] assms(2) x on
    by (simp add: isLost_def IsLost_def word_le_of_nat [OF amount] word_le_of_nat [OF count] prod)
qed

text \<open>The block at byte \<open>i\<close>: \<open>m\<close> bytes with the same flags.\<close>

lemma block_at:
  assumes "board_ok s" and "i < length (bytes (rexmit s))"
  obtains m sc r where "checkSackBlock (snd_una s + of_nat i) (rexmit s) = Inr (of_nat m, sc, r)" and "0 < m"
    and "i + m \<le> length (bytes (rexmit s))" and "take m (drop i (bytes (rexmit s))) = replicate m (sc, r)"
    and "\<forall>j \<in> {i..<i + m}. bytes (rexmit s) ! j = (sc, r)"
proof -
  have x: "fwd (qbegin (rexmit s)) (snd_una s + of_nat i) = i" using board_index(1) [OF assms(1)] assms(2) by simp
  have "queue_ok (rexmit s)" using assms(1) by (simp add: board_ok_def)
  then obtain m sc r where m: "checkSackBlock (snd_una s + of_nat i) (rexmit s) = Inr (of_nat m, sc, r)" "0 < m"
      "i + m \<le> length (bytes (rexmit s))" "take m (drop i (bytes (rexmit s))) = replicate m (sc, r)"
    using checkSackBlock_ok [of "rexmit s" "snd_una s + of_nat i"] assms(2) unfolding x by metis
  have "\<forall>j \<in> {i..<i + m}. bytes (rexmit s) ! j = (sc, r)"
  proof
    fix j
    assume "j \<in> {i..<i + m}"
    then have j: "i \<le> j" "j - i < m" by auto
    have "take m (drop i (bytes (rexmit s))) ! (j - i) = (sc, r)" unfolding m(4) by (subst nth_replicate) (use j in auto)
    then show "bytes (rexmit s) ! j = (sc, r)" using j m(3) by simp
  qed
  then show thesis using that m by blast
qed

abbreviation flight_at :: "('a, 'b) scoreboard_scheme \<Rightarrow> nat \<Rightarrow> nat" where
  "flight_at s \<equiv> in_flight (unat (dupthresh s)) (unat (dupthresh s) * unat (snd_mss s)) (bytes (rexmit s))"

lemma sum_block: "(\<And>j. i \<le> j \<Longrightarrow> j < i + m \<Longrightarrow> f j = (c::nat)) \<Longrightarrow> (\<Sum>j\<in>{i..<i + m}. f j) = m * c"
  by (simp add: sum.cong [where h = "\<lambda>_. c"])

lemma pipeLoop_ok:
  assumes "board_ok s" and "highRxt s = snd_una s + of_nat (upto_last snd (bytes (rexmit s)))"
    and "i \<le> length (bytes (rexmit s))" and "length (bytes (rexmit s)) - i < k"
  shows "pipeLoop k (snd_una s + of_nat i) s =
    Inr (s\<lparr>pipe := pipe s + of_nat (\<Sum>j\<in>{i..<length (bytes (rexmit s))}. flight_at s j)\<rparr>)"
  using assms
proof (induction k arbitrary: i s)
  case (Suc k)
  let ?fs = "bytes (rexmit s)" and ?n = "length (bytes (rexmit s))"
  let ?hi = "upto_last snd ?fs"
  have less: "seqLess (snd_una s + of_nat i) (snd_max s) \<longleftrightarrow> i < ?n"
    using board_less [OF Suc.prems(1,3) order_refl] board_end [OF Suc.prems(1)] by simp
  show ?case
  proof (cases "i < ?n")
    case True
    obtain m sc r where m: "checkSackBlock (snd_una s + of_nat i) (rexmit s) = Inr (of_nat m, sc, r)" "0 < m" "i + m \<le> ?n"
        "take m (drop i ?fs) = replicate m (sc, r)" "\<forall>j \<in> {i..<i + m}. ?fs ! j = (sc, r)"
      using block_at [OF Suc.prems(1) True] .
    have re: "seqLess (snd_una s + of_nat i) (highRxt s) \<longleftrightarrow> i < ?hi"
      unfolding Suc.prems(2) by (rule board_less [OF Suc.prems(1,3) upto_last_le])
    have same: "flight_at s j = flight_at s i" if "i \<le> j" "j < i + m" for j
      using m(2,4,5) IsLost_stretch [of m i ?fs r j] upto_last_stretch [of i m ?fs "(sc, r)" j snd] m(3) that
      by (cases sc) (auto simp: in_flight_def)
    have all: "(\<Sum>j\<in>{i..<?n}. flight_at s j) = m * flight_at s i + (\<Sum>j\<in>{i + m..<?n}. flight_at s j)"
    proof -
      have "(\<Sum>j\<in>{i..<?n}. flight_at s j) = (\<Sum>j\<in>{i..<i + m}. flight_at s j) + (\<Sum>j\<in>{i + m..<?n}. flight_at s j)"
        using m(3) by (simp add: sum.atLeastLessThan_concat)
      then show ?thesis using sum_block [of i m "flight_at s" "flight_at s i", OF same] by simp
    qed
    define s' where "s' = s\<lparr>pipe := pipe s + of_nat (m * flight_at s i)\<rparr>"
    have "board_ok s'" "rexmit s' = rexmit s" "snd_una s' = snd_una s" "highRxt s' = highRxt s" "flight_at s' = flight_at s"
      using Suc.prems(1) by (simp_all add: s'_def board_ok_def)
    then have IH: "pipeLoop k (snd_una s + of_nat (i + m)) s' =
        Inr (s'\<lparr>pipe := pipe s' + of_nat (\<Sum>j\<in>{i + m..<?n}. flight_at s j)\<rparr>)"
      using Suc.IH [of s' "i + m"] Suc.prems(2,4) m(2,3) by simp
    have lost: "isLost (snd_una s + of_nat i) s = Inr (lost_at s i)" by (rule isLost_ok [OF Suc.prems(1,3)])
    have f: "fst (?fs ! i) = sc" using m(2,5) by simp
    have "pipeLoop (Suc k) (snd_una s + of_nat i) s = pipeLoop k (snd_una s + of_nat (i + m)) s'"
      using True m(1) lost less re f by (auto simp: s'_def in_flight_def Let_def add.assoc mult.commute [of _ 2])
    then show ?thesis using IH all by (simp add: s'_def add.assoc)
  next
    case False
    then show ?thesis using less Suc.prems(3) by simp
  qed
qed simp


lemma Pipe_bound: "Pipe d b fs \<le> 2 * length fs"
  unfolding Pipe_def using sum_bounded_above [of "{..<length fs}" "in_flight d b fs" 2] by (simp add: in_flight_def mult.commute)

lemma setPipe_ok:
  assumes "board_ok s"
  shows "\<exists>s'. setPipe s = Inr s' \<and> unat (pipe s') = Pipe (unat (dupthresh s)) (unat (dupthresh s) * unat (snd_mss s)) (bytes (rexmit s)) \<and>
    highRxt s' = snd_una s + of_nat (upto_last snd (bytes (rexmit s))) \<and> s' = s\<lparr>highRxt := highRxt s', pipe := pipe s'\<rparr>"
proof -
  let ?fs = "bytes (rexmit s)"
  let ?p = "Pipe (unat (dupthresh s)) (unat (dupthresh s) * unat (snd_mss s)) ?fs"
  have ok: "queue_ok (rexmit s)" "qbegin (rexmit s) = snd_una s" "sack_enabled s" using assms by (simp_all add: board_ok_def)
  have hi: "getHighestRexmittedSeqNum (rexmit s) = snd_una s + of_nat (upto_last snd ?fs)" using getHighest_ok(2) [OF ok(1)] ok(2) by simp
  define s0 where "s0 = s\<lparr>highRxt := getHighestRexmittedSeqNum (rexmit s), pipe := 0\<rparr>"
  have "board_ok s0" using assms by (simp add: s0_def board_ok_def)
  then have "pipeLoop (Suc (length ?fs)) (snd_una s0 + of_nat 0) s0 = Inr (s0\<lparr>pipe := pipe s0 + of_nat (\<Sum>j\<in>{0..<length (bytes (rexmit s0))}. flight_at s0 j)\<rparr>)"
    by (intro pipeLoop_ok) (simp_all add: s0_def hi)
  moreover have "(\<Sum>j\<in>{0..<length (bytes (rexmit s0))}. flight_at s0 j) = ?p" by (simp add: s0_def Pipe_def atLeast0LessThan)
  moreover have "fwd (snd_una s) (snd_max s) = length ?fs" using queue_fwd [OF ok(1)] assms by (simp add: board_ok_def)
  ultimately have "setPipe s = Inr (s0\<lparr>pipe := of_nat ?p\<rparr>)"
    using ok(3) by (simp add: setPipe_def s0_def del: pipeLoop.simps of_nat_sum)
  moreover have "length ?fs < half" using ok(1) by (simp add: queue_ok_def)
  then have "?p < full" using Pipe_bound [of "unat (dupthresh s)" "unat (dupthresh s) * unat (snd_mss s)" ?fs] by linarith
  then have "unat (of_nat ?p :: 32 word) = ?p" by (simp add: unat_of_nat)
  ultimately show ?thesis using hi by (simp add: s0_def)
qed

text \<open>The loops of \<open>nextSeg\<close> stop at the first byte from \<open>i\<close> on that is not acknowledged.\<close>

definition first_open :: "(bool \<times> bool) list \<Rightarrow> nat \<Rightarrow> nat option" where
  "first_open fs i = List.find (\<lambda>j. \<not> fst (fs ! j)) [i..<upto_last fst fs]"

lemma first_open_step:
  "first_open fs i = (if i < upto_last fst fs then if fst (fs ! i) then first_open fs (Suc i) else Some i else None)"
  by (simp add: first_open_def upt_rec)

lemma first_open_skip: "(\<And>j. i \<le> j \<Longrightarrow> j < i + m \<Longrightarrow> fst (fs ! j)) \<Longrightarrow> first_open fs i = first_open fs (i + m)"
proof (induction m)
  case (Suc m)
  then show ?case using first_open_step [of fs "i + m"] first_open_step [of fs "Suc (i + m)"] by auto
qed simp

lemma nextSeg_loops_ok:
  assumes "board_ok s" and "i \<le> length (bytes (rexmit s))" and "length (bytes (rexmit s)) - i < k"
  defines "h \<equiv> snd_una s + of_nat (upto_last fst (bytes (rexmit s)))"
  shows "lostBlock k h (snd_una s + of_nat i) s =
      Inr (case first_open (bytes (rexmit s)) i of None \<Rightarrow> None | Some j \<Rightarrow> if lost_at s j then Some (snd_una s + of_nat j) else None)"
    and "openBlock k h (snd_una s + of_nat i) s =
      Inr (map_option (\<lambda>j. snd_una s + of_nat j) (first_open (bytes (rexmit s)) i))"
proof -
  let ?fs = "bytes (rexmit s)" and ?n = "length (bytes (rexmit s))"
  let ?l = "\<lambda>i. case first_open ?fs i of None \<Rightarrow> None | Some j \<Rightarrow> if lost_at s j then Some (snd_una s + of_nat j) else None"
  let ?o = "\<lambda>i. map_option (\<lambda>j. snd_una s + of_nat j) (first_open ?fs i)"
  have "lostBlock k h (snd_una s + of_nat i) s = Inr (?l i) \<and> openBlock k h (snd_una s + of_nat i) s = Inr (?o i)"
    using assms(2,3)
  proof (induction k arbitrary: i)
    case (Suc k)
    have guard: "seqLess (snd_una s + of_nat i) (snd_max s) \<longleftrightarrow> i < ?n" "seqLess (snd_una s + of_nat i) h \<longleftrightarrow> i < upto_last fst ?fs"
      using board_less [OF assms(1) Suc.prems(1) order_refl] board_end [OF assms(1)]
        board_less [OF assms(1) Suc.prems(1) upto_last_le] by (simp_all add: h_def)
    show ?case
    proof (cases "i < upto_last fst ?fs")
      case True
      then have i: "i < ?n" using upto_last_le [of fst ?fs] by simp
      obtain m sc r where m: "checkSackBlock (snd_una s + of_nat i) (rexmit s) = Inr (of_nat m, sc, r)" "0 < m" "i + m \<le> ?n"
          "take m (drop i ?fs) = replicate m (sc, r)" "\<forall>j \<in> {i..<i + m}. ?fs ! j = (sc, r)"
        using block_at [OF assms(1) i] .
      have lost: "isLost (snd_una s + of_nat i) s = Inr (lost_at s i)" by (rule isLost_ok [OF assms(1) Suc.prems(1)])
      show ?thesis
      proof (cases sc)
        case True
        then have "first_open ?fs i = first_open ?fs (i + m)" using m(5) by (intro first_open_skip) simp
        then show ?thesis using True Suc.IH [of "i + m"] Suc.prems m(1,2,3) guard i \<open>i < upto_last fst ?fs\<close>
          by (simp add: add.assoc)
      next
        case False
        then have "first_open ?fs i = Some i" using first_open_step [of ?fs i] m(2,5) \<open>i < upto_last fst ?fs\<close> by simp
        then show ?thesis using False m(1) lost guard i \<open>i < upto_last fst ?fs\<close> by simp
      qed
    next
      case False
      then show ?thesis using guard first_open_step [of ?fs i] by simp
    qed
  qed simp
  then show "lostBlock k h (snd_una s + of_nat i) s = Inr (?l i)" "openBlock k h (snd_una s + of_nat i) s = Inr (?o i)" by auto
qed

lemma find_filter: "List.find P xs = (case filter P xs of [] \<Rightarrow> None | x # _ \<Rightarrow> Some x)"
  by (induction xs) simp_all

lemma first_candidate: "first_open fs (upto_last snd fs) = (case Candidates fs of [] \<Rightarrow> None | i # _ \<Rightarrow> Some i)"
  by (simp add: first_open_def Candidates_def find_filter)

text \<open>If the first candidate is not lost, none is: the \<open>break\<close> of the loop is right.\<close>

lemma first_lost:
  "List.find (IsLost d b fs) (Candidates fs) = (case Candidates fs of [] \<Rightarrow> None | i # _ \<Rightarrow> if IsLost d b fs i then Some i else None)"
proof (cases "Candidates fs")
  case (Cons i js)
  have "sorted (Candidates fs)" by (simp add: Candidates_def sorted_wrt_filter)
  then have "i \<le> j" if "j \<in> set js" for j using that Cons by simp
  moreover have "\<not> IsLost d b fs j" if "\<not> IsLost d b fs i" "i \<le> j" for j using IsLost_before [OF that(2)] that(1) by blast
  ultimately have "List.find (IsLost d b fs) js = None" if "\<not> IsLost d b fs i" using that by (auto simp: find_None_iff)
  then show ?thesis using Cons by simp
qed simp


lemma word_room: "unat (a - b :: 32 word) = (if b \<le> a then unat a - unat b else full + unat a - unat b)"
  using unat_sub_if' [of a b] by (simp add: word_le_nat_alt add.commute [of full "unat a"])

lemma nextSeg_ok:
  assumes ok: "board_ok s"
  defines "fs \<equiv> bytes (rexmit s)" and "fresh \<equiv> 0 < getBytesAvailable (snd_max s) (sendq s) \<and> snd_mss s \<le> snd_wnd s - pipe s"
  shows "\<exists>s'. nextSeg s = Inr (case NextSeg (unat (dupthresh s)) (unat (dupthresh s) * unat (snd_mss s)) fresh fs of
      None \<Rightarrow> (False, 0, s') | Some i \<Rightarrow> (True, snd_una s + of_nat i, s')) \<and> s' = s\<lparr>highRxt := highRxt s'\<rparr>"
proof -
  have q: "queue_ok (rexmit s)" "qbegin (rexmit s) = snd_una s" "sack_enabled s" using ok by (simp_all add: board_ok_def)
  define s' where "s' = s\<lparr>highRxt := getHighestRexmittedSeqNum (rexmit s)\<rparr>"
  have hi: "highRxt s' = snd_una s + of_nat (upto_last snd fs)" and top: "getHighestSackedSeqNum (rexmit s') = snd_una s + of_nat (upto_last fst fs)"
    using getHighest_ok [OF q(1)] q(2) by (simp_all add: s'_def fs_def)
  have ok': "board_ok s'" "snd_una s' = snd_una s" "bytes (rexmit s') = fs" using ok by (simp_all add: s'_def board_ok_def fs_def)
  have fuel: "fwd (highRxt s') (snd_max s') = length fs - upto_last snd fs"
    unfolding hi using number_fwd [of "upto_last snd fs" "length fs" "snd_una s"] upto_last_le [of snd fs] board_end [OF ok'(1)] board_index(2) [OF ok'(1) order_refl] ok'(2,3) by simp
  note loops = nextSeg_loops_ok [OF ok'(1), of "upto_last snd fs" "Suc (length fs - upto_last snd fs)", unfolded ok'(2,3), folded hi top,
      OF upto_last_le lessI]
  have end_pos: "snd_max s' = snd_una s + of_nat (length fs)" using board_end [OF ok'(1)] ok'(2,3) by simp
  have same: "sack_enabled s" "dupthresh s' = dupthresh s" "snd_mss s' = snd_mss s" "lost_at s' = IsLost (unat (dupthresh s)) (unat (dupthresh s) * unat (snd_mss s)) fs" "fresh \<longleftrightarrow> getBytesAvailable (snd_max s') (sendq s') > 0 \<and> snd_wnd s' - pipe s' \<ge> snd_mss s'"
    using q(3) ok'(3) by (auto simp: s'_def fresh_def fs_def)
  show ?thesis
    unfolding nextSeg_def Let_def s'_def [symmetric] fuel loops same(4) first_candidate NextSeg_def first_lost
    using same(1) end_pos by (intro exI [of _ s']) (auto simp: hi same(2,3,5) s'_def split: list.splits)
qed

text \<open>
  C20. \<open>setPipe\<close> computes RFC 3517's estimate of the bytes under way: although it asks \<open>isLost\<close> only
  once per region, the result is the sum of what the RFC counts for every single byte, and no
  assertion fails and no addition wraps around.
\<close>

theorem setPipe_is_rfc3517:
  assumes "board_ok s"
  shows "\<exists>s'. setPipe s = Inr s' \<and>
    unat (pipe s') = Pipe (unat (dupthresh s)) (unat (dupthresh s) * unat (snd_mss s)) (bytes (rexmit s)) \<and>
    highRxt s' = snd_una s + of_nat (upto_last snd (bytes (rexmit s))) \<and> s' = s\<lparr>highRxt := highRxt s', pipe := pipe s'\<rparr>"
  using setPipe_ok [OF assms] .

text \<open>
  C21. \<open>nextSeg\<close> follows the rules of RFC 3517: the first unacknowledged byte, behind those sent again and before the
  last acknowledged one, that counts as lost; else a new byte when there is one and the window admits
  it; else the first such byte at all; else nothing. The room in the window is computed by an
  unsigned subtraction: once more bytes are under way than the window takes, it wraps around and
  new bytes are sent although the receiver has no room for them.
\<close>

theorem nextSeg_is_rfc3517:
  assumes "board_ok s"
    and "room = (if pipe s \<le> snd_wnd s then unat (snd_wnd s) - unat (pipe s) else full + unat (snd_wnd s) - unat (pipe s))"
    and "fresh \<longleftrightarrow> 0 < getBytesAvailable (snd_max s) (sendq s) \<and> unat (snd_mss s) \<le> room"
  shows "\<exists>s'. nextSeg s =
    Inr (case NextSeg (unat (dupthresh s)) (unat (dupthresh s) * unat (snd_mss s)) fresh (bytes (rexmit s)) of
      None \<Rightarrow> (False, 0, s') | Some i \<Rightarrow> (True, snd_una s + of_nat i, s'))"
proof -
  have "unat (snd_wnd s - pipe s) = room" using assms(2) word_room [of "snd_wnd s" "pipe s"] by simp
  then have "fresh \<longleftrightarrow> 0 < getBytesAvailable (snd_max s) (sendq s) \<and> snd_mss s \<le> snd_wnd s - pipe s"
    using assms(3) by (simp add: word_le_nat_alt)
  then show ?thesis using nextSeg_ok [OF assms(1)] by (simp only:) blast
qed


text \<open>The loop over a queue that ends one number before \<open>snd_max\<close>.\<close>

lemma pipeLoop_fails:
  assumes "board_ok (s\<lparr>snd_max := qend (rexmit s)\<rparr>)" and "snd_max s = qend (rexmit s) + 1"
    and "length (bytes (rexmit s)) + 1 < half" and "i \<le> length (bytes (rexmit s))" and "length (bytes (rexmit s)) - i < k"
  shows "pipeLoop k (snd_una s + of_nat i) s = failed"
  using assms
proof (induction k arbitrary: i s)
  case (Suc k)
  let ?fs = "bytes (rexmit s)" and ?n = "length (bytes (rexmit s))" and ?t = "s\<lparr>snd_max := qend (rexmit s)\<rparr>"
  have last: "qend (rexmit s) = snd_una s + of_nat ?n" using board_end [OF Suc.prems(1)] by simp
  have "seqLess (snd_una s + of_nat i) (snd_una s + of_nat (Suc ?n))"
    by (subst number_order(2) [of 0]) (use Suc.prems(3,4) in auto)
  then have less: "seqLess (snd_una s + of_nat i) (snd_max s)" using last Suc.prems(2) by (simp add: ac_simps)
  show ?case
  proof (cases "i < ?n")
    case True
    then have "i < length (bytes (rexmit ?t))" by simp
    from block_at [OF Suc.prems(1) this] obtain m sc r where
      m: "checkSackBlock (snd_una s + of_nat i) (rexmit s) = Inr (of_nat m, sc, r)" "0 < m" "i + m \<le> ?n"
      by simp metis
    have "isLost (snd_una s + of_nat i) ?t = isLost (snd_una s + of_nat i) s" by (simp add: isLost_def cong: if_cong)
    then have lost: "isLost (snd_una s + of_nat i) s = Inr (lost_at s i)" using isLost_ok [OF Suc.prems(1), of i] Suc.prems(4) by simp
    have IH: "pipeLoop k (snd_una s + of_nat (i + m)) (s\<lparr>pipe := p\<rparr>) = failed" for p
      using Suc.IH [of "s\<lparr>pipe := p\<rparr>" "i + m"] Suc.prems m(2,3) by (simp add: board_ok_def)
    have "pipeLoop k (snd_una s + of_nat (i + m)) s = failed" using IH [of "pipe s"] by simp
    then show ?thesis using less m(1) lost IH by (simp add: Let_def add.assoc)
  next
    case False
    then have "checkSackBlock (snd_una s + of_nat i) (rexmit s) = failed"
      using last Suc.prems(4) by (simp add: checkSackBlock_def require_def seqLess_def)
    then show ?thesis using less by simp
  qed
qed simp

text \<open>
  C37. A FIN that is sent alone is not in the retransmission queue: \<open>process_CLOSE\<close> raises \<open>snd_max\<close> by
  one, the queue still ends before the number of the FIN, and the next \<open>setPipe\<close> runs beyond its
  end. The assertion of \<open>checkSackBlock\<close> fails, whatever has been acknowledged.
\<close>

theorem setPipe_fails_after_fin:
  assumes "board_ok s" and "length (bytes (rexmit s)) + 1 < half"
  shows "setPipe (s\<lparr>snd_max := snd_max s + 1\<rparr>) = Inl (RuntimeError ''ASSERT'')"
proof -
  let ?s = "s\<lparr>snd_max := snd_max s + 1, highRxt := getHighestRexmittedSeqNum (rexmit s), pipe := 0\<rparr>"
  have "fwd (snd_una s) (snd_max s + 1) = Suc (length (bytes (rexmit s)))"
    using fwd_add [of "snd_una s" "Suc (length (bytes (rexmit s)))"] board_end [OF assms(1)] assms(2)
    by (simp add: ac_simps)
  moreover have "board_ok (?s\<lparr>snd_max := qend (rexmit ?s)\<rparr>)" "snd_max ?s = qend (rexmit ?s) + 1"
    using assms(1) by (simp_all add: board_ok_def)
  then have "pipeLoop (Suc (Suc (length (bytes (rexmit s))))) (snd_una ?s + of_nat 0) ?s = failed"
    using assms(2) by (intro pipeLoop_fails) auto
  ultimately show ?thesis using assms(1) by (simp add: setPipe_def board_ok_def del: pipeLoop.simps)
qed

section \<open>An example\<close>

text \<open>Eight bytes from \<open>4294967292\<close> on; byte 0 has been sent again, the bytes 3 and 5 to 7 are acknowledged.\<close>

definition example_queue :: rexmit_queue where
  "example_queue = \<lparr>rexmitQueue =
     [\<lparr>beginSeqNum = 4294967292, endSeqNum = 4294967293, sacked = False, rexmitted = True\<rparr>,
      \<lparr>beginSeqNum = 4294967293, endSeqNum = 4294967295, sacked = False, rexmitted = False\<rparr>,
      \<lparr>beginSeqNum = 4294967295, endSeqNum = 0, sacked = True, rexmitted = False\<rparr>,
      \<lparr>beginSeqNum = 0, endSeqNum = 1, sacked = False, rexmitted = False\<rparr>,
      \<lparr>beginSeqNum = 1, endSeqNum = 4, sacked = True, rexmitted = False\<rparr>],
     qbegin = 4294967292, qend = 4\<rparr>"

definition example_board :: "nat scoreboard" where
  "example_board = \<lparr>sack_enabled = True, snd_una = 4294967292, snd_max = 4, snd_wnd = 2, snd_mss = 2, dupthresh = 2, highRxt = 0,
     pipe = 4, rcv_sacks = 0, sackedBytes = 0, sackedBytes_old = 0, rexmit = example_queue,
     sendq = \<lparr>sbegin = 4294967292, send = 9, dataBuffer = chunk_queue0\<rparr>\<rparr>"

lemma example_board_ok: "board_ok example_board"
  by (simp add: board_ok_def example_board_def example_queue_def queue_ok_def checkQueue_def seqLess_def len_def fwd_def)

lemma example_bytes:
  "bytes (rexmit example_board) = [(False, True), (False, False), (False, False), (True, False), (False, False),
     (True, False), (True, False), (True, False)]"
  by (simp add: example_board_def example_queue_def len_def fwd_def eval_replicate)

theorem setPipe_is_rfc3517_witness: "\<exists>s'. setPipe example_board = Inr s' \<and> unat (pipe s') = 2"
  using setPipe_is_rfc3517 [OF example_board_ok]
  by (auto simp: example_bytes Pipe_def in_flight_def IsLost_def blocks_def upto_last_def eval_nat_numeral lessThan_Suc) (auto simp: example_board_def)

theorem nextSeg_is_rfc3517_witness: "\<exists>s'. nextSeg example_board = Inr (True, 4294967293, s')"
  using nextSeg_is_rfc3517 [OF example_board_ok refl refl]
  by (simp add: example_bytes NextSeg_def Candidates_def IsLost_def blocks_def upto_last_def upt_rec) (simp add: example_board_def)

theorem setPipe_fails_after_fin_witness: "setPipe (example_board\<lparr>snd_max := 5\<rparr>) = Inl (RuntimeError ''ASSERT'')"
  using setPipe_fails_after_fin [OF example_board_ok] by (simp add: example_bytes) (simp add: example_board_def)

end
