(* ===== verification/Tcp_Sender.thy ===== *)
theory Tcp_Sender
  imports Tcp_Scoreboard
begin

text \<open>
  The sending side of an established connection (\<open>TcpConnectionUtil.cc\<close>, with the parts of
  \<open>TcpConnectionEventProc.cc\<close>, \<open>TcpConnectionRcvSegment.cc\<close> and \<open>TcpConnectionSackUtil.cc\<close> that drive it):
  the windows, the segments that are cut and sent, what an acknowledgement and a close do. The
  connection is the record \<open>tcb\<close>. What goes to IP, to the application and to the congestion control
  algorithm is kept in three logs; the algorithm answers by calling the operations of this theory.
\<close>

section \<open>The connection\<close>

record 'a tcp_segment =
  segSeq :: seq
  segAck :: seq
  segWindow :: "16 word"
  segData :: "'a list"
  segFin :: bool
  segCwr :: bool
  segEct :: bool

datatype algorithm_call =
    AckSent
  | DataSent seq
  | SegmentRetransmitted seq seq
  | RestartRexmitTimer
  | SendCommandInvoked
  | RttMeasurementCompleteUsingTS "32 word"
  | ReceivedDuplicateAck
  | ReceivedDataAck seq
  | ReceivedAckForDataNotYetSent seq

text \<open>\<open>options_len\<close> is the length of the options that \<open>writeHeaderOptions\<close> puts into a segment with data.\<close>

record 'a tcb = "'a scoreboard" +
  snd_nxt :: seq
  snd_wl1 :: seq
  snd_wl2 :: seq
  afterRto :: bool
  lossRecovery :: bool
  send_fin :: bool
  snd_fin_seq :: seq
  fin_ack_rcvd :: bool
  dupacks :: "32 word"
  nagle_enabled :: bool
  limited_transmit_enabled :: bool
  ts_enabled :: bool
  ect :: bool
  sndCwr :: bool
  gotEce :: bool
  rexmit_flag :: bool
  sendQueueLimit :: "32 word"
  queueUpdate :: bool
  options_len :: "32 word"
  ws_enabled :: bool
  snd_wnd_scale :: nat
  rcv_wnd_scale :: nat
  receiveq :: "'a receive_queue"
  rcv_next :: seq
  rcv_adv :: seq
  rcv_wnd :: "32 word"
  maxRcvBuffer :: "32 word"
  freeRcvBuffer :: "32 word"
  usedRcvBuffer :: "32 word"
  wire :: "'a tcp_segment list"
  algorithm :: "algorithm_call list"
  app :: "32 word list"

definition notify :: "algorithm_call \<Rightarrow> 'a tcb \<Rightarrow> 'a tcb" where
  "notify c s = s\<lparr>algorithm := algorithm s @ [c]\<rparr>"

section \<open>The windows\<close>

definition updateRcvQueueVars :: "'a tcb \<Rightarrow> 'a tcb" where
  "updateRcvQueueVars s =
     (let free = getAmountOfFreeBytes (maxRcvBuffer s) (receiveq s)
      in s\<lparr>freeRcvBuffer := free, usedRcvBuffer := maxRcvBuffer s - free\<rparr>)"

text \<open>\<open>TCP_MAX_WIN\<close>, shifted by the scale that was agreed on.\<close>

definition maxWin :: "'a tcb \<Rightarrow> 32 word" where
  "maxWin s = (if ws_enabled s \<and> rcv_wnd_scale s \<noteq> 0 then push_bit (rcv_wnd_scale s) 65535 else 65535)"

definition updateRcvWnd :: "'a tcb \<Rightarrow> (16 word \<times> 'a tcb) result" where
  "updateRcvWnd s0 =
     (let s = updateRcvQueueVars s0;
          win0 = freeRcvBuffer s;
          win1 = (if win0 < maxRcvBuffer s div 4 \<and> win0 < snd_mss s then 0 else win0);
          win2 = (if win1 < rcv_adv s - rcv_next s then rcv_adv s - rcv_next s else win1);
          win = (if win2 > maxWin s then maxWin s else win2);
          s1 = (if win > 0 \<and> seqGE (rcv_next s + win) (rcv_adv s) then s\<lparr>rcv_adv := rcv_next s + win\<rparr> else s);
          s2 = s1\<lparr>rcv_wnd := win\<rparr>
      in rbind (if ws_enabled s2 \<and> rcv_wnd_scale s2 \<noteq> 0
                then require (rcv_wnd_scale s2 \<le> 14) (Inr (drop_bit (rcv_wnd_scale s2) win))
                else Inr win) (\<lambda>scaled.
         require (scaled = ucast (ucast scaled :: 16 word)) (Inr (ucast scaled, s2))))"

record tcp_header =
  hSeq :: seq
  hAckNo :: seq
  hWindow :: "16 word"
  hAck :: bool
  hSyn :: bool
  hEce :: bool
  hTSecr :: "32 word"

definition updateWndInfo :: "tcp_header \<Rightarrow> bool \<Rightarrow> 'a tcb \<Rightarrow> 'a tcb" where
  "updateWndInfo h doAlways s =
     (let true_window = (if ws_enabled s \<and> \<not> hSyn h then push_bit (snd_wnd_scale s) (ucast (hWindow h)) else ucast (hWindow h))
      in if doAlways \<or> hAck h \<and> (seqLess (snd_wl1 s) (hSeq h) \<or> snd_wl1 s = hSeq h \<and> seqLE (snd_wl2 s) (hAckNo h) \<or>
           snd_wl2 s = hAckNo h \<and> true_window > snd_wnd s)
         then s\<lparr>snd_wnd := true_window, snd_wl1 := hSeq h, snd_wl2 := hAckNo h\<rparr> else s)"

section \<open>Sending\<close>

definition sendFin :: "'a tcb \<Rightarrow> 'a tcb result" where
  "sendFin s =
     rbind (updateRcvWnd s) (\<lambda>(w, s1).
     Inr (notify AckSent (s1\<lparr>wire := wire s1 @ [\<lparr>segSeq = snd_nxt s, segAck = rcv_next s, segWindow = w, segData = [],
        segFin = True, segCwr = False, segEct = ect s \<and> \<not> rexmit_flag s\<rparr>]\<rparr>)))"

text \<open>\<open>sendSegment\<close>: skip what a SACK or a repetition covers, cut, send, and record what was sent.\<close>

definition skipForward :: "'a tcb \<Rightarrow> 'a tcb result" where
  "skipForward s =
     (if sack_enabled s \<and> afterRto s
      then rbind (checkRexmitQueueForSackedOrRexmittedSegments (snd_nxt s) (rexmit s)) (\<lambda>forward.
        Inr (if forward > 0 then s\<lparr>snd_nxt := snd_nxt s + forward\<rparr> else s))
      else Inr s)"

definition fillQueueAgain :: "'a tcb \<Rightarrow> 'a tcb" where
  "fillQueueAgain s =
     (let alreadyQueued = getBytesAvailable (sbegin (sendq s)) (sendq s);
          abated = (if sendQueueLimit s > alreadyQueued then sendQueueLimit s - alreadyQueued else 0)
      in if sendQueueLimit s > 0 \<and> \<not> queueUpdate s \<and> abated \<ge> snd_mss s
         then s\<lparr>app := app s @ [abated], queueUpdate := True\<rparr> else s)"

definition stepNxt :: "32 word \<Rightarrow> 'a tcb \<Rightarrow> 'a tcb" where
  "stepNxt nbytes s =
     (let s' = s\<lparr>snd_nxt := snd_nxt s + nbytes\<rparr>
      in if afterRto s' \<and> seqGE (snd_nxt s') (snd_max s') then s'\<lparr>afterRto := False\<rparr> else s')"

definition raiseMax :: "'a tcb \<Rightarrow> 'a tcb" where
  "raiseMax s = (if seqGreater (snd_nxt s) (snd_max s) then s\<lparr>snd_max := snd_nxt s\<rparr> else s)"

definition transmit :: "32 word \<Rightarrow> 'a list \<Rightarrow> 16 word \<Rightarrow> 'a tcb \<Rightarrow> (32 word \<times> 'a tcb) result" where
  "transmit nbytes payload w s =
     (let cwr = ect s \<and> sndCwr s;
          s1 = stepNxt nbytes (s\<lparr>sndCwr := sndCwr s \<and> \<not> cwr\<rparr>);
          fin = (send_fin s1 \<and> snd_nxt s1 = snd_fin_seq s1);
          s2 = (if fin then s1\<lparr>snd_nxt := snd_fin_seq s1 + 1\<rparr> else s1)
      in rbind (if sack_enabled s2 then enqueueSentData (snd_nxt s) (snd_nxt s2) (rexmit s2) else Inr (rexmit s2)) (\<lambda>q.
         Inr (nbytes, raiseMax (fillQueueAgain (s2\<lparr>rexmit := q,
           wire := wire s2 @ [\<lparr>segSeq = snd_nxt s, segAck = rcv_next s, segWindow = w, segData = payload, segFin = fin,
             segCwr = cwr, segEct = ect s2 \<and> \<not> rexmit_flag s2\<rparr>]\<rparr>)))))"

definition sendSegment :: "32 word \<Rightarrow> 'a tcb \<Rightarrow> (32 word \<times> 'a tcb) result" where
  "sendSegment bytes0 s0 =
     rbind (skipForward s0) (\<lambda>s.
     let bytes1 = min bytes0 (getBytesAvailable (snd_nxt s) (sendq s))
     in require (options_len s < snd_mss s)
       (let bytes = (if bytes1 + options_len s > snd_mss s then snd_mss s - options_len s else bytes1)
        in rbind (createSegmentWithBytes (snd_nxt s) bytes (sendq s)) (\<lambda>payload.
           rbind (updateRcvWnd s) (\<lambda>(w, s1).
           require (bytes = of_nat (length payload)) (transmit bytes payload w s1)))))"

text \<open>\<open>sendData\<close>: whole segments while the windows take them, then the rest unless Nagle's rule keeps it.\<close>

fun sendWhole :: "nat \<Rightarrow> 32 word \<Rightarrow> 32 word \<Rightarrow> 'a tcb \<Rightarrow> (32 word \<times> 'a tcb) result" where
  "sendWhole 0 effectiveMss bytesToSend s = Inl OutOfFuel"
| "sendWhole (Suc n) effectiveMss bytesToSend s =
     (if bytesToSend \<ge> effectiveMss
      then rbind (sendSegment effectiveMss s) (\<lambda>(sentBytes, s').
        require (bytesToSend \<ge> sentBytes) (sendWhole n effectiveMss (bytesToSend - sentBytes) s'))
      else Inr (bytesToSend, s))"

definition sendRest :: "32 word \<Rightarrow> 'a tcb \<Rightarrow> 'a tcb result" where
  "sendRest bytesToSend s =
     (if bytesToSend > 0
      then
        let unacknowledgedData = (snd_una s \<noteq> snd_max s);
            containsFin = (send_fin s \<and> snd_nxt s + bytesToSend = snd_fin_seq s)
        in if nagle_enabled s \<and> unacknowledgedData \<and> \<not> containsFin then Inr s
           else rbind (sendSegment bytesToSend s) (\<lambda>(sentBytes, s'). Inr s')
      else Inr s)"

definition effectiveWindow :: "32 word \<Rightarrow> 'a tcb \<Rightarrow> int" where
  "effectiveWindow congestionWindow s = uint (min (snd_wnd s) congestionWindow) - uint (snd_nxt s - snd_una s)"

definition sendData :: "32 word \<Rightarrow> 'a tcb \<Rightarrow> (bool \<times> 'a tcb) result" where
  "sendData congestionWindow s0 =
     (let s = (if \<not> afterRto s0 then s0\<lparr>snd_nxt := snd_max s0\<rparr> else s0);
          old_highRxt = (if sack_enabled s then getHighestRexmittedSeqNum (rexmit s) else 0);
          buffered = getBytesAvailable (snd_nxt s) (sendq s);
          effectiveWin = effectiveWindow congestionWindow s
      in if buffered = 0 then Inr (False, s)
         else if effectiveWin \<le> 0 then Inr (False, s)
         else
           let bytesToSend = min buffered (of_int effectiveWin); old_snd_nxt = snd_nxt s
           in require (options_len s < snd_mss s)
             (rbind (sendWhole (Suc (unat bytesToSend)) (snd_mss s - options_len s) bytesToSend s) (\<lambda>(rest, s1).
              rbind (sendRest rest s1) (\<lambda>s2.
              if old_snd_nxt = snd_nxt s2 then Inr (False, s2)
              else
                let s3 = notify AckSent s2
                in Inr (True, if sack_enabled s3 \<and> lossRecovery s3 \<and> old_highRxt \<noteq> highRxt s3
                              then notify RestartRexmitTimer s3 else notify (DataSent old_snd_nxt) s3)))))"

definition sendProbe :: "'a tcb \<Rightarrow> (bool \<times> 'a tcb) result" where
  "sendProbe s0 =
     (let s = s0\<lparr>snd_nxt := snd_max s0\<rparr>
      in if getBytesAvailable (snd_nxt s) (sendq s) = 0 then Inr (False, s)
         else rbind (sendSegment 1 s) (\<lambda>(sentBytes, s1).
           Inr (True, notify (DataSent (snd_nxt s)) (notify AckSent (s1\<lparr>snd_max := snd_nxt s1\<rparr>)))))"

text \<open>The FIN alone, sent again: \<open>snd_max\<close> goes back to its number and over it.\<close>

definition resendFin :: "'a tcb \<Rightarrow> 'a tcb result" where
  "resendFin s =
     (let s1 = s\<lparr>snd_max := send (sendq s), snd_nxt := send (sendq s)\<rparr> in sendFin s1)"

definition stepOverFin :: "'a tcb \<Rightarrow> 'a tcb" where
  "stepOverFin s = s\<lparr>snd_nxt := snd_nxt s + 1, snd_max := snd_nxt s + 1\<rparr>"

definition setRexmit :: "bool \<Rightarrow> 'a tcb \<Rightarrow> 'a tcb" where
  "setRexmit b s = (if ect s then s\<lparr>rexmit_flag := b\<rparr> else s)"

definition retransmitOneSegment :: "bool \<Rightarrow> 'a tcb \<Rightarrow> 'a tcb result" where
  "retransmitOneSegment called_at_rto s0 =
     (let old_snd_nxt = snd_nxt s0;
          s = (setRexmit True s0)\<lparr>snd_nxt := snd_una s0\<rparr>;
          bytes = min (min (snd_mss s) (snd_max s - snd_nxt s)) (getBytesAvailable (snd_nxt s) (sendq s))
      in rbind (if bytes = 0 \<and> send_fin s \<and> snd_fin_seq s = send (sendq s)
                then rbind (resendFin s) (\<lambda>s1.
                  Inr (stepOverFin (notify (SegmentRetransmitted (snd_nxt s1) (snd_nxt s1 + 1)) s1)))
                else require (bytes \<noteq> 0)
                  (rbind (sendSegment bytes s) (\<lambda>(sentBytes, s1).
                   let s2 = notify (SegmentRetransmitted (snd_una s1) (snd_nxt s1)) s1;
                       s3 = (if \<not> called_at_rto \<and> seqGreater old_snd_nxt (snd_nxt s2) then s2\<lparr>snd_nxt := old_snd_nxt\<rparr> else s2);
                       s4 = notify AckSent s3
                   in Inr (if sack_enabled s4 then s4\<lparr>highRxt := getHighestRexmittedSeqNum (rexmit s4)\<rparr> else s4)))) (\<lambda>s'.
         Inr (setRexmit False s')))"

fun retransmitLoop :: "nat \<Rightarrow> 32 word \<Rightarrow> 'a tcb \<Rightarrow> 'a tcb result" where
  "retransmitLoop 0 bytesToSend s = Inl OutOfFuel"
| "retransmitLoop (Suc n) bytesToSend s =
     (if bytesToSend > 0
      then rbind (sendSegment (min (min bytesToSend (snd_mss s)) (getBytesAvailable (snd_nxt s) (sendq s))) s) (\<lambda>(sentBytes, s').
        if send_fin s' \<and> snd_nxt s' = snd_fin_seq s' + 1 then Inr s'
        else require (bytesToSend \<ge> sentBytes) (retransmitLoop n (bytesToSend - sentBytes) s'))
      else Inr s)"

text \<open>The early return after a lone FIN leaves the flag for retransmissions set.\<close>

definition retransmitData :: "'a tcb \<Rightarrow> 'a tcb result" where
  "retransmitData s0 =
     (let s = (setRexmit True s0)\<lparr>snd_nxt := snd_una s0\<rparr>; bytesToSend = snd_max s - snd_nxt s
      in if bytesToSend = 0 \<and> send_fin s \<and> snd_fin_seq s = send (sendq s)
         then rbind (resendFin s) (\<lambda>s1. Inr (stepOverFin s1))
         else require (bytesToSend \<noteq> 0)
           (rbind (retransmitLoop (Suc (unat bytesToSend)) bytesToSend s) (\<lambda>s1.
            Inr (setRexmit False (notify (SegmentRetransmitted (snd_una s1) (snd_nxt s1)) s1)))))"

text \<open>Limited Transmit of RFC 3042.\<close>

definition sendOneNewSegment :: "bool \<Rightarrow> 32 word \<Rightarrow> 'a tcb \<Rightarrow> 'a tcb result" where
  "sendOneNewSegment fullSegmentsOnly congestionWindow s =
     require (limited_transmit_enabled s)
       (if \<not> sack_enabled s \<or> sack_enabled s \<and> sackedBytes_old s \<noteq> sackedBytes s
        then
          let buffered = getBytesAvailable (snd_max s) (sendq s)
          in if buffered \<ge> snd_mss s \<or> \<not> fullSegmentsOnly \<and> buffered > 0
             then
               let outstandingData = snd_max s - snd_una s
               in if outstandingData + snd_mss s \<le> snd_wnd s \<and> outstandingData + snd_mss s \<le> congestionWindow + 2 * snd_mss s
                  then
                    let effectiveWin = min (snd_wnd s) congestionWindow - outstandingData + 2 * snd_mss s;
                        bytes = min effectiveWin (snd_mss s)
                    in if bytes \<ge> snd_mss s \<or> \<not> fullSegmentsOnly \<and> bytes > 0
                       then rbind (sendSegment bytes (s\<lparr>snd_nxt := snd_max s\<rparr>)) (\<lambda>(sentBytes, s1).
                         let s2 = (if seqGreater (snd_nxt s1) (snd_max s1) then s1\<lparr>snd_max := snd_nxt s1\<rparr> else s1);
                             s3 = (if afterRto s2 then s2\<lparr>snd_nxt := snd_nxt s + sentBytes\<rparr> else s2)
                         in Inr (notify (DataSent (snd_nxt s)) (notify AckSent s3)))
                       else Inr s
                  else Inr s
             else Inr s
        else Inr s)"

text \<open>Loss recovery with SACK (\<open>TcpConnectionSackUtil.cc\<close>): \<open>nextSeg\<close> chooses, \<open>pipe\<close> counts.\<close>

definition sendSegmentDuringLossRecoveryPhase :: "seq \<Rightarrow> 'a tcb \<Rightarrow> (32 word \<times> 'a tcb) result" where
  "sendSegmentDuringLossRecoveryPhase seqNum s0 =
     require (sack_enabled s0 \<and> lossRecovery s0)
       (let s = s0\<lparr>snd_nxt := seqNum\<rparr>; old_highRxt = getHighestRexmittedSeqNum (rexmit s)
        in rbind (sendSegment (snd_mss s) s) (\<lambda>(sentBytes, s1).
           let sentSeqNum = (if send_fin s1 \<and> seqNum + sentBytes = snd_fin_seq s1 then seqNum + sentBytes + 1 else seqNum + sentBytes)
           in require (seqLE (snd_nxt s1) sentSeqNum)
             (let s2 = (if seqLess seqNum (snd_max s1) then s1\<lparr>highRxt := getHighestRexmittedSeqNum (rexmit s1)\<rparr> else s1);
                  s3 = (if seqGreater sentSeqNum (snd_max s2) then s2\<lparr>snd_max := sentSeqNum\<rparr> else s2);
                  s4 = notify AckSent s3
              in Inr (sentBytes, if old_highRxt \<noteq> highRxt s4 then notify RestartRexmitTimer s4 else notify (DataSent seqNum) s4))))"

fun recoveryLoop :: "nat \<Rightarrow> 32 word \<Rightarrow> 'a tcb \<Rightarrow> 'a tcb result" where
  "recoveryLoop 0 congestionWindow s = Inl OutOfFuel"
| "recoveryLoop (Suc n) congestionWindow s =
     (if sint congestionWindow - sint (pipe s) \<ge> sint (snd_mss s)
      then rbind (nextSeg s) (\<lambda>(found, seqNum, s1).
        if \<not> found then Inr s1
        else rbind (sendSegmentDuringLossRecoveryPhase seqNum s1) (\<lambda>(sentBytes, s2).
          recoveryLoop n congestionWindow (s2\<lparr>pipe := pipe s2 + sentBytes\<rparr>)))
      else Inr s)"

definition sendDataDuringLossRecoveryPhase :: "32 word \<Rightarrow> 'a tcb \<Rightarrow> 'a tcb result" where
  "sendDataDuringLossRecoveryPhase congestionWindow s =
     require (sack_enabled s \<and> lossRecovery s) (recoveryLoop (Suc (unat congestionWindow)) congestionWindow s)"

section \<open>Commands and acknowledgements\<close>

text \<open>\<open>process_SEND\<close> in the states \<open>ESTABLISHED\<close> and \<open>CLOSE_WAIT\<close>.\<close>

definition sendCommand :: "'a list \<Rightarrow> 'a tcb \<Rightarrow> 'a tcb result" where
  "sendCommand msg s =
     rbind (enqueueAppData msg (sendq s)) (\<lambda>q.
     let s1 = notify SendCommandInvoked (s\<lparr>sendq := q\<rparr>)
     in Inr (if sendQueueLimit s1 > 0 \<and> getBytesAvailable (snd_una s1) (sendq s1) > sendQueueLimit s1
             then s1\<lparr>queueUpdate := False\<rparr> else s1))"

text \<open>\<open>process_CLOSE\<close> in the states that send a FIN; the result says whether the event is kept or ignored.\<close>

definition closeCommand :: "'a tcb \<Rightarrow> (bool \<times> 'a tcb) result" where
  "closeCommand s =
     rbind (if snd_max s = send (sendq s)
            then rbind (sendFin (s\<lparr>snd_nxt := snd_max s\<rparr>)) (\<lambda>s1.
              Inr (True, stepOverFin (notify RestartRexmitTimer s1)))
            else Inr (False, s)) (\<lambda>(kept, s2).
     Inr (kept, s2\<lparr>send_fin := True, snd_fin_seq := send (sendq s2)\<rparr>))"

text \<open>\<open>processAckInEstabEtc\<close>: the result says whether the segment is processed further.\<close>

definition ackInWindow :: "tcp_header \<Rightarrow> int \<Rightarrow> bool \<Rightarrow> 'a tcb \<Rightarrow> 'a tcb result" where
  "ackInWindow h payloadLength inSynRcvd s =
     (let s1 = s\<lparr>snd_una := hAckNo h\<rparr>;
          s2 = (if seqLess (snd_nxt s1) (snd_una s1) then s1\<lparr>snd_nxt := snd_una s1\<rparr> else s1);
          s3 = (if ts_enabled s2 then notify (RttMeasurementCompleteUsingTS (hTSecr h)) s2 else s2);
          ours = (send_fin s3 \<and> hAckNo h = snd_fin_seq s3 + 1);
          s4 = (if ours then s3\<lparr>fin_ack_rcvd := True\<rparr> else s3);
          discardUpToSeq = (if ours then snd_una s4 - 1 else snd_una s4)
      in rbind (send_discardUpTo discardUpToSeq (sendq s4)) (\<lambda>q.
         rbind (if sack_enabled s4 then discardUpTo discardUpToSeq (rexmit s4) else Inr (rexmit s4)) (\<lambda>r.
         let s5 = updateWndInfo h False (s4\<lparr>sendq := q, rexmit := r\<rparr>)
         in Inr (if payloadLength = 0 \<and> \<not> inSynRcvd then (notify (ReceivedDataAck (snd_una s)) s5)\<lparr>dupacks := 0\<rparr> else s5))))"

definition processAckInEstabEtc :: "tcp_header \<Rightarrow> int \<Rightarrow> bool \<Rightarrow> 'a tcb \<Rightarrow> (bool \<times> 'a tcb) result" where
  "processAckInEstabEtc h payloadLength inSynRcvd s0 =
     (let s = (if ect s0 then s0\<lparr>gotEce := hEce h\<rparr> else s0)
      in if seqGE (snd_una s) (hAckNo h)
         then Inr (True,
           if snd_una s = hAckNo h \<and> payloadLength = 0 \<and> snd_una s \<noteq> snd_max s
           then notify ReceivedDuplicateAck (updateWndInfo h False (s\<lparr>dupacks := dupacks s + 1\<rparr>))
           else s\<lparr>dupacks := 0\<rparr>)
         else if seqLE (hAckNo h) (snd_max s)
         then rbind (ackInWindow h payloadLength inSynRcvd s) (\<lambda>s'. Inr (True, s'))
         else require (seqGreater (hAckNo h) (snd_max s))
           (Inr (False, (notify (ReceivedAckForDataNotYetSent (hAckNo h)) s)\<lparr>dupacks := 0\<rparr>)))"

end
