(* ===== verification/Tcp_Sender_Runs.thy ===== *)
theory Tcp_Sender_Runs
  imports Tcp_Sender
begin

text \<open>
  What the sender of \<open>Tcp_Sender\<close> does to the stream: its invariant, what every operation sends, runs of
  an established connection, and the states in which it fails.
\<close>

section \<open>The receive window\<close>

abbreviation scale_ok :: "'a tcb \<Rightarrow> bool" where
  "scale_ok s \<equiv> ws_enabled s \<longrightarrow> rcv_wnd_scale s \<le> 14"

lemma scaled_max:
  assumes "k \<le> 14"
  shows "unat (push_bit k (65535 :: 32 word)) = 65535 * 2 ^ k"
proof -
  have "(2::nat) ^ k \<le> 2 ^ 14" using assms by (intro power_increasing) auto
  then have "push_bit k (65535::nat) < 2 ^ 32" by (simp add: push_bit_eq_mult)
  moreover have "unat (push_bit k (65535 :: 32 word)) = take_bit 32 (push_bit k 65535)"
    by (simp only: unsigned_push_bit_eq unat_numeral) simp
  ultimately show ?thesis by (simp add: take_bit_nat_eq_self push_bit_eq_mult)
qed

lemma maxWin_scale: "scale_ok s \<Longrightarrow> unat (maxWin s) = 65535 * 2 ^ (if ws_enabled s then rcv_wnd_scale s else 0)"
  by (simp add: maxWin_def scaled_max)

lemma drop_bit_bound:
  assumes "unat (x :: 32 word) \<le> 65535 * 2 ^ k"
  shows "unat (drop_bit k x) = unat x div 2 ^ k" and "unat (drop_bit k x) \<le> 65535"
proof -
  show *: "unat (drop_bit k x) = unat x div 2 ^ k" unfolding unat_drop_bit_eq by (simp add: drop_bit_eq_div)
  show "unat (drop_bit k x) \<le> 65535" unfolding * using div_le_mono [OF assms, of "2 ^ k"] by simp
qed

lemma fits_16:
  assumes "unat (x :: 32 word) \<le> 65535"
  shows "ucast (ucast x :: 16 word) = x" and "unat (ucast x :: 16 word) = unat x"
proof -
  have bits: "take_bit 16 (unat x) = unat x" using assms by (simp add: take_bit_nat_eq_self)
  then have "unat (ucast (ucast x :: 16 word) :: 32 word) = unat x"
    by (simp add: unsigned_ucast_eq unsigned_take_bit_eq)
  then show "ucast (ucast x :: 16 word) = x" by (rule unsigned_word_eqI)
  show "unat (ucast x :: 16 word) = unat x" using bits by (simp add: unsigned_ucast_eq)
qed

text \<open>Only the variables of the receiver change.\<close>

definition same_sender :: "'a tcb \<Rightarrow> 'a tcb \<Rightarrow> bool" where
  "same_sender s s' \<longleftrightarrow> (\<exists>a w f u. s' = s\<lparr>rcv_adv := a, rcv_wnd := w, freeRcvBuffer := f, usedRcvBuffer := u\<rparr>)"

lemma updateRcvWnd_ok:
  assumes "scale_ok s"
  shows "\<exists>s'. updateRcvWnd s = Inr (ucast (drop_bit (if ws_enabled s then rcv_wnd_scale s else 0) (rcv_wnd s')), s') \<and>
    same_sender s s' \<and> rcv_wnd s' \<le> maxWin s \<and>
    rcv_adv s' = (if rcv_wnd s' > 0 \<and> seqGE (rcv_next s + rcv_wnd s') (rcv_adv s) then rcv_next s + rcv_wnd s' else rcv_adv s) \<and>
    (rcv_adv s - rcv_next s \<le> maxWin s \<longrightarrow> rcv_adv s - rcv_next s \<le> rcv_wnd s')"
proof -
  let ?k = "if ws_enabled s then rcv_wnd_scale s else 0"
  define t where "t = updateRcvQueueVars s"
  define win1 where "win1 = (if freeRcvBuffer t < maxRcvBuffer t div 4 \<and> freeRcvBuffer t < snd_mss t then 0 else freeRcvBuffer t)"
  define win2 where "win2 = (if win1 < rcv_adv t - rcv_next t then rcv_adv t - rcv_next t else win1)"
  define win where "win = (if win2 > maxWin t then maxWin t else win2)"
  define s' where "s' = (if win > 0 \<and> seqGE (rcv_next t + win) (rcv_adv t) then t\<lparr>rcv_adv := rcv_next t + win\<rparr> else t)\<lparr>rcv_wnd := win\<rparr>"
  have t: "ws_enabled t = ws_enabled s" "rcv_wnd_scale t = rcv_wnd_scale s" "maxWin t = maxWin s" "rcv_adv t = rcv_adv s" "rcv_next t = rcv_next s"
    by (simp_all add: t_def updateRcvQueueVars_def Let_def maxWin_def)
  have le: "win \<le> maxWin s" by (auto simp: win_def t)
  then have "unat win \<le> 65535 * 2 ^ ?k" using maxWin_scale [OF assms] by (simp add: word_le_nat_alt)
  note fits = fits_16(1) [OF drop_bit_bound(2) [OF this]]
  have "updateRcvWnd s = Inr (ucast (drop_bit ?k win), s')"
    using fits assms unfolding updateRcvWnd_def Let_def t_def [symmetric] win1_def [symmetric] win2_def [symmetric] win_def [symmetric]
      s'_def [symmetric]
    by (auto simp: s'_def t)
  moreover have "same_sender s t" unfolding same_sender_def t_def updateRcvQueueVars_def Let_def
    by (rule exI [of _ "rcv_adv s"], rule exI [of _ "rcv_wnd s"]) auto
  then obtain a w f u where "t = s\<lparr>rcv_adv := a, rcv_wnd := w, freeRcvBuffer := f, usedRcvBuffer := u\<rparr>"
    by (auto simp: same_sender_def)
  then have "s' = s\<lparr>rcv_adv := rcv_adv s', rcv_wnd := win, freeRcvBuffer := f, usedRcvBuffer := u\<rparr>" by (simp add: s'_def)
  then have "same_sender s s'" unfolding same_sender_def by blast
  moreover have "rcv_adv s - rcv_next s \<le> win" if "rcv_adv s - rcv_next s \<le> maxWin s"
    using that by (auto simp: win_def win2_def t)
  ultimately show ?thesis using le t by (intro exI [of _ s']) (auto simp: s'_def)
qed



section \<open>The invariant of the sender\<close>

text \<open>
  \<open>S\<close> is the stream, byte \<open>0\<close> has the number \<open>start\<close>. Byte \<open>u\<close> is the first that is not acknowledged, \<open>i\<close>
  the next to send, \<open>m\<close> bytes have been sent and \<open>w\<close> written. With SACK, \<open>afterRto\<close> is excluded: there the sender
  can fail (\<open>Tcp_Sender_Safe\<close>).
\<close>

definition segment_of :: "(nat \<Rightarrow> 'a) \<Rightarrow> seq \<Rightarrow> nat \<Rightarrow> 'a tcp_segment \<Rightarrow> bool" where
  "segment_of S start m x \<longleftrightarrow>
     \<not> segFin x \<and> (\<exists>k n. 0 < n \<and> segSeq x = start + of_nat k \<and> segData x = map S [k..<k + n] \<and> k + n \<le> m)"

definition sender_at :: "(nat \<Rightarrow> 'a) \<Rightarrow> seq \<Rightarrow> nat \<Rightarrow> nat \<Rightarrow> nat \<Rightarrow> nat \<Rightarrow> 'a tcb \<Rightarrow> bool" where
  "sender_at S start u i m w s \<longleftrightarrow>
     send_ok (sendq s) \<and> sbegin (sendq s) = snd_una s \<and> unsent (sendq s) = map S [u..<w] \<and>
     snd_una s = start + of_nat u \<and> snd_nxt s = start + of_nat i \<and> snd_max s = start + of_nat m \<and> u \<le> i \<and> i \<le> m \<and> m \<le> w \<and>
     (sack_enabled s \<longrightarrow> queue_ok (rexmit s) \<and> qbegin (rexmit s) = snd_una s \<and> qend (rexmit s) = snd_max s \<and> \<not> afterRto s) \<and>
     \<not> send_fin s \<and> options_len s < snd_mss s \<and> unat (snd_mss s) < half \<and> scale_ok s \<and>
     (\<forall>x \<in> set (wire s). segment_of S start m x)"

definition sender_ok :: "(nat \<Rightarrow> 'a) \<Rightarrow> seq \<Rightarrow> 'a tcb \<Rightarrow> bool" where
  "sender_ok S start s \<longleftrightarrow> (\<exists>u i m w. sender_at S start u i m w s)"

text \<open>What sending leaves alone.\<close>

definition kept :: "'a tcb \<Rightarrow> 'a tcb \<Rightarrow> bool" where
  "kept s s' \<longleftrightarrow> snd_una s' = snd_una s \<and> sendq s' = sendq s \<and> snd_wnd s' = snd_wnd s \<and> snd_mss s' = snd_mss s \<and>
     options_len s' = options_len s \<and> sack_enabled s' = sack_enabled s \<and> send_fin s' = send_fin s \<and> nagle_enabled s' = nagle_enabled s \<and>
     pipe s' = pipe s \<and> dupthresh s' = dupthresh s \<and> lossRecovery s' = lossRecovery s"

lemma kept_trans: "kept s s' \<Longrightarrow> kept s' s'' \<Longrightarrow> kept s s''"
  by (simp add: kept_def)

lemma segment_of_mono: "segment_of S start m x \<Longrightarrow> m \<le> m' \<Longrightarrow> segment_of S start m' x"
  by (fastforce simp: segment_of_def)

lemma sender_numbers:
  assumes "sender_at S start u i m w s"
  shows "w - u < half" and "u \<le> j \<Longrightarrow> j \<le> w \<Longrightarrow> fwd (snd_una s) (start + of_nat j) = j - u"
    and "send (sendq s) = start + of_nat w"
    and "u \<le> j \<Longrightarrow> j \<le> w \<Longrightarrow> u \<le> k \<Longrightarrow> k \<le> w \<Longrightarrow> seqLE (start + of_nat j) (start + of_nat k) \<longleftrightarrow> j \<le> k"
    and "u \<le> j \<Longrightarrow> j \<le> w \<Longrightarrow> u \<le> k \<Longrightarrow> k \<le> w \<Longrightarrow> seqLess (start + of_nat j) (start + of_nat k) \<longleftrightarrow> j < k"
proof -
  have q: "length (unsent (sendq s)) = w - u" "send_ok (sendq s)" "sbegin (sendq s) = start + of_nat u" "snd_una s = start + of_nat u" "u \<le> w"
    using assms by (auto simp: sender_at_def)
  then show small: "w - u < half" by (simp add: send_ok_def)
  show "fwd (snd_una s) (start + of_nat j) = j - u" if "u \<le> j" "j \<le> w"
    unfolding q(4) by (rule number_fwd) (use that small in auto)
  have "fwd (start + of_nat u) (send (sendq s)) = w - u" using q by (simp add: send_ok_def)
  then show "send (sendq s) = start + of_nat w" using add_fwd [of "start + of_nat u" "send (sendq s)"] q(5) by simp
  show "seqLE (start + of_nat j) (start + of_nat k) \<longleftrightarrow> j \<le> k" if "u \<le> j" "j \<le> w" "u \<le> k" "k \<le> w"
    by (rule number_order(1) [of u]) (use that small in auto)
  show "seqLess (start + of_nat j) (start + of_nat k) \<longleftrightarrow> j < k" if "u \<le> j" "j \<le> w" "u \<le> k" "k \<le> w"
    by (rule number_order(2) [of u]) (use that small in auto)
qed

lemma available_at:
  assumes "sender_at S start u i m w s" and "u \<le> j" and "j \<le> w"
  shows "getBytesAvailable (start + of_nat j) (sendq s) = of_nat (w - j)"
proof -
  have "seqLess (start + of_nat j) (start + of_nat w) \<longleftrightarrow> j < w"
    using sender_numbers(5) [OF assms(1), of j w] assms(2,3) by simp
  then show ?thesis using assms(3) sender_numbers(3) [OF assms(1)] by (auto simp: getBytesAvailable_def)
qed

lemma available_unat:
  assumes "sender_at S start u i m w s" and "u \<le> j" and "j \<le> w"
  shows "unat (getBytesAvailable (start + of_nat j) (sendq s)) = w - j"
proof -
  have "w - j < full" using sender_numbers(1) [OF assms(1)] assms(2) by linarith
  then show ?thesis using available_at [OF assms] by (simp add: unat_of_nat)
qed

text \<open>The length of a segment: what is asked for, what is there, and what the options leave of the segment size.\<close>

lemma segment_length:
  assumes "unat a = n" and "n < half" and "o1 < mss" and "unat mss < half"
  shows "unat (if a + o1 > mss then mss - o1 else (a :: 32 word)) = min n (unat mss - unat o1)"
proof -
  have "unat o1 < unat mss" using assms(3) by (simp add: word_less_nat_alt)
  then have "unat (a + o1) = n + unat o1" "unat (mss - o1) = unat mss - unat o1"
    using assms by (simp_all add: unat_word_ariths unat_sub_if' word_less_nat_alt)
  then show ?thesis using assms(1) by (auto simp: word_less_nat_alt)
qed


lemma unat_min: "unat (min (a :: 'l::len word) b) = min (unat a) (unat b)"
  by (auto simp: min_def word_le_nat_alt)

lemma fillQueueAgain_same: "fillQueueAgain s = s\<lparr>app := app (fillQueueAgain s), queueUpdate := queueUpdate (fillQueueAgain s)\<rparr>"
  by (simp add: fillQueueAgain_def Let_def)

lemma sent_length: "i \<le> length fs \<Longrightarrow> length (sent i n fs) = max (length fs) (i + n)"
  by (auto simp: sent_def)

text \<open>The retransmission queue after bytes \<open>i\<close> to \<open>i + n\<close> have been sent.\<close>

lemma enqueue_at:
  assumes at: "sender_at S start u i m w s" and sack: "sack_enabled s" and n: "0 < n" "i + n \<le> w"
  shows "\<exists>q. enqueueSentData (start + of_nat i) (start + of_nat (i + n)) (rexmit s) = Inr q \<and> queue_ok q \<and>
    qbegin q = snd_una s \<and> qend q = start + of_nat (max m (i + n))"
proof -
  have r: "queue_ok (rexmit s)" "qbegin (rexmit s) = snd_una s" "qend (rexmit s) = start + of_nat m" "snd_una s = start + of_nat u"
    and le: "u \<le> i" "i \<le> m" "m \<le> w" using at sack by (auto simp: sender_at_def)
  have x: "fwd (qbegin (rexmit s)) (start + of_nat i) = i - u" using sender_numbers(2) [OF at, of i] le r(2) by simp
  have len: "length (bytes (rexmit s)) = m - u" using queue_fwd [OF r(1)] sender_numbers(2) [OF at, of m] le r(2,3) by simp
  have d: "fwd (start + of_nat i) (start + of_nat (i + n)) = n"
    using number_fwd [of i "i + n" start] sender_numbers(1) [OF at] n le by simp
  then have "start + of_nat i \<noteq> start + of_nat (i + n)" using n(1) fwd_zero by (metis less_not_refl)
  moreover have room: "i - u \<le> m - u" "i - u + n < half" using le n sender_numbers(1) [OF at] by linarith+
  ultimately obtain q where q: "enqueueSentData (start + of_nat i) (start + of_nat (i + n)) (rexmit s) = Inr q" "queue_ok q"
      "qbegin q = snd_una s" "bytes q = sent (i - u) n (bytes (rexmit s))"
    using enqueueSentData_ok [OF r(1), of "start + of_nat i" "start + of_nat (i + n)"] x d len room r(2) by auto
  have "length (bytes q) = max (m - u) (i - u + n)" unfolding q(4) using len le by (simp add: sent_length)
  moreover have "max (m - u) (i - u + n) = max m (i + n) - u" using le by linarith
  ultimately have "fwd (snd_una s) (qend q) = max m (i + n) - u" using queue_fwd [OF q(2)] q(3) by simp
  then have "qend q = start + of_nat u + of_nat (max m (i + n) - u)" using add_fwd [of "snd_una s" "qend q"] r(4) by simp
  then have "qend q = start + of_nat (max m (i + n))" using le by (simp flip: of_nat_add)
  then show ?thesis using q by blast
qed

lemma sendSegment_at:
  assumes at: "sender_at S start u i m w s" and b: "0 < unat b" and i: "i < w"
  defines "n \<equiv> min (min (unat b) (w - i)) (unat (snd_mss s) - unat (options_len s))"
  shows "\<exists>s' x. sendSegment b s = Inr (of_nat n, s') \<and> 0 < n \<and> sender_at S start u (i + n) (max m (i + n)) w s' \<and> kept s s' \<and>
    wire s' = wire s @ [x] \<and> segSeq x = start + of_nat i \<and> segData x = map S [i..<i + n] \<and>
    (afterRto s' \<longleftrightarrow> afterRto s \<and> i + n < m)"
proof -
  note A = at [unfolded sender_at_def]
  have le: "u \<le> i" "i \<le> m" "m \<le> w" and opt: "options_len s < snd_mss s" "unat (snd_mss s) < half" and nxt: "snd_nxt s = start + of_nat i"
    using A by auto
  have skip: "skipForward s = Inr s" using A by (auto simp: skipForward_def)
  define a where "a = min b (getBytesAvailable (start + of_nat i) (sendq s))"
  have a: "unat a = min (unat b) (w - i)" "unat a < half"
    using available_unat [OF at le(1)] i sender_numbers(1) [OF at] nxt le by (simp_all add: a_def unat_min)
  define bytes where "bytes = (if a + options_len s > snd_mss s then snd_mss s - options_len s else a)"
  have un: "unat bytes = n" unfolding bytes_def n_def using segment_length [OF a(1) _ opt] a by simp
  have n: "0 < n" "i + n \<le> w" using b i opt(1) by (auto simp: n_def word_less_nat_alt)
  have bytes: "bytes = of_nat n" unfolding un [symmetric] by simp
  have create: "createSegmentWithBytes (start + of_nat i) bytes (sendq s) = Inr (map S [i..<i + n])"
  proof -
    have f: "fwd (sbegin (sendq s)) (start + of_nat i) = i - u" using sender_numbers(2) [OF at, of i] A le i by simp
    then have "fwd (sbegin (sendq s)) (start + of_nat i) + n \<le> length (unsent (sendq s))" using A n le by simp
    from createSegment_ok [OF _ n(1) this] show ?thesis using A f n le bytes by (simp add: drop_map take_map)
  qed
  obtain wnd s1 where s1: "updateRcvWnd s = Inr (wnd, s1)" "same_sender s s1" using updateRcvWnd_ok [of s] A by blast
  from s1(2) obtain va vw vf vu where s1_eq: "s1 = s\<lparr>rcv_adv := va, rcv_wnd := vw, freeRcvBuffer := vf, usedRcvBuffer := vu\<rparr>"
    by (auto simp: same_sender_def)
  define s2 where "s2 = stepNxt bytes (s1\<lparr>sndCwr := sndCwr s1 \<and> \<not> (ect s1 \<and> sndCwr s1)\<rparr>)"
  have s2: "snd_nxt s1 = start + of_nat i" "snd_nxt s2 = start + of_nat (i + n)" "\<not> send_fin s2" "sack_enabled s2 = sack_enabled s" "rexmit s2 = rexmit s"
    using nxt A by (simp_all add: s2_def stepNxt_def Let_def s1_eq bytes add.assoc)
  have ge: "seqGE (start + of_nat (i + n)) (start + of_nat m) \<longleftrightarrow> m \<le> i + n"
    using sender_numbers(4) [OF at, of m "i + n"] le n by (simp add: seqGE_LE)
  have gt: "seqGreater (start + of_nat (i + n)) (start + of_nat m) \<longleftrightarrow> m < i + n"
    using sender_numbers(5) [OF at, of m "i + n"] le n by (simp add: seqGreater_less)
  obtain q where q: "(if sack_enabled s2 then enqueueSentData (snd_nxt s1) (snd_nxt s2) (rexmit s2) else Inr (rexmit s2)) = Inr q"
      "sack_enabled s \<longrightarrow> queue_ok q \<and> qbegin q = snd_una s \<and> qend q = start + of_nat (max m (i + n))"
    using enqueue_at [OF at _ n] s2 by (cases "sack_enabled s") auto
  define x where "x = \<lparr>segSeq = snd_nxt s1, segAck = rcv_next s1, segWindow = wnd, segData = map S [i..<i + n], segFin = False,
    segCwr = ect s1 \<and> sndCwr s1, segEct = ect s2 \<and> \<not> rexmit_flag s2\<rparr>"
  define s6 where "s6 = s2\<lparr>rexmit := q, wire := wire s2 @ [x]\<rparr>"
  obtain va2 vq where s7: "fillQueueAgain s6 = s6\<lparr>app := va2, queueUpdate := vq\<rparr>" using fillQueueAgain_same [of s6] by blast
  define s' where "s' = raiseMax (fillQueueAgain s6)"
  have "transmit bytes (map S [i..<i + n]) wnd s1 = Inr (bytes, s')"
    unfolding transmit_def Let_def s2_def [symmetric] using s2(3) q(1)
    by (cases "sack_enabled s2") (auto simp: s'_def s6_def x_def)
  then have "sendSegment b s = Inr (of_nat n, s')"
    unfolding sendSegment_def skip rbind_Inr Let_def nxt a_def [symmetric]
    unfolding bytes_def [symmetric] create s1(1) rbind_Inr prod.case using opt(1) bytes by simp
  moreover have s2_fields: "snd_max s2 = start + of_nat m" "afterRto s2 \<longleftrightarrow> afterRto s \<and> i + n < m" "kept s s2" "wire s2 = wire s"
      "ws_enabled s2 = ws_enabled s" "rcv_wnd_scale s2 = rcv_wnd_scale s"
    using ge A nxt bytes unfolding s2_def stepNxt_def s1_eq Let_def by (simp_all add: kept_def add.assoc not_le) blast
  then have s'_eq: "snd_max s' = start + of_nat (max m (i + n))" "snd_nxt s' = start + of_nat (i + n)" "afterRto s' \<longleftrightarrow> afterRto s \<and> i + n < m"
      "kept s s'" "wire s' = wire s @ [x]" "rexmit s' = q" "ws_enabled s' = ws_enabled s" "rcv_wnd_scale s' = rcv_wnd_scale s"
    using s2(2) gt unfolding s'_def s7 raiseMax_def
    by (simp_all add: s6_def kept_def max_def)
  moreover have "sender_at S start u (i + n) (max m (i + n)) w s'"
  proof -
    have "segment_of S start (max m (i + n)) y" if "y \<in> set (wire s')" for y
    proof (cases "y = x")
      case True
      have "0 < n \<and> segSeq x = start + of_nat i \<and> segData x = map S [i..<i + n] \<and> i + n \<le> max m (i + n)"
        using n(1) s2(1) by (simp add: x_def)
      moreover have "\<not> segFin x" by (simp add: x_def)
      ultimately show ?thesis unfolding True segment_of_def by blast
    next
      case False
      then have "segment_of S start m y" using that A s'_eq(5) by auto
      then show ?thesis by (rule segment_of_mono) simp
    qed
    then show ?thesis using A s'_eq q(2) n le by (auto simp: sender_at_def kept_def)
  qed
  ultimately show ?thesis using n(1) s2(1) by (intro exI [of _ s'] exI [of _ x]) (auto simp: x_def)
qed


section \<open>The operations keep the invariant\<close>

lemma sender_at_logs [simp]:
  "sender_at S start u i m w (notify c s) \<longleftrightarrow> sender_at S start u i m w s"
  "sender_at S start u i m w (setRexmit b s) \<longleftrightarrow> sender_at S start u i m w s"
  "kept s (notify c s') \<longleftrightarrow> kept s s'"
  "sender_at S start u i m w (s\<lparr>highRxt := h\<rparr>) \<longleftrightarrow> sender_at S start u i m w s"
  "sender_at S start u i m w (s\<lparr>dupacks := d\<rparr>) \<longleftrightarrow> sender_at S start u i m w s"
  "sender_at S start u i m w (s\<lparr>gotEce := b\<rparr>) \<longleftrightarrow> sender_at S start u i m w s"
  "sender_at S start u i m w (s\<lparr>queueUpdate := b\<rparr>) \<longleftrightarrow> sender_at S start u i m w s"
  by (simp_all add: notify_def setRexmit_def sender_at_def kept_def)

lemma kept_refl [simp]: "kept s s"
  by (simp add: kept_def)

lemma sender_at_nxt: "sender_at S start u i m w s \<Longrightarrow> u \<le> j \<Longrightarrow> j \<le> m \<Longrightarrow> sender_at S start u j m w (s\<lparr>snd_nxt := start + of_nat j\<rparr>)"
  by (simp add: sender_at_def)

lemma sendWhole_at:
  assumes "sender_at S start u i m w s" and "effMss = snd_mss s - options_len s" and "unat b \<le> w - i" and "i \<le> w" and "unat b < k"
  shows "\<exists>r s' i'. sendWhole k effMss b s = Inr (r, s') \<and> unat b = (i' - i) + unat r \<and> r < effMss \<and> i \<le> i' \<and> i' \<le> w \<and>
    sender_at S start u i' (max m i') w s' \<and> kept s s'"
  using assms
proof (induction k arbitrary: i m s b)
  case (Suc k)
  have pos: "0 < unat effMss" and eff: "unat effMss = unat (snd_mss s) - unat (options_len s)"
    using Suc.prems(1,2) by (auto simp: sender_at_def word_less_nat_alt unat_sub_if')
  show ?case
  proof (cases "b \<ge> effMss")
    case True
    then have le: "unat effMss \<le> unat b" by (simp add: word_le_nat_alt)
    have n: "min (min (unat effMss) (w - i)) (unat (snd_mss s) - unat (options_len s)) = unat effMss" using le Suc.prems(3) eff by simp
    have "i < w" using le pos Suc.prems(3) by linarith
    from sendSegment_at [OF Suc.prems(1) pos this, unfolded n] obtain s1 where
      s1: "sendSegment effMss s = Inr (effMss, s1)" "sender_at S start u (i + unat effMss) (max m (i + unat effMss)) w s1" "kept s s1"
      by auto
    have b': "unat (b - effMss) = unat b - unat effMss" using True by (simp add: unat_sub)
    have "effMss = snd_mss s1 - options_len s1" using Suc.prems(2) s1(3) by (simp add: kept_def)
    moreover have "unat b - unat effMss \<le> w - (i + unat effMss)" "i + unat effMss \<le> w" "unat b - unat effMss < k"
      using Suc.prems(3-5) le pos by linarith+
    ultimately obtain r s' i' where
      "sendWhole k effMss (b - effMss) s1 = Inr (r, s')" "unat b - unat effMss = (i' - (i + unat effMss)) + unat r" "r < effMss"
      "i + unat effMss \<le> i'" "i' \<le> w" "sender_at S start u i' (max (max m (i + unat effMss)) i') w s'" "kept s1 s'"
      using Suc.IH [OF s1(2), of "b - effMss"] b' by metis
    moreover from this have "max (max m (i + unat effMss)) i' = max m i'" "unat b = (i' - i) + unat r" using le by linarith+
    ultimately show ?thesis using True s1 kept_trans [OF s1(3)] by (intro exI [of _ r] exI [of _ s'] exI [of _ i']) auto
  next
    case False
    have "max m i = m" using Suc.prems(1) by (auto simp: sender_at_def)
    then show ?thesis using False Suc.prems(1,4) by (intro exI [of _ b] exI [of _ s] exI [of _ i]) (auto simp: not_le)
  qed
qed simp

lemma sendRest_at:
  assumes "sender_at S start u i m w s" and "unat b \<le> w - i" and "i \<le> w" and "b < snd_mss s - options_len s"
  shows "\<exists>s' i'. sendRest b s = Inr s' \<and> i \<le> i' \<and> i' \<le> i + unat b \<and> sender_at S start u i' (max m i') w s' \<and> kept s s'"
proof (cases "b = 0 \<or> nagle_enabled s \<and> snd_una s \<noteq> snd_max s \<and> \<not> (send_fin s \<and> snd_nxt s + b = snd_fin_seq s)")
  case True
  have "max m i = m" using assms(1) by (auto simp: sender_at_def)
  then show ?thesis using True assms(1) by (intro exI [of _ s] exI [of _ i]) (auto simp: sendRest_def)
next
  case False
  then have pos: "0 < unat b" by (simp add: unat_gt_0)
  have "unat b < unat (snd_mss s) - unat (options_len s)"
    using assms(1,4) by (auto simp: sender_at_def word_less_nat_alt unat_sub_if')
  then have n: "min (min (unat b) (w - i)) (unat (snd_mss s) - unat (options_len s)) = unat b" using assms(2) by simp
  have "i < w" using pos assms(2) by linarith
  from sendSegment_at [OF assms(1) pos this, unfolded n] obtain s1 where
    "sendSegment b s = Inr (b, s1)" "sender_at S start u (i + unat b) (max m (i + unat b)) w s1" "kept s s1" by auto
  then show ?thesis using False by (intro exI [of _ s1] exI [of _ "i + unat b"]) (auto simp: sendRest_def word_gt_0)
qed

lemma sendData_at:
  fixes c :: "32 word"
  assumes "sender_at S start u i m w s"
  defines "edge \<equiv> u + min (unat (snd_wnd s)) (unat c)"
  shows "\<exists>b s' i'. sendData c s = Inr (b, s') \<and> sender_at S start u i' (max m i') w s' \<and> max m i' \<le> max m edge"
proof -
  define j where "j = (if afterRto s then i else m)"
  define s0 where "s0 = (if \<not> afterRto s then s\<lparr>snd_nxt := snd_max s\<rparr> else s)"
  have A: "u \<le> i" "i \<le> m" "m \<le> w" "snd_una s = start + of_nat u" "snd_max s = start + of_nat m" "snd_nxt s = start + of_nat i" "options_len s < snd_mss s"
    using assms(1) by (auto simp: sender_at_def)
  have j: "u \<le> j" "j \<le> m" "j \<le> w" using A by (auto simp: j_def)
  have s0: "sender_at S start u j m w s0" "snd_nxt s0 = start + of_nat j" "kept s s0"
    using sender_at_nxt [OF assms(1), of m] assms(1) A by (auto simp: s0_def j_def kept_def)
  have same: "max m j = m" using j by simp
  define e where "e = effectiveWindow c s0"
  have e: "e = int (min (unat (snd_wnd s)) (unat c)) - int (j - u)"
  proof -
    have "snd_nxt s0 - snd_una s0 = of_nat (j - u)" using s0(2,3) A(4) j(1) by (simp add: kept_def)
    moreover have "j - u < full" using sender_numbers(1) [OF assms(1)] j by linarith
    ultimately have "unat (snd_nxt s0 - snd_una s0) = j - u" by (simp add: unat_of_nat)
    moreover have "snd_wnd s0 = snd_wnd s" using s0(3) by (simp add: kept_def)
    ultimately show ?thesis unfolding e_def effectiveWindow_def uint_nat unat_min by simp
  qed
  have avail: "getBytesAvailable (snd_nxt s0) (sendq s0) = of_nat (w - j)" "unat (getBytesAvailable (snd_nxt s0) (sendq s0)) = w - j"
    using available_at [OF s0(1) j(1,3)] available_unat [OF s0(1) j(1,3)] s0(2) by simp_all
  show ?thesis
  proof (cases "getBytesAvailable (snd_nxt s0) (sendq s0) = 0 \<or> e \<le> 0")
    case True
    then have "sendData c s = Inr (False, s0)" by (auto simp: sendData_def Let_def s0_def [symmetric] e_def)
    then show ?thesis using s0(1) same by (intro exI [of _ False] exI [of _ s0] exI [of _ j]) auto
  next
    case False
    define b where "b = min (getBytesAvailable (snd_nxt s0) (sendq s0)) (of_int e)"
    have "unat (of_int e :: 32 word) = nat e"
    proof -
      have "nat e \<le> min (unat (snd_wnd s)) (unat c)" unfolding e by arith
      also have "\<dots> \<le> unat c" by simp
      also have "\<dots> < full" using unsigned_less [of c] by simp
      finally have "nat e < full" .
      moreover have "(of_int e :: 32 word) = of_nat (nat e)" using False by simp
      ultimately show ?thesis by (simp only: unat_of_nat) simp
    qed
    then have b: "unat b = min (w - j) (nat e)" using avail(2) by (simp add: b_def unat_min)
    have mss: "snd_mss s0 = snd_mss s" "options_len s0 = options_len s" using s0(3) by (simp_all add: kept_def)
    from sendWhole_at [OF s0(1) refl _ j(3), of b "Suc (unat b)"] obtain r s1 i1 where
      s1: "sendWhole (Suc (unat b)) (snd_mss s0 - options_len s0) b s0 = Inr (r, s1)" "unat b = (i1 - j) + unat r"
        "r < snd_mss s0 - options_len s0" "j \<le> i1" "i1 \<le> w" "sender_at S start u i1 (max m i1) w s1" "kept s0 s1"
      using b by auto
    have "unat r \<le> w - i1" using s1(2,4,5) b by simp
    from sendRest_at [OF s1(6) this s1(5)] obtain s2 i2 where
      s2: "sendRest r s1 = Inr s2" "i1 \<le> i2" "i2 \<le> i1 + unat r" "sender_at S start u i2 (max (max m i1) i2) w s2"
      using s1(3,7) by (auto simp: kept_def)
    have "\<exists>x s'. sendData c s = Inr (x, s') \<and> sender_at S start u i2 (max (max m i1) i2) w s'"
      using False s1(1) s2(1,4) A(7) mss unfolding sendData_def Let_def s0_def [symmetric] e_def [symmetric] b_def [symmetric]
      by auto
    moreover have "max (max m i1) i2 = max m i2" using s2(2) by simp
    moreover have "i2 \<le> j + nat e" using s1(2,4) s2(3) b by linarith
    moreover have "j + nat e = edge"
    proof -
      define M where "M = min (unat (snd_wnd s)) (unat c)"
      have "e = int M - int (j - u)" "\<not> e \<le> 0" using e False by (simp_all add: M_def)
      then have "j + nat e = u + M" using j(1) by linarith
      then show ?thesis by (simp add: edge_def M_def)
    qed
    ultimately show ?thesis by fastforce
  qed
qed


lemma sendProbe_at:
  assumes "sender_at S start u i m w s"
  shows "\<exists>b s' i'. sendProbe s = Inr (b, s') \<and> sender_at S start u i' (max m i') w s'"
proof -
  define s0 where "s0 = s\<lparr>snd_nxt := snd_max s\<rparr>"
  have A: "u \<le> i" "i \<le> m" "m \<le> w" "snd_max s = start + of_nat m" using assms by (auto simp: sender_at_def)
  have s0: "sender_at S start u m m w s0" using sender_at_nxt [OF assms, of m] A by (simp add: s0_def)
  have avail: "unat (getBytesAvailable (snd_nxt s0) (sendq s0)) = w - m"
    using available_unat [OF s0, of m] A by (simp add: s0_def)
  show ?thesis
  proof (cases "getBytesAvailable (snd_nxt s0) (sendq s0) = 0")
    case True
    then have "sendProbe s = Inr (False, s0)" by (simp add: sendProbe_def Let_def s0_def [symmetric])
    then show ?thesis using s0 by (intro exI [of _ False] exI [of _ s0] exI [of _ m]) simp
  next
    case False
    then have "0 < unat (getBytesAvailable (snd_nxt s0) (sendq s0))" by (simp add: unat_gt_0)
    then have w: "m < w" using avail by simp
    have "unat (options_len s0) < unat (snd_mss s0)" using s0 by (simp add: sender_at_def word_less_nat_alt)
    then have n: "min (min (unat (1 :: 32 word)) (w - m)) (unat (snd_mss s0) - unat (options_len s0)) = 1" using w by simp
    have "0 < unat (1 :: 32 word)" by simp
    from sendSegment_at [OF s0 this w, unfolded n] obtain s1 where
      s1: "sendSegment 1 s0 = Inr (1, s1)" "sender_at S start u (m + 1) (max m (m + 1)) w s1" by auto
    then have "sender_at S start u (m + 1) (max m (m + 1)) w (s1\<lparr>snd_max := snd_nxt s1\<rparr>)" by (simp add: sender_at_def)
    then show ?thesis using False s1(1)
      by (intro exI [of _ True] exI [of _ "notify (DataSent (snd_nxt s0)) (notify AckSent (s1\<lparr>snd_max := snd_nxt s1\<rparr>))"] exI [of _ "m + 1"])
        (simp add: sendProbe_def Let_def s0_def [symmetric])
  qed
qed

lemma outstanding_at:
  assumes "sender_at S start u i m w s" and "u \<le> j" and "j \<le> m"
  shows "unat (snd_max s - (start + of_nat j)) = m - j"
proof -
  have "snd_max s - (start + of_nat j) = of_nat (m - j)" using assms by (simp add: sender_at_def)
  moreover have "m \<le> w" using assms(1) by (simp add: sender_at_def)
  then have "m - j < full" using sender_numbers(1) [OF assms(1)] assms(2) by linarith
  ultimately show ?thesis by (simp add: unat_of_nat)
qed

lemma retransmitOneSegment_at:
  assumes "sender_at S start u i m w s" and "u < m"
  shows "\<exists>s' i'. retransmitOneSegment b s = Inr s' \<and> sender_at S start u i' m w s'"
proof -
  define s0 where "s0 = (setRexmit True s)\<lparr>snd_nxt := snd_una s\<rparr>"
  have A: "u \<le> i" "i \<le> m" "m \<le> w" "snd_una s = start + of_nat u" "snd_nxt s = start + of_nat i" using assms(1) by (auto simp: sender_at_def)
  have "sender_at S start u u m w ((setRexmit True s)\<lparr>snd_nxt := start + of_nat u\<rparr>)"
    by (rule sender_at_nxt [where i = i]) (use assms A in simp_all)
  then have s0: "sender_at S start u u m w s0" using A(4) by (simp add: s0_def)
  have opt: "unat (options_len s0) < unat (snd_mss s0)" "\<not> send_fin s0" using s0 by (simp_all add: sender_at_def word_less_nat_alt)
  define bs where "bs = min (min (snd_mss s0) (snd_max s0 - snd_nxt s0)) (getBytesAvailable (snd_nxt s0) (sendq s0))"
  have bs: "unat bs = min (min (unat (snd_mss s0)) (m - u)) (w - u)"
    using outstanding_at [OF s0, of u] available_unat [OF s0, of u] assms(2) A s0 by (simp add: bs_def unat_min sender_at_def)
  then have pos: "0 < unat bs" and uw: "u < w" using assms(2) A opt(1) by auto
  define n where "n = min (min (unat bs) (w - u)) (unat (snd_mss s0) - unat (options_len s0))"
  have "n \<le> m - u" by (simp add: n_def bs)
  then have n: "u + n \<le> m" using assms(2) by linarith
  from sendSegment_at [OF s0 pos uw, folded n_def] obtain s1 where
    s1: "sendSegment bs s0 = Inr (of_nat n, s1)" "sender_at S start u (u + n) m w s1" using n by (auto simp: max_def)
  define s2 where "s2 = notify (SegmentRetransmitted (snd_una s1) (snd_nxt s1)) s1"
  define s3 where "s3 = (if \<not> b \<and> seqGreater (snd_nxt s) (snd_nxt s2) then s2\<lparr>snd_nxt := snd_nxt s\<rparr> else s2)"
  define s4 where "s4 = notify AckSent s3"
  define s5 where "s5 = (if sack_enabled s4 then s4\<lparr>highRxt := getHighestRexmittedSeqNum (rexmit s4)\<rparr> else s4)"
  have "bs \<noteq> 0" using pos by auto
  then have "retransmitOneSegment b s = Inr (setRexmit False s5)"
    unfolding retransmitOneSegment_def Let_def s0_def [symmetric] bs_def [symmetric] using s1(1)
    by (simp add: s5_def s4_def s3_def s2_def)
  moreover have "sender_at S start u (u + n) m w s2" using s1(2) by (simp add: s2_def)
  then have "\<exists>i'. sender_at S start u i' m w s3"
    using sender_at_nxt [of S start u "u + n" m w s2 i] A by (auto simp: s3_def)
  then have "\<exists>i'. sender_at S start u i' m w s5" by (simp add: s5_def s4_def)
  ultimately show ?thesis by auto
qed

lemma retransmitLoop_at:
  assumes "sender_at S start u i m w s" and "unat b = m - i" and "unat b < k"
  shows "\<exists>s'. retransmitLoop k b s = Inr s' \<and> sender_at S start u m m w s'"
  using assms
proof (induction k arbitrary: i s b)
  case (Suc k)
  have A: "u \<le> i" "i \<le> m" "m \<le> w" "\<not> send_fin s" "snd_nxt s = start + of_nat i" and opt: "unat (options_len s) < unat (snd_mss s)"
    using Suc.prems(1) by (auto simp: sender_at_def word_less_nat_alt)
  show ?case
  proof (cases "b > 0")
    case True
    define bs where "bs = min (min b (snd_mss s)) (getBytesAvailable (snd_nxt s) (sendq s))"
    have b: "0 < unat b" using True by (simp add: word_less_nat_alt)
    have bs: "unat bs = min (min (m - i) (unat (snd_mss s))) (w - i)"
      using Suc.prems(2) available_unat [OF Suc.prems(1), of i] A by (simp add: bs_def unat_min)
    have pos: "0 < unat bs" and iw: "i < w" using bs b Suc.prems(2) opt A(3) by auto
    define n where "n = min (min (unat bs) (w - i)) (unat (snd_mss s) - unat (options_len s))"
    have "0 < n" "n \<le> m - i" using pos iw opt by (simp_all add: n_def bs)
    then have n: "0 < n" "i + n \<le> m" using b Suc.prems(2) by linarith+
    from sendSegment_at [OF Suc.prems(1) pos iw, folded n_def] obtain s1 where
      s1: "sendSegment bs s = Inr (of_nat n, s1)" "sender_at S start u (i + n) m w s1" using n by (auto simp: max_def)
    have "n < full" using n sender_numbers(1) [OF Suc.prems(1)] A by linarith
    then have un: "unat (of_nat n :: 32 word) = n" by (simp add: unat_of_nat)
    have ge: "b \<ge> of_nat n" using un n Suc.prems(2) by (simp add: word_le_nat_alt)
    then have b': "unat (b - of_nat n) = unat b - n" using un by (simp add: unat_sub)
    have "\<not> send_fin s1" using s1(2) by (simp add: sender_at_def)
    moreover have "m - (i + n) < k" using n Suc.prems(2,3) by linarith
    then obtain s' where "retransmitLoop k (b - of_nat n) s1 = Inr s'" "sender_at S start u m m w s'"
      using Suc.IH [OF s1(2), of "b - of_nat n"] b' Suc.prems(2) by auto
    ultimately show ?thesis using True s1(1) ge by (simp add: bs_def [symmetric])
  next
    case False
    then have "m - i = 0" using Suc.prems(2) by (simp add: word_gt_0)
    then have "i = m" using A(2) by simp
    then show ?thesis using False Suc.prems(1) by simp
  qed
qed simp

lemma retransmitData_at:
  assumes "sender_at S start u i m w s" and "u < m"
  shows "\<exists>s'. retransmitData s = Inr s' \<and> sender_at S start u m m w s'"
proof -
  define s0 where "s0 = (setRexmit True s)\<lparr>snd_nxt := snd_una s\<rparr>"
  have A: "u \<le> i" "i \<le> m" "m \<le> w" "snd_una s = start + of_nat u" using assms(1) by (auto simp: sender_at_def)
  have "sender_at S start u u m w ((setRexmit True s)\<lparr>snd_nxt := start + of_nat u\<rparr>)"
    by (rule sender_at_nxt [where i = i]) (use assms A in simp_all)
  then have s0: "sender_at S start u u m w s0" using A(4) by (simp add: s0_def)
  define b where "b = snd_max s0 - snd_nxt s0"
  have nxt: "snd_nxt s0 = start + of_nat u" using s0 by (simp add: sender_at_def)
  have b: "unat b = m - u" using outstanding_at [OF s0, of u] assms(2) by (simp add: b_def nxt)
  obtain s1 where s1: "retransmitLoop (Suc (unat b)) b s0 = Inr s1" "sender_at S start u m m w s1"
    using retransmitLoop_at [OF s0 b] by blast
  have "b \<noteq> 0" using b assms(2) by auto
  then have "retransmitData s = Inr (setRexmit False (notify (SegmentRetransmitted (snd_una s1) (snd_nxt s1)) s1))"
    unfolding retransmitData_def Let_def s0_def [symmetric] b_def [symmetric] using s1(1) by (simp del: retransmitLoop.simps)
  then show ?thesis using s1(2) by simp
qed

section \<open>An example\<close>

text \<open>A connection with SACK whose numbers wrap around after six bytes.\<close>

definition example_sender :: "nat tcb" where
  "example_sender = \<lparr>sack_enabled = True, snd_una = 4294967290, snd_max = 4294967290, snd_wnd = 100, snd_mss = 4, dupthresh = 3,
     highRxt = 4294967290, pipe = 0, rcv_sacks = 0, sackedBytes = 0, sackedBytes_old = 0,
     rexmit = rexmit_init 4294967290 rexmit_queue0,
     sendq = send_init 4294967290 \<lparr>sbegin = 0, send = 0, dataBuffer = chunk_queue0\<rparr>,
     snd_nxt = 4294967290, snd_wl1 = 7, snd_wl2 = 4294967290, afterRto = False, lossRecovery = False, send_fin = False,
     snd_fin_seq = 0, fin_ack_rcvd = False, dupacks = 0, nagle_enabled = False, limited_transmit_enabled = False,
     ts_enabled = False, ect = False, sndCwr = False, gotEce = False, rexmit_flag = False, sendQueueLimit = 0,
     queueUpdate = True, options_len = 0, ws_enabled = True, snd_wnd_scale = 2, rcv_wnd_scale = 2,
     receiveq = receive_init 7, rcv_next = 7, rcv_adv = 107, rcv_wnd = 100, maxRcvBuffer = 1000, freeRcvBuffer = 1000,
     usedRcvBuffer = 0, wire = [], algorithm = [], app = []\<rparr>"


end
