(* ===== verification/Tcp_Sender_Safe.thy ===== *)
theory Tcp_Sender_Safe
  imports Tcp_Sender_Runs
begin

text \<open>
  Runs of an established sender: the calls of the application, the congestion control algorithm, the
  timers and the peer in any order, and the states in which the sender fails.
\<close>

section \<open>New segments, commands and acknowledgements\<close>

lemma sendOneNewSegment_at:
  assumes "sender_at S start u i m w s" and "limited_transmit_enabled s"
  shows "\<exists>s' i' m'. sendOneNewSegment f c s = Inr s' \<and> sender_at S start u i' m' w s'"
proof -
  define go where "go \<longleftrightarrow> (\<not> sack_enabled s \<or> sack_enabled s \<and> sackedBytes_old s \<noteq> sackedBytes s) \<and>
    (getBytesAvailable (snd_max s) (sendq s) \<ge> snd_mss s \<or> \<not> f \<and> getBytesAvailable (snd_max s) (sendq s) > 0) \<and>
    snd_max s - snd_una s + snd_mss s \<le> snd_wnd s \<and> snd_max s - snd_una s + snd_mss s \<le> c + 2 * snd_mss s"
  define b where "b = min (min (snd_wnd s) c - (snd_max s - snd_una s) + 2 * snd_mss s) (snd_mss s)"
  show ?thesis
  proof (cases "go \<and> (b \<ge> snd_mss s \<or> \<not> f \<and> b > 0)")
    case False
    then have "sendOneNewSegment f c s = Inr s"
      using assms(2) unfolding sendOneNewSegment_def Let_def b_def [symmetric] go_def by auto
    then show ?thesis using assms(1) by blast
  next
    case True
    have A: "u \<le> i" "i \<le> m" "m \<le> w" "snd_max s = start + of_nat m" "snd_nxt s = start + of_nat i" "snd_mss s > 0"
      using assms(1) by (auto simp: sender_at_def word_less_nat_alt)
    define s0 where "s0 = s\<lparr>snd_nxt := snd_max s\<rparr>"
    have s0: "sender_at S start u m m w s0" using sender_at_nxt [OF assms(1), of m] A by (simp add: s0_def)
    have pos: "0 < unat b" using True A(6) by (auto simp: word_less_nat_alt word_le_nat_alt)
    have "0 < unat (getBytesAvailable (snd_max s) (sendq s))"
      using True A(6) by (auto simp: go_def word_less_nat_alt word_le_nat_alt)
    then have w: "m < w" using available_unat [OF assms(1), of m] A by simp
    define n where "n = min (min (unat b) (w - m)) (unat (snd_mss s0) - unat (options_len s0))"
    from sendSegment_at [OF s0 pos w, folded n_def] obtain s1 where
      s1: "sendSegment b s0 = Inr (of_nat n, s1)" "sender_at S start u (m + n) (m + n) w s1" by auto
    define s2 where "s2 = (if seqGreater (snd_nxt s1) (snd_max s1) then s1\<lparr>snd_max := snd_nxt s1\<rparr> else s1)"
    define s3 where "s3 = (if afterRto s2 then s2\<lparr>snd_nxt := snd_nxt s + of_nat n\<rparr> else s2)"
    have "snd_nxt s1 = snd_max s1" using s1(2) by (simp add: sender_at_def)
    then have s2: "s2 = s1" by (simp add: s2_def seqGreater_less seqLess_def)
    have "sender_at S start u (i + n) (m + n) w (s1\<lparr>snd_nxt := start + of_nat (i + n)\<rparr>)"
      by (rule sender_at_nxt [OF s1(2)]) (use A in auto)
    then have "\<exists>i'. sender_at S start u i' (m + n) w s3" using s1(2) A(5) by (auto simp: s3_def s2 add.assoc)
    moreover have "sendOneNewSegment f c s = Inr (notify (DataSent (snd_nxt s)) (notify AckSent s3))"
      using True assms(2) s1(1)
      unfolding sendOneNewSegment_def Let_def b_def [symmetric] go_def s0_def [symmetric] by (simp add: s3_def s2_def)
    ultimately show ?thesis by fastforce
  qed
qed

lemma sendCommand_at:
  assumes "sender_at S start u i m w s" and "0 < n" and "length (unsent (sendq s)) + n < half"
  shows "\<exists>s'. sendCommand (map S [w..<w + n]) s = Inr s' \<and> sender_at S start u i m (w + n) s'"
proof -
  have A: "send_ok (sendq s)" "unsent (sendq s) = map S [u..<w]" "u \<le> w" using assms(1) by (auto simp: sender_at_def)
  obtain q where q: "enqueueAppData (map S [w..<w + n]) (sendq s) = Inr q" "send_ok q" "unsent q = map S [u..<w] @ map S [w..<w + n]" "sbegin q = sbegin (sendq s)"
    using enqueueAppData_ok [OF A(1), of "map S [w..<w + n]"] assms(2,3) A(2) by auto
  have "[u..<w + n] = [u..<w] @ [w..<w + n]" using A(3) upt_add_eq_append [of u w n] by simp
  then have "unsent q = map S [u..<w + n]" using q(3) by simp
  then have "sender_at S start u i m (w + n) (s\<lparr>sendq := q\<rparr>)" using assms(1) q(2,4) by (simp add: sender_at_def)
  then show ?thesis using q(1) by (simp add: sendCommand_def Let_def)
qed

text \<open>An acknowledgement that passes the two comparisons lies in the window, wherever the 32 bits put it.\<close>

lemma ack_in_window:
  assumes "\<not> seqGE a x" and "seqLE x b" and "fwd a b < half"
  shows "fwd a x \<le> fwd a b"
proof (rule ccontr)
  assume *: "\<not> fwd a x \<le> fwd a b"
  have "\<not> fwd x a < half" using assms(1) by (simp add: seqGE_LE seqLE_fwd)
  moreover have "a \<noteq> x" using * by auto
  ultimately have "fwd a x \<le> half" using fwd_flip [of a x] by simp
  moreover have "fwd a b + fwd b x = fwd a x" using fwd_sum [of a x b] * fwd_bound [of a b] fwd_bound [of b x] fwd_bound [of a x]
    by (cases "fwd a b + fwd b x < full") (auto simp: le_mod_geq)
  moreover have "fwd x b < half" using assms(2) by (simp add: seqLE_fwd)
  moreover have "b \<noteq> x" using * by auto
  ultimately show False using fwd_flip [of b x] by simp
qed

lemma updateWndInfo_at [simp]: "sender_at S start u i m w (updateWndInfo h d s) \<longleftrightarrow> sender_at S start u i m w s"
  by (simp add: updateWndInfo_def Let_def sender_at_def)

lemma ackInWindow_at:
  assumes at: "sender_at S start u i m w s" and d: "fwd (snd_una s) (hAckNo h) = d" "d \<le> m - u"
  shows "\<exists>s' i'. ackInWindow h p b s = Inr s' \<and> sender_at S start (u + d) i' m w s'"
proof -
  note A = at [unfolded sender_at_def]
  have le: "u \<le> i" "i \<le> m" "m \<le> w" "u + d \<le> m" using A d(2) by auto
  have ack: "hAckNo h = start + of_nat (u + d)" using add_fwd [of "snd_una s" "hAckNo h"] d(1) A by (simp add: ac_simps)
  define s1 where "s1 = s\<lparr>snd_una := hAckNo h\<rparr>"
  define s2 where "s2 = (if seqLess (snd_nxt s1) (snd_una s1) then s1\<lparr>snd_nxt := snd_una s1\<rparr> else s1)"
  define s3 where "s3 = (if ts_enabled s2 then notify (RttMeasurementCompleteUsingTS (hTSecr h)) s2 else s2)"
  have less: "seqLess (start + of_nat i) (start + of_nat (u + d)) \<longleftrightarrow> i < u + d"
    using sender_numbers(5) [OF at, of i "u + d"] le by simp
  have nxt: "snd_nxt s3 = start + of_nat (max i (u + d))"
    using A less ack by (auto simp: s3_def s2_def s1_def notify_def)
  have s3: "sendq s3 = sendq s" "rexmit s3 = rexmit s" "send_fin s3 = send_fin s" "snd_una s3 = start + of_nat (u + d)" "snd_max s3 = snd_max s"
      "sack_enabled s3 = sack_enabled s" "afterRto s3 = afterRto s" "options_len s3 = options_len s" "snd_mss s3 = snd_mss s"
      "ws_enabled s3 = ws_enabled s" "rcv_wnd_scale s3 = rcv_wnd_scale s" "wire s3 = wire s"
    using ack by (simp_all add: s3_def s2_def s1_def notify_def)
  have f: "fwd (sbegin (sendq s)) (start + of_nat (u + d)) = d" using A d(1) ack by simp
  obtain q where q: "send_discardUpTo (start + of_nat (u + d)) (sendq s) = Inr q" "send_ok q" "sbegin q = start + of_nat (u + d)"
      "unsent q = map S [u + d..<w]"
  proof -
    have "send_ok (sendq s)" "fwd (sbegin (sendq s)) (start + of_nat (u + d)) \<le> length (unsent (sendq s))"
      using A f le by simp_all
    from send_discardUpTo_ok [OF this] that show thesis using A f by (auto simp: drop_map simp del: of_nat_add)
  qed
  have "\<exists>r. (if sack_enabled s then discardUpTo (start + of_nat (u + d)) (rexmit s) else Inr (rexmit s)) = Inr r \<and>
      (sack_enabled s \<longrightarrow> queue_ok r \<and> qbegin r = start + of_nat (u + d) \<and> qend r = snd_max s)"
  proof (cases "sack_enabled s")
    case True
    then have r: "queue_ok (rexmit s)" "qbegin (rexmit s) = snd_una s" "qend (rexmit s) = snd_max s" using A by auto
    have "length (bytes (rexmit s)) = m - u" using queue_fwd [OF r(1)] sender_numbers(2) [OF at, of m] le r A by simp
    then show ?thesis using True discardUpTo_ok [OF r(1), of "start + of_nat (u + d)"] r d ack by auto
  qed simp
  then obtain r where r: "(if sack_enabled s then discardUpTo (start + of_nat (u + d)) (rexmit s) else Inr (rexmit s)) = Inr r"
      "sack_enabled s \<longrightarrow> queue_ok r \<and> qbegin r = start + of_nat (u + d) \<and> qend r = snd_max s" by blast
  define s5 where "s5 = updateWndInfo h False (s3\<lparr>sendq := q, rexmit := r\<rparr>)"
  have "sender_at S start (u + d) (max i (u + d)) m w s5"
    using A q r(2) s3 nxt le by (simp add: s5_def) (simp add: sender_at_def)
  moreover have "\<not> send_fin s3" using A s3 by simp
  then have "ackInWindow h p b s = Inr (if p = 0 \<and> \<not> b then (notify (ReceivedDataAck (snd_una s)) s5)\<lparr>dupacks := 0\<rparr> else s5)"
    using q(1) r(1) unfolding ackInWindow_def Let_def s1_def [symmetric]
    unfolding s2_def [symmetric] unfolding s3_def [symmetric] by (simp add: s3 s5_def del: of_nat_add cong: if_cong split del: if_split)
  ultimately show ?thesis by auto
qed

text \<open>
  The two comparisons leave one number out: the one that is half the number space away from \<open>snd_max\<close>.
\<close>

abbreviation half_way :: "tcp_header \<Rightarrow> 'a tcb \<Rightarrow> bool" where
  "half_way h s \<equiv> snd_una s = snd_max s \<and> hAckNo h = snd_una s + 2147483648"

lemma half_way_iff:
  assumes "\<not> seqGE a x" and "\<not> seqLE x b" and "fwd a b < half"
  shows "seqGreater x b \<longleftrightarrow> \<not> (a = b \<and> x = a + 2147483648)"
proof
  have f: "\<not> fwd x a < half" "\<not> fwd x b < half" using assms(1,2) by (simp_all add: seqGE_LE seqLE_fwd)
  have "fwd b (b + 2147483648) = half" using fwd_add [of b half] by simp
  then show "\<not> (a = b \<and> x = a + 2147483648)" if "seqGreater x b" using that by (auto simp: seqGreater_less seqLess_fwd)
  assume *: "\<not> (a = b \<and> x = a + 2147483648)"
  show "seqGreater x b"
  proof (rule ccontr)
    assume "\<not> seqGreater x b"
    moreover have "x \<noteq> b" using f(2) by auto
    ultimately have "\<not> fwd b x < half" by (auto simp: seqGreater_less seqLess_fwd)
    then have b: "fwd b x = half" "fwd x b = half" using fwd_flip [of b x] f(2) \<open>x \<noteq> b\<close> by auto
    then have x: "x = b + 2147483648" using add_fwd [of b x] by simp
    have "a \<noteq> b" using * x by auto
    then have "fwd b a = full - fwd a b" "0 < fwd a b" using fwd_flip [of a b] by auto
    then have "fwd x a = half - fwd a b" using fwd_sum [of x a b] b(2) assms(3) by (simp add: le_mod_geq)
    then show False using f(1) \<open>0 < fwd a b\<close> by simp
  qed
qed

lemma processAck_at:
  assumes at: "sender_at S start u i m w s" and "\<not> half_way h s"
  shows "\<exists>b s' u' i'. processAckInEstabEtc h p c s = Inr (b, s') \<and> sender_at S start u' i' m w s'"
proof -
  define t where "t = (if ect s then s\<lparr>gotEce := hEce h\<rparr> else s)"
  have t: "sender_at S start u i m w t" using at by (simp add: t_def)
  have eq: "snd_una t = snd_una s" "snd_max t = snd_max s" by (simp_all add: t_def)
  consider "seqGE (snd_una t) (hAckNo h)" | "\<not> seqGE (snd_una t) (hAckNo h)" "seqLE (hAckNo h) (snd_max t)"
    | "\<not> seqGE (snd_una t) (hAckNo h)" "\<not> seqLE (hAckNo h) (snd_max t)" by blast
  then show ?thesis
  proof cases
    case 1
    then show ?thesis using t unfolding processAckInEstabEtc_def Let_def t_def [symmetric] by auto
  next
    case 2
    have m: "fwd (snd_una t) (snd_max t) = m - u" "m - u < half"
      using sender_numbers(1) [OF t] sender_numbers(2) [OF t, of m] t by (auto simp: sender_at_def)
    then have "fwd (snd_una t) (hAckNo h) \<le> m - u" using ack_in_window [OF 2] by simp
    from ackInWindow_at [OF t refl this, of p c] obtain s' i' where
      "ackInWindow h p c t = Inr s'" "sender_at S start (u + fwd (snd_una t) (hAckNo h)) i' m w s'" by blast
    then show ?thesis using 2 unfolding processAckInEstabEtc_def Let_def t_def [symmetric] by auto
  next
    case 3
    have "seqGreater (hAckNo h) (snd_max t)"
      using half_way_iff [OF 3] sender_numbers(1) [OF t] sender_numbers(2) [OF t, of m] t assms(2) eq
      by (auto simp: sender_at_def)
    then show ?thesis using 3 t unfolding processAckInEstabEtc_def Let_def t_def [symmetric] by auto
  qed
qed

section \<open>Selective acknowledgements and recovery\<close>

text \<open>The blocks of an option that the loop takes lie behind \<open>snd_una\<close> and not beyond \<open>snd_max\<close>.\<close>

definition sack_fits :: "seq \<Rightarrow> seq \<times> seq \<Rightarrow> 'a tcb \<Rightarrow> bool" where
  "sack_fits ackNo item s \<longleftrightarrow> seqGreater (snd item) ackNo \<longrightarrow> seqGreater (snd item) (snd_una s) \<longrightarrow>
     fwd (snd_una s) (snd item) \<le> fwd (snd_una s) (snd_max s) \<and> fwd (snd_una s) (clip (snd_una s) (fst item)) < fwd (snd_una s) (snd item)"

lemma sackLoop_at:
  assumes "sender_at S start u i m w s" and "sack_enabled s" and "\<forall>x \<in> set items. sack_fits ackNo x s"
  shows "\<exists>s'. sackLoop ackNo items s = Inr s' \<and> sender_at S start u i m w s'"
  using assms
proof (induction items arbitrary: s)
  case (Cons x items)
  obtain a b where x: "x = (a, b)" by (cases x)
  show ?case
  proof (cases "seqGreater b ackNo \<and> seqGreater b (snd_una s)")
    case True
    have r: "queue_ok (rexmit s)" "qbegin (rexmit s) = snd_una s" "qend (rexmit s) = snd_max s" using Cons.prems by (auto simp: sender_at_def)
    have "sack_fits ackNo (a, b) s" using Cons.prems(3) x by simp
    then obtain q where q: "setSackedBit a b (rexmit s) = Inr q" "queue_ok q" "qbegin q = snd_una s" "qend q = snd_max s"
      using setSackedBit_ok [OF r(1), of b a] True r queue_fwd [OF r(1)] by (auto simp: sack_fits_def)
    have "sender_at S start u i m w (s\<lparr>rexmit := q\<rparr>)" using Cons.prems(1) q by (simp add: sender_at_def)
    moreover have "\<forall>x \<in> set items. sack_fits ackNo x (s\<lparr>rexmit := q\<rparr>)" using Cons.prems(3) by (simp add: sack_fits_def)
    ultimately show ?thesis using Cons.IH [of "s\<lparr>rexmit := q\<rparr>"] Cons.prems(2) True q(1) by (simp add: x)
  next
    case False
    then show ?thesis using Cons by (auto simp: x)
  qed
qed simp

lemma processSACKOption_at:
  assumes "sender_at S start u i m w s" and "sack_enabled s \<longrightarrow> (\<forall>x \<in> set items. sack_fits ackNo x s)"
    and "optlen = 2 + length items * 8"
  shows "\<exists>b s'. processSACKOption ackNo optlen items e s = Inr (b, s') \<and> sender_at S start u i m w s'"
proof -
  have len: "optlen mod 8 = 2" unfolding assms(3) by (simp only: mod_mult_self1) simp
  show ?thesis
  proof (cases "sack_enabled s \<and> e \<and> items \<noteq> []")
    case True
    from sackLoop_at [OF assms(1), of items ackNo] assms(2) True obtain s1 where
      s1: "sackLoop ackNo items s = Inr s1" "sender_at S start u i m w s1" by auto
    define s' where "s' = s1\<lparr>rcv_sacks := rcv_sacks s1 + of_nat (length items), sackedBytes_old := sackedBytes s1,
      sackedBytes := getTotalAmountOfSackedBytes (rexmit s1)\<rparr>"
    have "processSACKOption ackNo optlen items e s = Inr (True, s')"
      using True s1(1) len assms(3) by (simp add: processSACKOption_def s'_def)
    moreover have "sender_at S start u i m w s'" using s1(2) by (simp add: s'_def sender_at_def)
    ultimately show ?thesis by blast
  qed (use assms len in \<open>auto simp: processSACKOption_def\<close>)
qed

text \<open>\<open>nextSeg\<close> answers with a byte that can be sent.\<close>

lemma NextSeg_bound: "NextSeg d b fresh fs = Some i \<Longrightarrow> i < length fs \<or> i = length fs \<and> fresh"
proof -
  have below: "j < length fs" if "j \<in> set (Candidates fs)" for j
    using that upto_last_le [of fst fs] by (auto simp: Candidates_def)
  assume *: "NextSeg d b fresh fs = Some i"
  then have "i \<in> set (Candidates fs) \<or> i = length fs \<and> fresh"
    unfolding NextSeg_def first_lost by (auto split: option.splits list.splits if_splits)
  then show ?thesis using below by blast
qed

lemma recovery_segment_at:
  assumes at: "sender_at S start u i m w s" and j: "u \<le> j" "j \<le> m" "j < w" and on: "sack_enabled s" "lossRecovery s"
  shows "\<exists>n s'. sendSegmentDuringLossRecoveryPhase (start + of_nat j) s = Inr (of_nat n, s') \<and> 0 < n \<and> n \<le> unat (snd_mss s) \<and>
    sender_at S start u (j + n) (max m (j + n)) w s' \<and> kept s s'"
proof -
  define s0 where "s0 = s\<lparr>snd_nxt := start + of_nat j\<rparr>"
  have s0: "sender_at S start u j m w s0" using sender_at_nxt [OF at j(1,2)] by (simp add: s0_def)
  have mss: "0 < unat (snd_mss s)" using at by (auto simp: sender_at_def word_less_nat_alt)
  define n where "n = min (min (unat (snd_mss s)) (w - j)) (unat (snd_mss s0) - unat (options_len s0))"
  from sendSegment_at [OF s0 mss j(3), folded n_def] obtain s1 where
    s1: "sendSegment (snd_mss s) s0 = Inr (of_nat n, s1)" "0 < n" "sender_at S start u (j + n) (max m (j + n)) w s1" "kept s0 s1" by auto
  have nxt: "snd_nxt s1 = start + of_nat j + of_nat n" "snd_max s1 = start + of_nat (max m (j + n))" "\<not> send_fin s1"
    using s1(3) by (auto simp: sender_at_def)
  define s2 where "s2 = (if seqLess (start + of_nat j) (snd_max s1) then s1\<lparr>highRxt := getHighestRexmittedSeqNum (rexmit s1)\<rparr> else s1)"
  have "\<not> seqLess (start + of_nat (max m (j + n))) (start + of_nat (j + n))"
    using sender_numbers(5) [OF s1(3), of "max m (j + n)" "j + n"] s1(3) j by (auto simp: sender_at_def)
  then have "\<not> seqGreater (start + of_nat j + of_nat n) (snd_max s2)"
    using nxt by (simp add: s2_def seqGreater_less add.assoc)
  then have "sendSegmentDuringLossRecoveryPhase (start + of_nat j) s = Inr (of_nat n,
      let s4 = notify AckSent s2 in if getHighestRexmittedSeqNum (rexmit s0) \<noteq> highRxt s4 then notify RestartRexmitTimer s4
        else notify (DataSent (start + of_nat j)) s4)"
  proof -
    have req: "require (sack_enabled s \<and> lossRecovery s) x = x" "snd_mss s0 = snd_mss s" for x using on by (simp_all add: s0_def)
    have le: "seqLE (snd_nxt s1) (start + of_nat j + of_nat n)" using nxt(1) by (simp add: seqLE_fwd)
    note gt = \<open>\<not> seqGreater (start + of_nat j + of_nat n) (snd_max s2)\<close>
    show ?thesis
      unfolding sendSegmentDuringLossRecoveryPhase_def Let_def s0_def [symmetric] req s1(1) rbind_Inr prod.case
      unfolding s2_def [symmetric] using nxt(3) le gt by (simp del: of_nat_add cong: if_cong split del: if_split)
  qed
  moreover have "sender_at S start u (j + n) (max m (j + n)) w s2" "kept s s2"
    using s1(3,4) by (simp_all add: s2_def kept_def s0_def)
  ultimately show ?thesis using s1(2) n_def by (intro exI [of _ n]) (auto simp: Let_def)
qed

lemma sint_small:
  assumes "unat (x :: 32 word) < half"
  shows "sint x = int (unat x)"
proof -
  have "int (unat x) < int half" using assms by (simp only: of_nat_less_iff)
  then have "uint x < 2 ^ 31" "- (2 ^ 31) \<le> uint x" using order_trans [of "- (2 ^ 31)" 0 "uint x"] by simp_all
  then have "signed_take_bit 31 (uint x) = uint x" by (intro signed_take_bit_int_eq_self)
  then show ?thesis by (simp add: sint_uint)
qed

text \<open>Every round sends at least one byte, and \<open>pipe\<close> grows by what it sends: the loop ends.\<close>

lemma recoveryLoop_at:
  assumes "sender_at S start u i m w s" and "sack_enabled s" and "lossRecovery s"
    and "unat (dupthresh s) * unat (snd_mss s) < full" and "unat c < half" and "unat (pipe s) < half"
    and "unat c - unat (pipe s) < k"
  shows "\<exists>s' i' m'. recoveryLoop k c s = Inr s' \<and> sender_at S start u i' m' w s'"
  using assms
proof (induction k arbitrary: i m s)
  case (Suc k)
  note A = Suc.prems(1) [unfolded sender_at_def]
  have mss: "unat (snd_mss s) < half" using A by simp
  have cond: "sint c - sint (pipe s) \<ge> sint (snd_mss s) \<longleftrightarrow> unat (pipe s) + unat (snd_mss s) \<le> unat c"
    using sint_small [OF Suc.prems(5)] sint_small [OF Suc.prems(6)] sint_small [OF mss] by linarith
  show ?case
  proof (cases "unat (pipe s) + unat (snd_mss s) \<le> unat c")
    case False
    then show ?thesis using Suc.prems(1) cond by auto
  next
    case True
    have board: "board_ok s" using A Suc.prems(2,4) by (simp add: board_ok_def)
    define fs where "fs = bytes (rexmit s)"
    define fresh where "fresh \<longleftrightarrow> 0 < getBytesAvailable (snd_max s) (sendq s) \<and> snd_mss s \<le> snd_wnd s - pipe s"
    obtain s1 where s1: "s1 = s\<lparr>highRxt := highRxt s1\<rparr>"
      "nextSeg s = Inr (case NextSeg (unat (dupthresh s)) (unat (dupthresh s) * unat (snd_mss s)) fresh fs of
        None \<Rightarrow> (False, 0, s1) | Some i \<Rightarrow> (True, snd_una s + of_nat i, s1))"
      using nextSeg_ok [OF board] unfolding fs_def fresh_def by blast
    have same: "snd_una s1 = snd_una s" "pipe s1 = pipe s" "dupthresh s1 = dupthresh s" "snd_mss s1 = snd_mss s" "sack_enabled s1" "lossRecovery s1"
      using Suc.prems(2,3) by (subst s1(1); simp)+
    have at1: "sender_at S start u i m w s1" using Suc.prems(1) by (subst s1(1)) simp
    show ?thesis
    proof (cases "NextSeg (unat (dupthresh s)) (unat (dupthresh s) * unat (snd_mss s)) fresh fs")
      case None
      then show ?thesis using s1(2) True cond at1 by auto
    next
      case (Some l)
      have len: "length fs = m - u" using queue_fwd [of "rexmit s"] sender_numbers(2) [OF Suc.prems(1), of m] A Suc.prems(2) by (simp add: fs_def)
      have "m < w" if fresh
      proof -
        have "0 < unat (getBytesAvailable (snd_max s) (sendq s))" using that by (simp add: fresh_def word_less_nat_alt)
        then show ?thesis using available_unat [OF Suc.prems(1), of m] A by simp
      qed
      moreover have "l < length fs \<or> l = length fs \<and> fresh" using NextSeg_bound Some by blast
      ultimately have j: "u \<le> u + l" "u + l \<le> m" "u + l < w" using A len by auto
      have num: "snd_una s + of_nat l = start + of_nat (u + l)" using A by (simp add: add.assoc)
      from recovery_segment_at [OF at1 j same(5,6)] obtain n s2 where
        s2: "sendSegmentDuringLossRecoveryPhase (start + of_nat (u + l)) s1 = Inr (of_nat n, s2)" "0 < n" "n \<le> unat (snd_mss s1)"
          "sender_at S start u (u + l + n) (max m (u + l + n)) w s2" "kept s1 s2" by blast
      have n: "unat (pipe s) + n \<le> unat c" "n < full" using s2(3) True same(4) mss by simp_all
      then have p: "unat (pipe s + of_nat n) = unat (pipe s) + n" using Suc.prems(5) by (simp add: unat_word_ariths unat_of_nat)
      define s3 where "s3 = s2\<lparr>pipe := pipe s + of_nat n\<rparr>"
      have k2: "pipe s2 = pipe s" "sack_enabled s3" "lossRecovery s3" "dupthresh s3 = dupthresh s" "snd_mss s3 = snd_mss s" "pipe s3 = pipe s + of_nat n"
        using s2(5) same by (simp_all add: kept_def s3_def)
      have "sender_at S start u (u + l + n) (max m (u + l + n)) w s3" using s2(4) by (simp add: s3_def sender_at_def)
      moreover have "unat c - unat (pipe s3) < k" "unat (pipe s3) < half" using k2(6) p n(1) s2(2) Suc.prems(5,7) by simp_all
      ultimately obtain s' i' m' where "recoveryLoop k c s3 = Inr s'" "sender_at S start u i' m' w s'"
        using Suc.IH k2 Suc.prems(4,5) by metis
      moreover have "recoveryLoop (Suc k) c s = recoveryLoop k c s3"
        using True cond s1(2) Some s2(1) num k2(1) by (simp add: s3_def del: of_nat_add)
      ultimately show ?thesis by auto
    qed
  qed
qed simp

lemma sender_at_pipe [simp]: "sender_at S start u i m w (s\<lparr>highRxt := h, pipe := p\<rparr>) \<longleftrightarrow> sender_at S start u i m w s"
  by (simp add: sender_at_def)

lemma recover_at:
  assumes "sender_at S start u i m w s" and "sack_enabled s" and "lossRecovery s"
    and "unat (dupthresh s) * unat (snd_mss s) < full" and "unat c < half" and "length (unsent (sendq s)) < 1073741824"
  shows "\<exists>s' i' m'. rbind (setPipe s) (sendDataDuringLossRecoveryPhase c) = Inr s' \<and> sender_at S start u i' m' w s'"
proof -
  have A: "queue_ok (rexmit s)" "qbegin (rexmit s) = snd_una s" "qend (rexmit s) = snd_max s" "u \<le> m" "m \<le> w" "snd_max s = start + of_nat m"
      "unsent (sendq s) = map S [u..<w]"
    using assms(1,2) by (auto simp: sender_at_def)
  have board: "board_ok s" using A assms(2,4) by (simp add: board_ok_def)
  obtain s1 where s1: "setPipe s = Inr s1" "unat (pipe s1) = Pipe (unat (dupthresh s)) (unat (dupthresh s) * unat (snd_mss s)) (bytes (rexmit s))"
      "s1 = s\<lparr>highRxt := highRxt s1, pipe := pipe s1\<rparr>"
    using setPipe_ok [OF board] by blast
  have "length (bytes (rexmit s)) = m - u" using queue_fwd [OF A(1)] sender_numbers(2) [OF assms(1), of m] A by simp
  moreover have "m - u < 1073741824" using A assms(6) by simp
  ultimately have "unat (pipe s1) < half"
    using Pipe_bound [of "unat (dupthresh s)" "unat (dupthresh s) * unat (snd_mss s)" "bytes (rexmit s)"] s1(2) by simp
  moreover have "sack_enabled s1" "lossRecovery s1" "dupthresh s1 = dupthresh s" "snd_mss s1 = snd_mss s"
    using assms(2,3) by (subst s1(3); simp)+
  moreover have "sender_at S start u i m w s1" using assms(1) by (subst s1(3)) simp
  ultimately obtain s' i' m' where "recoveryLoop (Suc (unat c)) c s1 = Inr s'" "sender_at S start u i' m' w s'"
    using recoveryLoop_at [of S start u i m w s1 c "Suc (unat c)"] assms(4,5) le_imp_less_Suc [OF diff_le_self, of "unat c"]
    by (auto simp del: recoveryLoop.simps)
  then show ?thesis using s1(1) \<open>sack_enabled s1\<close> \<open>lossRecovery s1\<close>
    by (auto simp: sendDataDuringLossRecoveryPhase_def simp del: recoveryLoop.simps)
qed

section \<open>Runs\<close>

text \<open>
  The stream is written in pieces; \<open>w\<close> counts the bytes. The congestion control algorithm, the timers
  and the peer call the operations in any order.
\<close>

datatype sender_event =
    WriteData nat
  | CallSendData "32 word"
  | CallSendProbe
  | CallSendOneNewSegment bool "32 word"
  | CallRetransmitOneSegment
  | CallRetransmitData
  | RexmitTimeout
  | AckArrives tcp_header int bool
  | SackArrives seq "(seq \<times> seq) list" bool
  | Recover "32 word"

fun sender_step :: "(nat \<Rightarrow> 'a) \<Rightarrow> sender_event \<Rightarrow> nat \<Rightarrow> 'a tcb \<Rightarrow> (nat \<times> 'a tcb) result" where
  "sender_step S (WriteData n) w s = rbind (sendCommand (map S [w..<w + n]) s) (\<lambda>s'. Inr (w + n, s'))"
| "sender_step S (CallSendData c) w s = rbind (sendData c s) (\<lambda>(_, s'). Inr (w, s'))"
| "sender_step S CallSendProbe w s = rbind (sendProbe s) (\<lambda>(_, s'). Inr (w, s'))"
| "sender_step S (CallSendOneNewSegment f c) w s = rbind (sendOneNewSegment f c s) (\<lambda>s'. Inr (w, s'))"
| "sender_step S CallRetransmitOneSegment w s = rbind (retransmitOneSegment False s) (\<lambda>s'. Inr (w, s'))"
| "sender_step S CallRetransmitData w s = rbind (retransmitData s) (\<lambda>s'. Inr (w, s'))"
| "sender_step S RexmitTimeout w s = rbind (retransmitOneSegment True (s\<lparr>afterRto := True\<rparr>)) (\<lambda>s'. Inr (w, s'))"
| "sender_step S (AckArrives h p c) w s = rbind (processAckInEstabEtc h p c s) (\<lambda>(_, s'). Inr (w, s'))"
| "sender_step S (SackArrives a items e) w s = rbind (processSACKOption a (2 + length items * 8) items e s) (\<lambda>(_, s'). Inr (w, s'))"
| "sender_step S (Recover c) w s = rbind (setPipe s) (\<lambda>s1. rbind (sendDataDuringLossRecoveryPhase c s1) (\<lambda>s'. Inr (w, s')))"

text \<open>
  When an event can come. Less than half the number space is written ahead; the algorithm repeats only when something
  is outstanding; a timeout is taken only without SACK (with it the sender can fail, as shown below); the blocks of a
  SACK option lie in the window; no peer acknowledges the number half way round.
\<close>

fun sender_possible :: "sender_event \<Rightarrow> 'a tcb \<Rightarrow> bool" where
  "sender_possible (WriteData n) s \<longleftrightarrow> 0 < n \<and> length (unsent (sendq s)) + n < half"
| "sender_possible (CallSendData c) s \<longleftrightarrow> True"
| "sender_possible CallSendProbe s \<longleftrightarrow> True"
| "sender_possible (CallSendOneNewSegment f c) s \<longleftrightarrow> limited_transmit_enabled s"
| "sender_possible CallRetransmitOneSegment s \<longleftrightarrow> snd_una s \<noteq> snd_max s"
| "sender_possible CallRetransmitData s \<longleftrightarrow> snd_una s \<noteq> snd_max s"
| "sender_possible RexmitTimeout s \<longleftrightarrow> snd_una s \<noteq> snd_max s \<and> \<not> sack_enabled s"
| "sender_possible (AckArrives h p c) s \<longleftrightarrow> \<not> half_way h s"
| "sender_possible (SackArrives a items e) s \<longleftrightarrow> sack_enabled s \<longrightarrow> (\<forall>x \<in> set items. sack_fits a x s)"
| "sender_possible (Recover c) s \<longleftrightarrow> sack_enabled s \<and> lossRecovery s \<and> unat (dupthresh s) * unat (snd_mss s) < full \<and>
     unat c < half \<and> length (unsent (sendq s)) < 1073741824"

definition opened :: "seq \<Rightarrow> 'a tcb \<Rightarrow> bool" where
  "opened start s \<longleftrightarrow> sendq s = send_init start \<lparr>sbegin = 0, send = 0, dataBuffer = chunk_queue0\<rparr> \<and>
     rexmit s = rexmit_init start rexmit_queue0 \<and> snd_una s = start \<and> snd_nxt s = start \<and> snd_max s = start \<and>
     \<not> afterRto s \<and> \<not> send_fin s \<and> options_len s < snd_mss s \<and> unat (snd_mss s) < half \<and> scale_ok s \<and> wire s = []"

inductive sender_run :: "(nat \<Rightarrow> 'a) \<Rightarrow> seq \<Rightarrow> nat \<Rightarrow> 'a tcb \<Rightarrow> bool" for S start where
  established: "opened start s \<Longrightarrow> sender_run S start 0 s"
| event: "sender_run S start w s \<Longrightarrow> sender_possible e s \<Longrightarrow> sender_step S e w s = Inr (w', s') \<Longrightarrow> sender_run S start w' s'"

lemma outstanding:
  assumes "sender_at S start u i m w s" and "snd_una s \<noteq> snd_max s"
  shows "u < m"
  using assms by (cases "u = m") (auto simp: sender_at_def)

lemma sender_at_after [simp]: "\<not> sack_enabled s \<Longrightarrow> sender_at S start u i m w (s\<lparr>afterRto := b\<rparr>) \<longleftrightarrow> sender_at S start u i m w s"
  by (simp add: sender_at_def)

lemma sender_step_at:
  assumes "sender_at S start u i m w s" and "sender_possible e s"
  shows "\<exists>w' s' u' i' m'. sender_step S e w s = Inr (w', s') \<and> sender_at S start u' i' m' w' s'"
proof (cases e)
  case (WriteData n)
  then obtain s' where "sendCommand (map S [w..<w + n]) s = Inr s'" "sender_at S start u i m (w + n) s'"
    using sendCommand_at [OF assms(1), of n] assms(2) by (auto; blast)
  then show ?thesis using WriteData
    by - (rule exI [of _ "w + n"], rule exI [of _ s'], rule exI [of _ u], rule exI [of _ i], rule exI [of _ m], simp)
next
  case (CallSendData c)
  then show ?thesis using sendData_at [OF assms(1), of c] by (auto; blast)
next
  case CallSendProbe
  then show ?thesis using sendProbe_at [OF assms(1)] by (auto; blast)
next
  case (CallSendOneNewSegment f c)
  then show ?thesis using sendOneNewSegment_at [OF assms(1), of f c] assms(2) by (auto; blast)
next
  case CallRetransmitOneSegment
  then show ?thesis using retransmitOneSegment_at [OF assms(1), of False] outstanding [OF assms(1)] assms(2) by (auto; blast)
next
  case CallRetransmitData
  then show ?thesis using retransmitData_at [OF assms(1)] outstanding [OF assms(1)] assms(2) by (auto; blast)
next
  case RexmitTimeout
  then show ?thesis
    using retransmitOneSegment_at [of S start u i m w "s\<lparr>afterRto := True\<rparr>" True] outstanding [OF assms(1)] assms by (auto; blast)
next
  case (AckArrives h p c)
  then show ?thesis using processAck_at [OF assms(1), of h p c] assms(2) by (auto; blast)
next
  case (SackArrives a items e')
  then show ?thesis using processSACKOption_at [OF assms(1), of items a "2 + length items * 8" e'] assms(2) by (auto; blast)
next
  case (Recover c)
  then obtain s' i' m' where s': "rbind (setPipe s) (sendDataDuringLossRecoveryPhase c) = Inr s'" "sender_at S start u i' m' w s'"
    using recover_at [OF assms(1), of c] assms(2) by auto
  then obtain s1 where "setPipe s = Inr s1" by (cases "setPipe s") auto
  then have "sender_step S e w s = Inr (w, s')" using s'(1) Recover by simp
  then show ?thesis using s'(2) by blast
qed

lemma opened_at: "opened start s \<Longrightarrow> sender_at S start 0 0 0 0 s"
  using init_ok [of start] send_init_ok [of "\<lparr>sbegin = 0, send = 0, dataBuffer = chunk_queue0\<rparr>" start]
  by (simp add: opened_def sender_at_def send_init_def window_def rexmit_init_def chunk_queue_ok_def queued_def chunk_queue0_def rexmit_queue0_def)

lemma sender_run_at: "sender_run S start w s \<Longrightarrow> \<exists>u i m. sender_at S start u i m w s"
proof (induction rule: sender_run.induct)
  case (established s)
  then show ?case using opened_at by blast
next
  case (event w s e w' s')
  then show ?case using sender_step_at by (metis Inr_inject prod.inject)
qed



text \<open>
  The comparisons of \<open>processAckInEstabEtc\<close> leave out one number: with nothing outstanding, an
  acknowledgement half the number space away is neither old, nor in the window, nor ahead of it, and the
  assertion that claims the last case fails. No other segment of the peer makes it fail.
\<close>

theorem ack_fails_iff_half_way:
  assumes "sender_run S start w s"
  shows "processAckInEstabEtc h p c s = Inl (RuntimeError ''ASSERT'') \<longleftrightarrow>
    snd_una s = snd_max s \<and> hAckNo h = snd_una s + 2147483648"
proof
  obtain u i m where at: "sender_at S start u i m w s" using sender_run_at [OF assms] by blast
  show "half_way h s" if "processAckInEstabEtc h p c s = failed"
  proof (rule ccontr)
    assume "\<not> half_way h s"
    from processAck_at [OF at this, of p c] that show False by auto
  qed
  assume *: "half_way h s"
  then have "hAckNo h = snd_max s + of_nat half" by simp
  then have "fwd (snd_max s) (hAckNo h) = half" using fwd_add [of "snd_max s" half] by simp
  moreover from this have "fwd (hAckNo h) (snd_max s) = half" using fwd_flip [of "snd_max s" "hAckNo h"] by force
  ultimately have "\<not> seqGE (snd_una s) (hAckNo h)" "\<not> seqLE (hAckNo h) (snd_max s)" "\<not> seqGreater (hAckNo h) (snd_max s)"
    using * by (simp_all add: seqGE_LE seqLE_fwd seqGreater_less seqLess_fwd)
  then show "processAckInEstabEtc h p c s = failed"
    unfolding processAckInEstabEtc_def Let_def by (cases "ect s") (simp_all add: require_def)
qed

section \<open>States in which the sender fails\<close>

abbreviation empty_chunk :: "'a result" where
  "empty_chunk \<equiv> Inl (RuntimeError ''Returning an empty chunk (EmptyChunk) is not allowed'')"

text \<open>Nothing checks that there is something to send: at the end of the queue the chunk is empty.\<close>

lemma empty_segment_fails:
  assumes "skipForward s = Inr s'" and "snd_nxt s' = send (sendq s')" and "send_ok (sendq s')" and "options_len s' < snd_mss s'"
  shows "sendSegment b s = empty_chunk"
proof -
  have none: "getBytesAvailable (send (sendq s')) (sendq s') = 0" by (simp add: getBytesAvailable_def seqLess_def)
  have q: "fwd (sbegin (sendq s')) (send (sendq s')) = length (unsent (sendq s'))" "length (unsent (sendq s')) < half"
    using assms(3) by (simp_all add: send_ok_def)
  then have "seqLE (sbegin (sendq s')) (send (sendq s'))" by (simp add: seqLE_fwd)
  then have "createSegmentWithBytes (send (sendq s')) 0 (sendq s') = empty_chunk"
    using q(1) by (simp add: createSegmentWithBytes_def seqLE_fwd [of "send (sendq s')"] peekAt_def chunk_peek_def flip: fwd_def)
  moreover have "\<not> options_len s' > snd_mss s'" using assms(4) by simp
  ultimately show ?thesis using assms(1,2,4) none by (simp add: sendSegment_def Let_def)
qed

text \<open>
  C38. After a timeout with SACK, \<open>sendSegment\<close> moves \<open>snd_nxt\<close> over the bytes that are acknowledged or
  repeated. When these are all that is left and nothing new is written, it has moved to the end of the queue
  and goes on to cut a segment of no bytes, which the packet library refuses: the simulation ends.
\<close>

theorem timeout_with_sack_fails:
  assumes "sack_enabled s" and "afterRto s" and "queue_ok (rexmit s)" and "send_ok (sendq s)" and "qend (rexmit s) = send (sendq s)"
    and "fwd (qbegin (rexmit s)) (snd_nxt s) \<le> length (bytes (rexmit s))"
    and "\<forall>p \<in> set (drop (fwd (qbegin (rexmit s)) (snd_nxt s)) (bytes (rexmit s))). fst p \<or> snd p"
    and "options_len s < snd_mss s"
  shows "sendSegment b s = Inl (RuntimeError ''Returning an empty chunk (EmptyChunk) is not allowed'')"
proof -
  define k where "k = fwd (qbegin (rexmit s)) (snd_nxt s)"
  have all: "takeWhile (\<lambda>(x, r). x \<or> r) (drop k (bytes (rexmit s))) = drop k (bytes (rexmit s))"
    by (rule takeWhile_eq_all_conv [THEN iffD2]) (use assms(7) in \<open>auto simp: k_def\<close>)
  have "snd_nxt s + of_nat (length (bytes (rexmit s)) - k) = qbegin (rexmit s) + of_nat (length (bytes (rexmit s)))"
  proof -
    have "snd_nxt s = qbegin (rexmit s) + of_nat k" using add_fwd [of "qbegin (rexmit s)" "snd_nxt s"] by (simp add: k_def)
    moreover have "k + (length (bytes (rexmit s)) - k) = length (bytes (rexmit s))" using assms(6) by (simp add: k_def)
    ultimately show ?thesis by (simp only: add.assoc flip: of_nat_add)
  qed
  also have "\<dots> = send (sendq s)" using queue_fwd [OF assms(3)] add_fwd [of "qbegin (rexmit s)" "qend (rexmit s)"] assms(5) by simp
  finally have nxt: "snd_nxt s + of_nat (length (bytes (rexmit s)) - k) = send (sendq s)" .
  define d :: "32 word" where "d = of_nat (length (bytes (rexmit s)) - k)"
  have "checkRexmitQueueForSackedOrRexmittedSegments (snd_nxt s) (rexmit s) = Inr d"
    using checkRexmit_ok [OF assms(3,6), folded k_def] unfolding all by (simp add: d_def)
  then have "skipForward s = Inr (if d > 0 then s\<lparr>snd_nxt := snd_nxt s + d\<rparr> else s)" using assms(1,2) by (simp add: skipForward_def)
  moreover have "(if d > 0 then s\<lparr>snd_nxt := snd_nxt s + d\<rparr> else s) = s\<lparr>snd_nxt := send (sendq s)\<rparr>"
    using nxt [folded d_def] by (cases "d = 0") (simp_all add: word_gt_0)
  ultimately have "skipForward s = Inr (s\<lparr>snd_nxt := send (sendq s)\<rparr>)" by simp
  then show ?thesis by (rule empty_segment_fails) (simp_all add: assms(4,8))
qed

lemma sendFin_ok:
  assumes "scale_ok s"
  shows "\<exists>wnd s1. same_sender s s1 \<and> sendFin s = Inr (notify AckSent (s1\<lparr>wire := wire s @ [\<lparr>segSeq = snd_nxt s, segAck = rcv_next s,
    segWindow = wnd, segData = [], segFin = True, segCwr = False, segEct = ect s \<and> \<not> rexmit_flag s\<rparr>]\<rparr>))"
proof -
  obtain wnd s1 where "updateRcvWnd s = Inr (wnd, s1)" "same_sender s s1" using updateRcvWnd_ok [OF assms] by blast
  then show ?thesis by (intro exI [of _ wnd] exI [of _ s1]) (auto simp: sendFin_def same_sender_def)
qed

text \<open>
  C39. A FIN that is sent alone is not repeated by \<open>retransmitData\<close>: it counts the FIN as a byte to send, finds no data
  for it and fails; nor can it be called with nothing outstanding (\<open>DumbTcp\<close> keeps its timer running
  after everything has been acknowledged). \<open>retransmitOneSegment\<close> does repeat the FIN.
\<close>

theorem lone_fin_not_repeated:
  assumes "sender_run S start w s" and "snd_una s = send (sendq s)"
  shows "retransmitData s = Inl (RuntimeError ''ASSERT'') \<and>
    (\<exists>s'. closeCommand s = Inr (True, s') \<and>
      retransmitData s' = Inl (RuntimeError ''Returning an empty chunk (EmptyChunk) is not allowed'') \<and>
      (\<exists>s''. retransmitOneSegment b s' = Inr s'' \<and> segFin (last (wire s'')) \<and> segSeq (last (wire s'')) = snd_una s))"
proof -
  obtain u i m where at: "sender_at S start u i m w s" using sender_run_at [OF assms(1)] by blast
  note A = at [unfolded sender_at_def]
  have "w - u = 0" using sender_numbers(2) [OF at, of w] sender_numbers(3) [OF at] A assms(2) by simp
  then have eq: "u = w" "i = w" "m = w" using A by auto
  then have nums: "snd_una s = send (sendq s)" "snd_nxt s = send (sendq s)" "snd_max s = send (sendq s)"
  proof -
    have "snd_una s = start + of_nat u" "snd_nxt s = start + of_nat i" "snd_max s = start + of_nat m" using A by simp_all
    then show "snd_una s = send (sendq s)" "snd_nxt s = send (sendq s)" "snd_max s = send (sendq s)" using eq assms(2) by simp_all
  qed
  have "retransmitData s = failed" using A nums by (simp add: retransmitData_def Let_def setRexmit_def require_def)
  moreover obtain wnd s1 where s1: "same_sender (s\<lparr>snd_nxt := snd_max s\<rparr>) s1" "sendFin (s\<lparr>snd_nxt := snd_max s\<rparr>) = Inr (notify AckSent (s1\<lparr>wire := wire s @
      [\<lparr>segSeq = snd_max s, segAck = rcv_next s, segWindow = wnd, segData = [], segFin = True, segCwr = False, segEct = ect s \<and> \<not> rexmit_flag s\<rparr>]\<rparr>))"
    using sendFin_ok [of "s\<lparr>snd_nxt := snd_max s\<rparr>"] A by auto
  define s2 where "s2 = stepOverFin (notify RestartRexmitTimer (notify AckSent (s1\<lparr>wire := wire s @
      [\<lparr>segSeq = snd_max s, segAck = rcv_next s, segWindow = wnd, segData = [], segFin = True, segCwr = False, segEct = ect s \<and> \<not> rexmit_flag s\<rparr>]\<rparr>)))"
  define s' where "s' = s2\<lparr>send_fin := True, snd_fin_seq := send (sendq s2)\<rparr>"
  have close: "closeCommand s = Inr (True, s')" using s1(2) nums by (simp add: closeCommand_def s'_def s2_def)
  have s': "snd_una s' = send (sendq s)" "snd_max s' = send (sendq s) + 1" "sendq s' = sendq s" "send_fin s'" "snd_fin_seq s' = send (sendq s)"
      "options_len s' = options_len s" "snd_mss s' = snd_mss s" "sack_enabled s' = sack_enabled s" "afterRto s' = afterRto s"
      "ws_enabled s' = ws_enabled s" "rcv_wnd_scale s' = rcv_wnd_scale s"
    using s1(1) nums by (auto simp: s'_def s2_def stepOverFin_def notify_def same_sender_def)
  define t where "t = (setRexmit True s')\<lparr>snd_nxt := snd_una s'\<rparr>"
  have t: "snd_nxt t = send (sendq t)" "sendq t = sendq s" "snd_max t = send (sendq s) + 1" "send_fin t" "snd_fin_seq t = send (sendq s)"
      "options_len t = options_len s" "snd_mss t = snd_mss s" "sack_enabled t = sack_enabled s" "afterRto t = afterRto s"
      "ws_enabled t = ws_enabled s" "rcv_wnd_scale t = rcv_wnd_scale s"
    using s' by (simp_all add: t_def setRexmit_def)
  have "skipForward t = Inr t" using t A by (auto simp: skipForward_def)
  then have "sendSegment c t = empty_chunk" for c by (rule empty_segment_fails) (use t A in auto)
  then have "retransmitLoop (Suc k) 1 t = empty_chunk" for k by simp
  then have "retransmitData s' = empty_chunk"
    unfolding retransmitData_def Let_def t_def [symmetric] using t(1,2,3) by (simp del: retransmitLoop.simps)
  moreover have none: "getBytesAvailable (snd_nxt t) (sendq t) = 0" using t(1) by (simp add: getBytesAvailable_def seqLess_def)
  have "\<exists>s''. retransmitOneSegment b s' = Inr s'' \<and> segFin (last (wire s'')) \<and> segSeq (last (wire s'')) = snd_una s"
  proof -
    define t' where "t' = t\<lparr>snd_max := send (sendq t), snd_nxt := send (sendq t)\<rparr>"
    obtain wnd' t1 where "same_sender t' t1" "sendFin t' = Inr (notify AckSent (t1\<lparr>wire := wire t' @ [\<lparr>segSeq = snd_nxt t', segAck = rcv_next t',
        segWindow = wnd', segData = [], segFin = True, segCwr = False, segEct = ect t' \<and> \<not> rexmit_flag t'\<rparr>]\<rparr>))"
      using sendFin_ok [of t'] t A by (auto simp: t'_def)
    then show ?thesis using t none nums unfolding retransmitOneSegment_def Let_def t_def [symmetric]
      by (simp add: resendFin_def Let_def t'_def [symmetric] stepOverFin_def notify_def setRexmit_def) (simp add: t'_def)
  qed
  ultimately show ?thesis using close by blast
qed

section \<open>An example\<close>

lemma example_run: "sender_run (\<lambda>i. i) 4294967290 0 example_sender"
  by (rule sender_run.established) (simp add: opened_def example_sender_def)



theorem ack_fails_iff_half_way_witness:
  "processAckInEstabEtc \<lparr>hSeq = 7, hAckNo = 2147483642, hWindow = 20, hAck = True, hSyn = False, hEce = False, hTSecr = 0\<rparr> 0 False
    example_sender = Inl (RuntimeError ''ASSERT'')"
  using ack_fails_iff_half_way [OF example_run] by (simp add: example_sender_def)

text \<open>Four bytes have been sent; the first two have been repeated, the others are acknowledged.\<close>

definition example_rexmit :: rexmit_queue where
  "example_rexmit = \<lparr>rexmitQueue = [\<lparr>beginSeqNum = 4294967294, endSeqNum = 0, sacked = False, rexmitted = True\<rparr>,
     \<lparr>beginSeqNum = 0, endSeqNum = 2, sacked = True, rexmitted = False\<rparr>], qbegin = 4294967294, qend = 2\<rparr>"

definition example_sendq :: "nat send_queue" where
  "example_sendq = \<lparr>sbegin = 4294967294, send = 2,
     dataBuffer = \<lparr>qcontent = [5, 6, 7, 8], position = 0, pushedLength = 8, poppedLength = 4\<rparr>\<rparr>"

definition example_after :: "nat tcb" where
  "example_after = example_sender\<lparr>snd_una := 4294967294, snd_max := 2, snd_nxt := 0, afterRto := True, sendq := example_sendq,
     rexmit := example_rexmit\<rparr>"

lemma example_rexmit_facts:
  "queue_ok example_rexmit" "bytes example_rexmit = [(False, True), (False, True), (True, False), (True, False)]"
  "qbegin example_rexmit = 4294967294" "qend example_rexmit = 2"
  by (simp_all add: example_rexmit_def queue_ok_def checkQueue_def seqLess_def len_def fwd_def eval_replicate)

lemma example_sendq_facts: "send_ok example_sendq" "send example_sendq = 2"
  by (simp_all add: example_sendq_def send_ok_def chunk_queue_ok_def queued_def fwd_def)

theorem timeout_with_sack_fails_witness:
  "sendSegment 4 example_after = Inl (RuntimeError ''Returning an empty chunk (EmptyChunk) is not allowed'')"
proof (rule timeout_with_sack_fails)
  have same: "rexmit example_after = example_rexmit" "sendq example_after = example_sendq" "snd_nxt example_after = 0"
    by (simp_all add: example_after_def)
  have "fwd 4294967294 0 = 2" by (simp add: fwd_def)
  then show "fwd (qbegin (rexmit example_after)) (snd_nxt example_after) \<le> length (bytes (rexmit example_after))"
    "\<forall>p \<in> set (drop (fwd (qbegin (rexmit example_after)) (snd_nxt example_after)) (bytes (rexmit example_after))). fst p \<or> snd p"
    unfolding same example_rexmit_facts by simp_all
  show "queue_ok (rexmit example_after)" "send_ok (sendq example_after)" "qend (rexmit example_after) = send (sendq example_after)"
    unfolding same example_rexmit_facts example_sendq_facts by (rule example_rexmit_facts example_sendq_facts refl)+
  show "sack_enabled example_after" "afterRto example_after" "options_len example_after < snd_mss example_after"
    by (simp_all add: example_after_def example_sender_def)
qed

theorem lone_fin_not_repeated_witness:
  "\<exists>s'. closeCommand example_sender = Inr (True, s') \<and>
     retransmitData s' = Inl (RuntimeError ''Returning an empty chunk (EmptyChunk) is not allowed'')"
  using lone_fin_not_repeated [OF example_run] by (auto simp: example_sender_def send_init_def)

end
