(* ===== verification/Spec2Isabelle.thy ===== *)
theory Spec2Isabelle
  imports Fadia_Messages Network_Owner Report Lifecycle Energy_Storage Coord Channel Mobility Device Dispatch
    Prover Prover_Inv Prover_Loop Collector Attestation Handshake Prover_Rules Outbox Steady Network
    Energy_Management Energy_Sources Mobility_Paths Mobility_More
    Tcp_Sack_Queue Tcp_Queues Tcp_Scoreboard Tcp_Sender Tcp_Sender_Runs Tcp_Sender_Safe
begin

text \<open>
  \<^bold>\<open>FADIA, a simulation of remote attestation\<close>

  FADIA (\<open>src/Fadia\<close>) simulates the attestation of a network of devices on the OMNeT++ kernel and
  the INET framework (\<open>src/inet\<close>). Provers check their software once per period, build spanning
  trees by a three-way commit handshake, and send reports up the trees; each prover merges the
  reports of its children with its own record, and the root sends the result to a collector, which
  counts the attested provers. A network owner deals the keys. The devices share a channel,
  wired or wireless, and in the energy test they have a battery and move.

  \<^bold>\<open>Parts and theories\<close>

  \<^item> \<open>Fadia_Prelude\<close>: faults as a sum type (\<open>fault + 'a\<close>, \<open>rbind\<close>, \<open>ok\<close>), ordered maps (\<open>std::map\<close>,
    with the locale \<open>std_map\<close>), lists cut at separators.
  \<^item> \<open>Fadia_Constants\<close>: \<open>constants.h\<close>, as functions of the scenario; \<open>config\<close> is the set of
    preprocessor symbols and \<open>compiles\<close> its \<open>#error\<close> directives.
  \<^item> \<open>Fadia_Messages\<close>: the message classes (\<open>messages/*.msg\<close>), the enumerations of \<open>ADevice.h\<close>, and
    the calls of a device to the kernel, kept as a log; \<open>armed\<close> reads from it which timers are pending.
  \<^item> \<open>Network_Owner\<close>: \<open>NetworkOwner\<close>; key pool and key rings over a random number generator that is
    a parameter. Locale \<open>growing_loop\<close> for the two loops, interpreted for both.
  \<^item> \<open>Report\<close>: \<open>report_t\<close> and the part of \<open>AProver.cpp\<close> that merges and extends reports. Locale
    \<open>aggregation\<close>: merging adds views, in any order.
  \<^item> \<open>Lifecycle\<close>, \<open>Energy_Storage\<close>: INET's lifecycle controller, node status and
    \<open>SimpleEpEnergyStorage\<close> with its base classes. Locale \<open>integrator\<close>: a store that bounds the
    integral of a net rate, interpreted here and for the battery of \<open>Energy_Sources\<close>.
  \<^item> \<open>Energy_Management\<close>: \<open>SimpleEpEnergyManagement\<close>, which stops and starts a node at thresholds of
    the storage it listens to. \<open>Energy_Sources\<close>: the other stores of INET (\<open>IdealEpEnergyStorage\<close>,
    \<open>SimpleCcBattery\<close>) and the alternating consumers and generators.
  \<^item> \<open>Coord\<close>, \<open>Mobility\<close>, \<open>Channel\<close>: INET's \<open>Coord\<close> (an instance of the class of real vector spaces)
    and random waypoint mobility, and the carrier sensing of \<open>ADevice.cpp\<close>.
  \<^item> \<open>Mobility_Paths\<close>, \<open>Mobility_More\<close>: the linear, rectangle and tractor models; the grid, Chiang,
    Gauss-Markov and BonnMotion models (\<open>src/inet/src/inet/mobility\<close>).
  \<^item> \<open>Device\<close>: state and sending operations of \<open>ADevice\<close> (\<open>ADevice.h\<close>, \<open>ADevice_template.h\<close>,
    \<open>ADevice.cpp\<close>); one record \<open>adevice\<close> that provers and collectors extend.
  \<^item> \<open>Dispatch\<close>: \<open>ADevice::handleMessage\<close> with both switches and the queue. The virtual methods are
    the record \<open>vtable\<close>; locale \<open>message_loop\<close> is the contract of a device, interpreted for provers
    and for collectors.
  \<^item> \<open>Prover\<close>, \<open>Prover_Inv\<close>, \<open>Prover_Loop\<close>: all handlers of \<open>AProver\<close> and its initialisation; its invariant,
    kept by every handler; its virtual methods and runs.
  \<^item> \<open>Collector\<close>: \<open>ACollector\<close>.
  \<^item> \<open>Attestation\<close>, \<open>Handshake\<close>: a whole round over a spanning tree up to the collector, and the commit
    handshake of two provers, composed of the handlers.
  \<^item> \<open>Prover_Rules\<close>, \<open>Outbox\<close>: rules of single operations, two sequences of events that end badly, and
    the refinement of a first-in first-out sender by the sending side of a device (locale
    \<open>fifo_sender\<close>).
  \<^item> \<open>Steady\<close>, \<open>Network\<close>: the provers and the collector of the wired build as one closed system, with
    the cables and the messages under way. Locale \<open>stable_device\<close> lifts what an event leaves
    unchanged from the handlers to \<open>handleMessage\<close>; it is interpreted for both devices.
  \<^item> \<open>Tcp_Sequence\<close>, \<open>Tcp_Sack_Queue\<close>, \<open>Chunk_Buffers\<close>, \<open>Tcp_Queues\<close>: the data path of INET's TCP
    (\<open>src/inet/src/inet/transportlayer/tcp\<close>, \<open>common/packet\<close>): comparison of sequence numbers, the
    retransmission queue for selective acknowledgements, the packet buffers, and the send and
    receive queues.
  \<^item> \<open>Tcp_Scoreboard\<close>, \<open>Tcp_Sender\<close>, \<open>Tcp_Sender_Runs\<close>, \<open>Tcp_Sender_Safe\<close>: the scoreboard of RFC 3517
    (\<open>TcpConnectionSackUtil.cc\<close>); the sending side of an established connection
    (\<open>TcpConnectionUtil.cc\<close>, \<open>process_SEND\<close>, \<open>process_CLOSE\<close>, \<open>processAckInEstabEtc\<close>) as operations on the
    connection record \<open>tcb\<close>; its invariant \<open>sender_at\<close>; its runs and the states in which it fails.

  \<^bold>\<open>State and steps\<close>

  An operation takes the state of its device and returns a new one or a fault: a null pointer that
  is followed, \<open>back()\<close> of an empty vector, a division by zero, a failed \<open>check_and_cast\<close> or a
  \<open>cRuntimeError\<close>. What it learns from its surroundings is the record \<open>env\<close>: the time, positions
  and transmission states of the other devices, the wiring, which timers are scheduled, the
  random values. What it does to the kernel is prepended to the log \<open>calls\<close>. The step of a
  simulation is \<open>deliver\<close>; \<open>prover_run\<close> and \<open>collector_run\<close> are the states reachable from
  \<open>initialize\<close> by deliveries of pending self messages and of arbitrary well-formed packets.
  Identifiers, tree identifiers and depths are 32-bit words, sizes 64-bit words, with
  their wrap-around.

  \<open>network_run\<close> is the same for the whole network: \<open>boot\<close> creates the provers in order, one owner
  deals their keys, and an event is the expiry of an armed timer of one device or the arrival of
  one of the messages under way. The surroundings of a device are computed from the
  states of the others, so only the clock and the random draws stay open. Events come in
  any order; the order of the kernel is one of them. \<open>managed_run\<close> is the relation for
  a storage with its management. \<open>transfer_run\<close> is one direction of a TCP connection: writes, segments
  cut from the send queue, segments and acknowledgements that arrive in any order and any number
  of times, reads. Sequence numbers are 32-bit words; nothing under way may be older than \<open>2 ^ 30 - 1\<close> bytes,
  and no window may be larger (TCP allows \<open>65535 * 2 ^ 14\<close>). \<open>sender_run\<close> is the sender alone, driven by
  application, congestion control, timers and peer in any order (\<open>sender_possible\<close> says when a call can come);
  segments and the calls of the congestion control algorithm are logs, and the algorithm answers by
  further events.

  \<open>handleMessage\<close> calls itself on a queued message, so its model has fuel. Fuel 2 is enough: queued
  messages are never ends of transmissions or pauses (an invariant of the runs), so the
  recursion is at most one deep, and \<open>Dispatch.fuel_two\<close> shows that more fuel gives the same
  result. The loops of the TCP sender have fuel too: each round passes or sends at least one byte, so the
  number of bytes it starts with is enough, and the theorems show that it never runs out. The loops of the network owner are \<open>while_option\<close>; that they end, and when they do
  not, is proved.

  \<^bold>\<open>What is shown\<close>

  \<^item> Reports: merging keeps reports well-formed, adds exactly the records and the exclusive or of
    the proofs, and does not depend on the order; when the number of proofs is exact, and
    a group size for which it is not.
  \<^item> A round: the collector counts every prover of a spanning tree exactly once.
  \<^item> Provers and collectors do not fault, in the runs that \<open>in_time\<close> describes (the tree is not started
    before the software check ends, a period does not end while responses are awaited, no
    revocation comes while an acknowledgement is awaited); channel state, timers, children and
    sessions agree; messages are well-typed.
  \<^item> The commit handshake ends in agreement on tree and key; revocations and joins do what they say.
  \<^item> Key pool and rings are complete when the generator draws enough different values, and agree on
    shared identifiers; the parameters for which they never return.
  \<^item> Battery: bounds, independence of polling, the timer. Carrier sensing: equivalence with the
    distance in the network graph. Mobility: nodes stay in their area.
  \<^item> Faults and losses of the code: the theorems on crashes while transmitting, revocation while
    attesting, the collector in the energy build and in two scenarios, the update that is forgotten.
  \<^item> The wired network: no device faults in any order of events, no two neighbours send at the
    same time, and identifiers and keys stay those the owner dealt.
  \<^item> Energy management and other stores: a node is stopped and started when the energy asks for it;
    the ideal balance is the sum of the meters; when the battery notices that it is empty.
  \<^item> Paths: the linear, rectangle, tractor and traced motions equal their closed forms at whatever
    times they are updated; the corners where the Gauss-Markov model turns the wrong way.
  \<^item> TCP: the regions of the retransmission queue stand for two bits per byte, and its answers are
    counts over these; the receiver reassembles the stream and the application reads it in order,
    also where the numbers wrap around.
  \<^item> TCP sender: \<open>setPipe\<close> and \<open>nextSeg\<close> are the functions of RFC 3517; in every run no call fails and
    every segment carries the right bytes; the windows are respected and the announced one never
    shrinks. What fails: a FIN sent alone and a timeout with SACK, each with its consequence.

  \<^bold>\<open>Not modelled\<close>

  Information and debug output, display strings, signals of INET, and the contents of log
  texts that print values. The NED and ini files: topology, parameters and placement are
  arguments. Doubles are real numbers, so rounding, infinity and not-a-number are not
  represented; where the code would produce one of the latter the model faults. The network of
  the energy build, with its moving radios, is modelled per device only. The parsing of trace files, the
  quaternions that give the linear model its direction, and the variates of the random models are
  arguments. Collector 0
  is assumed to exist. The static counter of crashes is kept per device. The orientation of moving
  nodes and the rest of INET (protocols, radios, routing, visualisation), which FADIA does not use, are
  left out; of TCP, its state machine, timers, congestion control, the blocks a receiver reports and the
  header options, whose length is a variable of the connection. An operation of the sender notifies the
  algorithm in its log; a reaction within the same call is modelled as the next event.
\<close>

end
